(* ===== verification/Prelude.thy ===== *)
theory Prelude
  imports Main "HOL-Library.Word"
begin

text \<open>
  Shared vocabulary of the development: machine integers and byte strings, the
  state-and-failure monad in which the C routines are written, and the arithmetic of
  big-endian and base-128 numbers that several components use.

  A C routine that returns 1 or 0, fills its out-parameters on success and advances the
  object it works on is a function from the state to an optional result and the new
  state. The state is returned on failure too, because many of the routines have already
  consumed input, or locked their buffer, when they fail.
\<close>

unbundle bit_operations_syntax

type_synonym u8 = "8 word"
type_synonym u16 = "16 word"
type_synonym u32 = "32 word"
type_synonym u64 = "64 word"
type_synonym bytes = "u8 list"

section \<open>Routines that may fail and change their state\<close>

type_synonym ('s, 'a) routine = "'s \<Rightarrow> 'a option \<times> 's"

named_theorems routine_simps \<open>unfolding equations of the routine combinators\<close>

definition succeed :: "'a \<Rightarrow> ('s, 'a) routine" where
  [routine_simps]: "succeed a = (\<lambda>s. (Some a, s))"

definition failure :: "('s, 'a) routine" where
  [routine_simps]: "failure = (\<lambda>s. (None, s))"

definition andthen :: "('s, 'a) routine \<Rightarrow> ('a \<Rightarrow> ('s, 'b) routine) \<Rightarrow> ('s, 'b) routine" where
  "andthen m f = (\<lambda>s. case m s of (None, s') \<Rightarrow> (None, s') | (Some a, s') \<Rightarrow> f a s')"

definition require :: "bool \<Rightarrow> ('s, unit) routine" where
  [routine_simps]: "require b = (\<lambda>s. (if b then Some () else None, s))"

definition get_state :: "('s, 's) routine" where
  [routine_simps]: "get_state = (\<lambda>s. (Some s, s))"

definition put_state :: "'s \<Rightarrow> ('s, unit) routine" where
  [routine_simps]: "put_state s' = (\<lambda>s. (Some (), s'))"

text \<open>Running a routine on another object, whose final state is part of the result.\<close>

definition on_object :: "'t \<Rightarrow> ('t, 'a) routine \<Rightarrow> ('s, 'a \<times> 't) routine" where
  [routine_simps]: "on_object t m = (\<lambda>s. case m t of (None, t') \<Rightarrow> (None, s) | (Some a, t') \<Rightarrow> (Some (a, t'), s))"

definition ok :: "('s, 'a) routine \<Rightarrow> 's \<Rightarrow> bool" where
  "ok m s \<longleftrightarrow> fst (m s) \<noteq> None"

lemma andthen_apply [routine_simps]:
  "andthen m f s = (case m s of (None, s') \<Rightarrow> (None, s') | (Some a, s') \<Rightarrow> f a s')"
  by (simp add: andthen_def)

lemma andthen_succeed [simp]: "andthen (succeed a) f = f a"
  by (simp add: andthen_def succeed_def)

lemma andthen_eq_Some:
  "andthen m f s = (Some b, s'') \<longleftrightarrow> (\<exists>a s'. m s = (Some a, s') \<and> f a s' = (Some b, s''))"
  by (auto simp: andthen_def split: prod.splits option.splits)

lemma andthen_eq_Some_unit:
  "andthen m f s = (Some b, s') \<longleftrightarrow> (\<exists>s1. m s = (Some (), s1) \<and> f () s1 = (Some b, s'))"
  by (auto simp: andthen_def split: prod.splits option.splits)

lemma require_eq_Some [simp]: "require b s = (Some u, s') \<longleftrightarrow> b \<and> s' = s"
  by (auto simp: require_def)

lemma succeed_eq_Some [simp]: "succeed a s = (Some b, s') \<longleftrightarrow> b = a \<and> s' = s"
  by (auto simp: succeed_def)

lemma failure_eq_Some [simp]: "failure s \<noteq> (Some b, s')"
  by (simp add: failure_def)

section \<open>Words\<close>

lemma unat_eight_bit [simp]: "unat (b :: u8) < 256"
  by (rule order.strict_trans2 [OF unsigned_less]) simp

lemma word_or_disjoint_add: "x AND y = 0 \<Longrightarrow> x OR y = x + (y :: 'a::len word)"
  by (simp add: disjunctive_add_eq_or)

lemma push_bit_and_small:
  assumes "unat y < 2 ^ n"
  shows "push_bit n x AND (y :: 'a::len word) = 0"
proof (rule bit_word_eqI)
  fix k assume "k < LENGTH('a)"
  show "bit (push_bit n x AND y) k = bit (0 :: 'a word) k"
  proof (cases "n \<le> k")
    case True
    then have "unat y < 2 ^ k"
      using assms by (meson le_less_trans less_le_trans one_le_numeral power_increasing)
    then have "\<not> bit (unat y) k"
      by (simp add: bit_iff_odd)
    then have "\<not> bit y k"
      using \<open>k < LENGTH('a)\<close> by (simp add: bit_unsigned_iff)
    then show ?thesis by (simp add: bit_and_iff)
  next
    case False
    then show ?thesis by (simp add: bit_and_iff bit_push_bit_iff)
  qed
qed

lemma unat_push_or:
  fixes x y :: "'a::len word"
  assumes y: "unat y < 2 ^ n" and x: "2 ^ n * unat x < 2 ^ LENGTH('a)"
  shows "unat (push_bit n x OR y) = 2 ^ n * unat x + unat y"
proof (cases "unat x = 0")
  case True
  then have "x = 0" by (simp add: unat_eq_zero)
  then show ?thesis by simp
next
  case False
  have n: "n < LENGTH('a)"
  proof (rule ccontr)
    assume "\<not> n < LENGTH('a)"
    then have "(2::nat) ^ LENGTH('a) \<le> 2 ^ n * unat x"
      using False by (metis One_nat_def Suc_leI linorder_not_less mult.right_neutral mult_le_mono
          not_gr0 one_le_numeral power_increasing)
    with x show False by simp
  qed
  have "2 ^ n * unat x + unat y < 2 ^ n * (unat x + 1)"
    using y by simp
  also have "\<dots> \<le> 2 ^ LENGTH('a)"
  proof -
    have "(2::nat) ^ LENGTH('a) = 2 ^ n * 2 ^ (LENGTH('a) - n)"
      using n by (simp flip: power_add)
    moreover from this x have "unat x < 2 ^ (LENGTH('a) - n)" by simp
    ultimately show ?thesis by (metis Suc_eq_plus1 Suc_leI mult_le_mono2)
  qed
  finally have lt: "2 ^ n * unat x + unat y < 2 ^ LENGTH('a)" .
  have "push_bit n x OR y = push_bit n x + y"
    using y by (intro word_or_disjoint_add push_bit_and_small)
  also have "unat \<dots> = (unat (push_bit n x) + unat y) mod 2 ^ LENGTH('a)"
    by (rule unat_word_ariths)
  also have "unat (push_bit n x) = 2 ^ n * unat x"
  proof -
    have "unat (push_bit n x) = take_bit LENGTH('a) (push_bit n (unat x))"
      by (rule unsigned_push_bit_eq)
    then show ?thesis
      using x by (simp add: push_bit_eq_mult mult.commute take_bit_nat_eq_self)
  qed
  also have "(2 ^ n * unat x + unat y) mod 2 ^ LENGTH('a) = 2 ^ n * unat x + unat y"
    using lt by simp
  finally show ?thesis .
qed

lemma unat_ucast_u8 [simp]: "8 \<le> LENGTH('a) \<Longrightarrow> unat (ucast (b :: u8) :: 'a::len word) = unat b"
proof -
  assume "8 \<le> LENGTH('a)"
  then have "(2::nat) ^ 8 \<le> 2 ^ LENGTH('a)" by (rule power_increasing) simp
  then have "256 \<le> (2::nat) ^ LENGTH('a)" by simp
  then have "unat b < 2 ^ LENGTH('a)"
    by (rule less_le_trans [OF unat_eight_bit])
  then show ?thesis by (simp add: unsigned_ucast_eq take_bit_nat_eq_self)
qed

section \<open>Big-endian numbers\<close>

definition be_val :: "bytes \<Rightarrow> nat" where
  "be_val bs = foldl (\<lambda>a b. 256 * a + unat b) 0 bs"

primrec be_bytes :: "nat \<Rightarrow> nat \<Rightarrow> bytes" where
  "be_bytes 0 v = []"
| "be_bytes (Suc n) v = be_bytes n (v div 256) @ [of_nat v]"

lemma be_val_Nil [simp]: "be_val [] = 0"
  by (simp add: be_val_def)

lemma be_val_snoc [simp]: "be_val (bs @ [b]) = 256 * be_val bs + unat b"
  by (simp add: be_val_def)

lemma be_val_single [simp]: "be_val [b] = unat b"
  by (simp add: be_val_def)

lemma length_be_bytes [simp]: "length (be_bytes n v) = n"
  by (induction n arbitrary: v) auto

lemma be_val_less: "be_val bs < 256 ^ length bs"
proof (induction bs rule: rev_induct)
  case (snoc b bs)
  have "256 * be_val bs + unat b < 256 * (be_val bs + 1)"
    using unat_eight_bit [of b] by simp
  also have "\<dots> \<le> 256 * 256 ^ length bs"
    using snoc by (intro mult_le_mono2) simp
  finally show ?case by simp
qed simp

lemma unat_of_nat_u8 [simp]: "unat (of_nat v :: u8) = v mod 256"
  by (simp add: unat_of_nat)

lemma be_val_be_bytes: "be_val (be_bytes n v) = v mod 256 ^ n"
proof (induction n arbitrary: v)
  case (Suc n)
  then show ?case
    by (simp add: mod_mult2_eq mult.commute)
qed simp

lemma be_val_be_bytes_id [simp]: "v < 256 ^ n \<Longrightarrow> be_val (be_bytes n v) = v"
  by (simp add: be_val_be_bytes)

lemma be_bytes_be_val: "be_bytes (length bs) (be_val bs) = bs"
proof (induction bs rule: rev_induct)
  case (snoc b bs)
  have "(256 * be_val bs + unat b) div 256 = be_val bs"
    using unat_eight_bit [of b] by simp
  moreover have "(of_nat (256 * be_val bs + unat b) :: u8) = b"
    by (rule word_unat_eq_iff [THEN iffD2]) (simp add: mod_simps unat_of_nat del: of_nat_add)
  ultimately show ?case using snoc by simp
qed simp

lemma be_val_append: "be_val (xs @ ys) = 256 ^ length ys * be_val xs + be_val ys"
  by (induction ys rule: rev_induct)
    (auto simp: append_assoc [symmetric] algebra_simps simp del: append_assoc)

lemma be_val_Cons: "be_val (b # bs) = 256 ^ length bs * unat b + be_val bs"
  using be_val_append [of "[b]" bs] by simp

section \<open>Masks and shifts as arithmetic\<close>

lemma unat_and_mask: "unat (x AND mask n) = unat (x :: 'a::len word) mod 2 ^ n"
proof -
  have "unat (take_bit n x) = take_bit n (unat x)" by (rule unsigned_take_bit_eq)
  then show ?thesis by (simp add: take_bit_eq_mask [symmetric] take_bit_eq_mod [of n "unat x"]
        del: unsigned_take_bit_eq)
qed

lemma unat_and_eq_mod:
  "m = mask n \<Longrightarrow> unat (x AND m) = unat (x :: 'a::len word) mod 2 ^ n"
  by (simp only: unat_and_mask)

lemma unat_drop_bit: "unat (drop_bit n x) = unat (x :: 'a::len word) div 2 ^ n"
proof -
  have "unat (drop_bit n x) = drop_bit n (take_bit LENGTH('a) (unat x))"
    by (rule unsigned_drop_bit_eq)
  then show ?thesis
    by (simp only: take_bit_nat_eq_self unsigned_less drop_bit_eq_div [of n "unat x"])
qed

lemma drop_bit_eq_0_iff: "drop_bit n x = 0 \<longleftrightarrow> unat (x :: 'a::len word) < 2 ^ n"
  by (simp add: unat_eq_zero [symmetric] unat_drop_bit div_eq_0_iff)

lemma and_exp_eq_0_iff:
  fixes x :: "'a::len word"
  assumes "n < LENGTH('a)"
  shows "x AND 2 ^ n = 0 \<longleftrightarrow> even (unat x div 2 ^ n)"
proof -
  have "x AND 2 ^ n = 0 \<longleftrightarrow> \<not> bit (unat x) n"
    using assms by (simp add: and_exp_eq_0_iff_not_bit bit_unsigned_iff)
  then show ?thesis by (simp add: bit_iff_odd)
qed

lemma u8_and_7f [simp]: "unat (b AND 0x7f :: u8) = unat b mod 128"
  using unat_and_eq_mod [of "0x7f" 7 b] by (simp add: mask_eq_exp_minus_1)

lemma u8_and_80: "b AND 0x80 = (0 :: u8) \<longleftrightarrow> unat b < 128"
proof -
  have "b AND 0x80 = 0 \<longleftrightarrow> even (unat b div 128)"
    using and_exp_eq_0_iff [of 7 b] by simp
  also have "\<dots> \<longleftrightarrow> unat b < 128"
  proof (cases "unat b < 128")
    case False
    then have "unat b div 128 = 1" using unat_eight_bit [of b] by (intro div_nat_eqI) auto
    then show ?thesis using False by simp
  qed simp
  finally show ?thesis .
qed

lemma u8_or_80: "unat b < 128 \<Longrightarrow> unat (b OR 0x80 :: u8) = 128 + unat b"
  using unat_push_or [of b 7 "1 :: u8"] by (simp add: or.commute)

lemma of_nat_u8_eq_iff: "(of_nat m :: u8) = of_nat n \<longleftrightarrow> m mod 256 = n mod 256"
  by (simp add: word_unat_eq_iff)

lemma u8_eq_iff: "(b :: u8) = c \<longleftrightarrow> unat b = unat c"
  by (rule word_unat_eq_iff)

lemma unat_u32_less: "unat (x :: u32) < 2 ^ 32"
  by (rule order.strict_trans2 [OF unsigned_less]) simp

lemma unat_u64_less: "unat (x :: u64) < 2 ^ 64"
  by (rule order.strict_trans2 [OF unsigned_less]) simp

lemma and_not_mask_eq: "w AND NOT (mask n) = push_bit n (drop_bit n (w :: 'a::len word))"
  by (rule bit_word_eqI) (auto simp: bit_simps)

end
