(* ===== verification/Mem.thy ===== *)
theory Mem
  imports Prelude
begin

text \<open>
  The byte-string helpers of crypto/mem.c that the byte-string readers and writers call:
  comparison, hashing, bounded string length and character classes. Whether an allocation
  of a given size succeeds is a parameter of type \<open>nat \<Rightarrow> bool\<close> wherever it
  matters: the allocator below OPENSSL_malloc is the C library's.
\<close>

definition CRYPTO_memcmp :: "bytes \<Rightarrow> bytes \<Rightarrow> nat \<Rightarrow> u8" where
  "CRYPTO_memcmp a b len = fold (\<lambda>i x. x OR (a ! i XOR b ! i)) [0..<len] 0"

definition OPENSSL_hash32 :: "bytes \<Rightarrow> u32" where
  "OPENSSL_hash32 input = fold (\<lambda>c h. (h XOR ucast c) * 16777619) input 2166136261"

primrec OPENSSL_strnlen :: "bytes \<Rightarrow> nat \<Rightarrow> nat" where
  "OPENSSL_strnlen s 0 = 0"
| "OPENSSL_strnlen s (Suc len) =
     (if s ! 0 = 0 then 0 else Suc (OPENSSL_strnlen (tl s) len))"

definition OPENSSL_strndup :: "(nat \<Rightarrow> bool) \<Rightarrow> bytes \<Rightarrow> nat \<Rightarrow> bytes option" where
  "OPENSSL_strndup can_alloc str size0 =
     (let size = OPENSSL_strnlen str size0; alloc_size = (size + 1) mod 2 ^ 64
      in if alloc_size < size then None
         else if can_alloc alloc_size then Some (take size str @ [0]) else None)"

definition OPENSSL_memdup :: "(nat \<Rightarrow> bool) \<Rightarrow> bytes \<Rightarrow> bytes option" where
  "OPENSSL_memdup can_alloc data =
     (if length data = 0 then None else if can_alloc (length data) then Some data else None)"

definition OPENSSL_isalpha :: "int \<Rightarrow> bool" where
  "OPENSSL_isalpha c \<longleftrightarrow> (97 \<le> c \<and> c \<le> 122) \<or> (65 \<le> c \<and> c \<le> 90)"

definition OPENSSL_isdigit :: "int \<Rightarrow> bool" where
  "OPENSSL_isdigit c \<longleftrightarrow> 48 \<le> c \<and> c \<le> 57"

definition OPENSSL_isxdigit :: "int \<Rightarrow> bool" where
  "OPENSSL_isxdigit c \<longleftrightarrow> OPENSSL_isdigit c \<or> (97 \<le> c \<and> c \<le> 102) \<or> (65 \<le> c \<and> c \<le> 70)"

definition OPENSSL_fromxdigit :: "int \<Rightarrow> u8 option" where
  "OPENSSL_fromxdigit c =
     (if OPENSSL_isdigit c then Some (of_int (c - 48))
      else if 97 \<le> c \<and> c \<le> 102 then Some (of_int (c - 97 + 10))
      else if 65 \<le> c \<and> c \<le> 70 then Some (of_int (c - 65 + 10))
      else None)"

definition OPENSSL_isalnum :: "int \<Rightarrow> bool" where
  "OPENSSL_isalnum c \<longleftrightarrow> OPENSSL_isalpha c \<or> OPENSSL_isdigit c"

definition OPENSSL_tolower :: "int \<Rightarrow> int" where
  "OPENSSL_tolower c = (if 65 \<le> c \<and> c \<le> 90 then c + (97 - 65) else c)"

definition OPENSSL_isspace :: "int \<Rightarrow> bool" where
  "OPENSSL_isspace c \<longleftrightarrow> c = 9 \<or> c = 10 \<or> c = 11 \<or> c = 12 \<or> c = 13 \<or> c = 32"

section \<open>Lemmas\<close>

lemma fold_or_eq_0:
  "fold (\<lambda>i x. x OR f i) is (x :: 'a::len word) = 0 \<longleftrightarrow> x = 0 \<and> (\<forall>i \<in> set is. f i = 0)"
  by (induction "is" arbitrary: x) (auto simp: or_eq_0_iff)

lemma xor_eq_0: "(x :: 'a::len word) XOR y = 0 \<longleftrightarrow> x = y"
  by (metis xor.left_neutral xor.assoc xor_self_eq xor.right_neutral)

lemma CRYPTO_memcmp_eq_0:
  "CRYPTO_memcmp a b len = 0 \<longleftrightarrow> (\<forall>i < len. a ! i = b ! i)"
  by (auto simp: CRYPTO_memcmp_def fold_or_eq_0 xor_eq_0)

lemma CRYPTO_memcmp_same_length:
  "length a = n \<Longrightarrow> length b = n \<Longrightarrow> CRYPTO_memcmp a b n = 0 \<longleftrightarrow> a = b"
  by (auto simp: CRYPTO_memcmp_eq_0 list_eq_iff_nth_eq)

lemma OPENSSL_isdigit_iff: "OPENSSL_isdigit (uint (c :: u8)) \<longleftrightarrow> 48 \<le> unat c \<and> unat c \<le> 57"
  unfolding OPENSSL_isdigit_def uint_nat by presburger

section \<open>C strings\<close>

text \<open>A C string is the memory from its first character on, up to a zero byte or the end of the list, where the
  zero byte is left out. A character is a signed byte on iOS; \<open>strcmp\<close> of the C library compares unsigned bytes.
  The null pointer is \<open>None\<close>.\<close>

definition c_str :: "bytes \<Rightarrow> bytes" where
  "c_str s = takeWhile (\<lambda>c. c \<noteq> 0) s"

fun strcmp :: "bytes \<Rightarrow> bytes \<Rightarrow> int" where
  "strcmp [] [] = 0"
| "strcmp (a # _) [] = int (unat a)"
| "strcmp [] (b # _) = - int (unat b)"
| "strcmp (a # as) (b # bs) =
     (if a = b then if a = 0 then 0 else strcmp as bs else int (unat a) - int (unat b))"

definition OPENSSL_strhash :: "bytes \<Rightarrow> u32" where
  "OPENSSL_strhash s = OPENSSL_hash32 (c_str s)"

definition OPENSSL_strdup :: "(nat \<Rightarrow> bool) \<Rightarrow> bytes option \<Rightarrow> bytes option" where
  "OPENSSL_strdup can_alloc s =
     (case s of None \<Rightarrow> None | Some s \<Rightarrow> if can_alloc (length (c_str s) + 1) then Some (c_str s) else None)"

function OPENSSL_strcasecmp :: "bytes \<Rightarrow> bytes \<Rightarrow> int" where
  "OPENSSL_strcasecmp a b =
     (let aa = OPENSSL_tolower (case a of [] \<Rightarrow> 0 | c # _ \<Rightarrow> sint c);
          bb = OPENSSL_tolower (case b of [] \<Rightarrow> 0 | c # _ \<Rightarrow> sint c)
      in if aa < bb then -1 else if aa > bb then 1 else if aa = 0 then 0
         else OPENSSL_strcasecmp (tl a) (tl b))"
  by pat_completeness auto
termination
  by (relation "measure (\<lambda>(a, b). length a)") (auto simp: OPENSSL_tolower_def split: list.splits)

declare OPENSSL_strcasecmp.simps [simp del]

primrec OPENSSL_strncasecmp :: "nat \<Rightarrow> bytes \<Rightarrow> bytes \<Rightarrow> int" where
  "OPENSSL_strncasecmp 0 a b = 0"
| "OPENSSL_strncasecmp (Suc n) a b =
     (let aa = OPENSSL_tolower (case a of [] \<Rightarrow> 0 | c # _ \<Rightarrow> sint c);
          bb = OPENSSL_tolower (case b of [] \<Rightarrow> 0 | c # _ \<Rightarrow> sint c)
      in if aa < bb then -1 else if aa > bb then 1 else if aa = 0 then 0
         else OPENSSL_strncasecmp n (tl a) (tl b))"

text \<open>\<open>dst\<close> is the memory from the destination on; the result is what it holds afterwards, with the number that
  the function returns.\<close>

primrec strlcpy_from :: "bytes \<Rightarrow> bytes \<Rightarrow> nat \<Rightarrow> bytes \<times> nat" where
  "strlcpy_from [] dst dst_size = (if dst_size \<noteq> 0 then 0 # tl dst else dst, 0)"
| "strlcpy_from (c # src) dst dst_size =
     (if dst_size > 1 then (case strlcpy_from src (tl dst) (dst_size - 1) of (d, l) \<Rightarrow> (c # d, l + 1))
      else (if dst_size \<noteq> 0 then 0 # tl dst else dst, length (c # src)))"

definition OPENSSL_strlcpy :: "bytes \<Rightarrow> bytes \<Rightarrow> nat \<Rightarrow> bytes \<times> nat" where
  "OPENSSL_strlcpy dst src dst_size = strlcpy_from (c_str src) dst dst_size"

primrec OPENSSL_strlcat :: "nat \<Rightarrow> bytes \<Rightarrow> bytes \<Rightarrow> bytes \<times> nat" where
  "OPENSSL_strlcat 0 dst src = OPENSSL_strlcpy dst src 0"
| "OPENSSL_strlcat (Suc dst_size) dst src =
     (if hd dst \<noteq> 0 then (case OPENSSL_strlcat dst_size (tl dst) src of (d, l) \<Rightarrow> (hd dst # d, l + 1))
      else OPENSSL_strlcpy dst src (Suc dst_size))"

lemma c_str_simps [simp]: "0 \<notin> set s \<Longrightarrow> c_str s = s" "c_str (c_str s) = c_str s" "0 \<notin> set (c_str s)"
  by (auto simp: c_str_def takeWhile_eq_all_conv dest: set_takeWhileD)

lemma strcmp_eq_0: "strcmp a b = 0 \<longleftrightarrow> c_str a = c_str b"
  by (induction a b rule: strcmp.induct) (auto simp: c_str_def unat_eq_zero uint_0_iff word_uint_eq_iff [symmetric])

lemma OPENSSL_strcasecmp_eq_0:
  "0 \<notin> set a \<Longrightarrow> 0 \<notin> set b \<Longrightarrow> OPENSSL_strcasecmp a b = 0 \<longleftrightarrow> map (\<lambda>c. OPENSSL_tolower (sint c)) a = map (\<lambda>c. OPENSSL_tolower (sint c)) b"
proof (induction a b rule: OPENSSL_strcasecmp.induct)
  case (1 a b)
  have nz: "OPENSSL_tolower (sint c) \<noteq> 0" if "c \<noteq> 0" for c :: u8
    using that by (auto simp: OPENSSL_tolower_def) (metis sint_0 signed_word_eqI)
  have z: "OPENSSL_tolower 0 = 0" by (simp add: OPENSSL_tolower_def)
  show ?case
    using 1 by (subst OPENSSL_strcasecmp.simps) (cases a; cases b; auto simp: Let_def z nz dest: nz)
qed

lemma OPENSSL_strlcpy_fits:
  "length (c_str src) < dst_size \<Longrightarrow> dst_size \<le> length dst \<Longrightarrow>
   OPENSSL_strlcpy dst src dst_size = (c_str src @ [0] @ drop (length (c_str src) + 1) dst, length (c_str src))"
proof -
  have "length s < n \<Longrightarrow> n \<le> length d \<Longrightarrow> strlcpy_from s d n = (s @ [0] @ drop (length s + 1) d, length s)" for s d n
    by (induction s arbitrary: d n) (auto simp: drop_Suc)
  then show "length (c_str src) < dst_size \<Longrightarrow> dst_size \<le> length dst \<Longrightarrow> ?thesis" by (simp add: OPENSSL_strlcpy_def)
qed

text \<open>A string that is too long is cut, terminated, and its full length is returned.\<close>

lemma OPENSSL_strlcpy_cut:
  "0 < dst_size \<Longrightarrow> dst_size \<le> length (c_str src) \<Longrightarrow> dst_size \<le> length dst \<Longrightarrow>
   OPENSSL_strlcpy dst src dst_size = (take (dst_size - 1) (c_str src) @ [0] @ drop dst_size dst, length (c_str src))"
proof -
  have "0 < n \<Longrightarrow> n \<le> length s \<Longrightarrow> n \<le> length d \<Longrightarrow> strlcpy_from s d n = (take (n - 1) s @ [0] @ drop n d, length s)" for s d n
  proof (induction s arbitrary: d n)
    case (Cons c s)
    then show ?case by (cases d; cases "n - 1") (auto simp: take_Cons' drop_Cons')
  qed simp
  then show "0 < dst_size \<Longrightarrow> dst_size \<le> length (c_str src) \<Longrightarrow> dst_size \<le> length dst \<Longrightarrow> ?thesis" by (simp add: OPENSSL_strlcpy_def)
qed

end
