(* ===== verification/CBS.thy ===== *)
theory CBS
  imports Mem
begin

text \<open>
  The byte-string reader of BoringSSL, crypto/bytestring/cbs.c. A \<open>CBS\<close> is a pointer and
  a length; the model is the list of bytes it spans, so that advancing the pointer is
  \<open>drop\<close> and a read beyond the length cannot be expressed. Every routine that the C code
  gives a \<open>CBS *cbs\<close> is a \<open>routine\<close> on it, with the out-parameters as its result; where
  the C code consumes input before it fails, so does the model.
\<close>

type_synonym cbs = bytes
type_synonym cbs_asn1_tag = u32

definition UINT64_MAX :: u64 where
  "UINT64_MAX = - 1"

section \<open>Plain reads\<close>

definition CBS_init :: "bytes \<Rightarrow> nat \<Rightarrow> cbs" where
  "CBS_init data len = take len data"

definition cbs_get :: "nat \<Rightarrow> (cbs, bytes) routine" where
  "cbs_get n = (\<lambda>cbs. if length cbs < n then (None, cbs) else (Some (take n cbs), drop n cbs))"

definition CBS_skip :: "nat \<Rightarrow> (cbs, unit) routine" where
  "CBS_skip len = andthen (cbs_get len) (\<lambda>_. succeed ())"

definition CBS_data :: "cbs \<Rightarrow> bytes" where
  "CBS_data cbs = cbs"

definition CBS_len :: "cbs \<Rightarrow> nat" where
  "CBS_len cbs = length cbs"

text \<open>The result is \<open>Some None\<close> where the C code stores a null pointer and returns 1.\<close>

definition CBS_stow :: "(nat \<Rightarrow> bool) \<Rightarrow> cbs \<Rightarrow> bytes option option" where
  "CBS_stow can_alloc cbs =
     (if length cbs = 0 then Some None
      else case OPENSSL_memdup can_alloc cbs of None \<Rightarrow> None | Some p \<Rightarrow> Some (Some p))"

definition CBS_strdup :: "(nat \<Rightarrow> bool) \<Rightarrow> cbs \<Rightarrow> bytes option" where
  "CBS_strdup can_alloc cbs = OPENSSL_strndup can_alloc cbs (length cbs)"

definition CBS_contains_zero_byte :: "cbs \<Rightarrow> bool" where
  "CBS_contains_zero_byte cbs \<longleftrightarrow> List.member cbs 0"

definition CBS_mem_equal :: "cbs \<Rightarrow> bytes \<Rightarrow> nat \<Rightarrow> bool" where
  "CBS_mem_equal cbs data len \<longleftrightarrow>
     (if len \<noteq> length cbs then False else CRYPTO_memcmp cbs data len = 0)"

definition cbs_get_u :: "nat \<Rightarrow> (cbs, u64) routine" where
  "cbs_get_u len = andthen (cbs_get len)
     (\<lambda>data. succeed (fold (\<lambda>i result. push_bit 8 result OR ucast (data ! i)) [0..<len] 0))"

definition CBS_get_u8 :: "(cbs, u8) routine" where
  "CBS_get_u8 = andthen (cbs_get 1) (\<lambda>v. succeed (v ! 0))"

definition CBS_get_u16 :: "(cbs, u16) routine" where
  "CBS_get_u16 = andthen (cbs_get_u 2) (\<lambda>v. succeed (ucast v))"

definition CRYPTO_bswap2 :: "u16 \<Rightarrow> u16" where
  "CRYPTO_bswap2 x = drop_bit 8 x OR push_bit 8 x"

definition CRYPTO_bswap4 :: "u32 \<Rightarrow> u32" where
  "CRYPTO_bswap4 x0 =
     (let x = drop_bit 16 x0 OR push_bit 16 x0
      in drop_bit 8 (x AND 0xff00ff00) OR push_bit 8 (x AND 0x00ff00ff))"

definition CRYPTO_bswap8 :: "u64 \<Rightarrow> u64" where
  "CRYPTO_bswap8 x =
     ucast (CRYPTO_bswap4 (ucast (drop_bit 32 x))) OR
     push_bit 32 (ucast (CRYPTO_bswap4 (ucast x)))"

definition CBS_get_u16le :: "(cbs, u16) routine" where
  "CBS_get_u16le = andthen CBS_get_u16 (\<lambda>v. succeed (CRYPTO_bswap2 v))"

definition CBS_get_u24 :: "(cbs, u32) routine" where
  "CBS_get_u24 = andthen (cbs_get_u 3) (\<lambda>v. succeed (ucast v))"

definition CBS_get_u32 :: "(cbs, u32) routine" where
  "CBS_get_u32 = andthen (cbs_get_u 4) (\<lambda>v. succeed (ucast v))"

definition CBS_get_u32le :: "(cbs, u32) routine" where
  "CBS_get_u32le = andthen CBS_get_u32 (\<lambda>v. succeed (CRYPTO_bswap4 v))"

definition CBS_get_u64 :: "(cbs, u64) routine" where
  "CBS_get_u64 = cbs_get_u 8"

definition CBS_get_u64le :: "(cbs, u64) routine" where
  "CBS_get_u64le = andthen (cbs_get_u 8) (\<lambda>v. succeed (CRYPTO_bswap8 v))"

definition CBS_get_last_u8 :: "(cbs, u8) routine" where
  "CBS_get_last_u8 = (\<lambda>cbs. if length cbs = 0 then (None, cbs)
     else (Some (cbs ! (length cbs - 1)), take (length cbs - 1) cbs))"

definition CBS_get_bytes :: "nat \<Rightarrow> (cbs, cbs) routine" where
  "CBS_get_bytes len = andthen (cbs_get len) (\<lambda>v. succeed (CBS_init v len))"

definition CBS_copy_bytes :: "nat \<Rightarrow> (cbs, bytes) routine" where
  "CBS_copy_bytes len = andthen (cbs_get len) (\<lambda>v. succeed v)"

definition cbs_get_length_prefixed :: "nat \<Rightarrow> (cbs, cbs) routine" where
  "cbs_get_length_prefixed len_len = andthen (cbs_get_u len_len) (\<lambda>len. CBS_get_bytes (unat len))"

definition CBS_get_u8_length_prefixed :: "(cbs, cbs) routine" where
  "CBS_get_u8_length_prefixed = cbs_get_length_prefixed 1"

definition CBS_get_u16_length_prefixed :: "(cbs, cbs) routine" where
  "CBS_get_u16_length_prefixed = cbs_get_length_prefixed 2"

definition CBS_get_u24_length_prefixed :: "(cbs, cbs) routine" where
  "CBS_get_u24_length_prefixed = cbs_get_length_prefixed 3"

definition CBS_get_until_first :: "u8 \<Rightarrow> (cbs, cbs) routine" where
  "CBS_get_until_first c = (\<lambda>cbs.
     if List.member cbs c then CBS_get_bytes (length (takeWhile (\<lambda>b. b \<noteq> c) cbs)) cbs
     else (None, cbs))"

fun CBS_get_u64_decimal_loop :: "u64 \<Rightarrow> bool \<Rightarrow> (cbs, u64) routine" where
  "CBS_get_u64_decimal_loop v seen_digit [] = (if seen_digit then Some v else None, [])"
| "CBS_get_u64_decimal_loop v seen_digit (c # cbs) =
     (if \<not> OPENSSL_isdigit (uint c) then (if seen_digit then Some v else None, c # cbs)
      else if (v = 0 \<and> seen_digit) \<or> v > UINT64_MAX div 10 \<or> v * 10 > UINT64_MAX - ucast (c - 48)
      then (None, cbs)
      else CBS_get_u64_decimal_loop (v * 10 + ucast (c - 48)) True cbs)"

definition CBS_get_u64_decimal :: "(cbs, u64) routine" where
  "CBS_get_u64_decimal = CBS_get_u64_decimal_loop 0 False"

section \<open>ASN.1 elements\<close>

definition CBS_ASN1_CONSTRUCTED :: cbs_asn1_tag where
  "CBS_ASN1_CONSTRUCTED = push_bit 24 0x20"

definition CBS_ASN1_TAG_NUMBER_MASK :: cbs_asn1_tag where
  "CBS_ASN1_TAG_NUMBER_MASK = push_bit (5 + 24) 1 - 1"

definition CBS_ASN1_BOOLEAN :: cbs_asn1_tag where "CBS_ASN1_BOOLEAN = 0x1"
definition CBS_ASN1_INTEGER :: cbs_asn1_tag where "CBS_ASN1_INTEGER = 0x2"
definition CBS_ASN1_BITSTRING :: cbs_asn1_tag where "CBS_ASN1_BITSTRING = 0x3"
definition CBS_ASN1_OCTETSTRING :: cbs_asn1_tag where "CBS_ASN1_OCTETSTRING = 0x4"

fun parse_base128_integer_loop :: "u64 \<Rightarrow> (cbs, u64) routine" where
  "parse_base128_integer_loop v [] = (None, [])"
| "parse_base128_integer_loop v (b # cbs) =
     (if drop_bit (64 - 7) v \<noteq> 0 then (None, cbs)
      else if v = 0 \<and> b = 0x80 then (None, cbs)
      else let v' = push_bit 7 v OR ucast (b AND 0x7f)
           in if b AND 0x80 \<noteq> 0 then parse_base128_integer_loop v' cbs else (Some v', cbs))"

definition parse_base128_integer :: "(cbs, u64) routine" where
  "parse_base128_integer = parse_base128_integer_loop 0"

definition parse_asn1_tag :: "(cbs, cbs_asn1_tag) routine" where
  "parse_asn1_tag =
     andthen CBS_get_u8 (\<lambda>tag_byte.
     let tag = push_bit 24 (ucast tag_byte AND 0xe0) :: cbs_asn1_tag;
         low = ucast (tag_byte AND 0x1f) :: cbs_asn1_tag
     in andthen
          (if low = 0x1f then
             andthen parse_base128_integer (\<lambda>v.
             andthen (require (\<not> (v > ucast CBS_ASN1_TAG_NUMBER_MASK \<or> v < 0x1f))) (\<lambda>_.
             succeed (ucast v)))
           else succeed low) (\<lambda>tag_number.
        let tag = tag OR tag_number
        in andthen (require (tag AND NOT CBS_ASN1_CONSTRUCTED \<noteq> 0)) (\<lambda>_. succeed tag)))"

record asn1_element =
  elem_out :: cbs
  elem_tag :: cbs_asn1_tag
  elem_header_len :: nat
  elem_ber_found :: bool
  elem_indefinite :: bool

text \<open>
  The header is parsed on a copy, so that \<open>*cbs\<close> is unchanged unless the final
  \<open>CBS_get_bytes\<close> succeeds. \<open>size_t\<close> has 64 bits; the overflow check of the long form
  is written out.
\<close>

definition cbs_get_any_asn1_element :: "bool \<Rightarrow> (cbs, asn1_element) routine" where
  "cbs_get_any_asn1_element ber_ok = (\<lambda>cbs.
     case parse_asn1_tag cbs of
       (None, _) \<Rightarrow> (None, cbs)
     | (Some tag, header) \<Rightarrow>
     (case CBS_get_u8 header of
       (None, _) \<Rightarrow> (None, cbs)
     | (Some length_byte, header) \<Rightarrow>
       let header_len = length cbs - length header;
           result = (\<lambda>len header_len ber indef. andthen (CBS_get_bytes len) (\<lambda>out.
             succeed \<lparr>elem_out = out, elem_tag = tag, elem_header_len = header_len,
                      elem_ber_found = ber, elem_indefinite = indef\<rparr>) cbs)
       in if length_byte AND 0x80 = 0
          then result (unat length_byte + header_len) header_len False False
          else
            let num_bytes = unat (length_byte AND 0x7f)
            in if ber_ok \<and> tag AND CBS_ASN1_CONSTRUCTED \<noteq> 0 \<and> num_bytes = 0
               then result header_len header_len True True
               else if num_bytes = 0 \<or> num_bytes > 4 then (None, cbs)
               else (case cbs_get_u num_bytes header of
                       (None, _) \<Rightarrow> (None, cbs)
                     | (Some len64, header) \<Rightarrow>
                       let nonminimal = len64 < 128 \<or> drop_bit ((num_bytes - 1) * 8) len64 = 0;
                           len = unat len64
                       in if nonminimal \<and> \<not> ber_ok then (None, cbs)
                          else if (len + header_len + num_bytes) mod 2 ^ 64 < len then (None, cbs)
                          else result (len + (header_len + num_bytes)) (header_len + num_bytes)
                                 nonminimal False)))"

definition CBS_get_any_asn1_element :: "(cbs, asn1_element) routine" where
  "CBS_get_any_asn1_element = cbs_get_any_asn1_element False"

definition CBS_get_any_ber_asn1_element :: "(cbs, asn1_element) routine" where
  "CBS_get_any_ber_asn1_element = cbs_get_any_asn1_element True"

definition CBS_get_any_asn1 :: "(cbs, cbs \<times> cbs_asn1_tag) routine" where
  "CBS_get_any_asn1 =
     andthen CBS_get_any_asn1_element (\<lambda>e.
     andthen (on_object (elem_out e) (CBS_skip (elem_header_len e))) (\<lambda>(_, out).
     succeed (out, elem_tag e)))"

definition cbs_get_asn1 :: "cbs_asn1_tag \<Rightarrow> bool \<Rightarrow> (cbs, cbs) routine" where
  "cbs_get_asn1 tag_value skip_header =
     andthen CBS_get_any_asn1_element (\<lambda>e.
     andthen (require (elem_tag e = tag_value)) (\<lambda>_.
     if skip_header
     then andthen (on_object (elem_out e) (CBS_skip (elem_header_len e))) (\<lambda>(_, out). succeed out)
     else succeed (elem_out e)))"

definition CBS_get_asn1 :: "cbs_asn1_tag \<Rightarrow> (cbs, cbs) routine" where
  "CBS_get_asn1 tag_value = cbs_get_asn1 tag_value True"

definition CBS_get_asn1_element :: "cbs_asn1_tag \<Rightarrow> (cbs, cbs) routine" where
  "CBS_get_asn1_element tag_value = cbs_get_asn1 tag_value False"

definition CBS_peek_asn1_tag :: "cbs \<Rightarrow> cbs_asn1_tag \<Rightarrow> bool" where
  "CBS_peek_asn1_tag cbs tag_value \<longleftrightarrow> fst (parse_asn1_tag cbs) = Some tag_value"

section \<open>Lemmas on plain reads\<close>

lemma cbs_get_eq_Some:
  "cbs_get n s = (Some v, s') \<longleftrightarrow> n \<le> length s \<and> v = take n s \<and> s' = drop n s"
  by (auto simp: cbs_get_def)

lemma cbs_get_append [simp]: "length v = n \<Longrightarrow> cbs_get n (v @ s) = (Some v, s)"
  by (simp add: cbs_get_def)

lemma cbs_get_u_fold:
  assumes "length data \<le> 8"
  shows "unat (fold (\<lambda>i result. push_bit 8 result OR ucast (data ! i)) [0..<length data] (0 :: u64))
    = be_val data"
  using assms
proof (induction data rule: rev_induct)
  case Nil
  then show ?case by simp
next
  case (snoc b data)
  let ?f = "\<lambda>data. fold (\<lambda>i result. push_bit 8 result OR ucast (data ! i)) [0..<length data] (0 :: u64)"
  have IH: "unat (?f data) = be_val data" using snoc by simp
  have same: "fold (\<lambda>i result. push_bit 8 result OR ucast ((data @ [b]) ! i)) [0..<length data] (0 :: u64)
      = ?f data"
    by (rule fold_cong) (auto simp: nth_append)
  have "?f (data @ [b]) = push_bit 8 (?f data) OR ucast b"
    using same by simp
  moreover have "unat (push_bit 8 (?f data) OR ucast b) = 2 ^ 8 * unat (?f data) + unat (ucast b :: u64)"
  proof (rule unat_push_or)
    show "unat (ucast b :: u64) < 2 ^ 8" using unat_eight_bit [of b] by simp
    have "be_val data < 256 ^ length data" by (rule be_val_less)
    also have "\<dots> \<le> (256::nat) ^ 7"
      using snoc.prems by (intro power_increasing) auto
    finally show "2 ^ 8 * unat (?f data) < 2 ^ LENGTH(64)" using IH by simp
  qed
  ultimately show ?case using IH by simp
qed

lemma cbs_get_u_eq_Some:
  "n \<le> 8 \<Longrightarrow> cbs_get_u n s = (Some v, s') \<longleftrightarrow>
     n \<le> length s \<and> s' = drop n s \<and> unat v = be_val (take n s)"
  using cbs_get_u_fold [of "take n s"]
  by (auto simp: cbs_get_u_def andthen_eq_Some cbs_get_eq_Some word_unat_eq_iff)

section \<open>Base-128 integers\<close>

text \<open>
  The encoding as a specification: the minimal big-endian base-128 digits, with the high
  bit set on all but the last.
\<close>

fun base128_leading :: "nat \<Rightarrow> bytes" where
  "base128_leading n =
     (if n = 0 then [] else base128_leading (n div 128) @ [of_nat (128 + n mod 128)])"

declare base128_leading.simps [simp del]

definition base128 :: "nat \<Rightarrow> bytes" where
  "base128 n = base128_leading (n div 128) @ [of_nat (n mod 128)]"

lemma base128_leading_0 [simp]: "base128_leading 0 = []"
  by (simp add: base128_leading.simps)

lemma base128_leading_snoc:
  "a \<noteq> 0 \<or> d \<noteq> 0 \<Longrightarrow> d < 128 \<Longrightarrow>
   base128_leading (128 * a + d) = base128_leading a @ [of_nat (128 + d)]"
  by (subst base128_leading.simps) simp

lemma base128_step_value:
  assumes "unat (v :: u64) < 2 ^ 57"
  shows "unat (push_bit 7 v OR ucast (b AND 0x7f :: u8)) = 128 * unat v + unat b mod 128"
  using assms unat_push_or [of "ucast (b AND 0x7f) :: u64" 7 v] by simp

lemma parse_base128_loop_step:
  "unat v < 2 ^ 57 \<Longrightarrow> \<not> (v = 0 \<and> b = 0x80) \<Longrightarrow>
   parse_base128_integer_loop v (b # cbs) =
     (let v' = push_bit 7 v OR ucast (b AND 0x7f)
      in if b AND 0x80 \<noteq> 0 then parse_base128_integer_loop v' cbs else (Some v', cbs))"
  by (auto simp: drop_bit_eq_0_iff)

lemma parse_base128_leading:
  assumes "n < 2 ^ 64"
  shows "parse_base128_integer_loop 0 (base128_leading n @ s)
    = parse_base128_integer_loop (of_nat n) s"
  using assms
proof (induction n arbitrary: s rule: base128_leading.induct)
  case (1 n)
  show ?case
  proof (cases "n = 0")
    case False
    let ?b = "of_nat (128 + n mod 128) :: u8" and ?q = "of_nat (n div 128) :: u64"
    have q: "unat ?q = n div 128" using 1(2) by (simp add: unat_of_nat)
    have b: "unat ?b = 128 + n mod 128" by (simp add: unat_of_nat del: of_nat_add)
    have "parse_base128_integer_loop 0 (base128_leading n @ s)
        = parse_base128_integer_loop 0 (base128_leading (n div 128) @ ?b # s)"
      using False by (subst base128_leading.simps) simp
    also have "\<dots> = parse_base128_integer_loop ?q (?b # s)"
      using 1 False by simp
    also have "\<dots> = parse_base128_integer_loop (push_bit 7 ?q OR ucast (?b AND 0x7f)) s"
    proof -
      have "unat ?q < 2 ^ 57" using q 1(2) by simp
      moreover have "\<not> (?q = 0 \<and> ?b = 0x80)"
        using q b False by (auto simp: word_unat_eq_iff)
      moreover have "?b AND 0x80 \<noteq> 0" using b by (simp add: u8_and_80)
      ultimately show ?thesis by (subst parse_base128_loop_step) (simp_all add: Let_def)
    qed
    also have "push_bit 7 ?q OR ucast (?b AND 0x7f) = of_nat n"
    proof -
      have "unat (push_bit 7 ?q OR ucast (?b AND 0x7f)) = 128 * (n div 128) + (128 + n mod 128) mod 128"
        using 1(2) q b by (subst base128_step_value) simp_all
      then show ?thesis using 1(2) by (simp add: word_unat_eq_iff unat_of_nat)
    qed
    finally show ?thesis .
  qed simp
qed

lemma parse_base128_integer_base128:
  assumes "n < 2 ^ 64"
  shows "parse_base128_integer (base128 n @ s) = (Some (of_nat n), s)"
proof -
  let ?b = "of_nat (n mod 128) :: u8" and ?q = "of_nat (n div 128) :: u64"
  have q: "unat ?q = n div 128" using assms by (simp add: unat_of_nat)
  have b: "unat ?b = n mod 128" by (simp add: unat_of_nat)
  have "unat (push_bit 7 ?q OR ucast (?b AND 0x7f)) = n"
    using assms q b by (subst base128_step_value) simp_all
  then have eq: "push_bit 7 ?q OR ucast (?b AND 0x7f) = of_nat n"
    using assms by (simp add: word_unat_eq_iff unat_of_nat)
  have ne: "?b \<noteq> 0x80" using b by (auto simp: word_unat_eq_iff)
  have "?b AND 0x80 = 0" using b by (simp add: u8_and_80)
  then have "parse_base128_integer_loop ?q (?b # s) = (Some (of_nat n), s)"
    using assms q ne eq by (subst parse_base128_loop_step) (simp_all add: Let_def)
  then show ?thesis
    using assms by (simp add: parse_base128_integer_def base128_def parse_base128_leading)
qed

lemma mod_128_split: "128 \<le> n \<Longrightarrow> n < 256 \<Longrightarrow> 128 + n mod 128 = (n :: nat)"
  using le_mod_geq [of 128 n] by simp

lemma parse_base128_loop_canonical:
  assumes "parse_base128_integer_loop v s = (Some w, s')"
  shows "\<exists>m. s = m @ s' \<and> base128_leading (unat v) @ m = base128 (unat w)"
  using assms
proof (induction v s rule: parse_base128_integer_loop.induct)
  case (1 v)
  then show ?case by simp
next
  case (2 v b cbs)
  let ?v' = "push_bit 7 v OR ucast (b AND 0x7f) :: u64"
  from "2.prems" have lt: "unat v < 2 ^ 57" and nz: "\<not> (v = 0 \<and> b = 0x80)"
    by (auto simp: drop_bit_eq_0_iff split: if_splits)
  have v': "unat ?v' = 128 * unat v + unat b mod 128" using lt by (rule base128_step_value)
  note step = "2.prems" [unfolded parse_base128_loop_step [OF lt nz] Let_def]
  show ?case
  proof (cases "b AND 0x80 = 0")
    case True
    then have "unat b < 128" by (simp add: u8_and_80)
    moreover from True step have "w = ?v'" "s' = cbs" by auto
    ultimately show ?thesis
      using v' by (intro exI [of _ "[b]"]) (simp add: base128_def)
  next
    case False
    then have b: "128 \<le> unat b" by (simp add: u8_and_80)
    from False step have "parse_base128_integer_loop ?v' cbs = (Some w, s')" by simp
    with "2.IH" False lt nz obtain m where m: "cbs = m @ s'"
        "base128_leading (unat ?v') @ m = base128 (unat w)"
      by (auto simp: drop_bit_eq_0_iff)
    have bmod: "128 + unat b mod 128 = unat b"
      by (rule mod_128_split [OF b unat_eight_bit])
    have "unat v \<noteq> 0 \<or> unat b mod 128 \<noteq> 0"
    proof (rule ccontr)
      assume "\<not> ?thesis"
      then have "v = 0" and "unat b = unat (0x80 :: u8)"
        using bmod by (simp_all add: unat_eq_zero)
      then show False using nz u8_eq_iff [of b "0x80"] by simp
    qed
    then have "base128_leading (unat ?v') = base128_leading (unat v) @ [of_nat (128 + unat b mod 128)]"
      unfolding v' by (rule base128_leading_snoc) simp
    also have "(of_nat (128 + unat b mod 128) :: u8) = b"
      unfolding bmod by simp
    finally show ?thesis using m by (intro exI [of _ "b # m"]) simp
  qed
qed

lemma parse_base128_integer_canonical:
  "parse_base128_integer s = (Some w, s') \<Longrightarrow> s = base128 (unat w) @ s'"
  using parse_base128_loop_canonical [of 0 s w s'] by (auto simp: parse_base128_integer_def)

section \<open>Identifier octets\<close>

text \<open>
  The DER identifier octets of a tag, as a specification: the class and constructed bits
  in the top three bits of the first byte, the number in the low five or, from 31 on, in
  base 128 after it.
\<close>

definition der_tag :: "cbs_asn1_tag \<Rightarrow> bytes" where
  "der_tag t = (let c = unat t div 2 ^ 29; n = unat t mod 2 ^ 29
     in if 31 \<le> n then of_nat (32 * c + 31) # base128 n else [of_nat (32 * c + n)])"

definition valid_tag :: "cbs_asn1_tag \<Rightarrow> bool" where
  "valid_tag t \<longleftrightarrow> t AND NOT CBS_ASN1_CONSTRUCTED \<noteq> 0"

lemma u8_and_1f [simp]: "unat (b AND 0x1f :: u8) = unat b mod 32"
  using unat_and_eq_mod [of "0x1f" 5 b] by (simp add: mask_eq_exp_minus_1)

lemma tag_class_bits:
  "unat (push_bit 24 (ucast (b :: u8) AND 0xe0) :: u32) = 2 ^ 29 * (unat b div 32)"
proof -
  have "ucast b AND 0xe0 = (ucast (b AND 0xe0) :: u32)"
    by (simp add: unsigned_and_eq)
  also have "b AND 0xe0 = push_bit 5 (drop_bit 5 b)"
  proof -
    have "(0xe0 :: u8) = NOT (mask 5)" by (simp add: mask_eq_exp_minus_1)
    then show ?thesis by (simp only: and_not_mask_eq)
  qed
  finally have "unat (ucast b AND 0xe0 :: u32) = unat (push_bit 5 (drop_bit 5 b))"
    by simp
  also have "\<dots> = 32 * (unat b div 32)"
    using unat_push_or [of "0 :: u8" 5 "drop_bit 5 b"] unat_eight_bit [of b]
    by (simp add: unat_drop_bit del: unat_eight_bit)
  finally have e: "unat (ucast b AND 0xe0 :: u32) = 32 * (unat b div 32)" .
  have "32 * (unat b div 32) < 256"
    using unat_eight_bit [of b] by (simp del: unat_eight_bit add: less_mult_imp_div_less)
  then show ?thesis
    using unat_push_or [of "0 :: u32" 24 "ucast b AND 0xe0"] e by simp
qed

lemma unat_tag:
  assumes "unat n < 2 ^ 29"
  shows "unat (push_bit 24 (ucast (b :: u8) AND 0xe0) OR n :: u32) = 2 ^ 29 * (unat b div 32) + unat n"
proof -
  have c: "unat b div 32 < 8" using unat_eight_bit [of b] by (simp del: unat_eight_bit add: less_mult_imp_div_less)
  let ?c = "of_nat (unat b div 32) :: u32"
  have uc: "unat ?c = unat b div 32" using c by (simp add: unat_of_nat)
  have "push_bit 24 (ucast b AND 0xe0) = push_bit 29 ?c"
    using c uc unat_push_or [of "0 :: u32" 29 ?c] by (simp only: word_unat_eq_iff tag_class_bits) simp
  then show ?thesis
    using assms c uc unat_push_or [of n 29 ?c] by simp
qed

lemma parse_asn1_tag_short:
  assumes "unat b mod 32 \<noteq> 31"
  shows "parse_asn1_tag (b # s) =
    (let t = push_bit 24 (ucast b AND 0xe0) OR ucast (b AND 0x1f)
     in (if valid_tag t then Some t else None, s))"
proof -
  have "(ucast (b AND 0x1f) :: u32) \<noteq> 0x1f"
    using assms by (auto simp: word_unat_eq_iff)
  then show ?thesis
    by (simp add: parse_asn1_tag_def CBS_get_u8_def cbs_get_def routine_simps valid_tag_def Let_def)
qed

lemma parse_asn1_tag_long:
  assumes "unat b mod 32 = 31"
  shows "parse_asn1_tag (b # s) =
    (case parse_base128_integer s of
       (None, s') \<Rightarrow> (None, s')
     | (Some v, s') \<Rightarrow>
         let t = push_bit 24 (ucast b AND 0xe0) OR ucast v
         in (if unat v < 2 ^ 29 \<and> 31 \<le> unat v \<and> valid_tag t then Some t else None, s'))"
proof -
  have "(ucast (b AND 0x1f) :: u32) = 0x1f"
    using assms by (auto simp: word_unat_eq_iff)
  moreover have "\<not> (v > ucast CBS_ASN1_TAG_NUMBER_MASK \<or> v < 0x1f) \<longleftrightarrow> unat v < 2 ^ 29 \<and> 31 \<le> unat v"
    for v :: u64
    by (auto simp: word_less_nat_alt CBS_ASN1_TAG_NUMBER_MASK_def)
  ultimately show ?thesis
    by (auto simp: parse_asn1_tag_def CBS_get_u8_def cbs_get_def routine_simps valid_tag_def Let_def
        split: prod.splits option.splits)
qed

lemma parse_asn1_tag_Nil [simp]: "parse_asn1_tag [] = (None, [])"
  by (simp add: parse_asn1_tag_def CBS_get_u8_def cbs_get_def routine_simps)

lemma unat_ucast_u64_u32: "unat (ucast (v :: u64) :: u32) = unat v mod 2 ^ 32"
  by (simp add: unsigned_ucast_eq take_bit_eq_mod)

lemma div_split_32: "d < 32 \<Longrightarrow> (32 * c + d) div 32 = c \<and> (32 * c + d) mod 32 = (d :: nat)"
  by simp

lemma parse_asn1_tag_der_tag:
  assumes "valid_tag t"
  shows "parse_asn1_tag (der_tag t @ s) = (Some t, s)"
proof -
  let ?c = "unat t div 2 ^ 29" and ?n = "unat t mod 2 ^ 29"
  have t: "unat t = 2 ^ 29 * ?c + ?n" by simp
  have c: "?c < 8" using unat_u32_less [of t] by (simp add: less_mult_imp_div_less)
  show ?thesis
  proof (cases "31 \<le> ?n")
    case True
    let ?b = "of_nat (32 * ?c + 31) :: u8"
    have b: "unat ?b = 32 * ?c + 31" using c by (simp add: unat_of_nat del: of_nat_add of_nat_mult)
    have v: "unat (of_nat ?n :: u64) = ?n" by (simp add: unat_of_nat)
    then have v32: "unat (ucast (of_nat ?n :: u64) :: u32) = ?n" by (simp add: unat_ucast_u64_u32)
    have "push_bit 24 (ucast ?b AND 0xe0) OR ucast (of_nat ?n :: u64) = t"
      using v32 b t by (subst word_unat_eq_iff, subst unat_tag) simp_all
    then show ?thesis
      using True assms b v
      by (simp add: der_tag_def Let_def parse_asn1_tag_long parse_base128_integer_base128)
  next
    case False
    let ?b = "of_nat (32 * ?c + ?n) :: u8"
    have b: "unat ?b = 32 * ?c + ?n" using c False by (simp add: unat_of_nat del: of_nat_add of_nat_mult)
    have "unat ?b div 32 = ?c" "unat ?b mod 32 = ?n"
      using b False div_split_32 [of ?n ?c] by simp_all
    moreover from this have "push_bit 24 (ucast ?b AND 0xe0) OR ucast (?b AND 0x1f) = t"
      using t by (subst word_unat_eq_iff, subst unat_tag) simp_all
    ultimately show ?thesis
      using False assms by (simp add: der_tag_def Let_def parse_asn1_tag_short)
  qed
qed

lemma parse_asn1_tag_canonical:
  assumes "parse_asn1_tag s = (Some t, s')"
  shows "s = der_tag t @ s' \<and> valid_tag t"
proof (cases s)
  case Nil
  with assms show ?thesis by simp
next
  case (Cons b r)
  show ?thesis
  proof (cases "unat b mod 32 = 31")
    case True
    from assms [unfolded Cons parse_asn1_tag_long [OF True]] obtain v where
      v: "parse_base128_integer r = (Some v, s')" "31 \<le> unat v" "unat v < 2 ^ 29" and
      t: "t = push_bit 24 (ucast b AND 0xe0) OR ucast v" and valid: "valid_tag t"
      by (auto simp: Let_def split: prod.splits option.splits if_splits)
    have "unat t = 2 ^ 29 * (unat b div 32) + unat v"
      using v unfolding t by (subst unat_tag) (simp_all add: unat_ucast_u64_u32)
    then have "unat t div 2 ^ 29 = unat b div 32" "unat t mod 2 ^ 29 = unat v"
      using v by simp_all
    moreover have "of_nat (32 * (unat b div 32) + 31) = b"
    proof -
      have "32 * (unat b div 32) + 31 = unat b" using True mult_div_mod_eq [of 32 "unat b"] by simp
      then show ?thesis by (simp del: of_nat_add of_nat_mult)
    qed
    ultimately show ?thesis
      using v valid parse_base128_integer_canonical [OF v(1)] Cons
      by (simp add: der_tag_def Let_def)
  next
    case False
    from assms [unfolded Cons parse_asn1_tag_short [OF False]]
    have t: "t = push_bit 24 (ucast b AND 0xe0) OR ucast (b AND 0x1f)" and
      valid: "valid_tag t" and s': "s' = r"
      by (auto simp: Let_def split: if_splits)
    have "unat t = 2 ^ 29 * (unat b div 32) + unat b mod 32"
      unfolding t by (subst unat_tag) (simp_all add: less_le_trans [of _ 32])
    moreover have "unat b mod 32 < 32" by simp
    ultimately have "unat t div 2 ^ 29 = unat b div 32" "unat t mod 2 ^ 29 = unat b mod 32"
      by simp_all
    moreover have "\<not> 31 \<le> unat b mod 32" using False mod_less_divisor [of 32 "unat b"] by linarith
    moreover have "of_nat (32 * (unat b div 32) + unat b mod 32) = b" by (simp del: of_nat_add of_nat_mult)
    ultimately show ?thesis
      using valid s' Cons by (simp add: der_tag_def Let_def del: of_nat_add of_nat_mult)
  qed
qed

section \<open>DER elements\<close>

definition der_length :: "nat \<Rightarrow> bytes" where
  "der_length n =
     (if n < 128 then [of_nat n]
      else let k = (if n < 2 ^ 8 then 1 else if n < 2 ^ 16 then 2 else if n < 2 ^ 24 then 3 else 4)
           in of_nat (128 + k) # be_bytes k n)"

definition der_header :: "cbs_asn1_tag \<Rightarrow> nat \<Rightarrow> bytes" where
  "der_header t n = der_tag t @ der_length n"

definition der_element :: "cbs_asn1_tag \<Rightarrow> bytes \<Rightarrow> bytes" where
  "der_element t c = der_header t (length c) @ c"

lemma der_length_long:
  assumes "128 \<le> n" "256 ^ (k - 1) \<le> n" "n < 256 ^ k" "1 \<le> k" "k \<le> 4"
  shows "der_length n = of_nat (128 + k) # be_bytes k n"
proof -
  have "k = 1 \<or> k = 2 \<or> k = 3 \<or> k = 4" using assms by auto
  then show ?thesis using assms by (auto simp: der_length_def Let_def)
qed

lemma der_length_cases:
  assumes "n < 2 ^ 32"
  obtains "n < 128" "der_length n = [of_nat n]"
  | k where "128 \<le> n" "256 ^ (k - 1) \<le> n" "n < 256 ^ k" "1 \<le> k" "k \<le> 4"
      "der_length n = of_nat (128 + k) # be_bytes k n"
proof (cases "n < 128")
  case True
  then show thesis using that(1) by (simp add: der_length_def)
next
  case False
  have "\<exists>k. 256 ^ (k - 1) \<le> n \<and> n < 256 ^ k \<and> 1 \<le> k \<and> k \<le> 4"
  proof -
    consider "n < 256" | "256 \<le> n" "n < 256 ^ 2" | "256 ^ 2 \<le> n" "n < 256 ^ 3" | "256 ^ 3 \<le> n" "n < 256 ^ 4"
      using assms by fastforce
    then show ?thesis
    proof cases
      case 1 then show ?thesis using False by (intro exI [of _ 1]) simp
    next
      case 2 then show ?thesis by (intro exI [of _ 2]) simp
    next
      case 3 then show ?thesis by (intro exI [of _ 3]) simp
    next
      case 4 then show ?thesis by (intro exI [of _ 4]) simp
    qed
  qed
  then obtain k where k: "256 ^ (k - 1) \<le> n" "n < 256 ^ k" "1 \<le> k" "k \<le> 4" by blast
  moreover from False have "128 \<le> n" by simp
  ultimately show thesis using that(2) der_length_long by blast
qed

lemma length_base128_leading: "n < 128 ^ k \<Longrightarrow> length (base128_leading n) \<le> k"
proof (induction k arbitrary: n)
  case (Suc k)
  then have "n div 128 < 128 ^ k" by (simp add: less_mult_imp_div_less mult.commute)
  from Suc.IH [OF this] show ?case
    by (subst base128_leading.simps) simp
qed simp

lemma length_der_tag: "1 \<le> length (der_tag t) \<and> length (der_tag t) \<le> 6"
proof -
  have "unat t mod 2 ^ 29 < (2::nat) ^ 29" by simp
  then have "unat t mod 2 ^ 29 div 128 < 128 ^ 4" by (simp add: less_mult_imp_div_less)
  from length_base128_leading [OF this] show ?thesis
    by (simp add: der_tag_def base128_def Let_def)
qed

lemma length_der_header: "n < 2 ^ 32 \<Longrightarrow> length (der_header t n) \<le> 11"
proof -
  assume "n < 2 ^ 32"
  then have "length (der_length n) \<le> 5"
    by (cases rule: der_length_cases [of n]) auto
  then show ?thesis using length_der_tag [of t] by (simp add: der_header_def)
qed

lemma CBS_get_u8_Cons [simp]: "CBS_get_u8 (b # s) = (Some b, s)"
  by (simp add: CBS_get_u8_def cbs_get_def routine_simps)

lemma CBS_get_u8_Nil [simp]: "CBS_get_u8 [] = (None, [])"
  by (simp add: CBS_get_u8_def cbs_get_def routine_simps)

lemma CBS_get_u8_eq_Some: "CBS_get_u8 s = (Some b, s') \<longleftrightarrow> s = b # s'"
  by (cases s) auto

lemma CBS_get_bytes_eq_Some:
  "CBS_get_bytes n s = (Some v, s') \<longleftrightarrow> n \<le> length s \<and> v = take n s \<and> s' = drop n s"
  by (auto simp: CBS_get_bytes_def andthen_eq_Some cbs_get_eq_Some CBS_init_def)

lemma CBS_get_bytes_append [simp]: "length v = n \<Longrightarrow> CBS_get_bytes n (v @ s) = (Some v, s)"
  by (simp add: CBS_get_bytes_eq_Some)

lemma CBS_skip_eq_Some: "CBS_skip n s = (Some u, s') \<longleftrightarrow> n \<le> length s \<and> s' = drop n s"
  by (auto simp: CBS_skip_def andthen_eq_Some cbs_get_eq_Some)

lemma cbs_get_u_be_bytes:
  assumes "n < 256 ^ k" "k \<le> 8"
  shows "\<exists>v. cbs_get_u k (be_bytes k n @ s) = (Some v, s) \<and> unat v = n"
proof -
  have len: "length (be_bytes k n) \<le> 8" using assms by simp
  have "fold (\<lambda>i result. push_bit 8 result OR ucast (be_bytes k n ! i)) [0..<k] (0 :: u64) =
     fold (\<lambda>i result. push_bit 8 result OR ucast (be_bytes k n ! i)) [0..<length (be_bytes k n)] 0"
    by simp
  then show ?thesis
    using cbs_get_u_fold [OF len] assms
    by (simp add: cbs_get_u_def andthen_apply succeed_def)
qed

definition element_result :: "cbs_asn1_tag \<Rightarrow> bytes \<Rightarrow> asn1_element" where
  "element_result t c = \<lparr>elem_out = der_element t c, elem_tag = t,
     elem_header_len = length (der_header t (length c)), elem_ber_found = False, elem_indefinite = False\<rparr>"

lemma any_asn1_element_der:
  assumes "valid_tag t" "length c < 2 ^ 32"
  shows "cbs_get_any_asn1_element ber (der_element t c @ s) = (Some (element_result t c), s)"
  using assms(2)
proof (cases rule: der_length_cases [of "length c"])
  case 1
  let ?b = "of_nat (length c) :: u8"
  have b: "unat ?b = length c" "?b AND 0x80 = 0"
    using 1 by (simp_all add: unat_of_nat u8_and_80)
  have "parse_asn1_tag (der_element t c @ s) = (Some t, ?b # c @ s)"
    using assms 1 by (simp add: der_element_def der_header_def parse_asn1_tag_der_tag)
  then show ?thesis
    using b 1
    by (simp add: cbs_get_any_asn1_element_def Let_def andthen_apply CBS_get_bytes_eq_Some
        der_element_def der_header_def succeed_def element_result_def
        CBS_get_bytes_append [of "der_tag t @ ?b # c", simplified])
next
  case (2 k)
  let ?n = "length c" and ?b = "of_nat (128 + k) :: u8"
  have b: "unat ?b = 128 + k" using 2 by (simp add: unat_of_nat del: of_nat_add)
  then have bits: "?b AND 0x80 \<noteq> 0" "unat (?b AND 0x7f) = k"
    using 2 by (simp_all add: u8_and_80 del: of_nat_add)
  have tag: "parse_asn1_tag (der_element t c @ s) = (Some t, ?b # be_bytes k ?n @ c @ s)"
    using assms 2 by (simp add: der_element_def der_header_def parse_asn1_tag_der_tag)
  obtain v where v: "cbs_get_u k (be_bytes k ?n @ c @ s) = (Some v, c @ s)" "unat v = ?n"
    using cbs_get_u_be_bytes [of ?n k "c @ s"] 2 by auto
  have min: "\<not> v < 128" using 2 v by (simp add: word_less_nat_alt)
  have "drop_bit ((k - 1) * 8) v \<noteq> 0"
    using 2 v by (simp add: drop_bit_eq_0_iff mult.commute [of _ 8] power_mult)
  moreover have "length (der_tag t) \<le> 6" using length_der_tag by blast
  moreover have "CBS_get_bytes (Suc (?n + (length (der_tag t) + k))) (der_tag t @ ?b # be_bytes k ?n @ c @ s)
      = (Some (der_tag t @ ?b # be_bytes k ?n @ c), s)"
    by (simp add: CBS_get_bytes_eq_Some)
  ultimately show ?thesis
    using bits 2 tag v min assms(2)
    by (simp add: cbs_get_any_asn1_element_def Let_def andthen_apply
        der_element_def der_header_def succeed_def element_result_def del: of_nat_add)
qed

lemma der_length_short: "unat (b :: u8) < 128 \<Longrightarrow> der_length (unat b) = [b]"
  by (simp add: der_length_def)

lemma any_asn1_element_canonical:
  assumes "cbs_get_any_asn1_element False s = (Some e, s')"
  shows "\<exists>t c. valid_tag t \<and> length c < 2 ^ 32 \<and> e = element_result t c \<and> s = der_element t c @ s'"
proof -
  obtain t h where tag: "parse_asn1_tag s = (Some t, h)"
    using assms by (auto simp: cbs_get_any_asn1_element_def split: prod.splits option.splits)
  from parse_asn1_tag_canonical [OF tag] have s: "s = der_tag t @ h" and valid: "valid_tag t"
    by auto
  obtain b r where h: "h = b # r"
    using assms tag by (cases h) (auto simp: cbs_get_any_asn1_element_def)
  have hl: "length s - length r = Suc (length (der_tag t))"
    using s h by simp
  show ?thesis
  proof (cases "b AND 0x80 = 0")
    case True
    then have b: "unat b < 128" by (simp add: u8_and_80)
    let ?c = "take (unat b) r"
    from assms tag h hl True have get: "length (der_tag t) + Suc (unat b) \<le> length s"
        "elem_out e = take (unat b + Suc (length (der_tag t))) s"
        "s' = drop (unat b + Suc (length (der_tag t))) s"
        "e = \<lparr>elem_out = elem_out e, elem_tag = t, elem_header_len = Suc (length (der_tag t)),
              elem_ber_found = False, elem_indefinite = False\<rparr>"
      by (auto simp: cbs_get_any_asn1_element_def Let_def andthen_eq_Some CBS_get_bytes_eq_Some)
    have lc: "length ?c = unat b" using get(1) s h by simp
    have el: "der_element t ?c = der_tag t @ b # ?c"
      using b lc by (simp add: der_element_def der_header_def der_length_short)
    have out: "elem_out e = der_element t ?c" "s' = drop (unat b) r"
      using get s h el by (simp_all add: take_Cons')
    have "e = element_result t ?c"
      using get(4) out lc b by (simp add: element_result_def der_header_def der_length_short)
    moreover have "s = der_element t ?c @ s'" using s h el out by simp
    ultimately show ?thesis using valid lc b by (intro exI [of _ t] exI [of _ ?c]) simp
  next
    case False
    then have b: "128 \<le> unat b" by (simp add: u8_and_80)
    let ?k = "unat (b AND 0x7f)"
    have bk: "b = of_nat (128 + ?k)"
      using mod_128_split [OF b unat_eight_bit] by (simp add: u8_eq_iff unat_of_nat)
    from assms tag h False have k: "1 \<le> ?k" "?k \<le> 4"
      by (auto simp: cbs_get_any_asn1_element_def Let_def split: if_splits)
    obtain v r2 where v: "cbs_get_u ?k r = (Some v, r2)"
      using assms tag h False k
      by (auto simp: cbs_get_any_asn1_element_def Let_def split: if_splits prod.splits option.splits)
    let ?n = "unat v"
    from v k have r: "?k \<le> length r" "r2 = drop ?k r" "?n = be_val (take ?k r)"
      by (simp_all add: cbs_get_u_eq_Some)
    have ber: "be_bytes ?k ?n = take ?k r"
      using be_bytes_be_val [of "take ?k r"] r by simp
    from assms tag h hl False k v have min: "128 \<le> ?n" "256 ^ (?k - 1) \<le> ?n" and
      get: "?n + Suc (length (der_tag t)) + ?k \<le> length s"
        "elem_out e = take (?n + Suc (length (der_tag t)) + ?k) s"
        "s' = drop (?n + Suc (length (der_tag t)) + ?k) s"
        "e = \<lparr>elem_out = elem_out e, elem_tag = t, elem_header_len = Suc (length (der_tag t)) + ?k,
              elem_ber_found = False, elem_indefinite = False\<rparr>"
      by (auto simp: cbs_get_any_asn1_element_def Let_def andthen_eq_Some CBS_get_bytes_eq_Some
          drop_bit_eq_0_iff word_less_nat_alt power_mult mult.commute [of _ 8] add.assoc
          split: if_splits)
    have lt: "?n < 256 ^ ?k" using be_val_less [of "take ?k r"] r by simp
    have dl: "der_length ?n = b # take ?k r"
      using der_length_long [OF min lt k] ber bk by simp
    let ?c = "take ?n r2"
    have "length s = length (der_tag t) + Suc (length r)" using s h by simp
    then have lc: "length ?c = ?n" using get(1) r by simp
    have el: "der_element t ?c = der_tag t @ b # take ?k r @ ?c"
      using dl lc by (simp add: der_element_def der_header_def)
    have split: "s = der_tag t @ b # take ?k r @ r2" using s h r by simp
    have out: "elem_out e = der_element t ?c" "s' = drop ?n r2"
      using get(2,3) el r(1) unfolding split by simp_all
    have "e = element_result t ?c"
      using get(4) out lc dl r(1) by (simp add: element_result_def der_header_def)
    moreover have "s = der_element t ?c @ s'" using split el out by simp
    moreover have "?n < 2 ^ 32"
    proof -
      have "(256::nat) ^ ?k \<le> 256 ^ 4" using k by (intro power_increasing) auto
      then show ?thesis using lt by simp
    qed
    ultimately show ?thesis using valid lc by (intro exI [of _ t] exI [of _ ?c]) simp
  qed
qed

section \<open>Properties\<close>

text \<open>Base-128 integers are read exactly in their shortest form: the reader accepts an
  input if and only if it starts with the minimal encoding of the result, and it leaves what
  follows. Overlong encodings, encodings beyond 64 bits and truncated ones are refused.\<close>

theorem base128_reader_exact:
  "parse_base128_integer s = (Some v, s') \<longleftrightarrow> s = base128 (unat v) @ s'"
proof
  assume "parse_base128_integer s = (Some v, s')"
  then show "s = base128 (unat v) @ s'" by (rule parse_base128_integer_canonical)
next
  assume "s = base128 (unat v) @ s'"
  then show "parse_base128_integer s = (Some v, s')"
    using parse_base128_integer_base128 [OF unat_u64_less, of v s'] by simp
qed

text \<open>Identifier octets are read exactly in their canonical form: a tag is accepted if and
  only if it is not the reserved universal tag 0, and its octets are the unique DER ones (a
  number below 31 in the short form, any other in minimal base 128).\<close>

theorem tag_reader_exact:
  "parse_asn1_tag s = (Some t, s') \<longleftrightarrow> valid_tag t \<and> s = der_tag t @ s'"
  using parse_asn1_tag_canonical parse_asn1_tag_der_tag by blast

lemma bswap_masks:
  "(0xff00ff00 :: u32) = push_bit 8 (mask 8) OR push_bit 24 (mask 8)"
  "(0x00ff00ff :: u32) = mask 8 OR push_bit 16 (mask 8)"
  by (simp_all add: mask_eq_exp_minus_1 push_bit_eq_mult)

lemma bswap2_bit: "n < 8 \<Longrightarrow> bit (CRYPTO_bswap2 x) n = bit x (n + 8)"
  "8 \<le> n \<Longrightarrow> n < 16 \<Longrightarrow> bit (CRYPTO_bswap2 x) n = bit x (n - 8)"
  by (auto simp: CRYPTO_bswap2_def bit_simps add.commute dest: bit_imp_le_length)

lemma bswap2_bswap2: "CRYPTO_bswap2 (CRYPTO_bswap2 x) = x"
proof (rule bit_word_eqI)
  fix n assume "n < LENGTH(16)"
  then show "bit (CRYPTO_bswap2 (CRYPTO_bswap2 x)) n = bit x n"
    by (cases "n < 8") (simp_all add: bswap2_bit)
qed

lemma bswap4_bit:
  "n < 8 \<Longrightarrow> bit (CRYPTO_bswap4 x) n = bit x (n + 24)"
  "8 \<le> n \<Longrightarrow> n < 16 \<Longrightarrow> bit (CRYPTO_bswap4 x) n = bit x (n + 8)"
  "16 \<le> n \<Longrightarrow> n < 24 \<Longrightarrow> bit (CRYPTO_bswap4 x) n = bit x (n - 8)"
  "24 \<le> n \<Longrightarrow> n < 32 \<Longrightarrow> bit (CRYPTO_bswap4 x) n = bit x (n - 24)"
  unfolding CRYPTO_bswap4_def Let_def bswap_masks
  by (auto simp: bit_simps add.commute dest: bit_imp_le_length)

lemma bswap4_bswap4: "CRYPTO_bswap4 (CRYPTO_bswap4 x) = x"
proof (rule bit_word_eqI)
  fix n assume n: "n < LENGTH(32)"
  consider "n < 8" | "8 \<le> n" "n < 16" | "16 \<le> n" "n < 24" | "24 \<le> n" "n < 32" using n by fastforce
  then show "bit (CRYPTO_bswap4 (CRYPTO_bswap4 x)) n = bit x n"
    by cases (simp_all add: bswap4_bit)
qed

lemma bswap8_bswap8: "CRYPTO_bswap8 (CRYPTO_bswap8 x) = x"
proof -
  have "ucast (CRYPTO_bswap8 y) = CRYPTO_bswap4 (ucast (drop_bit 32 y))"
    "ucast (drop_bit 32 (CRYPTO_bswap8 y)) = CRYPTO_bswap4 (ucast y)" for y
    by (rule bit_word_eqI, auto simp: CRYPTO_bswap8_def bit_simps dest: bit_imp_le_length)+
  then have "CRYPTO_bswap8 (CRYPTO_bswap8 x) = ucast (ucast x :: u32) OR push_bit 32 (ucast (ucast (drop_bit 32 x) :: u32))"
    by (simp add: CRYPTO_bswap8_def [of "CRYPTO_bswap8 x"] bswap4_bswap4)
  also have "\<dots> = x" by (rule bit_word_eqI) (auto simp: bit_simps)
  finally show ?thesis .
qed

end
