(* ===== verification/CBS_ASN1.thy ===== *)
theory CBS_ASN1
  imports CBS
begin

text \<open>
  The second half of crypto/bytestring/cbs.c: ASN.1 values read from a \<open>CBS\<close> (INTEGER,
  BOOLEAN, optional fields, BIT STRING and OBJECT IDENTIFIER checks). An \<open>int64_t\<close> is
  its 64-bit pattern, read with \<open>sint\<close>.
\<close>

primrec asn1_uint64_loop :: "u64 \<Rightarrow> bytes \<Rightarrow> u64 option" where
  "asn1_uint64_loop out [] = Some out"
| "asn1_uint64_loop out (b # bs) =
     (if drop_bit 56 out \<noteq> 0 then None else asn1_uint64_loop (push_bit 8 out OR ucast b) bs)"

text \<open>\<open>CBS_is_valid_asn1_integer\<close> returns \<open>Some is_negative\<close> where the C code returns 1.\<close>

definition CBS_is_valid_asn1_integer :: "cbs \<Rightarrow> bool option" where
  "CBS_is_valid_asn1_integer cbs =
     (case CBS_get_u8 cbs of
        (None, _) \<Rightarrow> None
      | (Some first_byte, copy) \<Rightarrow>
        let is_negative = (first_byte AND 0x80 \<noteq> 0)
        in (case CBS_get_u8 copy of
              (None, _) \<Rightarrow> Some is_negative
            | (Some second_byte, _) \<Rightarrow>
              if (first_byte = 0x00 \<and> second_byte AND 0x80 = 0) \<or>
                 (first_byte = 0xff \<and> second_byte AND 0x80 \<noteq> 0)
              then None else Some is_negative))"

definition CBS_is_unsigned_asn1_integer :: "cbs \<Rightarrow> bool" where
  "CBS_is_unsigned_asn1_integer cbs \<longleftrightarrow> CBS_is_valid_asn1_integer cbs = Some False"

definition CBS_get_asn1_uint64 :: "(cbs, u64) routine" where
  "CBS_get_asn1_uint64 =
     andthen (CBS_get_asn1 CBS_ASN1_INTEGER) (\<lambda>bytes.
     andthen (require (CBS_is_unsigned_asn1_integer bytes)) (\<lambda>_.
     (\<lambda>cbs. (asn1_uint64_loop 0 bytes, cbs))))"

text \<open>
  The sign-extended value is assembled least significant byte first and copied into the
  \<open>int64_t\<close>, on a little-endian machine.
\<close>

definition CBS_get_asn1_int64 :: "(cbs, u64) routine" where
  "CBS_get_asn1_int64 =
     andthen (CBS_get_asn1 CBS_ASN1_INTEGER) (\<lambda>data.
     case CBS_is_valid_asn1_integer data of
       None \<Rightarrow> failure
     | Some is_negative \<Rightarrow>
       let len = length data
       in if len > 8 then failure
          else let sign_extend =
                 map (\<lambda>i. if i < len then data ! (len - i - 1) else if is_negative then 0xff else 0) [0..<8]
               in succeed (of_nat (be_val (rev sign_extend))))"

definition CBS_get_asn1_bool :: "(cbs, bool) routine" where
  "CBS_get_asn1_bool =
     andthen (CBS_get_asn1 CBS_ASN1_BOOLEAN) (\<lambda>bytes.
     andthen (require (length bytes = 1)) (\<lambda>_.
     let value = bytes ! 0
     in if value \<noteq> 0 \<and> value \<noteq> 0xff then failure else succeed (value \<noteq> 0)))"

text \<open>An absent field is \<open>None\<close>: the C code then sets \<open>*out_present\<close> to 0 and leaves \<open>*out\<close>.\<close>

definition CBS_get_optional_asn1 :: "cbs_asn1_tag \<Rightarrow> (cbs, cbs option) routine" where
  "CBS_get_optional_asn1 tag = (\<lambda>cbs.
     if CBS_peek_asn1_tag cbs tag
     then andthen (CBS_get_asn1 tag) (\<lambda>out. succeed (Some out)) cbs
     else (Some None, cbs))"

definition CBS_get_optional_asn1_octet_string :: "cbs_asn1_tag \<Rightarrow> (cbs, cbs \<times> bool) routine" where
  "CBS_get_optional_asn1_octet_string tag =
     andthen (CBS_get_optional_asn1 tag) (\<lambda>child.
     case child of
       None \<Rightarrow> succeed (CBS_init [] 0, False)
     | Some child \<Rightarrow>
       andthen (on_object child (CBS_get_asn1 CBS_ASN1_OCTETSTRING)) (\<lambda>(out, child).
       andthen (require (length child = 0)) (\<lambda>_. succeed (out, True))))"

definition CBS_get_optional_asn1_uint64 :: "cbs_asn1_tag \<Rightarrow> u64 \<Rightarrow> (cbs, u64) routine" where
  "CBS_get_optional_asn1_uint64 tag default_value =
     andthen (CBS_get_optional_asn1 tag) (\<lambda>child.
     case child of
       None \<Rightarrow> succeed default_value
     | Some child \<Rightarrow>
       andthen (on_object child CBS_get_asn1_uint64) (\<lambda>(out, child).
       andthen (require (length child = 0)) (\<lambda>_. succeed out)))"

definition CBS_get_optional_asn1_bool :: "cbs_asn1_tag \<Rightarrow> bool \<Rightarrow> (cbs, bool) routine" where
  "CBS_get_optional_asn1_bool tag default_value =
     andthen (CBS_get_optional_asn1 tag) (\<lambda>child.
     case child of
       None \<Rightarrow> succeed default_value
     | Some child \<Rightarrow>
       andthen (on_object child (CBS_get_asn1 CBS_ASN1_BOOLEAN)) (\<lambda>(child2, child).
       andthen (require (length child2 = 1 \<and> length child = 0)) (\<lambda>_.
       let boolean = child2 ! 0
       in if boolean = 0 then succeed False
          else if boolean = 0xff then succeed True
          else failure)))"

definition CBS_is_valid_asn1_bitstring :: "cbs \<Rightarrow> bool" where
  "CBS_is_valid_asn1_bitstring cbs \<longleftrightarrow>
     (case CBS_get_u8 cbs of
        (None, _) \<Rightarrow> False
      | (Some num_unused_bits, rest) \<Rightarrow>
        if num_unused_bits > 7 then False
        else if num_unused_bits = 0 then True
        else (case CBS_get_last_u8 rest of
                (None, _) \<Rightarrow> False
              | (Some last_byte, _) \<Rightarrow> last_byte AND (push_bit (unat num_unused_bits) 1 - 1) = 0))"

definition CBS_asn1_bitstring_has_bit :: "cbs \<Rightarrow> u32 \<Rightarrow> bool" where
  "CBS_asn1_bitstring_has_bit cbs bit_index \<longleftrightarrow>
     (if \<not> CBS_is_valid_asn1_bitstring cbs then False
      else let byte_num = drop_bit 3 bit_index + 1; bit_num = 7 - (bit_index AND 7)
           in unat byte_num < length cbs \<and>
              cbs ! unat byte_num AND push_bit (unat bit_num) 1 \<noteq> 0)"

fun asn1_oid_loop :: "u8 \<Rightarrow> cbs \<Rightarrow> bool" where
  "asn1_oid_loop prev copy =
     (case copy of
        [] \<Rightarrow> prev AND 0x80 = 0
      | v # copy \<Rightarrow> if prev AND 0x80 = 0 \<and> v = 0x80 then False else asn1_oid_loop v copy)"

definition CBS_is_valid_asn1_oid :: "cbs \<Rightarrow> bool" where
  "CBS_is_valid_asn1_oid cbs \<longleftrightarrow> (if length cbs = 0 then False else asn1_oid_loop 0 cbs)"

section \<open>The value of an INTEGER\<close>

text \<open>The contents octets of an INTEGER are its two's complement, most significant first.\<close>

definition int_value :: "bytes \<Rightarrow> int" where
  "int_value bs = int (be_val bs) - (if bs \<noteq> [] \<and> 128 \<le> unat (hd bs) then 256 ^ length bs else 0)"

lemma int_value_range:
  assumes "bs \<noteq> []"
  shows "- (128 * 256 ^ (length bs - 1)) \<le> int_value bs \<and> int_value bs < 128 * 256 ^ (length bs - 1)"
proof -
  obtain b r where bs: "bs = b # r" using assms by (cases bs) auto
  obtain n where n: "unat b = n" "n < 256" using unat_eight_bit [of b] by blast
  define P where "P = (256::int) ^ length r"
  have "int (be_val r) < int (256 ^ length r)" by (rule of_nat_less_iff [THEN iffD2, OF be_val_less])
  then have r: "int (be_val r) < P" "0 \<le> int (be_val r)" by (simp_all add: P_def)
  have v: "int (be_val bs) = P * int n + int (be_val r)"
    unfolding bs be_val_Cons by (simp add: P_def n)
  have P: "0 < P" by (simp add: P_def)
  have iv: "int_value bs = P * int n + int (be_val r) - (if 128 \<le> n then 256 * P else 0)"
    using v n by (simp add: int_value_def bs P_def)
  have len: "256 ^ (length bs - 1) = P" by (simp add: bs P_def)
  show ?thesis
  proof (cases "128 \<le> n")
    case True
    then have "P * 128 \<le> P * int n" "P * (int n + 1) \<le> P * 256"
      using n P by (auto intro: mult_left_mono)
    moreover have "P * (int n + 1) = P * int n + P" by (simp add: algebra_simps)
    moreover have "int_value bs = P * int n + int (be_val r) - 256 * P" using iv True by simp
    ultimately show ?thesis using r unfolding len by linarith
  next
    case False
    then have "P * (int n + 1) \<le> P * 128" "0 \<le> P * int n"
      using P by (auto intro: mult_left_mono)
    moreover have "P * (int n + 1) = P * int n + P" by (simp add: algebra_simps)
    moreover have "int_value bs = P * int n + int (be_val r)" using iv False by simp
    ultimately show ?thesis using r unfolding len by linarith
  qed
qed

lemma valid_integer_Nil [simp]: "CBS_is_valid_asn1_integer [] = None"
  by (simp add: CBS_is_valid_asn1_integer_def)

lemma valid_integer_single [simp]: "CBS_is_valid_asn1_integer [b] = Some (128 \<le> unat b)"
  by (simp add: CBS_is_valid_asn1_integer_def Let_def u8_and_80 not_less)

lemma valid_integer_Cons2 [simp]:
  "CBS_is_valid_asn1_integer (b # c # r) =
     (if (unat b = 0 \<and> unat c < 128) \<or> (unat b = 255 \<and> 128 \<le> unat c) then None
      else Some (128 \<le> unat b))"
  using u8_eq_iff [of b 255] u8_eq_iff [of b 0]
  by (auto simp: CBS_is_valid_asn1_integer_def Let_def u8_and_80 not_less)

lemma valid_integer_sign:
  "CBS_is_valid_asn1_integer c = Some neg \<Longrightarrow> c \<noteq> [] \<and> neg = (128 \<le> unat (hd c)) \<and> neg = (int_value c < 0)"
proof -
  assume v: "CBS_is_valid_asn1_integer c = Some neg"
  then obtain b r where c: "c = b # r" by (cases c) auto
  have neg: "neg = (128 \<le> unat b)" using v by (cases r) (auto simp: c split: if_splits)
  have "int_value c < 0 \<longleftrightarrow> 128 \<le> unat b"
  proof -
    have "int (be_val c) < int (256 ^ length c)" by (rule of_nat_less_iff [THEN iffD2, OF be_val_less])
    then have "int (be_val c) < 256 ^ length c" by simp
    then show ?thesis by (simp add: int_value_def c)
  qed
  with neg c show ?thesis by simp
qed

lemma int_value_Cons:
  "int_value (b # r) = 256 ^ length r * (int (unat b) - (if 128 \<le> unat b then 256 else 0)) + int (be_val r)"
proof -
  have "int (be_val (b # r)) = 256 ^ length r * int (unat b) + int (be_val r)"
    by (simp add: be_val_Cons)
  then show ?thesis by (simp add: int_value_def algebra_simps)
qed

lemma int_value_redundant:
  assumes "(unat b = 0 \<and> unat c < 128) \<or> (unat b = 255 \<and> 128 \<le> unat c)"
  shows "int_value (b # c # r) = int_value (c # r)"
proof -
  obtain m n where mn: "unat b = m" "unat c = n" by blast
  then show ?thesis
    using assms by (auto simp: int_value_Cons be_val_Cons algebra_simps simp del: of_nat_unat)
qed

lemma int_value_large:
  assumes "\<not> ((unat b = 0 \<and> unat c < 128) \<or> (unat b = 255 \<and> 128 \<le> unat c))"
  shows "int_value (b # c # r) \<ge> 128 * 256 ^ length r \<or> int_value (b # c # r) < - (128 * 256 ^ length r)"
proof -
  let ?P = "256 ^ length r :: int" and ?v = "int_value (b # c # r)"
  have rlt: "int (be_val r) < ?P"
    using be_val_less [of r] by (metis of_nat_less_iff of_nat_numeral of_nat_power)
  have r0: "0 \<le> int (be_val r)" by simp
  have P: "0 < ?P" by simp
  define d where "d = 256 * (int (unat b) - (if 128 \<le> unat b then 256 else 0)) + int (unat c)"
  have v: "?v = ?P * d + int (be_val r)"
    unfolding d_def by (simp add: int_value_Cons be_val_Cons algebra_simps)
  obtain m n where mn: "unat b = m" "unat c = n" "m < 256" "n < 256"
    using unat_eight_bit by blast
  have "128 \<le> d \<or> d \<le> - 129"
    using assms mn(3,4) unfolding d_def mn(1,2) by auto
  then show ?thesis
  proof
    assume "128 \<le> d"
    then have "?P * 128 \<le> ?P * d" using P by (intro mult_left_mono) auto
    then show ?thesis using v r0 by linarith
  next
    assume "d \<le> - 129"
    then have "?P * d \<le> ?P * (- 129)" using P by (intro mult_left_mono) auto
    then show ?thesis using v rlt by linarith
  qed
qed

lemma valid_integer_iff_shortest:
  "CBS_is_valid_asn1_integer c \<noteq> None \<longleftrightarrow>
     c \<noteq> [] \<and> (\<forall>c'. c' \<noteq> [] \<longrightarrow> int_value c' = int_value c \<longrightarrow> length c \<le> length c')"
proof (cases c)
  case Nil
  then show ?thesis by simp
next
  case (Cons b r)
  show ?thesis
  proof (cases r)
    case Nil
    then show ?thesis using Cons by (auto simp: Suc_le_eq)
  next
    case (Cons d r')
    note c = \<open>c = b # r\<close> \<open>r = d # r'\<close>
    show ?thesis
    proof (cases "(unat b = 0 \<and> unat d < 128) \<or> (unat b = 255 \<and> 128 \<le> unat d)")
      case True
      then have "int_value r = int_value c" "length r < length c" "r \<noteq> []"
        using int_value_redundant [of b d r'] c by simp_all
      then have "\<not> (\<forall>c'. c' \<noteq> [] \<longrightarrow> int_value c' = int_value c \<longrightarrow> length c \<le> length c')"
        by (metis not_less)
      then show ?thesis using True c by auto
    next
      case False
      have "length c \<le> length c'" if "c' \<noteq> []" "int_value c' = int_value c" for c'
      proof (rule ccontr)
        assume "\<not> length c \<le> length c'"
        then have "length c' - 1 \<le> length r'" using c by simp
        then have "(256::int) ^ (length c' - 1) \<le> 256 ^ length r'" by (rule power_increasing) simp
        then show False
          using int_value_range [OF that(1)] int_value_large [OF False, of r']
          unfolding that(2) c by linarith
      qed
      then show ?thesis using False c by auto
    qed
  qed
qed

lemma valid_integer_unique:
  assumes "CBS_is_valid_asn1_integer c \<noteq> None" "CBS_is_valid_asn1_integer c' \<noteq> None"
    and "int_value c = int_value c'"
  shows "c = c'"
proof -
  have len: "length c = length c'"
    using assms valid_integer_iff_shortest [of c] valid_integer_iff_shortest [of c']
    by (metis le_antisym)
  have ne: "c \<noteq> []" "c' \<noteq> []" using assms by (auto simp: valid_integer_iff_shortest)
  have "(128 \<le> unat (hd c)) = (128 \<le> unat (hd c'))"
    using assms valid_integer_sign by (metis option.exhaust)
  then have "be_val c = be_val c'"
    using assms(3) len ne by (auto simp: int_value_def split: if_splits)
  then show ?thesis by (metis be_bytes_be_val len)
qed

section \<open>Reading an element of a given tag\<close>

lemma any_asn1_element_iff:
  "CBS_get_any_asn1_element s = (Some e, s') \<longleftrightarrow>
     (\<exists>t c. valid_tag t \<and> length c < 2 ^ 32 \<and> e = element_result t c \<and> s = der_element t c @ s')"
  unfolding CBS_get_any_asn1_element_def
  using any_asn1_element_canonical any_asn1_element_der by blast

lemma element_result_simps [simp]:
  "elem_tag (element_result t c) = t"
  "elem_out (element_result t c) = der_element t c"
  "on_object (der_element t c) (CBS_skip (elem_header_len (element_result t c))) s = (Some ((), c), s)"
  by (simp_all add: element_result_def on_object_def CBS_skip_def andthen_apply cbs_get_def
      succeed_def der_element_def)

lemma any_asn1_element_andthen:
  "andthen CBS_get_any_asn1_element f s = (Some a, s') \<longleftrightarrow>
     (\<exists>t c r. valid_tag t \<and> length c < 2 ^ 32 \<and> s = der_element t c @ r \<and>
        f (element_result t c) r = (Some a, s'))"
  unfolding andthen_eq_Some any_asn1_element_iff by blast

lemma CBS_get_any_asn1_iff:
  "CBS_get_any_asn1 s = (Some (c, t), s') \<longleftrightarrow>
     valid_tag t \<and> length c < 2 ^ 32 \<and> s = der_element t c @ s'"
  unfolding CBS_get_any_asn1_def any_asn1_element_andthen
  by (auto simp: andthen_apply require_def split: if_splits)

lemma CBS_get_asn1_iff:
  "CBS_get_asn1 t s = (Some c, s') \<longleftrightarrow>
     valid_tag t \<and> length c < 2 ^ 32 \<and> s = der_element t c @ s'"
  unfolding CBS_get_asn1_def cbs_get_asn1_def any_asn1_element_andthen
  by (auto simp: andthen_apply require_def split: if_splits)

lemma CBS_get_asn1_element_iff:
  "CBS_get_asn1_element t s = (Some e, s') \<longleftrightarrow>
     (\<exists>c. valid_tag t \<and> length c < 2 ^ 32 \<and> e = der_element t c \<and> s = e @ s')"
  unfolding CBS_get_asn1_element_def cbs_get_asn1_def any_asn1_element_andthen
  by (auto simp: andthen_apply require_def split: if_splits)

section \<open>INTEGER values\<close>

lemma valid_tag_simps [simp]:
  "valid_tag CBS_ASN1_INTEGER" "valid_tag CBS_ASN1_BOOLEAN" "valid_tag CBS_ASN1_OCTETSTRING"
  "valid_tag CBS_ASN1_BITSTRING"
  by (simp_all add: valid_tag_def CBS_ASN1_INTEGER_def CBS_ASN1_BOOLEAN_def
      CBS_ASN1_OCTETSTRING_def CBS_ASN1_BITSTRING_def CBS_ASN1_CONSTRUCTED_def)

lemma asn1_uint64_loop_iff:
  "asn1_uint64_loop out bs = Some v \<longleftrightarrow> 256 ^ length bs * unat out + be_val bs = unat v"
proof (induction bs arbitrary: out)
  case Nil
  then show ?case by (auto simp: word_unat_eq_iff)
next
  case (Cons b bs)
  show ?case
  proof (cases "unat out < 2 ^ 56")
    case True
    then have "unat (push_bit 8 out OR ucast b) = 256 * unat out + unat b"
      using unat_push_or [of "ucast b :: u64" 8 out] unat_eight_bit [of b] by simp
    then show ?thesis
      using True Cons.IH [of "push_bit 8 out OR ucast b"]
      by (simp add: drop_bit_eq_0_iff be_val_Cons algebra_simps)
  next
    case False
    then have "256 ^ 1 * 2 ^ 56 \<le> 256 ^ length (b # bs) * unat out"
      by (intro mult_mono power_increasing) auto
    moreover have "(256::nat) ^ 1 * 2 ^ 56 = 2 ^ 64" by simp
    ultimately have "256 ^ length (b # bs) * unat out + be_val (b # bs) \<noteq> unat v"
      using unat_u64_less [of v] by linarith
    then show ?thesis using False by (simp add: drop_bit_eq_0_iff)
  qed
qed

lemma int_value_nonneg:
  "CBS_is_valid_asn1_integer c = Some False \<Longrightarrow> int_value c = int (be_val c)"
  using valid_integer_sign [of c False] by (simp add: int_value_def)

lemma CBS_get_asn1_uint64_iff:
  "CBS_get_asn1_uint64 s = (Some v, s') \<longleftrightarrow>
     (\<exists>c. length c < 2 ^ 32 \<and> s = der_element CBS_ASN1_INTEGER c @ s' \<and>
          CBS_is_valid_asn1_integer c \<noteq> None \<and> int_value c = int (unat v))"
proof -
  have "CBS_is_unsigned_asn1_integer c \<and> asn1_uint64_loop 0 c = Some v \<longleftrightarrow>
      CBS_is_valid_asn1_integer c \<noteq> None \<and> int_value c = int (unat v)" for c
  proof
    assume "CBS_is_unsigned_asn1_integer c \<and> asn1_uint64_loop 0 c = Some v"
    then show "CBS_is_valid_asn1_integer c \<noteq> None \<and> int_value c = int (unat v)"
      unfolding CBS_is_unsigned_asn1_integer_def
      by (metis asn1_uint64_loop_iff int_value_nonneg unat_0 mult_0_right add_0 option.distinct(1))
  next
    assume a: "CBS_is_valid_asn1_integer c \<noteq> None \<and> int_value c = int (unat v)"
    then obtain neg where n: "CBS_is_valid_asn1_integer c = Some neg" by auto
    then have "\<not> neg" using valid_integer_sign [OF n] a by auto
    then have "CBS_is_valid_asn1_integer c = Some False" using n by simp
    moreover from int_value_nonneg [OF this] a have "be_val c = unat v"
      by (simp only: of_nat_eq_iff)
    ultimately show "CBS_is_unsigned_asn1_integer c \<and> asn1_uint64_loop 0 c = Some v"
      by (simp add: CBS_is_unsigned_asn1_integer_def asn1_uint64_loop_iff)
  qed
  then show ?thesis
    by (auto simp: CBS_get_asn1_uint64_def andthen_eq_Some CBS_get_asn1_iff)
qed

lemma sint_u64_cases: "sint (v :: u64) = int (unat v) \<or> sint v = int (unat v) - 2 ^ 64"
proof -
  obtain n where n: "unat v = n" "n < 2 ^ 64" using unat_u64_less by blast
  have "sint v = signed_take_bit 63 (int n)"
    using sint_uint [of v] n(1) by (simp add: uint_nat del: of_nat_unat)
  then have "sint v = (int n + 2 ^ 63) mod 2 ^ 64 - 2 ^ 63"
    by (simp add: signed_take_bit_eq_take_bit_shift take_bit_eq_mod)
  moreover have "(int n + 2 ^ 63) mod 2 ^ 64 = int n + 2 ^ 63 \<or>
      (int n + 2 ^ 63) mod 2 ^ 64 = int n + 2 ^ 63 - 2 ^ 64"
  proof (cases "n < 2 ^ 63")
    case True
    then show ?thesis by (simp add: mod_pos_pos_trivial)
  next
    case False
    then have "(int n + 2 ^ 63) mod 2 ^ 64 = (int n + 2 ^ 63 - 2 ^ 64) mod 2 ^ 64"
      by (intro mod_pos_geq) auto
    then show ?thesis using False n(2) by simp
  qed
  ultimately show ?thesis unfolding n(1) by auto
qed

lemma sint_u64_range: "- (2 ^ 63) \<le> sint (v :: u64) \<and> sint v < 2 ^ 63"
  using sint_ge [of v] sint_lt [of v] by simp

lemma sint_u64_eqI:
  assumes "- (2 ^ 63) \<le> x" "x < 2 ^ 63" "x = int (unat v) \<or> x = int (unat v) - 2 ^ 64"
  shows "sint (v :: u64) = x"
proof -
  obtain n where n: "unat v = n" "n < 2 ^ 64" using unat_u64_less by blast
  show ?thesis
    using assms sint_u64_cases [of v] sint_u64_range [of v] n(2) unfolding n(1) by auto
qed

lemma be_val_replicate_0 [simp]: "be_val (replicate k 0) = 0"
  by (induction k) (simp_all add: be_val_Cons)

lemma be_val_replicate_ff: "be_val (replicate k 0xff) + 1 = 256 ^ k"
  by (induction k) (simp_all add: be_val_Cons)

lemma sign_extend_bytes:
  assumes "length data \<le> 8"
  shows "rev (map (\<lambda>i. if i < length data then data ! (length data - i - 1) else f) [0..<8])
    = replicate (8 - length data) f @ data"
proof (rule nth_equalityI)
  fix i assume "i < length (rev (map (\<lambda>i. if i < length data then data ! (length data - i - 1) else f) [0..<8]))"
  then have i: "i < 8" by simp
  then show "rev (map (\<lambda>i. if i < length data then data ! (length data - i - 1) else f) [0..<8]) ! i =
      (replicate (8 - length data) f @ data) ! i"
    using assms by (auto simp: rev_nth nth_append add.commute)
qed (use assms in simp)

lemma sign_extend_value:
  assumes "CBS_is_valid_asn1_integer c = Some neg" "length c \<le> 8"
  shows "sint (of_nat (be_val (replicate (8 - length c) (if neg then 0xff else 0) @ c)) :: u64) = int_value c"
proof -
  let ?k = "8 - length c" and ?b = "be_val (replicate (8 - length c) (if neg then 0xff else 0) @ c)"
  have ne: "c \<noteq> []" and neg: "neg = (128 \<le> unat (hd c))" using valid_integer_sign [OF assms(1)] by auto
  have "?b < 256 ^ length (replicate ?k (if neg then 0xff else 0 :: u8) @ c)" by (rule be_val_less)
  then have b: "unat (of_nat ?b :: u64) = ?b" using assms(2) by (simp add: unat_of_nat)
  have "(256::int) ^ (length c - 1) \<le> 256 ^ 7" using assms(2) by (intro power_increasing) auto
  then have range: "- (2 ^ 63) \<le> int_value c" "int_value c < 2 ^ 63"
    using int_value_range [OF ne] by simp_all
  have P: "(256::nat) ^ length c * 256 ^ ?k = 2 ^ 64"
    using assms(2) by (simp add: power_add [symmetric])
  show ?thesis
  proof (rule sint_u64_eqI [OF range], unfold b)
    show "int_value c = int ?b \<or> int_value c = int ?b - 2 ^ 64"
    proof (cases neg)
      case False
      then show ?thesis using neg by (simp add: int_value_def be_val_append)
    next
      case True
      have "256 ^ length c * be_val (replicate ?k 0xff) + 256 ^ length c = (2::nat) ^ 64"
        using P be_val_replicate_ff [of ?k] by (metis add_mult_distrib2 mult.right_neutral)
      then have "?b + 256 ^ length c = 2 ^ 64 + be_val c"
        using True by (simp add: be_val_append)
      then have "int (?b + 256 ^ length c) = int (2 ^ 64 + be_val c)" by (rule arg_cong)
      then have "int ?b + 256 ^ length c = 2 ^ 64 + int (be_val c)" by simp
      then show ?thesis using True neg ne by (simp add: int_value_def)
    qed
  qed
qed


lemma CBS_get_asn1_int64_iff:
  "CBS_get_asn1_int64 s = (Some v, s') \<longleftrightarrow>
     (\<exists>c. length c < 2 ^ 32 \<and> s = der_element CBS_ASN1_INTEGER c @ s' \<and>
          CBS_is_valid_asn1_integer c \<noteq> None \<and> int_value c = sint v)"
proof -
  let ?val = "\<lambda>c neg. of_nat (be_val (replicate (8 - length c) (if neg then 0xff else 0) @ c)) :: u64"
  have short: "length c \<le> 8" if c: "CBS_is_valid_asn1_integer c \<noteq> None" "int_value c = sint v" for c
  proof (rule ccontr)
    assume long: "\<not> length c \<le> 8"
    then obtain b d r where cs: "c = b # d # r" by (cases c; cases "tl c") auto
    have "(256::int) ^ 7 \<le> 256 ^ length r" using long cs by (intro power_increasing) auto
    moreover have "int_value c \<ge> 128 * 256 ^ length r \<or> int_value c < - (128 * 256 ^ length r)"
      using int_value_large [of b d r] c(1) unfolding cs by (auto split: if_splits)
    ultimately show False
      using sint_u64_range [of v] c(2) by auto
  qed
  have "(\<exists>neg. CBS_is_valid_asn1_integer c = Some neg \<and> length c \<le> 8 \<and> v = ?val c neg) \<longleftrightarrow>
      CBS_is_valid_asn1_integer c \<noteq> None \<and> int_value c = sint v" for c
  proof
    assume "\<exists>neg. CBS_is_valid_asn1_integer c = Some neg \<and> length c \<le> 8 \<and> v = ?val c neg"
    then show "CBS_is_valid_asn1_integer c \<noteq> None \<and> int_value c = sint v"
      using sign_extend_value by auto
  next
    assume a: "CBS_is_valid_asn1_integer c \<noteq> None \<and> int_value c = sint v"
    then obtain neg where n: "CBS_is_valid_asn1_integer c = Some neg" by auto
    moreover have l: "length c \<le> 8" using short a by blast
    moreover have "v = ?val c neg"
    proof (rule signed_word_eqI)
      show "sint v = sint (?val c neg)" using sign_extend_value [OF n l] a by simp
    qed
    ultimately show "\<exists>neg. CBS_is_valid_asn1_integer c = Some neg \<and> length c \<le> 8 \<and> v = ?val c neg"
      by blast
  qed
  moreover have "(case CBS_is_valid_asn1_integer c of None \<Rightarrow> failure
      | Some is_negative \<Rightarrow> let len = length c
         in if len > 8 then failure
            else let sign_extend = map (\<lambda>i. if i < len then c ! (len - i - 1) else if is_negative then 0xff else 0) [0..<8]
                 in succeed (of_nat (be_val (rev sign_extend)))) r = (Some v, s') \<longleftrightarrow>
      r = s' \<and> (\<exists>neg. CBS_is_valid_asn1_integer c = Some neg \<and> length c \<le> 8 \<and> v = ?val c neg)" for c r
  proof (cases "CBS_is_valid_asn1_integer c")
    case None
    then show ?thesis by simp
  next
    case (Some neg)
    show ?thesis
    proof (cases "length c \<le> 8")
      case True
      then show ?thesis
        unfolding Some option.case Let_def sign_extend_bytes [OF True] by auto
    qed (simp add: Some Let_def)
  qed
  ultimately show ?thesis
    unfolding CBS_get_asn1_int64_def andthen_eq_Some CBS_get_asn1_iff by auto
qed

section \<open>BOOLEAN and BIT STRING\<close>

lemma get_asn1_bool_iff:
  "CBS_get_asn1_bool s = (Some b, s') \<longleftrightarrow> s = der_element CBS_ASN1_BOOLEAN [if b then 0xff else 0] @ s'"
proof
  assume "CBS_get_asn1_bool s = (Some b, s')"
  then obtain c where c: "s = der_element CBS_ASN1_BOOLEAN c @ s'" "length c = 1" "c ! 0 = 0 \<or> c ! 0 = 0xff"
      "b = (c ! 0 \<noteq> 0)"
    by (auto simp: CBS_get_asn1_bool_def andthen_eq_Some CBS_get_asn1_iff Let_def succeed_def failure_def
        split: if_splits)
  then have "c = [if b then 0xff else 0]" by (cases c) auto
  then show "s = der_element CBS_ASN1_BOOLEAN [if b then 0xff else 0] @ s'" using c(1) by simp
next
  assume "s = der_element CBS_ASN1_BOOLEAN [if b then 0xff else 0] @ s'"
  then have "CBS_get_asn1 CBS_ASN1_BOOLEAN s = (Some [if b then 0xff else 0], s')"
    unfolding CBS_get_asn1_iff by simp
  then show "CBS_get_asn1_bool s = (Some b, s')"
    by (simp add: CBS_get_asn1_bool_def andthen_apply require_def succeed_def)
qed

lemma push_bit_one_and: "k < 8 \<Longrightarrow> (x :: u8) AND push_bit k 1 \<noteq> 0 \<longleftrightarrow> bit x k"
  by (simp add: push_bit_eq_mult and_exp_eq_0_iff_not_bit)

lemma unused_bits_zero:
  assumes "CBS_is_valid_asn1_bitstring (n # r)" "n \<noteq> 0" "k < unat n"
  shows "r \<noteq> [] \<and> \<not> bit (last r) k"
proof -
  have n: "n \<le> 7" "unat n \<le> 7" using assms by (auto simp: CBS_is_valid_asn1_bitstring_def word_less_nat_alt word_le_nat_alt not_less split: if_splits)
  have "r \<noteq> [] \<and> last r AND (push_bit (unat n) 1 - 1) = 0"
    using assms n by (cases r) (auto simp: CBS_is_valid_asn1_bitstring_def CBS_get_last_u8_def word_less_nat_alt last_conv_nth
        split: if_splits prod.splits option.splits)
  moreover have "push_bit (unat n) 1 - 1 = (mask (unat n) :: u8)"
    by (simp add: mask_eq_exp_minus_1 push_bit_eq_mult)
  moreover have "bit (last r AND mask (unat n)) k \<longleftrightarrow> bit (last r) k"
    using assms(3) n by (simp add: bit_simps)
  ultimately show ?thesis by (metis bit_0_eq bot_apply bot_bool_def)
qed

lemma has_bit_position:
  assumes "CBS_asn1_bitstring_has_bit cbs i"
  shows "CBS_is_valid_asn1_bitstring cbs \<and> unat i div 8 + 1 < length cbs \<and>
    bit (cbs ! (unat i div 8 + 1)) (7 - unat i mod 8)"
proof -
  have n: "unat (drop_bit 3 i + 1) = unat i div 8 + 1"
  proof -
    have "unat (drop_bit 3 i) = unat i div 8" by (simp add: unat_drop_bit)
    moreover have "unat i div 8 + 1 < 2 ^ 32" using unat_u32_less [of i] by simp
    ultimately show ?thesis by (simp add: unat_word_ariths)
  qed
  have "unat (i AND 7) = unat i mod 8" using unat_and_eq_mod [of 7 3 i] by (simp add: mask_eq_exp_minus_1)
  moreover have "(i AND 7) \<le> 7" using calculation by (simp add: word_le_nat_alt)
  ultimately have b: "unat (7 - (i AND 7)) = 7 - unat i mod 8" by (simp add: unat_sub)
  show ?thesis
    using assms push_bit_one_and [of "7 - unat i mod 8"]
    unfolding CBS_asn1_bitstring_has_bit_def Let_def n b by (auto split: if_splits)
qed

section \<open>Properties\<close>

text \<open>C2. The DER element readers accept exactly the canonical encodings, no other encoding of
  a value and no truncated one, and leave exactly what follows the element. The readers
  return the whole element with its header length, its contents and tag, its contents under
  an expected tag, and the whole element under an expected tag.\<close>

theorem der_readers_exact:
  "(CBS_get_any_asn1_element s = (Some e, s') \<longleftrightarrow>
      (\<exists>t c. valid_tag t \<and> length c < 2 ^ 32 \<and> e = element_result t c \<and> s = der_element t c @ s')) \<and>
   (CBS_get_any_asn1 s = (Some (c, t), s') \<longleftrightarrow>
      valid_tag t \<and> length c < 2 ^ 32 \<and> s = der_element t c @ s') \<and>
   (CBS_get_asn1 t s = (Some c, s') \<longleftrightarrow>
      valid_tag t \<and> length c < 2 ^ 32 \<and> s = der_element t c @ s') \<and>
   (CBS_get_asn1_element t s = (Some c, s') \<longleftrightarrow>
      (\<exists>c'. valid_tag t \<and> length c' < 2 ^ 32 \<and> c = der_element t c' \<and> s = c @ s'))"
  unfolding any_asn1_element_iff CBS_get_any_asn1_iff CBS_get_asn1_iff CBS_get_asn1_element_iff
  by (rule conjI, rule refl)+ (rule refl)

text \<open>An INTEGER is accepted exactly when it is the shortest two's complement of its value:
  it is non-empty, and no other non-empty contents with the same value are shorter.\<close>

theorem integer_shortest:
  "CBS_is_valid_asn1_integer c \<noteq> None \<longleftrightarrow>
     c \<noteq> [] \<and> (\<forall>c'. c' \<noteq> [] \<longrightarrow> int_value c' = int_value c \<longrightarrow> length c \<le> length c')"
  by (rule valid_integer_iff_shortest)

theorem integer_shortest_witness:
  "CBS_is_valid_asn1_integer [0, 0x80] \<noteq> None \<and> length [0, 0x80 :: u8] \<le> length [0, 0, 0x80 :: u8]"
proof -
  have "CBS_is_valid_asn1_integer [0, 0x80] \<noteq> None" by simp
  moreover have "int_value [0, 0, 0x80] = int_value [0, 0x80]" by (rule int_value_redundant) simp
  ultimately show ?thesis using integer_shortest [of "[0, 0x80]"] by blast
qed


text \<open>A BOOLEAN is accepted exactly as one of the two DER values 00 and ff.\<close>

theorem get_asn1_bool_exact:
  "CBS_get_asn1_bool s = (Some b, s') \<longleftrightarrow> s = der_element CBS_ASN1_BOOLEAN [if b then 0xff else 0] @ s'"
  by (rule get_asn1_bool_iff)

text \<open>A bit is only reported as set when it exists: the query refuses a malformed BIT
  STRING, and a set bit lies before the unused bits at the end, in the byte and position its
  number says, counting from the most significant bit of the first byte.\<close>

theorem bitstring_bit_exists:
  assumes "CBS_asn1_bitstring_has_bit cbs i"
  shows "CBS_is_valid_asn1_bitstring cbs \<and> unat i + unat (hd cbs) < 8 * (length cbs - 1) \<and>
    bit (cbs ! (unat i div 8 + 1)) (7 - unat i mod 8)"
proof -
  note pos = has_bit_position [OF assms]
  then obtain n r where cbs: "cbs = n # r" by (cases cbs) auto
  have in_r: "unat i div 8 < length r" using pos cbs by simp
  have "unat i + unat n < 8 * length r"
  proof (rule ccontr)
    assume no: "\<not> unat i + unat n < 8 * length r"
    have n7: "unat n \<le> 7"
      using pos cbs by (auto simp: CBS_is_valid_asn1_bitstring_def word_le_nat_alt not_less split: if_splits)
    define q m where "q = unat i div 8" and "m = unat i mod 8"
    have qm: "unat i = 8 * q + m" "m < 8" by (simp_all add: q_def m_def)
    have eq: "unat i div 8 = length r - 1" "7 - unat i mod 8 < unat n"
      using no in_r n7 qm unfolding q_def [symmetric] m_def [symmetric] by linarith+
    then have "n \<noteq> 0" by auto
    from unused_bits_zero [of n r, OF _ this eq(2)] pos cbs have "r \<noteq> []" "\<not> bit (last r) (7 - unat i mod 8)" by auto
    then show False using pos eq(1) by (simp add: cbs last_conv_nth)
  qed
  with pos cbs show ?thesis by simp
qed

theorem bitstring_bit_exists_witness:
  "unat (2 :: u32) + unat (hd [4, 0x30 :: u8]) < 8 * (length [4, 0x30 :: u8] - 1)"
proof -
  have "CBS_asn1_bitstring_has_bit [4, 0x30] 2"
    by (simp add: CBS_asn1_bitstring_has_bit_def CBS_is_valid_asn1_bitstring_def CBS_get_last_u8_def)
  from bitstring_bit_exists [OF this] show ?thesis by blast
qed

end
