(* ===== verification/Sink.thy ===== *)
theory Sink
  imports Prelude
begin

text \<open>
  The interface between a component that produces bytes one at a time and the buffer it
  writes them to. The library has two such buffers, BoringSSL's \<open>CBB\<close> and nanopb's
  \<open>pb_ostream_t\<close>; the routines that emit variable-length encodings are proved against
  this interface once.
\<close>

primrec put_all :: "('a \<Rightarrow> ('s, unit) routine) \<Rightarrow> 'a list \<Rightarrow> ('s, unit) routine" where
  "put_all put [] = succeed ()"
| "put_all put (b # bs) = andthen (put b) (\<lambda>_. put_all put bs)"

lemma put_all_append:
  "put_all put (xs @ ys) = andthen (put_all put xs) (\<lambda>_. put_all put ys)"
  by (induction xs) (auto simp: andthen_def succeed_def fun_eq_iff split: prod.splits option.splits)

locale byte_sink =
  fixes put :: "u8 \<Rightarrow> ('s, unit) routine"
    and contents :: "'s \<Rightarrow> bytes"
    and ready :: "'s \<Rightarrow> bool"
    and room :: "'s \<Rightarrow> nat \<Rightarrow> bool"
  assumes put_contents: "ready s \<Longrightarrow> put b s = (Some (), s') \<Longrightarrow> contents s' = contents s @ [b] \<and> ready s'"
    and put_room: "ready s \<Longrightarrow> room s (Suc n) \<Longrightarrow> \<exists>s'. put b s = (Some (), s') \<and> room s' n"
begin

lemma put_all_contents:
  "ready s \<Longrightarrow> put_all put bs s = (Some (), s') \<Longrightarrow> contents s' = contents s @ bs \<and> ready s'"
proof (induction bs arbitrary: s)
  case Nil
  then show ?case by simp
next
  case (Cons b bs)
  then obtain s1 where s1: "put b s = (Some (), s1)" "put_all put bs s1 = (Some (), s')"
    by (auto simp: andthen_eq_Some)
  from put_contents [OF Cons.prems(1) s1(1)] Cons.IH [OF _ s1(2)] show ?case by simp
qed

lemma put_all_room:
  "ready s \<Longrightarrow> room s (length bs + n) \<Longrightarrow> \<exists>s'. put_all put bs s = (Some (), s') \<and> room s' n"
proof (induction bs arbitrary: s)
  case Nil
  then show ?case by (simp add: succeed_def)
next
  case (Cons b bs)
  then obtain s1 where s1: "put b s = (Some (), s1)" "room s1 (length bs + n)"
    using put_room [of s "length bs + n" b] by auto
  with Cons.IH [OF _ s1(2)] put_contents [OF Cons.prems(1) s1(1)] show ?case
    by (simp add: andthen_apply)
qed

end

end
