(* ===== verification/CBB.thy ===== *)
theory CBB
  imports CBS_ASN1 Sink
begin

text \<open>
  The byte-string builder of BoringSSL, crypto/bytestring/cbb.c. One buffer is shared by a
  root \<open>CBB\<close> and the chain of its open children; the state is the buffer with that chain,
  root's child first. A \<open>CBB *\<close> is its depth in the chain: 0 is the root and \<open>d + 1\<close> the
  child of the \<open>CBB\<close> at depth \<open>d\<close>. A depth beyond the chain is a child that has been
  flushed, whose \<open>base\<close> is null. \<open>buf\<close> holds the \<open>len\<close> bytes written so far; the
  allocator is the parameter \<open>al\<close>, and \<open>size_t\<close> has 64 bits.
\<close>

record cbb_buffer =
  buf :: bytes
  cap :: nat
  can_resize :: bool
  error :: bool

record cbb_child =
  offset :: nat
  pending_len_len :: nat
  pending_is_asn1 :: bool

record cbb =
  base :: cbb_buffer
  chain :: "cbb_child list"

definition cbb_init :: "nat \<Rightarrow> bool \<Rightarrow> cbb" where
  "cbb_init cap0 can_resize0 =
     \<lparr>base = \<lparr>buf = [], cap = cap0, can_resize = can_resize0, error = False\<rparr>, chain = []\<rparr>"

definition CBB_init :: "(nat \<Rightarrow> bool) \<Rightarrow> nat \<Rightarrow> cbb option" where
  "CBB_init al initial_capacity =
     (if initial_capacity > 0 \<and> \<not> al initial_capacity then None
      else Some (cbb_init initial_capacity True))"

definition CBB_init_fixed :: "nat \<Rightarrow> cbb" where
  "CBB_init_fixed len = cbb_init len False"

definition cbb_buffer_reserve :: "(nat \<Rightarrow> bool) \<Rightarrow> nat \<Rightarrow> (cbb_buffer, unit) routine" where
  "cbb_buffer_reserve al len = (\<lambda>b.
     let newlen = (length (buf b) + len) mod 2 ^ 64 in
     if newlen < length (buf b) then (None, b\<lparr>error := True\<rparr>)
     else if newlen > cap b then
       if \<not> can_resize b then (None, b\<lparr>error := True\<rparr>)
       else
         let newcap0 = cap b * 2 mod 2 ^ 64;
             newcap = (if newcap0 < cap b \<or> newcap0 < newlen then newlen else newcap0)
         in if \<not> al newcap then (None, b\<lparr>error := True\<rparr>)
            else (Some (), b\<lparr>cap := newcap\<rparr>)
     else (Some (), b))"

text \<open>The added bytes are zero until the caller stores its own; no caller reads them before.\<close>

definition cbb_buffer_add :: "(nat \<Rightarrow> bool) \<Rightarrow> nat \<Rightarrow> (cbb_buffer, unit) routine" where
  "cbb_buffer_add al len = andthen (cbb_buffer_reserve al len)
     (\<lambda>_ b. (Some (), b\<lparr>buf := buf b @ replicate len 0\<rparr>))"

definition memmove :: "bytes \<Rightarrow> nat \<Rightarrow> nat \<Rightarrow> nat \<Rightarrow> bytes" where
  "memmove xs dst src n = take dst xs @ take n (drop src xs) @ drop (dst + n) xs"

primrec store_length :: "bytes \<Rightarrow> nat \<Rightarrow> nat \<Rightarrow> nat \<Rightarrow> bytes \<times> nat" where
  "store_length xs off 0 len = (xs, len)"
| "store_length xs off (Suc i) len = store_length (xs[off + i := of_nat len]) off i (len div 256)"

definition asn1_length_prefix :: "nat \<Rightarrow> (nat \<times> u8 \<times> nat) option" where
  "asn1_length_prefix len =
     (if len > 0xfffffffe then None
      else if len > 0xffffff then Some (5, 0x80 OR 4, len)
      else if len > 0xffff then Some (4, 0x80 OR 3, len)
      else if len > 0xff then Some (3, 0x80 OR 2, len)
      else if len > 0x7f then Some (2, 0x80 OR 1, len)
      else Some (1, of_nat len, 0))"

definition cbb_store_prefix :: "nat \<Rightarrow> nat \<Rightarrow> nat \<Rightarrow> (cbb_buffer, unit) routine" where
  "cbb_store_prefix off pending len = (\<lambda>b.
     case store_length (buf b) off pending len of
       (xs, rest) \<Rightarrow> (if rest \<noteq> 0 then None else Some (), b\<lparr>buf := xs\<rparr>))"

definition cbb_finish_child :: "(nat \<Rightarrow> bool) \<Rightarrow> cbb_child \<Rightarrow> (cbb_buffer, unit) routine" where
  "cbb_finish_child al c = (\<lambda>b.
     let child_start = (offset c + pending_len_len c) mod 2 ^ 64 in
     if child_start < offset c \<or> length (buf b) < child_start then (None, b)
     else
       let len = length (buf b) - child_start in
       if pending_is_asn1 c then
         (case asn1_length_prefix len of
            None \<Rightarrow> (None, b)
          | Some (len_len, initial_length_byte, len) \<Rightarrow>
            let extra_bytes = len_len - 1 in
            andthen
              (if len_len \<noteq> 1
               then andthen (cbb_buffer_add al extra_bytes) (\<lambda>_ b.
                      (Some (), b\<lparr>buf := memmove (buf b) (child_start + extra_bytes) child_start len\<rparr>))
               else succeed ())
              (\<lambda>_. andthen (\<lambda>b. (Some (), b\<lparr>buf := (buf b)[offset c := initial_length_byte]\<rparr>))
              (\<lambda>_. cbb_store_prefix (offset c + 1) (len_len - 1) len)) b)
       else cbb_store_prefix (offset c) (pending_len_len c) len b)"

text \<open>
  \<open>CBB_flush\<close> calls itself on the child before it writes the child's length; each level
  checks the error bit first and sets it when something below it fails.
\<close>

fun cbb_flush_chain :: "(nat \<Rightarrow> bool) \<Rightarrow> cbb_child list \<Rightarrow> (cbb_buffer, unit) routine" where
  "cbb_flush_chain al [] b = (if error b then (None, b) else (Some (), b))"
| "cbb_flush_chain al (c # cs) b =
     (if error b then (None, b)
      else case andthen (cbb_flush_chain al cs) (\<lambda>_. cbb_finish_child al c) b of
             (None, b) \<Rightarrow> (None, b\<lparr>error := True\<rparr>)
           | (Some u, b) \<Rightarrow> (Some u, b))"

definition CBB_flush :: "(nat \<Rightarrow> bool) \<Rightarrow> nat \<Rightarrow> (cbb, unit) routine" where
  "CBB_flush al d = (\<lambda>s.
     if length (chain s) < d \<or> error (base s) then (None, s)
     else case cbb_flush_chain al (drop d (chain s)) (base s) of
            (r, b) \<Rightarrow> (r, s\<lparr>base := b, chain := take d (chain s)\<rparr>))"

definition CBB_finish :: "(nat \<Rightarrow> bool) \<Rightarrow> nat \<Rightarrow> bool \<Rightarrow> (cbb, bytes) routine" where
  "CBB_finish al d have_outputs =
     andthen (require (d = 0)) (\<lambda>_.
     andthen (CBB_flush al d) (\<lambda>_ s.
     if can_resize (base s) \<and> \<not> have_outputs then (None, s)
     else (Some (buf (base s)), s)))"

definition cbb_on_error :: "nat \<Rightarrow> cbb \<Rightarrow> cbb" where
  "cbb_on_error d s = s\<lparr>base := (base s)\<lparr>error := True\<rparr>, chain := take d (chain s)\<rparr>"

text \<open>Lifting a buffer routine to the \<open>CBB\<close> at depth \<open>d\<close>; its base is null if it was flushed.\<close>

definition on_base :: "nat \<Rightarrow> (cbb_buffer, 'a) routine \<Rightarrow> (cbb, 'a) routine" where
  "on_base d m = (\<lambda>s. if length (chain s) < d then (None, s)
     else case m (base s) of (r, b) \<Rightarrow> (r, s\<lparr>base := b\<rparr>))"

definition cbb_start :: "cbb \<Rightarrow> nat \<Rightarrow> nat" where
  "cbb_start s d = (if d = 0 then 0 else let c = chain s ! (d - 1) in offset c + pending_len_len c)"

definition CBB_data :: "cbb \<Rightarrow> nat \<Rightarrow> bytes" where
  "CBB_data s d = drop (cbb_start s d) (buf (base s))"

definition CBB_len :: "cbb \<Rightarrow> nat \<Rightarrow> nat" where
  "CBB_len s d = length (buf (base s)) - cbb_start s d"

definition cbb_add_child :: "(nat \<Rightarrow> bool) \<Rightarrow> nat \<Rightarrow> nat \<Rightarrow> bool \<Rightarrow> (cbb, nat) routine" where
  "cbb_add_child al d len_len is_asn1 = (\<lambda>s.
     let off = length (buf (base s)) in
     andthen (on_base d (cbb_buffer_add al len_len)) (\<lambda>_ s.
       (Some (d + 1), s\<lparr>chain := chain s @
          [\<lparr>offset = off, pending_len_len = len_len, pending_is_asn1 = is_asn1\<rparr>]\<rparr>)) s)"

definition cbb_add_length_prefixed :: "(nat \<Rightarrow> bool) \<Rightarrow> nat \<Rightarrow> nat \<Rightarrow> (cbb, nat) routine" where
  "cbb_add_length_prefixed al d len_len =
     andthen (CBB_flush al d) (\<lambda>_. cbb_add_child al d len_len False)"

definition CBB_add_u8_length_prefixed :: "(nat \<Rightarrow> bool) \<Rightarrow> nat \<Rightarrow> (cbb, nat) routine" where
  "CBB_add_u8_length_prefixed al d = cbb_add_length_prefixed al d 1"

definition CBB_add_u16_length_prefixed :: "(nat \<Rightarrow> bool) \<Rightarrow> nat \<Rightarrow> (cbb, nat) routine" where
  "CBB_add_u16_length_prefixed al d = cbb_add_length_prefixed al d 2"

definition CBB_add_u24_length_prefixed :: "(nat \<Rightarrow> bool) \<Rightarrow> nat \<Rightarrow> (cbb, nat) routine" where
  "CBB_add_u24_length_prefixed al d = cbb_add_length_prefixed al d 3"

text \<open>\<open>CBB_add_space\<close> with the bytes the caller stores in the space it gets.\<close>

definition CBB_add_space :: "(nat \<Rightarrow> bool) \<Rightarrow> nat \<Rightarrow> bytes \<Rightarrow> (cbb, unit) routine" where
  "CBB_add_space al d data =
     andthen (CBB_flush al d) (\<lambda>_.
     andthen (on_base d (cbb_buffer_add al (length data))) (\<lambda>_ s.
     let b = base s; n = length (buf b) - length data
     in (Some (), s\<lparr>base := b\<lparr>buf := take n (buf b) @ data\<rparr>\<rparr>)))"

definition CBB_add_bytes :: "(nat \<Rightarrow> bool) \<Rightarrow> nat \<Rightarrow> bytes \<Rightarrow> (cbb, unit) routine" where
  "CBB_add_bytes al d data = CBB_add_space al d data"

definition CBB_add_zeros :: "(nat \<Rightarrow> bool) \<Rightarrow> nat \<Rightarrow> nat \<Rightarrow> (cbb, unit) routine" where
  "CBB_add_zeros al d len = CBB_add_space al d (replicate len 0)"

definition CBB_reserve :: "(nat \<Rightarrow> bool) \<Rightarrow> nat \<Rightarrow> nat \<Rightarrow> (cbb, unit) routine" where
  "CBB_reserve al d len = andthen (CBB_flush al d) (\<lambda>_. on_base d (cbb_buffer_reserve al len))"

text \<open>\<open>CBB_did_write\<close> with the bytes that were stored in the reserved space.\<close>

definition CBB_did_write :: "nat \<Rightarrow> bytes \<Rightarrow> (cbb, unit) routine" where
  "CBB_did_write d data = (\<lambda>s.
     let b = base s; newlen = (length (buf b) + length data) mod 2 ^ 64
     in if length (chain s) \<noteq> d \<or> newlen < length (buf b) \<or> newlen > cap b then (None, s)
        else (Some (), s\<lparr>base := b\<lparr>buf := buf b @ data\<rparr>\<rparr>))"

primrec store_be :: "nat \<Rightarrow> u64 \<Rightarrow> bytes \<times> u64" where
  "store_be 0 v = ([], v)"
| "store_be (Suc i) v = (case store_be i (drop_bit 8 v) of (bs, rest) \<Rightarrow> (bs @ [ucast v], rest))"

definition cbb_add_u :: "(nat \<Rightarrow> bool) \<Rightarrow> nat \<Rightarrow> u64 \<Rightarrow> nat \<Rightarrow> (cbb, unit) routine" where
  "cbb_add_u al d v len_len =
     (case store_be len_len v of (bs, rest) \<Rightarrow>
        andthen (CBB_add_space al d bs) (\<lambda>_ s.
        if rest \<noteq> 0 then (None, cbb_on_error d s) else (Some (), s)))"

definition CBB_add_u8 :: "(nat \<Rightarrow> bool) \<Rightarrow> nat \<Rightarrow> u8 \<Rightarrow> (cbb, unit) routine" where
  "CBB_add_u8 al d v = cbb_add_u al d (ucast v) 1"

definition CBB_add_u16 :: "(nat \<Rightarrow> bool) \<Rightarrow> nat \<Rightarrow> u16 \<Rightarrow> (cbb, unit) routine" where
  "CBB_add_u16 al d v = cbb_add_u al d (ucast v) 2"

definition CBB_add_u16le :: "(nat \<Rightarrow> bool) \<Rightarrow> nat \<Rightarrow> u16 \<Rightarrow> (cbb, unit) routine" where
  "CBB_add_u16le al d v = CBB_add_u16 al d (CRYPTO_bswap2 v)"

definition CBB_add_u24 :: "(nat \<Rightarrow> bool) \<Rightarrow> nat \<Rightarrow> u32 \<Rightarrow> (cbb, unit) routine" where
  "CBB_add_u24 al d v = cbb_add_u al d (ucast v) 3"

definition CBB_add_u32 :: "(nat \<Rightarrow> bool) \<Rightarrow> nat \<Rightarrow> u32 \<Rightarrow> (cbb, unit) routine" where
  "CBB_add_u32 al d v = cbb_add_u al d (ucast v) 4"

definition CBB_add_u32le :: "(nat \<Rightarrow> bool) \<Rightarrow> nat \<Rightarrow> u32 \<Rightarrow> (cbb, unit) routine" where
  "CBB_add_u32le al d v = CBB_add_u32 al d (CRYPTO_bswap4 v)"

definition CBB_add_u64 :: "(nat \<Rightarrow> bool) \<Rightarrow> nat \<Rightarrow> u64 \<Rightarrow> (cbb, unit) routine" where
  "CBB_add_u64 al d v = cbb_add_u al d v 8"

definition CBB_add_u64le :: "(nat \<Rightarrow> bool) \<Rightarrow> nat \<Rightarrow> u64 \<Rightarrow> (cbb, unit) routine" where
  "CBB_add_u64le al d v = CBB_add_u64 al d (CRYPTO_bswap8 v)"

definition CBB_discard_child :: "nat \<Rightarrow> cbb \<Rightarrow> cbb" where
  "CBB_discard_child d s =
     (if length (chain s) \<le> d then s
      else s\<lparr>base := (base s)\<lparr>buf := take (offset (chain s ! d)) (buf (base s))\<rparr>,
             chain := take d (chain s)\<rparr>)"

section \<open>Tags and base-128 integers\<close>

function base128_len :: "u64 \<Rightarrow> nat" where
  "base128_len copy = (if copy > 0 then Suc (base128_len (drop_bit 7 copy)) else 0)"
  by pat_completeness auto
termination
proof (relation "measure unat")
  fix copy :: u64
  assume "0 < copy"
  then have "0 < unat copy" by (simp add: word_less_nat_alt)
  then have "unat copy div 2 ^ 7 < unat copy" by (intro div_less_dividend) auto
  then show "(drop_bit 7 copy, copy) \<in> measure unat" by (simp add: unat_drop_bit)
qed simp

declare base128_len.simps [simp del]

primrec add_base128_loop :: "(nat \<Rightarrow> bool) \<Rightarrow> nat \<Rightarrow> u64 \<Rightarrow> nat \<Rightarrow> (cbb, unit) routine" where
  "add_base128_loop al d v 0 = succeed ()"
| "add_base128_loop al d v (Suc i) =
     (let byte = ucast (drop_bit (7 * i) v AND 0x7f) :: u8;
          byte = (if i \<noteq> 0 then byte OR 0x80 else byte)
      in andthen (CBB_add_u8 al d byte) (\<lambda>_. add_base128_loop al d v i))"

definition add_base128_integer :: "(nat \<Rightarrow> bool) \<Rightarrow> nat \<Rightarrow> u64 \<Rightarrow> (cbb, unit) routine" where
  "add_base128_integer al d v =
     (let len_len = base128_len v
      in add_base128_loop al d v (if len_len = 0 then 1 else len_len))"

definition CBB_add_asn1 :: "(nat \<Rightarrow> bool) \<Rightarrow> nat \<Rightarrow> cbs_asn1_tag \<Rightarrow> (cbb, nat) routine" where
  "CBB_add_asn1 al d tag =
     andthen (CBB_flush al d) (\<lambda>_.
     let tag_bits = ucast (drop_bit 24 tag AND 0xe0) :: u8;
         tag_number = tag AND CBS_ASN1_TAG_NUMBER_MASK
     in andthen
          (if tag_number \<ge> 0x1f
           then andthen (CBB_add_u8 al d (tag_bits OR 0x1f)) (\<lambda>_.
                  add_base128_integer al d (ucast tag_number))
           else CBB_add_u8 al d (tag_bits OR ucast tag_number))
          (\<lambda>_. cbb_add_child al d 1 True))"

section \<open>The buffer\<close>

definition cbb_buffer_ok :: "cbb_buffer \<Rightarrow> bool" where
  "cbb_buffer_ok b \<longleftrightarrow> length (buf b) \<le> cap b \<and> cap b < 2 ^ 64"

definition buffer_room :: "(nat \<Rightarrow> bool) \<Rightarrow> cbb_buffer \<Rightarrow> nat \<Rightarrow> bool" where
  "buffer_room al b n \<longleftrightarrow> \<not> error b \<and> length (buf b) + n < 2 ^ 64 \<and>
     (length (buf b) + n \<le> cap b \<or> can_resize b \<and> (\<forall>m. al m))"

lemma reserve_frame:
  "cbb_buffer_reserve al len b = (r, b') \<Longrightarrow>
     buf b' = buf b \<and> can_resize b' = can_resize b \<and> error b' = (error b \<or> r = None)"
  by (auto simp: cbb_buffer_reserve_def Let_def split: if_splits)

lemma reserve_ok:
  "cbb_buffer_reserve al len b = (r, b') \<Longrightarrow> cbb_buffer_ok b \<Longrightarrow>
     cbb_buffer_ok b' \<and> (r \<noteq> None \<longrightarrow> length (buf b) + len < 2 ^ 64 \<longrightarrow> length (buf b) + len \<le> cap b')"
  by (auto simp: cbb_buffer_reserve_def cbb_buffer_ok_def Let_def split: if_splits)

lemma reserve_room:
  "buffer_room al b (len + n) \<Longrightarrow>
     \<exists>b'. cbb_buffer_reserve al len b = (Some (), b') \<and> buf b' = buf b \<and> can_resize b' = can_resize b \<and>
          error b' = error b \<and> (length (buf b) + (len + n) \<le> cap b' \<or> can_resize b \<and> (\<forall>m. al m))"
  by (auto simp: cbb_buffer_reserve_def buffer_room_def Let_def)

lemma buffer_add_eq_Some:
  "cbb_buffer_add al len b = (Some u, b') \<Longrightarrow>
     buf b' = buf b @ replicate len 0 \<and> can_resize b' = can_resize b \<and> error b' = error b"
  by (auto simp: cbb_buffer_add_def andthen_eq_Some dest: reserve_frame)

lemma buffer_add_room:
  "buffer_room al b (len + n) \<Longrightarrow>
     \<exists>b'. cbb_buffer_add al len b = (Some (), b') \<and> buf b' = buf b @ replicate len 0 \<and>
          buffer_room al b' n"
  using reserve_room [of al b len n]
  by (auto simp: cbb_buffer_add_def andthen_apply buffer_room_def add.assoc)

section \<open>Length prefixes\<close>

lemma store_length_eq:
  "off + n \<le> length xs \<Longrightarrow>
     store_length xs off n len = (take off xs @ be_bytes n len @ drop (off + n) xs, len div 256 ^ n)"
proof (induction n arbitrary: xs len)
  case (Suc n)
  let ?xs = "xs[off + n := of_nat len]"
  have "drop (off + n) ?xs = of_nat len # drop (off + Suc n) xs"
    using Suc.prems by (simp add: drop_update_swap Cons_nth_drop_Suc [symmetric])
  moreover have "take off ?xs = take off xs" by simp
  ultimately show ?case
    using Suc by (simp add: div_mult2_eq)
qed simp

lemma asn1_length_prefix_eq:
  assumes "asn1_length_prefix n = Some (ll, ib, l)"
  shows "der_length n = ib # be_bytes (ll - 1) l \<and> l < 256 ^ (ll - 1) \<and> 1 \<le> ll \<and> ll \<le> 5 \<and>
    (ll \<noteq> 1 \<longrightarrow> l = n) \<and> n < 2 ^ 32 \<and> length (der_length n) = ll"
proof -
  from assms have "n \<le> 0xfffffffe" by (simp add: asn1_length_prefix_def split: if_splits)
  then consider "n < 128" | "128 \<le> n" "n < 256" | "256 \<le> n" "n < 65536"
    | "65536 \<le> n" "n < 16777216" | "16777216 \<le> n" "n < 4294967295"
    by linarith
  then show ?thesis
  proof cases
    case 1
    with assms show ?thesis by (simp add: asn1_length_prefix_def der_length_def)
  next
    case 2
    with assms have "ll = 2" "ib = 0x81" "l = n" by (simp_all add: asn1_length_prefix_def)
    with 2 der_length_long [of n 1] show ?thesis by simp
  next
    case 3
    with assms have "ll = 3" "ib = 0x82" "l = n" by (simp_all add: asn1_length_prefix_def)
    with 3 der_length_long [of n 2] show ?thesis by simp
  next
    case 4
    with assms have "ll = 4" "ib = 0x83" "l = n" by (simp_all add: asn1_length_prefix_def)
    with 4 der_length_long [of n 3] show ?thesis by simp
  next
    case 5
    with assms have "ll = 5" "ib = 0x84" "l = n" by (simp_all add: asn1_length_prefix_def)
    with 5 der_length_long [of n 4] show ?thesis by simp
  qed
qed

lemma memmove_shift:
  assumes "length pre = p"
  shows "memmove (pre @ c @ replicate e 0) (p + e) p (length c) = take (p + e) (pre @ c @ replicate e 0) @ c"
  using assms by (simp add: memmove_def)

lemma mod_2_64_start:
  assumes "\<not> (off + k) mod 2 ^ 64 < (off :: nat)" "k < 2 ^ 64"
  shows "(off + k) mod 2 ^ 64 = off + k"
proof (cases "off + k < 2 ^ 64")
  case False
  have off: "off < 2 ^ 64"
  proof -
    have "(off + k) mod 2 ^ 64 < 2 ^ 64" by simp
    with assms(1) show ?thesis by linarith
  qed
  have "(off + k) mod 2 ^ 64 = (off + k - 2 ^ 64) mod 2 ^ 64"
    using False by (intro le_mod_geq) simp
  also have "\<dots> \<le> off + k - 2 ^ 64" by simp
  also have "\<dots> < off" using False assms(2) off by linarith
  finally show ?thesis using assms(1) by blast
qed simp

lemma finish_child_asn1:
  assumes "cbb_finish_child al c b = (Some u, b')" "pending_is_asn1 c" "pending_len_len c = 1"
    and b: "buf b = pre @ x # body" "length pre = offset c"
  shows "buf b' = pre @ der_length (length body) @ body \<and> can_resize b' = can_resize b \<and>
    error b' = error b \<and> length body < 2 ^ 32"
proof -
  let ?o = "offset c" and ?n = "length body"
  from assms(1,3) have "\<not> (?o + 1) mod 2 ^ 64 < ?o"
    by (auto simp: cbb_finish_child_def Let_def split: if_splits)
  from mod_2_64_start [OF this] have start: "(?o + 1) mod 2 ^ 64 = ?o + 1" by simp
  have len: "length (buf b) - (?o + 1) = ?n" "\<not> length (buf b) < ?o + 1" using b by simp_all
  from assms(1,2,3) obtain ll ib l where p: "asn1_length_prefix ?n = Some (ll, ib, l)"
    unfolding cbb_finish_child_def Let_def assms(3) start len(1)
    using len(2) by (auto split: if_splits option.splits)
  note q = asn1_length_prefix_eq [OF p]
  let ?e = "ll - 1"
  from assms(1,2) len(2) obtain b1 b2 where
    b1: "(if ll \<noteq> 1 then andthen (cbb_buffer_add al ?e) (\<lambda>_ b.
            (Some (), b\<lparr>buf := memmove (buf b) (?o + 1 + ?e) (?o + 1) l\<rparr>)) else succeed ()) b = (Some (), b1)" and
    b2: "b2 = b1\<lparr>buf := (buf b1)[?o := ib]\<rparr>" and
    b3: "cbb_store_prefix (?o + 1) ?e l b2 = (Some u, b')"
    unfolding cbb_finish_child_def Let_def assms(3) start len(1) p
    by (auto simp: andthen_eq_Some)
  have "\<exists>junk. length junk = ?o + ll \<and> take ?o junk = pre \<and> buf b1 = junk @ body \<and>
      can_resize b1 = can_resize b \<and> error b1 = error b"
  proof (cases "ll = 1")
    case True
    then show ?thesis using b1 b by (intro exI [of _ "pre @ [x]"]) auto
  next
    case False
    from b1 [unfolded if_P [OF False] andthen_eq_Some] obtain b0 where
      b0: "cbb_buffer_add al ?e b = (Some (), b0)"
        "b1 = b0\<lparr>buf := memmove (buf b0) (?o + 1 + ?e) (?o + 1) l\<rparr>" by auto
    from buffer_add_eq_Some [OF b0(1)] b have buf0: "buf b0 = (pre @ [x]) @ body @ replicate ?e 0"
      "can_resize b0 = can_resize b" "error b0 = error b" by simp_all
    have "length (pre @ [x]) = ?o + 1" "l = ?n" using b q False by simp_all
    from memmove_shift [OF this(1), of body ?e] this(2) buf0(1)
    have "memmove (buf b0) (?o + 1 + ?e) (?o + 1) l = take (?o + 1 + ?e) (buf b0) @ body" by simp
    moreover have "?o + 1 + ?e = ?o + ll" using q by simp
    ultimately have "buf b1 = take (?o + ll) (buf b0) @ body" using b0(2) by simp
    moreover have "length (take (?o + ll) (buf b0)) = ?o + ll" "take ?o (take (?o + ll) (buf b0)) = pre"
      using buf0(1) b q by simp_all
    ultimately show ?thesis using b0(2) buf0 by (intro exI [of _ "take (?o + ll) (buf b0)"]) simp
  qed
  then obtain junk where junk: "length junk = ?o + ll" "take ?o junk = pre" "buf b1 = junk @ body"
    "can_resize b1 = can_resize b" "error b1 = error b" by blast
  have le: "?o + 1 + ?e \<le> length (buf b2)" using junk q b2 by simp
  have l0: "l div 256 ^ ?e = 0" using q by simp
  from b3 have b': "buf b' = take (?o + 1) (buf b2) @ be_bytes ?e l @ drop (?o + 1 + ?e) (buf b2)"
    "can_resize b' = can_resize b2" "error b' = error b2"
    unfolding cbb_store_prefix_def store_length_eq [OF le] by (auto simp: l0)
  have "take (?o + 1) (buf b2) = pre @ [ib]"
    using junk q b2 by (simp add: take_Suc_conv_app_nth list_update_append)
  moreover have "drop (?o + 1 + ?e) (buf b2) = body"
    using junk q b2 by (simp add: list_update_append)
  ultimately show ?thesis using b' b2 junk q by simp
qed

lemma finish_child_plain:
  assumes "cbb_finish_child al c b = (Some u, b')" "\<not> pending_is_asn1 c"
    and b: "buf b = pre @ zs @ body" "length pre = offset c" "length zs = pending_len_len c"
    and small: "pending_len_len c < 2 ^ 64"
  shows "buf b' = pre @ be_bytes (pending_len_len c) (length body) @ body \<and>
    can_resize b' = can_resize b \<and> error b' = error b \<and> length body < 256 ^ pending_len_len c"
proof -
  let ?o = "offset c" and ?k = "pending_len_len c" and ?n = "length body"
  from assms(1) have "\<not> (?o + ?k) mod 2 ^ 64 < ?o"
    by (auto simp: cbb_finish_child_def Let_def split: if_splits)
  from mod_2_64_start [OF this small] have start: "(?o + ?k) mod 2 ^ 64 = ?o + ?k" .
  have len: "length (buf b) - (?o + ?k) = ?n" "?o + ?k \<le> length (buf b)" using b by simp_all
  from assms(1,2) len have "cbb_store_prefix ?o ?k ?n b = (Some u, b')"
    unfolding cbb_finish_child_def Let_def start len(1) by (auto split: if_splits)
  then show ?thesis
    unfolding cbb_store_prefix_def store_length_eq [OF len(2)] using b
    by (auto simp: div_eq_0_iff split: if_splits)
qed

lemma finish_child_asn1_room:
  assumes "pending_is_asn1 c" "pending_len_len c = 1" "buf b = pre @ x # body" "length pre = offset c"
    and "length body \<le> 0xfffffffe" "buffer_room al b (4 + n)"
  shows "\<exists>b'. cbb_finish_child al c b = (Some (), b') \<and> buffer_room al b' n"
proof -
  let ?o = "offset c" and ?n = "length body"
  have start: "(?o + 1) mod 2 ^ 64 = ?o + 1"
    using assms(3,4,6) by (simp add: buffer_room_def)
  have len: "length (buf b) - (?o + 1) = ?n" "\<not> length (buf b) < ?o + 1" using assms(3,4) by simp_all
  obtain ll ib l where p: "asn1_length_prefix ?n = Some (ll, ib, l)"
  proof -
    have "asn1_length_prefix ?n \<noteq> None" using assms(5) by (simp add: asn1_length_prefix_def)
    then show thesis using that by (cases "asn1_length_prefix ?n") auto
  qed
  note q = asn1_length_prefix_eq [OF p]
  let ?e = "ll - 1"
  have room: "buffer_room al b (?e + ((4 - ?e) + n))" using assms(6) q by simp
  obtain b1 where b1: "(if ll \<noteq> 1 then andthen (cbb_buffer_add al ?e) (\<lambda>_ b.
          (Some (), b\<lparr>buf := memmove (buf b) (?o + 1 + ?e) (?o + 1) l\<rparr>)) else succeed ()) b = (Some (), b1)"
      "length (buf b1) = length (buf b) + ?e" "buffer_room al b1 n"
  proof (cases "ll = 1")
    case True
    then show thesis using that [of b] assms(6) by (auto simp: buffer_room_def succeed_def)
  next
    case False
    from buffer_add_room [OF room] obtain b0 where b0: "cbb_buffer_add al ?e b = (Some (), b0)"
      "buf b0 = buf b @ replicate ?e 0" "buffer_room al b0 ((4 - ?e) + n)" by blast
    have "length (memmove (buf b0) (?o + 1 + ?e) (?o + 1) l) = length (buf b0)"
      using b0(2) assms(3,4) q False by (simp add: memmove_def)
    then show thesis
      using that [of "b0\<lparr>buf := memmove (buf b0) (?o + 1 + ?e) (?o + 1) l\<rparr>"] False b0
      by (auto simp: andthen_apply buffer_room_def)
  qed
  have le: "?o + 1 + ?e \<le> length ((buf b1)[?o := ib])" using b1(2) assms(3,4) by simp
  have "l div 256 ^ ?e = 0" using q by simp
  then show ?thesis
    using b1 len assms(1,2) store_length_eq [OF le, of l]
    unfolding cbb_finish_child_def Let_def assms(2) start len(1) p
    by (auto simp: andthen_apply cbb_store_prefix_def buffer_room_def)
qed

section \<open>Flushing and adding bytes\<close>

lemma CBB_flush_top [simp]:
  "length (chain s) = d \<Longrightarrow> CBB_flush al d s = (if error (base s) then (None, s) else (Some (), s))"
  by (simp add: CBB_flush_def)

lemma flush_chain_single:
  "cbb_flush_chain al [c] b = (if error b then (None, b) else
     case cbb_finish_child al c b of (None, b') \<Rightarrow> (None, b'\<lparr>error := True\<rparr>) | (Some u, b') \<Rightarrow> (Some u, b'))"
  by (simp add: andthen_apply)

lemma CBB_flush_child:
  assumes "CBB_flush al d s = (Some u, s')" "chain s = cs @ [c]" "length cs = d"
  shows "\<exists>b. cbb_finish_child al c (base s) = (Some (), b) \<and> s' = s\<lparr>base := b, chain := cs\<rparr> \<and> \<not> error (base s)"
  using assms by (auto simp: CBB_flush_def flush_chain_single simp del: cbb_flush_chain.simps
      split: if_splits prod.splits option.splits)

lemma CBB_flush_child_room:
  assumes "chain s = cs @ [c]" "length cs = d" "\<not> error (base s)"
    "cbb_finish_child al c (base s) = (Some (), b)"
  shows "CBB_flush al d s = (Some (), s\<lparr>base := b, chain := cs\<rparr>)"
  using assms by (simp add: CBB_flush_def flush_chain_single del: cbb_flush_chain.simps)

lemma add_space_eq_Some:
  assumes "CBB_add_space al d data s = (Some u, s')" "length (chain s) = d"
  shows "buf (base s') = buf (base s) @ data \<and> chain s' = chain s \<and> \<not> error (base s') \<and>
    can_resize (base s') = can_resize (base s)"
  using assms
  by (auto simp: CBB_add_space_def andthen_eq_Some on_base_def Let_def
      split: if_splits prod.splits dest!: buffer_add_eq_Some)

lemma add_space_room:
  assumes "buffer_room al (base s) (length data + n)" "length (chain s) = d"
  shows "\<exists>s'. CBB_add_space al d data s = (Some (), s') \<and> buffer_room al (base s') n"
proof -
  from buffer_add_room [OF assms(1)] obtain b where
    "cbb_buffer_add al (length data) (base s) = (Some (), b)"
    "buf b = buf (base s) @ replicate (length data) 0" "buffer_room al b n" by blast
  then show ?thesis
    using assms by (simp add: CBB_add_space_def andthen_apply on_base_def Let_def buffer_room_def)
qed

lemma store_be_eq: "store_be n v = (be_bytes n (unat v), drop_bit (8 * n) v)"
proof (induction n arbitrary: v)
  case (Suc n)
  have "(ucast v :: u8) = of_nat (unat v)" by (simp add: u8_eq_iff unsigned_ucast_eq take_bit_eq_mod)
  then show ?case by (simp add: Suc unat_drop_bit drop_bit_drop_bit add.commute)
qed simp

lemma CBB_add_u8_eq: "CBB_add_u8 al d b = CBB_add_space al d [b]"
proof -
  have "unat (ucast b :: u64) < 2 ^ 8" by (simp add: unat_ucast_u8)
  then have "store_be 1 (ucast b :: u64) = ([b], 0)"
    unfolding store_be_eq by (simp add: drop_bit_eq_0_iff)
  then show ?thesis
    by (simp add: CBB_add_u8_def cbb_add_u_def andthen_def fun_eq_iff split: prod.splits option.splits)
qed

interpretation cbb: byte_sink "CBB_add_u8 al d" "\<lambda>s. buf (base s)" "\<lambda>s. length (chain s) = d"
    "\<lambda>s. buffer_room al (base s)" for al d
proof unfold_locales
  fix s :: cbb and b s'
  assume "length (chain s) = d" "CBB_add_u8 al d b s = (Some (), s')"
  then show "buf (base s') = buf (base s) @ [b] \<and> length (chain s') = d"
    using add_space_eq_Some [of al d "[b]" s "()" s'] by (simp add: CBB_add_u8_eq)
next
  fix s :: cbb and n b
  assume "length (chain s) = d" "buffer_room al (base s) (Suc n)"
  then show "\<exists>s'. CBB_add_u8 al d b s = (Some (), s') \<and> buffer_room al (base s') n"
    using add_space_room [of al s "[b]" n d] by (simp add: CBB_add_u8_eq)
qed

section \<open>Integers and tags\<close>

lemma cbb_add_u_eq:
  "unat v < 256 ^ n \<Longrightarrow> cbb_add_u al d v n = CBB_add_space al d (be_bytes n (unat v))"
  by (auto simp: cbb_add_u_def store_be_eq drop_bit_eq_0_iff power_mult andthen_def fun_eq_iff
      split: prod.splits option.splits)

lemma cbb_add_u_too_large:
  "\<not> unat v < 256 ^ n \<Longrightarrow> fst (cbb_add_u al d v n s) = None"
  by (auto simp: cbb_add_u_def store_be_eq drop_bit_eq_0_iff power_mult andthen_def
      split: prod.splits option.splits)

lemma base128_byte:
  "(ucast (drop_bit (7 * i) v AND 0x7f :: u64) :: u8) = of_nat (unat v div 128 ^ i mod 128)"
proof -
  have "unat (drop_bit (7 * i) v AND 0x7f) = unat v div 128 ^ i mod 128"
    using unat_and_eq_mod [of "0x7f" 7 "drop_bit (7 * i) v"]
    by (simp add: mask_eq_exp_minus_1 unat_drop_bit power_mult)
  then show ?thesis
    by (simp add: u8_eq_iff unsigned_ucast_eq take_bit_eq_mod unat_of_nat)
qed

lemma add_base128_loop_eq:
  "add_base128_loop al d v n = put_all (CBB_add_u8 al d)
     (map (\<lambda>i. of_nat (unat v div 128 ^ i mod 128 + (if i = 0 then 0 else 128))) (rev [0..<n]))"
proof (induction n)
  case (Suc n)
  have "(ucast (drop_bit (7 * n) v AND 0x7f) OR 0x80 :: u8) = of_nat (unat v div 128 ^ n mod 128 + 128)"
  proof -
    have "unat (of_nat (unat v div 128 ^ n mod 128) :: u8) < 128" by (simp add: unat_of_nat)
    from u8_or_80 [OF this] show ?thesis
      unfolding base128_byte by (simp add: u8_eq_iff unat_of_nat del: of_nat_add)
  qed
  then show ?case by (simp add: Suc Let_def base128_byte del: of_nat_add)
qed simp

lemma rev_upt_Suc: "rev [0..<Suc n] = map Suc (rev [0..<n]) @ [0]"
  by (simp add: upt_conv_Cons [of 0 "Suc n"] map_Suc_upt [symmetric] rev_map del: upt_Suc)

lemma base128_leading_digits:
  "base128_leading (unat v) = map (\<lambda>i. of_nat (128 + unat v div 128 ^ i mod 128)) (rev [0..<base128_len v])"
proof (induction v rule: base128_len.induct)
  case (1 v)
  show ?case
  proof (cases "v > 0")
    case True
    then have "unat v \<noteq> 0" by (simp add: word_less_nat_alt)
    have "base128_len v = Suc (base128_len (drop_bit 7 v))"
      using True by (subst base128_len.simps) simp
    moreover have "base128_leading (unat v) = base128_leading (unat v div 128) @ [of_nat (128 + unat v mod 128)]"
      using \<open>unat v \<noteq> 0\<close> by (subst base128_leading.simps) simp
    moreover note 1 [OF True]
    ultimately show ?thesis
      by (simp only: rev_upt_Suc) (simp add: unat_drop_bit div_mult2_eq)
  next
    case False
    then have "v = 0" by (simp add: word_gt_0)
    then show ?thesis by (simp add: base128_len.simps)
  qed
qed

lemma add_base128_integer_eq:
  "add_base128_integer al d v = put_all (CBB_add_u8 al d) (base128 (unat v))"
proof -
  have n: "(if base128_len v = 0 then 1 else base128_len v) = Suc (base128_len (drop_bit 7 v))"
  proof (cases "v = 0")
    case True
    then show ?thesis by (simp add: base128_len.simps)
  next
    case False
    then have "base128_len v = Suc (base128_len (drop_bit 7 v))"
      by (subst base128_len.simps) (simp add: word_gt_0)
    then show ?thesis by simp
  qed
  have "map (\<lambda>i. of_nat (unat v div 128 ^ i mod 128 + (if i = 0 then 0 else 128))) (rev [0..<Suc (base128_len (drop_bit 7 v))])
      = base128 (unat v)"
    using base128_leading_digits [of "drop_bit 7 v"]
    by (simp only: rev_upt_Suc base128_def)
      (simp add: unat_drop_bit div_mult2_eq add.commute)
  then show ?thesis
    by (simp add: add_base128_integer_def n add_base128_loop_eq del: upt_Suc)
qed

lemma u8_and_e0: "unat (b AND 0xe0 :: u8) = 32 * (unat b div 32)"
proof -
  have "(0xe0 :: u8) = NOT (mask 5)" by (simp add: mask_eq_exp_minus_1)
  then have "b AND 0xe0 = push_bit 5 (drop_bit 5 b)" by (simp only: and_not_mask_eq)
  then show ?thesis
    using unat_push_or [of "0 :: u8" 5 "drop_bit 5 b"] unat_eight_bit [of b]
    by (simp add: unat_drop_bit del: unat_eight_bit)
qed

lemma tag_bits_or:
  assumes "n < 32"
  shows "(ucast (drop_bit 24 (t :: u32) AND 0xe0) :: u8) OR of_nat n = of_nat (32 * (unat t div 2 ^ 29) + n)"
proof -
  let ?c = "unat t div 2 ^ 29"
  have c: "?c < 8" using unat_u32_less [of t] by (simp add: less_mult_imp_div_less)
  have "unat t div 2 ^ 24 < 256" using unat_u32_less [of t] by (simp add: less_mult_imp_div_less)
  then have "unat (ucast (drop_bit 24 t) :: u8) = unat t div 2 ^ 24"
    by (simp add: unsigned_ucast_eq take_bit_eq_mod unat_drop_bit)
  then have "unat (ucast (drop_bit 24 t AND 0xe0) :: u8) = 32 * ?c"
  proof -
    have "ucast (drop_bit 24 t AND 0xe0) = (ucast (drop_bit 24 t) AND 0xe0 :: u8)"
      by (simp add: unsigned_and_eq)
    then show ?thesis
      using \<open>unat (ucast (drop_bit 24 t) :: u8) = unat t div 2 ^ 24\<close>
      by (simp only: u8_and_e0) (simp add: div_mult2_eq [symmetric])
  qed
  then have tb: "(ucast (drop_bit 24 t AND 0xe0) :: u8) = push_bit 5 (of_nat ?c)"
    using c unat_push_or [of "0 :: u8" 5 "of_nat ?c"] by (simp add: u8_eq_iff unat_of_nat)
  show ?thesis
    using c assms unat_push_or [of "of_nat n :: u8" 5 "of_nat ?c"] unfolding tb
    by (simp add: u8_eq_iff unat_of_nat del: of_nat_add of_nat_mult)
qed

lemma CBB_add_asn1_eq:
  assumes "length (chain s) = d" "\<not> error (base s)"
  shows "CBB_add_asn1 al d t s =
    andthen (put_all (CBB_add_u8 al d) (der_tag t)) (\<lambda>_. cbb_add_child al d 1 True) s"
proof -
  let ?n = "unat t mod 2 ^ 29"
  have n: "unat (t AND CBS_ASN1_TAG_NUMBER_MASK) = ?n"
    using unat_and_eq_mod [of "0x1fffffff" 29 t]
    by (simp add: CBS_ASN1_TAG_NUMBER_MASK_def mask_eq_exp_minus_1)
  have n64: "unat (ucast (t AND CBS_ASN1_TAG_NUMBER_MASK) :: u64) = ?n"
    using n by (simp add: unsigned_ucast_eq take_bit_nat_eq_self less_le_trans [of _ "2 ^ 32"])
  have le: "t AND CBS_ASN1_TAG_NUMBER_MASK \<ge> 0x1f \<longleftrightarrow> 31 \<le> ?n"
    unfolding word_le_nat_alt n by simp
  have put1: "put_all (CBB_add_u8 al d) [b] = CBB_add_u8 al d b" for b
    by (auto simp: andthen_def succeed_def fun_eq_iff split: prod.splits option.splits)
  show ?thesis
  proof (cases "31 \<le> ?n")
    case True
    have "(ucast (drop_bit 24 t AND 0xe0) :: u8) OR 0x1f = of_nat (32 * (unat t div 2 ^ 29) + 31)"
      using tag_bits_or [of 31 t] by simp
    then show ?thesis
      using assms True by (simp add: CBB_add_asn1_def andthen_apply Let_def le
          add_base128_integer_eq n64 der_tag_def)
  next
    case False
    have "ucast (t AND CBS_ASN1_TAG_NUMBER_MASK) = (of_nat ?n :: u8)"
      using False n by (simp add: u8_eq_iff unsigned_ucast_eq take_bit_eq_mod unat_of_nat)
    with tag_bits_or [of ?n t] False show ?thesis
      using assms by (simp add: CBB_add_asn1_def andthen_apply Let_def le der_tag_def put1
          del: put_all.simps of_nat_add of_nat_mult)
  qed
qed

section \<open>Writing an element\<close>

lemma add_child_eq_Some:
  assumes "cbb_add_child al d k a s = (Some d', s')" "length (chain s) = d"
  shows "d' = d + 1 \<and> buf (base s') = buf (base s) @ replicate k 0 \<and>
    chain s' = chain s @ [\<lparr>offset = length (buf (base s)), pending_len_len = k, pending_is_asn1 = a\<rparr>] \<and>
    error (base s') = error (base s) \<and> can_resize (base s') = can_resize (base s)"
  using assms by (auto simp: cbb_add_child_def Let_def andthen_eq_Some on_base_def
      split: prod.splits if_splits dest!: buffer_add_eq_Some)

lemma add_child_room:
  assumes "length (chain s) = d" "buffer_room al (base s) (k + n)"
  shows "\<exists>s'. cbb_add_child al d k a s = (Some (d + 1), s') \<and> buffer_room al (base s') n"
  using assms buffer_add_room [OF assms(2)]
  by (auto simp: cbb_add_child_def Let_def andthen_apply on_base_def)

lemma put_all_no_error:
  "put_all (CBB_add_u8 al d) bs s = (Some (), s') \<Longrightarrow> length (chain s) = d \<Longrightarrow>
     chain s' = chain s \<and> error (base s') = error (base s) \<and> can_resize (base s') = can_resize (base s)"
proof (induction bs arbitrary: s)
  case (Cons b bs)
  then obtain s1 where u8: "CBB_add_u8 al d b s = (Some (), s1)" and
      rest: "put_all (CBB_add_u8 al d) bs s1 = (Some (), s')"
    by (auto simp: andthen_eq_Some)
  note s1 = u8 [unfolded CBB_add_u8_eq] rest
  have "\<not> error (base s)"
    using s1(1) Cons.prems(2) by (auto simp: CBB_add_space_def andthen_eq_Some split: if_splits)
  with Cons.IH [OF s1(2)] add_space_eq_Some [OF s1(1) Cons.prems(2)] Cons.prems(2)
  show ?case by simp
qed simp

lemma flush_needs_no_error: "CBB_flush al d s = (Some u, s') \<Longrightarrow> \<not> error (base s) \<and> d \<le> length (chain s)"
  by (auto simp: CBB_flush_def split: if_splits)

lemma add_asn1_eq_Some:
  assumes "CBB_add_asn1 al d t s = (Some d', s')" "length (chain s) = d"
  shows "d' = d + 1 \<and> buf (base s') = buf (base s) @ der_tag t @ [0] \<and>
    chain s' = chain s @ [\<lparr>offset = length (buf (base s)) + length (der_tag t), pending_len_len = 1,
                           pending_is_asn1 = True\<rparr>] \<and>
    \<not> error (base s') \<and> can_resize (base s') = can_resize (base s)"
proof -
  have ne: "\<not> error (base s)"
    using assms by (auto simp: CBB_add_asn1_def andthen_eq_Some dest: flush_needs_no_error)
  from assms(1) [unfolded CBB_add_asn1_eq [OF assms(2) ne] andthen_eq_Some] obtain s1 where
    s1: "put_all (CBB_add_u8 al d) (der_tag t) s = (Some (), s1)"
      "cbb_add_child al d 1 True s1 = (Some d', s')" by auto
  from cbb.put_all_contents [OF assms(2) s1(1)] put_all_no_error [OF s1(1) assms(2)]
    add_child_eq_Some [OF s1(2)] ne assms(2)
  show ?thesis by simp
qed

lemma add_asn1_room:
  assumes "length (chain s) = d" "buffer_room al (base s) (length (der_tag t) + (1 + n))"
  shows "\<exists>s'. CBB_add_asn1 al d t s = (Some (d + 1), s') \<and> buffer_room al (base s') n"
proof -
  have ne: "\<not> error (base s)" using assms(2) by (simp add: buffer_room_def)
  obtain s1 where s1: "put_all (CBB_add_u8 al d) (der_tag t) s = (Some (), s1)" "buffer_room al (base s1) (1 + n)"
    using cbb.put_all_room [OF assms] by blast
  from add_child_room [OF _ s1(2)] cbb.put_all_contents [OF assms(1) s1(1)] show ?thesis
    by (simp add: CBB_add_asn1_eq [OF assms(1) ne] andthen_apply s1(1))
qed

lemma element_written:
  assumes "length (chain s) = d" "CBB_add_asn1 al d t s = (Some d', s1)"
    and "buf (base s2) = buf (base s1) @ c" "chain s2 = chain s1"
    and "CBB_flush al d s2 = (Some (), s3)"
  shows "buf (base s3) = buf (base s) @ der_element t c \<and> chain s3 = chain s \<and> length c < 2 ^ 32 \<and>
    \<not> error (base s3)"
proof -
  let ?c = "\<lparr>offset = length (buf (base s)) + length (der_tag t), pending_len_len = 1, pending_is_asn1 = True\<rparr>"
  from add_asn1_eq_Some [OF assms(2,1)] have s1: "buf (base s1) = buf (base s) @ der_tag t @ [0]"
    "chain s1 = chain s @ [?c]" by simp_all
  from CBB_flush_child [OF assms(5) _ assms(1)] s1 assms(4) obtain b where
    b: "cbb_finish_child al ?c (base s2) = (Some (), b)" "s3 = s2\<lparr>base := b, chain := chain s\<rparr>"
      "\<not> error (base s2)" by auto
  have "buf (base s2) = (buf (base s) @ der_tag t) @ 0 # c" using assms(3) s1 by simp
  from finish_child_asn1 [OF b(1) _ _ this] b(2,3) show ?thesis
    by (simp add: der_element_def der_header_def)
qed

lemma element_room:
  assumes "length (chain s) = d" "CBB_add_asn1 al d t s = (Some d', s1)"
    and "buf (base s2) = buf (base s1) @ c" "chain s2 = chain s1"
    and "buffer_room al (base s2) (4 + n)" "length c \<le> 0xfffffffe"
  shows "\<exists>s3. CBB_flush al d s2 = (Some (), s3) \<and> buffer_room al (base s3) n"
proof -
  let ?c = "\<lparr>offset = length (buf (base s)) + length (der_tag t), pending_len_len = 1, pending_is_asn1 = True\<rparr>"
  from add_asn1_eq_Some [OF assms(2,1)] have s1: "buf (base s1) = buf (base s) @ der_tag t @ [0]"
    "chain s1 = chain s @ [?c]" by simp_all
  have "buf (base s2) = (buf (base s) @ der_tag t) @ 0 # c" using assms(3) s1 by simp
  from finish_child_asn1_room [of ?c, OF _ _ this _ assms(6,5)] obtain b where
    "cbb_finish_child al ?c (base s2) = (Some (), b)" "buffer_room al b n" by auto
  with CBB_flush_child_room [of s2 "chain s" ?c d al b] assms s1 show ?thesis
    by (auto simp: buffer_room_def)
qed

section \<open>Reachable builders\<close>

text \<open>What every routine on the buffer keeps: the bounds, the bytes already written (in number),
  the mode, the capacity of a fixed buffer, and a recorded error.\<close>

definition buffer_frame :: "cbb_buffer \<Rightarrow> cbb_buffer \<Rightarrow> bool" where
  "buffer_frame b b' \<longleftrightarrow> cbb_buffer_ok b' \<and> length (buf b) \<le> length (buf b') \<and>
     can_resize b' = can_resize b \<and> (\<not> can_resize b \<longrightarrow> cap b' = cap b) \<and> (error b \<longrightarrow> error b')"

definition keeps_frame :: "(cbb_buffer, 'a) routine \<Rightarrow> bool" where
  "keeps_frame m \<longleftrightarrow> (\<forall>b r b'. cbb_buffer_ok b \<longrightarrow> m b = (r, b') \<longrightarrow> buffer_frame b b')"

lemma buffer_frame_refl: "cbb_buffer_ok b \<Longrightarrow> buffer_frame b b"
  by (simp add: buffer_frame_def)

lemma buffer_frame_trans: "buffer_frame b c \<Longrightarrow> buffer_frame c e \<Longrightarrow> buffer_frame b e"
  by (auto simp: buffer_frame_def)

lemma keeps_frameD: "keeps_frame m \<Longrightarrow> cbb_buffer_ok b \<Longrightarrow> m b = (r, b') \<Longrightarrow> buffer_frame b b'"
  by (simp add: keeps_frame_def)

lemma buffer_frame_ok: "buffer_frame b b' \<Longrightarrow> cbb_buffer_ok b'"
  by (simp add: buffer_frame_def)

lemma keeps_frame_andthen:
  assumes m: "keeps_frame m" and f: "\<And>a. keeps_frame (f a)"
  shows "keeps_frame (andthen m f)"
  unfolding keeps_frame_def
proof (intro allI impI)
  fix b r b' assume ok: "cbb_buffer_ok b" and run: "andthen m f b = (r, b')"
  obtain x c where mc: "m b = (x, c)" by fastforce
  then have c: "buffer_frame b c" using keeps_frameD [OF m ok] by blast
  show "buffer_frame b b'"
  proof (cases x)
    case None
    then show ?thesis using c mc run by (simp add: andthen_apply)
  next
    case (Some a)
    then have "f a c = (r, b')" using mc run by (simp add: andthen_apply)
    then have "buffer_frame c b'" using keeps_frameD [OF f buffer_frame_ok [OF c]] by blast
    with c show ?thesis by (rule buffer_frame_trans)
  qed
qed

lemma keeps_frame_same_length:
  "(\<And>b. length (g b) = length (buf b)) \<Longrightarrow> keeps_frame (\<lambda>b. (r b, b\<lparr>buf := g b\<rparr>))"
  by (auto simp: keeps_frame_def buffer_frame_def cbb_buffer_ok_def)

lemma keeps_frame_reserve: "keeps_frame (cbb_buffer_reserve al n)"
proof -
  have "cbb_buffer_reserve al n b = (r, b') \<Longrightarrow> \<not> can_resize b \<Longrightarrow> cap b' = cap b" for b b' r
    by (auto simp: cbb_buffer_reserve_def Let_def split: if_splits)
  then show ?thesis
    unfolding keeps_frame_def buffer_frame_def using reserve_frame reserve_ok by (metis order_refl)
qed

lemma buffer_add_frame:
  assumes "n < 2 ^ 64" "cbb_buffer_ok b" "cbb_buffer_add al n b = (r, b')"
  shows "buffer_frame b b' \<and> (r \<noteq> None \<longrightarrow> length (buf b') = length (buf b) + n)"
proof -
  obtain x c where res: "cbb_buffer_reserve al n b = (x, c)" by fastforce
  have fr: "buffer_frame b c" using keeps_frameD [OF keeps_frame_reserve assms(2) res] .
  show ?thesis
  proof (cases x)
    case None
    then show ?thesis using assms(3) res fr by (simp add: cbb_buffer_add_def andthen_apply)
  next
    case (Some u)
    have "length (buf b) + n \<le> cap c \<and> buf c = buf b"
      using assms(1,2) res Some
      by (auto simp: cbb_buffer_reserve_def cbb_buffer_ok_def Let_def mod_if split: if_splits)
    then show ?thesis
      using assms(3) res fr Some
      by (auto simp: cbb_buffer_add_def andthen_apply buffer_frame_def cbb_buffer_ok_def)
  qed
qed

lemma keeps_frame_buffer_add: "n < 2 ^ 64 \<Longrightarrow> keeps_frame (cbb_buffer_add al n)"
  using buffer_add_frame by (auto simp: keeps_frame_def)

lemma length_store_length: "store_length xs off n len = (ys, rest) \<Longrightarrow> length ys = length xs"
  by (induction n arbitrary: xs len) auto

lemma keeps_frame_store_prefix: "keeps_frame (cbb_store_prefix off n len)"
  by (auto simp: keeps_frame_def cbb_store_prefix_def buffer_frame_def cbb_buffer_ok_def
      dest: length_store_length split: prod.splits)

lemma asn1_length_prefix_bounds:
  "asn1_length_prefix len = Some (k, b, rest) \<Longrightarrow> 1 \<le> k \<and> k \<le> 5 \<and> (k \<noteq> 1 \<longrightarrow> rest = len)"
  by (auto simp: asn1_length_prefix_def split: if_splits)

lemma finish_child_frame:
  assumes ok: "cbb_buffer_ok b" and fin: "cbb_finish_child al c b = (r, b')"
  shows "buffer_frame b b'"
proof -
  let ?start = "(offset c + pending_len_len c) mod 2 ^ 64"
  let ?len = "length (buf b) - ?start"
  consider "?start < offset c \<or> length (buf b) < ?start"
    | "\<not> (?start < offset c \<or> length (buf b) < ?start)" "\<not> pending_is_asn1 c"
    | "\<not> (?start < offset c \<or> length (buf b) < ?start)" "pending_is_asn1 c" "asn1_length_prefix ?len = None"
    | k i rest where "\<not> (?start < offset c \<or> length (buf b) < ?start)" "pending_is_asn1 c"
        "asn1_length_prefix ?len = Some (k, i, rest)"
    by (cases "asn1_length_prefix ?len") auto
  then show ?thesis
  proof cases
    case 1
    then show ?thesis using fin ok by (simp add: cbb_finish_child_def buffer_frame_refl)
  next
    case 2
    then show ?thesis
      using fin keeps_frameD [OF keeps_frame_store_prefix ok] by (simp add: cbb_finish_child_def Let_def)
  next
    case 3
    then show ?thesis using fin ok by (simp add: cbb_finish_child_def buffer_frame_refl)
  next
    case 4
    note k = asn1_length_prefix_bounds [OF 4(3)]
    have tail: "keeps_frame (andthen (\<lambda>b. (Some (), b\<lparr>buf := (buf b)[offset c := i]\<rparr>))
        (\<lambda>_. cbb_store_prefix (offset c + 1) (k - 1) rest))"
      by (intro keeps_frame_andthen keeps_frame_same_length keeps_frame_store_prefix) simp
    show ?thesis
    proof (cases "k = 1")
      case True
      then show ?thesis
        using fin 4 keeps_frameD [OF tail ok] by (simp add: cbb_finish_child_def Let_def)
    next
      case False
      obtain x e where add: "cbb_buffer_add al (k - 1) b = (x, e)" by fastforce
      from buffer_add_frame [OF _ ok add] k have e: "buffer_frame b e"
        "x \<noteq> None \<Longrightarrow> length (buf e) = length (buf b) + (k - 1)" by auto
      show ?thesis
      proof (cases x)
        case None
        then show ?thesis
          using fin 4 False add e by (simp add: cbb_finish_child_def Let_def andthen_apply)
      next
        case (Some u)
        let ?e = "e\<lparr>buf := memmove (buf e) (?start + (k - 1)) ?start rest\<rparr>"
        have "length (buf ?e) = length (buf e)"
          using k False e(2) Some 4(1) by (auto simp: memmove_def)
        then have "buffer_frame e ?e" using e(1) by (auto simp: buffer_frame_def cbb_buffer_ok_def)
        with e(1) have be: "buffer_frame b ?e" by (rule buffer_frame_trans)
        have "andthen (\<lambda>b. (Some (), b\<lparr>buf := (buf b)[offset c := i]\<rparr>))
            (\<lambda>_. cbb_store_prefix (offset c + 1) (k - 1) rest) ?e = (r, b')"
          using fin 4 False add Some by (simp add: cbb_finish_child_def Let_def andthen_apply)
        then have "buffer_frame ?e b'" using keeps_frameD [OF tail buffer_frame_ok [OF be]] by blast
        with be show ?thesis by (rule buffer_frame_trans)
      qed
    qed
  qed
qed

lemma flush_chain_frame:
  "cbb_buffer_ok b \<Longrightarrow> cbb_flush_chain al cs b = (r, b') \<Longrightarrow> buffer_frame b b'"
proof (induction cs arbitrary: b r b')
  case Nil
  then show ?case by (auto simp: buffer_frame_refl split: if_splits)
next
  case (Cons c cs)
  have "keeps_frame (andthen (cbb_flush_chain al cs) (\<lambda>_. cbb_finish_child al c))"
    by (rule keeps_frame_andthen) (simp_all add: keeps_frame_def Cons.IH finish_child_frame)
  then have fr: "andthen (cbb_flush_chain al cs) (\<lambda>_. cbb_finish_child al c) b = (x, e) \<Longrightarrow> buffer_frame b e" for x e
    using Cons.prems(1) by (rule keeps_frameD)
  show ?case
  proof (cases "error b")
    case True
    then show ?thesis using Cons.prems by (simp add: buffer_frame_refl)
  next
    case False
    obtain x e where run: "andthen (cbb_flush_chain al cs) (\<lambda>_. cbb_finish_child al c) b = (x, e)" by fastforce
    have "buffer_frame b (e\<lparr>error := True\<rparr>)"
      using fr [OF run] by (auto simp: buffer_frame_def cbb_buffer_ok_def)
    with fr [OF run] Cons.prems(2) False run show ?thesis by (cases x) auto
  qed
qed

fun chain_ok :: "nat \<Rightarrow> cbb_child list \<Rightarrow> nat \<Rightarrow> bool" where
  "chain_ok start [] len \<longleftrightarrow> start \<le> len"
| "chain_ok start (c # cs) len \<longleftrightarrow> start \<le> offset c \<and> chain_ok (offset c + pending_len_len c) cs len"

definition cbb_ok :: "cbb \<Rightarrow> bool" where
  "cbb_ok s \<longleftrightarrow> cbb_buffer_ok (base s) \<and> chain_ok 0 (chain s) (length (buf (base s)))"

text \<open>One call of an operation, whatever it returns; the other writers are sequences of these.\<close>

inductive cbb_step :: "(nat \<Rightarrow> bool) \<Rightarrow> cbb \<Rightarrow> cbb \<Rightarrow> bool" for al where
  flush: "CBB_flush al d s = (r, s') \<Longrightarrow> cbb_step al s s'"
| space: "CBB_add_space al d data s = (r, s') \<Longrightarrow> length data < 2 ^ 64 \<Longrightarrow> cbb_step al s s'"
| uint: "cbb_add_u al d v k s = (r, s') \<Longrightarrow> k \<le> 8 \<Longrightarrow> cbb_step al s s'"
| prefixed: "cbb_add_length_prefixed al d k s = (r', s') \<Longrightarrow> k \<le> 8 \<Longrightarrow> cbb_step al s s'"
| asn1: "CBB_add_asn1 al d t s = (r', s') \<Longrightarrow> cbb_step al s s'"
| reserve: "CBB_reserve al d n s = (r, s') \<Longrightarrow> cbb_step al s s'"
| did_write: "CBB_did_write d data s = (r, s') \<Longrightarrow> length data < 2 ^ 64 \<Longrightarrow> cbb_step al s s'"
| discard: "cbb_step al s (CBB_discard_child d s)"
| failed: "cbb_step al s (cbb_on_error d s)"

inductive cbb_reach :: "(nat \<Rightarrow> bool) \<Rightarrow> cbb \<Rightarrow> bool" for al where
  init: "CBB_init al n = Some s \<Longrightarrow> n < 2 ^ 64 \<Longrightarrow> cbb_reach al s"
| init_fixed: "n < 2 ^ 64 \<Longrightarrow> cbb_reach al (CBB_init_fixed n)"
| step: "cbb_reach al s \<Longrightarrow> cbb_step al s s' \<Longrightarrow> cbb_reach al s'"

inductive_cases cbb_stepE: "cbb_step al s s'"

definition cbb_frame :: "cbb \<Rightarrow> cbb \<Rightarrow> bool" where
  "cbb_frame s s' \<longleftrightarrow> cbb_ok s' \<and> can_resize (base s') = can_resize (base s) \<and>
     (\<not> can_resize (base s) \<longrightarrow> cap (base s') = cap (base s)) \<and> (error (base s) \<longrightarrow> error (base s'))"

definition cbb_keeps :: "(cbb, 'a) routine \<Rightarrow> bool" where
  "cbb_keeps m \<longleftrightarrow> (\<forall>s r s'. cbb_ok s \<longrightarrow> m s = (r, s') \<longrightarrow> cbb_frame s s')"

lemma cbb_keepsD: "cbb_keeps m \<Longrightarrow> cbb_ok s \<Longrightarrow> m s = (r, s') \<Longrightarrow> cbb_frame s s'"
  by (simp add: cbb_keeps_def)

lemma cbb_frame_refl: "cbb_ok s \<Longrightarrow> cbb_frame s s"
  by (simp add: cbb_frame_def)

lemma cbb_frame_trans: "cbb_frame s t \<Longrightarrow> cbb_frame t u \<Longrightarrow> cbb_frame s u"
  by (auto simp: cbb_frame_def)

lemma cbb_frame_ok: "cbb_frame s s' \<Longrightarrow> cbb_ok s'"
  by (simp add: cbb_frame_def)

lemma cbb_keeps_andthen:
  assumes m: "cbb_keeps m" and f: "\<And>a. cbb_keeps (f a)"
  shows "cbb_keeps (andthen m f)"
  unfolding cbb_keeps_def
proof (intro allI impI)
  fix s r s' assume ok: "cbb_ok s" and run: "andthen m f s = (r, s')"
  obtain x t where mt: "m s = (x, t)" by fastforce
  have t: "cbb_frame s t" by (rule cbb_keepsD [OF m ok mt])
  show "cbb_frame s s'"
  proof (cases x)
    case None
    then show ?thesis using t mt run by (simp add: andthen_apply)
  next
    case (Some a)
    then have "f a t = (r, s')" using mt run by (simp add: andthen_apply)
    from cbb_keepsD [OF f cbb_frame_ok [OF t] this] t show ?thesis by (blast intro: cbb_frame_trans)
  qed
qed

lemma chain_ok_mono: "chain_ok k cs n \<Longrightarrow> n \<le> m \<Longrightarrow> chain_ok k cs m"
  by (induction cs arbitrary: k) auto

lemma chain_ok_start: "chain_ok k cs n \<Longrightarrow> k \<le> n"
  by (induction cs arbitrary: k) force+

lemma chain_ok_take: "chain_ok k cs n \<Longrightarrow> chain_ok k (take d cs) n"
proof (induction cs arbitrary: k d)
  case (Cons c cs)
  then show ?case using chain_ok_start [of k "c # cs" n] by (cases d) auto
qed simp

lemma chain_ok_snoc:
  "chain_ok k cs n \<Longrightarrow> n \<le> offset c \<Longrightarrow> offset c + pending_len_len c \<le> m \<Longrightarrow> chain_ok k (cs @ [c]) m"
  by (induction cs arbitrary: k) auto

lemma chain_ok_nth:
  "chain_ok k cs n \<Longrightarrow> d < length cs \<Longrightarrow>
     chain_ok k (take d cs) (offset (cs ! d)) \<and> offset (cs ! d) + pending_len_len (cs ! d) \<le> n"
proof (induction cs arbitrary: k d)
  case (Cons c cs)
  then show ?case using chain_ok_start [of "offset c + pending_len_len c" cs n] by (cases d) auto
qed simp

lemma cbb_frame_base:
  assumes "cbb_ok s" "buffer_frame (base s) b"
  shows "cbb_frame s (s\<lparr>base := b, chain := take d (chain s)\<rparr>)" "cbb_frame s (s\<lparr>base := b\<rparr>)"
  using assms chain_ok_mono chain_ok_take by (auto simp: cbb_frame_def cbb_ok_def buffer_frame_def)

lemma cbb_ok_base: "cbb_ok s \<Longrightarrow> cbb_buffer_ok (base s)"
  by (simp add: cbb_ok_def)

lemma cbb_keeps_flush: "cbb_keeps (CBB_flush al d)"
  unfolding cbb_keeps_def CBB_flush_def
  by (auto split: if_splits prod.splits
      intro: cbb_frame_refl cbb_frame_base(1) flush_chain_frame cbb_ok_base)

lemma cbb_keeps_on_base: "keeps_frame m \<Longrightarrow> cbb_keeps (on_base d m)"
  unfolding cbb_keeps_def on_base_def
  by (auto split: if_splits prod.splits
      intro: cbb_frame_refl cbb_frame_base(2) keeps_frameD cbb_ok_base)

lemma cbb_keeps_on_error: "cbb_ok s \<Longrightarrow> cbb_frame s (cbb_on_error d s)"
proof -
  assume ok: "cbb_ok s"
  then have "buffer_frame (base s) ((base s)\<lparr>error := True\<rparr>)"
    by (auto simp: cbb_ok_def buffer_frame_def cbb_buffer_ok_def)
  from cbb_frame_base(1) [OF ok this] show ?thesis by (simp add: cbb_on_error_def)
qed

lemma on_base_add_length:
  assumes "cbb_ok s" "n < 2 ^ 64" "on_base d (cbb_buffer_add al n) s = (r, s')"
  shows "cbb_frame s s' \<and> chain s' = chain s \<and> (r \<noteq> None \<longrightarrow> length (buf (base s')) = length (buf (base s)) + n)"
proof -
  have "cbb_frame s s'"
    using cbb_keepsD [OF cbb_keeps_on_base [OF keeps_frame_buffer_add [OF assms(2)]] assms(1,3)] .
  moreover have "cbb_buffer_ok (base s)" using assms(1) by (simp add: cbb_ok_def)
  ultimately show ?thesis
    using assms(3) buffer_add_frame [OF assms(2), of "base s" al]
    by (auto simp: on_base_def split: if_splits prod.splits)
qed

lemma cbb_keeps_add_child: "k < 2 ^ 64 \<Longrightarrow> cbb_keeps (cbb_add_child al d k a)"
  unfolding cbb_keeps_def
proof (intro allI impI)
  fix s r s' assume k: "k < 2 ^ 64" and ok: "cbb_ok s" and run: "cbb_add_child al d k a s = (r, s')"
  obtain x t where add: "on_base d (cbb_buffer_add al k) s = (x, t)" by fastforce
  note t = on_base_add_length [OF ok k add]
  show "cbb_frame s s'"
  proof (cases x)
    case None
    then show ?thesis using run add t by (simp add: cbb_add_child_def Let_def andthen_apply)
  next
    case (Some u)
    let ?c = "\<lparr>offset = length (buf (base s)), pending_len_len = k, pending_is_asn1 = a\<rparr>"
    have s': "s' = t\<lparr>chain := chain t @ [?c]\<rparr>" using run add Some by (simp add: cbb_add_child_def Let_def andthen_apply)
    have "chain_ok 0 (chain s @ [?c]) (length (buf (base t)))"
      using t Some ok by (intro chain_ok_snoc [of 0 _ "length (buf (base s))"]) (auto simp: cbb_ok_def)
    then show ?thesis using s' t by (auto simp: cbb_frame_def cbb_ok_def)
  qed
qed

lemma cbb_keeps_add_space:
  assumes len: "length data < 2 ^ 64"
  shows "cbb_keeps (CBB_add_space al d data)"
proof -
  have "cbb_keeps (andthen (on_base d (cbb_buffer_add al (length data))) (\<lambda>_ s.
     let b = base s; n = length (buf b) - length data
     in (Some (), s\<lparr>base := b\<lparr>buf := take n (buf b) @ data\<rparr>\<rparr>)))" (is "cbb_keeps (andthen _ ?f)")
    unfolding cbb_keeps_def
  proof (intro allI impI)
    fix s r s' assume ok: "cbb_ok s" and run: "andthen (on_base d (cbb_buffer_add al (length data))) ?f s = (r, s')"
    obtain x t where add: "on_base d (cbb_buffer_add al (length data)) s = (x, t)" by fastforce
    note t = on_base_add_length [OF ok len add]
    show "cbb_frame s s'"
    proof (cases x)
      case None
      then show ?thesis using run add t by (simp add: andthen_apply)
    next
      case (Some u)
      let ?b = "(base t)\<lparr>buf := take (length (buf (base t)) - length data) (buf (base t)) @ data\<rparr>"
      have "length (buf ?b) = length (buf (base t))" using t Some by simp
      then have "buffer_frame (base t) ?b" using t by (auto simp: buffer_frame_def cbb_frame_def cbb_ok_def cbb_buffer_ok_def)
      with t have "cbb_frame s (t\<lparr>base := ?b\<rparr>)"
        using cbb_frame_base(2) cbb_frame_ok cbb_frame_trans by blast
      then show ?thesis using run add Some by (simp add: andthen_apply Let_def)
    qed
  qed
  then show ?thesis unfolding CBB_add_space_def by (rule cbb_keeps_andthen [OF cbb_keeps_flush])
qed

lemma cbb_keeps_require_add_u:
  assumes "k \<le> 8"
  shows "cbb_keeps (cbb_add_u al d v k)"
proof -
  have len: "length (fst (store_be k w)) = k" for w
    by (simp add: store_be_eq)
  obtain bs rest where st: "store_be k v = (bs, rest)" by fastforce
  have "length bs < 2 ^ 64" using len [of v] st assms by simp
  moreover have "cbb_keeps (\<lambda>s. if rest \<noteq> 0 then (None :: unit option, cbb_on_error d s) else (Some (), s))"
    by (auto simp: cbb_keeps_def intro: cbb_keeps_on_error cbb_frame_refl)
  ultimately show ?thesis
    by (simp add: cbb_add_u_def st cbb_keeps_andthen cbb_keeps_add_space)
qed

lemma cbb_keeps_add_u8: "cbb_keeps (CBB_add_u8 al d b)"
  unfolding CBB_add_u8_eq by (rule cbb_keeps_add_space) simp

lemma cbb_keeps_put_all: "cbb_keeps (put_all (CBB_add_u8 al d) bs)"
  by (induction bs) (auto simp: cbb_keeps_add_u8 cbb_keeps_andthen, auto simp: cbb_keeps_def succeed_def cbb_frame_refl)

lemma cbb_keeps_add_asn1: "cbb_keeps (CBB_add_asn1 al d t)"
  unfolding CBB_add_asn1_def Let_def add_base128_integer_eq
  by (intro cbb_keeps_andthen cbb_keeps_flush cbb_keeps_add_child)
    (simp_all add: cbb_keeps_andthen cbb_keeps_add_u8 cbb_keeps_put_all)

lemma did_write_frame:
  assumes "cbb_ok s" "CBB_did_write d data s = (r, s')" "length data < 2 ^ 64"
  shows "cbb_frame s s'"
proof -
  let ?b = "base s"
  have ok: "length (buf ?b) < 2 ^ 64" "cap ?b < 2 ^ 64" using assms(1) by (auto simp: cbb_ok_def cbb_buffer_ok_def)
  show ?thesis
  proof (cases r)
    case None
    then show ?thesis using assms by (auto simp: CBB_did_write_def Let_def cbb_frame_refl split: if_splits)
  next
    case (Some u)
    then have w: "\<not> (length (buf ?b) + length data) mod 2 ^ 64 < length (buf ?b)"
      "\<not> (length (buf ?b) + length data) mod 2 ^ 64 > cap ?b" "s' = s\<lparr>base := ?b\<lparr>buf := buf ?b @ data\<rparr>\<rparr>"
      using assms(2) by (auto simp: CBB_did_write_def Let_def split: if_splits)
    have "length (buf ?b) + length data < 2 ^ 64"
    proof (rule ccontr)
      assume big: "\<not> length (buf ?b) + length data < 2 ^ 64"
      then have "(length (buf ?b) + length data) mod 2 ^ 64 = length (buf ?b) + length data - 2 ^ 64"
        using ok assms(3) by (subst le_mod_geq) simp_all
      then show False using w(1) big assms(3) by simp
    qed
    then have "length (buf ?b @ data) \<le> cap ?b" using w(2) by simp
    then have "buffer_frame ?b (?b\<lparr>buf := buf ?b @ data\<rparr>)" using ok by (auto simp: buffer_frame_def cbb_buffer_ok_def)
    from cbb_frame_base(2) [OF assms(1) this] w(3) show ?thesis by simp
  qed
qed

lemma discard_frame:
  assumes "cbb_ok s"
  shows "cbb_frame s (CBB_discard_child d s)"
proof (cases "length (chain s) \<le> d")
  case True
  then show ?thesis using assms by (simp add: CBB_discard_child_def cbb_frame_refl)
next
  case False
  then have "chain_ok 0 (take d (chain s)) (offset (chain s ! d))"
    "offset (chain s ! d) \<le> length (buf (base s))"
    using chain_ok_nth [of 0 "chain s" "length (buf (base s))" d] assms by (auto simp: cbb_ok_def)
  then show ?thesis
    using False assms by (auto simp: CBB_discard_child_def cbb_frame_def cbb_ok_def cbb_buffer_ok_def min_def)
qed

lemma cbb_step_frame:
  assumes "cbb_step al s s'" "cbb_ok s"
  shows "cbb_frame s s'"
  using assms
proof cases
  case (flush d r)
  then show ?thesis using cbb_keepsD [OF cbb_keeps_flush assms(2)] by blast
next
  case (space d data r)
  then show ?thesis using cbb_keepsD [OF cbb_keeps_add_space assms(2)] by blast
next
  case (uint d v k r)
  then show ?thesis using cbb_keepsD [OF cbb_keeps_require_add_u assms(2)] by blast
next
  case (prefixed d k r')
  have "k < 2 ^ 64" using prefixed by simp
  then have "cbb_keeps (cbb_add_length_prefixed al d k)"
    unfolding cbb_add_length_prefixed_def by (intro cbb_keeps_andthen cbb_keeps_flush cbb_keeps_add_child)
  then show ?thesis using cbb_keepsD assms(2) prefixed by blast
next
  case (asn1 d t r')
  then show ?thesis using cbb_keepsD [OF cbb_keeps_add_asn1 assms(2)] by blast
next
  case (reserve d n r)
  have "cbb_keeps (CBB_reserve al d n)"
    unfolding CBB_reserve_def by (intro cbb_keeps_andthen cbb_keeps_flush cbb_keeps_on_base keeps_frame_reserve)
  then show ?thesis using cbb_keepsD assms(2) reserve by blast
next
  case (did_write d data r)
  then show ?thesis using did_write_frame assms(2) by blast
next
  case (discard d)
  then show ?thesis using discard_frame assms(2) by simp
next
  case (failed d)
  then show ?thesis using cbb_keeps_on_error assms(2) by simp
qed

lemma cbb_init_ok: "n < 2 ^ 64 \<Longrightarrow> cbb_ok (cbb_init n r)"
  by (simp add: cbb_ok_def cbb_init_def cbb_buffer_ok_def)

lemma cbb_reach_ok: "cbb_reach al s \<Longrightarrow> cbb_ok s"
proof (induction rule: cbb_reach.induct)
  case (init n s)
  then show ?case by (auto simp: CBB_init_def cbb_init_ok split: if_splits)
next
  case (init_fixed n)
  then show ?case by (simp add: CBB_init_fixed_def cbb_init_ok)
next
  case (step s s')
  then show ?case using cbb_step_frame cbb_frame_ok by blast
qed

section \<open>Properties\<close>



text \<open>C5. Errors are sticky: after an operation has recorded an error, no further sequence of
  operations clears it, and the builder never hands out its contents.\<close>

theorem builder_error_sticky:
  assumes "cbb_reach al s" "error (base s)" "(cbb_step al)\<^sup>*\<^sup>* s s'"
  shows "error (base s') \<and> fst (CBB_finish al d have_outputs s') = None"
proof -
  from assms(3) have "cbb_ok s' \<and> error (base s')"
  proof induction
    case base
    then show ?case using cbb_reach_ok assms by blast
  next
    case (step t u)
    then show ?case using cbb_step_frame [of al t u] by (auto simp: cbb_frame_def)
  qed
  then show ?thesis by (simp add: CBB_finish_def andthen_apply CBB_flush_def require_def)
qed

theorem builder_error_sticky_witness:
  "fst (CBB_finish (\<lambda>_. True) 0 True (CBB_discard_child 0 (cbb_on_error 0 (CBB_init_fixed 4)))) = None"
proof -
  have "cbb_reach (\<lambda>_. True) (CBB_init_fixed 4)" by (rule init_fixed) simp
  then have "cbb_reach (\<lambda>_. True) (cbb_on_error 0 (CBB_init_fixed 4))" by (rule step) (rule failed)
  moreover have "error (base (cbb_on_error 0 (CBB_init_fixed 4)))" by (simp add: cbb_on_error_def)
  moreover have "(cbb_step (\<lambda>_. True))\<^sup>*\<^sup>* (cbb_on_error 0 (CBB_init_fixed 4))
      (CBB_discard_child 0 (cbb_on_error 0 (CBB_init_fixed 4)))"
    by (rule r_into_rtranclp) (rule discard)
  ultimately show ?thesis using builder_error_sticky by blast
qed

text \<open>A fixed buffer is never outgrown or replaced: a builder over the caller's buffer keeps
  that buffer's capacity for ever, through any sequence of operations.\<close>

theorem fixed_buffer_kept:
  assumes "n < 2 ^ 64" "(cbb_step al)\<^sup>*\<^sup>* (CBB_init_fixed n) s"
  shows "\<not> can_resize (base s) \<and> cap (base s) = n \<and> length (buf (base s)) \<le> n"
proof -
  from assms(2) have "cbb_ok s \<and> \<not> can_resize (base s) \<and> cap (base s) = n"
  proof induction
    case base
    then show ?case using cbb_init_ok [OF assms(1)] by (simp add: CBB_init_fixed_def) (simp add: cbb_init_def)
  next
    case (step t u)
    then show ?case using cbb_step_frame [of al t u] by (auto simp: cbb_frame_def)
  qed
  then show ?thesis by (auto simp: cbb_ok_def cbb_buffer_ok_def)
qed

theorem fixed_buffer_kept_witness:
  "length (buf (base (snd (CBB_add_space (\<lambda>_. True) 0 [1, 2, 3] (CBB_init_fixed 2))))) \<le> 2"
proof -
  have "(cbb_step (\<lambda>_. True))\<^sup>*\<^sup>* (CBB_init_fixed 2) (snd (CBB_add_space (\<lambda>_. True) 0 [1, 2, 3] (CBB_init_fixed 2)))"
    by (rule r_into_rtranclp, rule space [OF surjective_pairing]) simp
  from fixed_buffer_kept [OF _ this] show ?thesis by simp
qed

end
