(* ===== verification/Comparison.thy ===== *)
theory Comparison
  imports Main
begin

text \<open>
  The interface of C comparison functions: a negative, zero or positive result orders two
  elements. Sorting and searching are correct for every function that keeps these laws; the
  components that pass such functions show that theirs do.
\<close>

definition sorted_by :: "('a \<Rightarrow> 'a \<Rightarrow> int) \<Rightarrow> 'a list \<Rightarrow> bool" where
  "sorted_by cmp = sorted_wrt (\<lambda>a b. cmp a b \<le> 0)"

locale comparison =
  fixes cmp :: "'a \<Rightarrow> 'a \<Rightarrow> int"
  assumes cmp_flip: "cmp a b < 0 \<longleftrightarrow> 0 < cmp b a"
    and cmp_trans: "cmp a b \<le> 0 \<Longrightarrow> cmp b c \<le> 0 \<Longrightarrow> cmp a c \<le> 0"
begin

lemma cmp_refl [simp]: "cmp a a = 0"
  using cmp_flip [of a a] by linarith

lemma cmp_flip_le: "cmp a b \<le> 0 \<longleftrightarrow> 0 \<le> cmp b a"
  using cmp_flip [of b a] by linarith

lemma cmp_total: "cmp a b \<le> 0 \<or> cmp b a \<le> 0"
  using cmp_flip [of a b] cmp_flip [of b a] by linarith

lemma cmp_zero_flip: "cmp a b = 0 \<longleftrightarrow> cmp b a = 0"
  using cmp_flip [of a b] cmp_flip [of b a] by linarith

lemma cmp_less_trans: "cmp a b < 0 \<Longrightarrow> cmp b c \<le> 0 \<Longrightarrow> cmp a c < 0"
  using cmp_trans [of b c a] cmp_flip [of a b] cmp_flip [of a c] cmp_flip [of c a] by linarith

lemma sorted_nth: "sorted_by cmp xs \<Longrightarrow> i \<le> j \<Longrightarrow> j < length xs \<Longrightarrow> cmp (xs ! i) (xs ! j) \<le> 0"
  by (cases "i = j") (auto simp: sorted_by_def sorted_wrt_iff_nth_less)

end

end
