(* ===== verification/CBB_ASN1.thy ===== *)
theory CBB_ASN1
  imports CBB Comparison "HOL-Library.Multiset"
begin

text \<open>
  The ASN.1 writers of crypto/bytestring/cbb.c: INTEGER, OCTET STRING, BOOLEAN, OBJECT
  IDENTIFIER and SET OF, and the conversion of an object identifier to text of cbs.c, with
  the lemmas that relate them to the readers of CBS_ASN1.
\<close>

section \<open>Elements with a fixed kind of contents\<close>

text \<open>The \<open>err:\<close> labels of these functions: a failure poisons the whole builder.\<close>

definition or_error :: "nat \<Rightarrow> (cbb, 'a) routine \<Rightarrow> (cbb, 'a) routine" where
  "or_error d m = (\<lambda>s. case m s of (None, s) \<Rightarrow> (None, cbb_on_error d s) | (Some a, s) \<Rightarrow> (Some a, s))"

primrec add_uint64_loop :: "(nat \<Rightarrow> bool) \<Rightarrow> nat \<Rightarrow> u64 \<Rightarrow> nat \<Rightarrow> bool \<Rightarrow> (cbb, bool) routine" where
  "add_uint64_loop al child v 0 started = succeed started"
| "add_uint64_loop al child v (Suc k) started =
     (let byte = ucast (drop_bit (8 * k) v AND 0xff) :: u8
      in if \<not> started \<and> byte = 0 then add_uint64_loop al child v k started
         else andthen (if \<not> started \<and> byte AND 0x80 \<noteq> 0 then CBB_add_u8 al child 0 else succeed ()) (\<lambda>_.
              andthen (CBB_add_u8 al child byte) (\<lambda>_. add_uint64_loop al child v k True)))"

definition CBB_add_asn1_uint64_with_tag :: "(nat \<Rightarrow> bool) \<Rightarrow> nat \<Rightarrow> u64 \<Rightarrow> cbs_asn1_tag \<Rightarrow> (cbb, unit) routine" where
  "CBB_add_asn1_uint64_with_tag al d v tag =
     andthen (or_error d (andthen (CBB_add_asn1 al d tag) (\<lambda>child.
       andthen (add_uint64_loop al child v 8 False) (\<lambda>started.
       if \<not> started then CBB_add_u8 al child 0 else succeed ()))))
     (\<lambda>_. CBB_flush al d)"

definition CBB_add_asn1_uint64 :: "(nat \<Rightarrow> bool) \<Rightarrow> nat \<Rightarrow> u64 \<Rightarrow> (cbb, unit) routine" where
  "CBB_add_asn1_uint64 al d v = CBB_add_asn1_uint64_with_tag al d v CBS_ASN1_INTEGER"

text \<open>The bytes of an \<open>int64_t\<close> in memory, least significant first.\<close>

definition int64_memory :: "u64 \<Rightarrow> bytes" where
  "int64_memory v = map (\<lambda>i. ucast (drop_bit (8 * i) v)) [0..<8]"

primrec int64_start :: "bytes \<Rightarrow> nat \<Rightarrow> nat" where
  "int64_start bs 0 = 0"
| "int64_start bs (Suc start) =
     (if bs ! Suc start = 0xff \<and> bs ! start AND 0x80 \<noteq> 0 then int64_start bs start else Suc start)"

primrec add_bytes_down :: "(nat \<Rightarrow> bool) \<Rightarrow> nat \<Rightarrow> bytes \<Rightarrow> nat \<Rightarrow> (cbb, unit) routine" where
  "add_bytes_down al child bs 0 = succeed ()"
| "add_bytes_down al child bs (Suc i) =
     andthen (CBB_add_u8 al child (bs ! i)) (\<lambda>_. add_bytes_down al child bs i)"

definition CBB_add_asn1_int64_with_tag :: "(nat \<Rightarrow> bool) \<Rightarrow> nat \<Rightarrow> u64 \<Rightarrow> cbs_asn1_tag \<Rightarrow> (cbb, unit) routine" where
  "CBB_add_asn1_int64_with_tag al d v tag =
     (if 0 \<le> sint v then CBB_add_asn1_uint64_with_tag al d v tag
      else
        let bs = int64_memory v; start = int64_start bs 7
        in andthen (or_error d (andthen (CBB_add_asn1 al d tag) (\<lambda>child.
             add_bytes_down al child bs (start + 1))))
           (\<lambda>_. CBB_flush al d))"

definition CBB_add_asn1_int64 :: "(nat \<Rightarrow> bool) \<Rightarrow> nat \<Rightarrow> u64 \<Rightarrow> (cbb, unit) routine" where
  "CBB_add_asn1_int64 al d v = CBB_add_asn1_int64_with_tag al d v CBS_ASN1_INTEGER"

definition CBB_add_asn1_octet_string :: "(nat \<Rightarrow> bool) \<Rightarrow> nat \<Rightarrow> bytes \<Rightarrow> (cbb, unit) routine" where
  "CBB_add_asn1_octet_string al d data =
     or_error d (andthen (CBB_add_asn1 al d CBS_ASN1_OCTETSTRING) (\<lambda>child.
       andthen (CBB_add_bytes al child data) (\<lambda>_. CBB_flush al d)))"

definition CBB_add_asn1_bool :: "(nat \<Rightarrow> bool) \<Rightarrow> nat \<Rightarrow> int \<Rightarrow> (cbb, unit) routine" where
  "CBB_add_asn1_bool al d v =
     or_error d (andthen (CBB_add_asn1 al d CBS_ASN1_BOOLEAN) (\<lambda>child.
       andthen (CBB_add_u8 al child (if v \<noteq> 0 then 0xff else 0)) (\<lambda>_. CBB_flush al d)))"

section \<open>Lemmas on the contents written\<close>

lemma or_error_Some [simp]: "or_error d m s = (Some a, s') \<longleftrightarrow> m s = (Some a, s')"
  by (auto simp: or_error_def split: prod.splits option.splits)

definition uint_pad :: "bytes \<Rightarrow> bytes" where
  "uint_pad bs = (if bs \<noteq> [] \<and> 128 \<le> unat (hd bs) then 0 # bs else bs)"

definition uint_contents :: "nat \<Rightarrow> bytes" where
  "uint_contents v = (if v = 0 then [0] else uint_pad (dropWhile (\<lambda>b. b = 0) (be_bytes 8 v)))"

lemma be_bytes_Suc_front: "be_bytes (Suc k) v = of_nat (v div 256 ^ k) # be_bytes k v"
proof (induction k arbitrary: v)
  case (Suc k)
  have "v div 256 div 256 ^ k = v div 256 ^ Suc k" by (simp add: div_mult2_eq)
  then show ?case using Suc [of "v div 256"] by simp
qed simp

lemma u64_byte: "(ucast (drop_bit (8 * k) (v :: u64)) :: u8) = of_nat (unat v div 256 ^ k)"
  by (simp add: u8_eq_iff unsigned_ucast_eq take_bit_eq_mod unat_drop_bit power_mult)

lemma u64_byte_and: "(ucast (drop_bit (8 * k) (v :: u64) AND 0xff) :: u8) = of_nat (unat v div 256 ^ k)"
proof -
  have "(ucast (w AND 0xff) :: u8) = ucast (w :: u64)" for w
    using unat_and_eq_mod [of "0xff" 8 w] by (simp add: u8_eq_iff unsigned_ucast_eq take_bit_eq_mod mask_eq_exp_minus_1)
  then show ?thesis by (simp only: u64_byte)
qed

lemma andthen_assoc [simp]: "andthen (andthen m f) g = andthen m (\<lambda>a. andthen (f a) g)"
  by (auto simp: andthen_def fun_eq_iff split: prod.splits option.splits)

lemma add_uint64_loop_started:
  "add_uint64_loop al c v k True = andthen (put_all (CBB_add_u8 al c) (be_bytes k (unat v))) (\<lambda>_. succeed True)"
  by (induction k) (simp_all add: be_bytes_Suc_front u64_byte_and Let_def del: be_bytes.simps(2))

lemma add_uint64_loop_not_started:
  "add_uint64_loop al c v k False =
     (let bs = dropWhile (\<lambda>b. b = 0) (be_bytes k (unat v))
      in andthen (put_all (CBB_add_u8 al c) (uint_pad bs)) (\<lambda>_. succeed (bs \<noteq> [])))"
proof (induction k)
  case (Suc k)
  have *: "x AND 0x80 \<noteq> 0 \<longleftrightarrow> 128 \<le> unat x" for x :: u8 by (simp add: u8_and_80 not_less)
  show ?case
    unfolding add_uint64_loop.simps Let_def u64_byte_and *
    by (cases "of_nat (unat v div 256 ^ k) = (0 :: u8)")
      (simp_all add: Suc be_bytes_Suc_front Let_def uint_pad_def add_uint64_loop_started
        del: be_bytes.simps(2) unat_of_nat_u8)
qed (simp add: uint_pad_def)

lemma dropWhile_be_bytes: "dropWhile (\<lambda>b. b = 0) bs = [] \<longleftrightarrow> be_val bs = 0"
  by (induction bs) (auto simp: be_val_Cons unat_eq_zero)

lemma andthen_succeed_right [simp]: "andthen m succeed = m"
  by (auto simp: andthen_def succeed_def fun_eq_iff split: prod.splits option.splits)

lemma uint64_body_eq:
  "andthen (add_uint64_loop al c v 8 False) (\<lambda>started. if \<not> started then CBB_add_u8 al c 0 else succeed ()) =
     put_all (CBB_add_u8 al c) (uint_contents (unat v))"
proof -
  let ?bs = "dropWhile (\<lambda>b. b = 0) (be_bytes 8 (unat v))"
  have "be_val (be_bytes 8 (unat v)) = unat v" using unat_u64_less [of v] by simp
  then have *: "?bs = [] \<longleftrightarrow> unat v = 0" by (simp only: dropWhile_be_bytes)
  show ?thesis
  proof (cases "unat v = 0")
    case True
    with * have "?bs = []" by blast
    then show ?thesis
      using True by (simp add: add_uint64_loop_not_started Let_def uint_contents_def uint_pad_def del: dropWhile_eq_Nil_conv)
  next
    case False
    with * have "?bs \<noteq> []" by blast
    then show ?thesis
      using False by (simp add: add_uint64_loop_not_started Let_def uint_contents_def del: dropWhile_eq_Nil_conv)
  qed
qed

lemma add_bytes_down_eq:
  "n \<le> length bs \<Longrightarrow> add_bytes_down al c bs n = put_all (CBB_add_u8 al c) (rev (take n bs))"
  by (induction n) (simp_all add: take_Suc_conv_app_nth)

lemma element_bytes_written:
  assumes "length (chain s) = d"
    and "andthen (CBB_add_asn1 al d t) (\<lambda>c. andthen (put_all (CBB_add_u8 al c) bs) (\<lambda>_. CBB_flush al d)) s = (Some (), s')"
  shows "buf (base s') = buf (base s) @ der_element t bs \<and> chain s' = chain s \<and> length bs < 2 ^ 32 \<and>
    \<not> error (base s')"
proof -
  from assms(2) obtain c s1 s2 where s: "CBB_add_asn1 al d t s = (Some c, s1)"
    "put_all (CBB_add_u8 al c) bs s1 = (Some (), s2)" "CBB_flush al d s2 = (Some (), s')"
    by (auto simp: andthen_eq_Some)
  from add_asn1_eq_Some [OF s(1) assms(1)] assms(1) have c: "length (chain s1) = c" by auto
  from cbb.put_all_contents [OF c s(2)] put_all_no_error [OF s(2) c]
  show ?thesis using element_written [OF assms(1) s(1) _ _ s(3)] by blast
qed

lemma element_bytes_room:
  assumes "length (chain s) = d" "buffer_room al (base s) (length (der_tag t) + (1 + (length bs + (4 + n))))"
    and "length bs \<le> 0xfffffffe"
  shows "\<exists>s'. andthen (CBB_add_asn1 al d t) (\<lambda>c. andthen (put_all (CBB_add_u8 al c) bs) (\<lambda>_. CBB_flush al d)) s
    = (Some (), s') \<and> buffer_room al (base s') n"
proof -
  from add_asn1_room [OF assms(1,2)] obtain s1 where
    s1: "CBB_add_asn1 al d t s = (Some (d + 1), s1)" "buffer_room al (base s1) (length bs + (4 + n))" by blast
  from add_asn1_eq_Some [OF s1(1) assms(1)] assms(1) have c: "length (chain s1) = d + 1" by auto
  from cbb.put_all_room [OF c s1(2)] obtain s2 where
    s2: "put_all (CBB_add_u8 al (d + 1)) bs s1 = (Some (), s2)" "buffer_room al (base s2) (4 + n)" by blast
  from cbb.put_all_contents [OF c s2(1)] put_all_no_error [OF s2(1) c]
    element_room [OF assms(1) s1(1) _ _ s2(2) assms(3)]
  show ?thesis using s1 s2 by (auto simp: andthen_apply)
qed

lemma or_error_andthen_Some:
  "andthen (or_error d m) f s = (Some a, s') \<longleftrightarrow> andthen m f s = (Some a, s')"
  by (simp add: andthen_eq_Some)

lemma element_op_cases:
  assumes "\<And>a s'. m s = (Some a, s') \<longleftrightarrow>
      andthen (CBB_add_asn1 al d t) (\<lambda>c. andthen (put_all (CBB_add_u8 al c) bs) (\<lambda>_. CBB_flush al d)) s = (Some a, s')"
    and "length (chain s) = d"
  shows "m s = (Some (), s') \<Longrightarrow> buf (base s') = buf (base s) @ der_element t bs \<and> chain s' = chain s \<and>
      \<not> error (base s')"
    and "buffer_room al (base s) (length bs + 11) \<Longrightarrow> length bs \<le> 0xfffffffe \<Longrightarrow> \<exists>s'. m s = (Some (), s')"
proof -
  show "m s = (Some (), s') \<Longrightarrow> buf (base s') = buf (base s) @ der_element t bs \<and> chain s' = chain s \<and>
      \<not> error (base s')"
    using element_bytes_written [OF assms(2)] assms(1) by blast
  assume r: "buffer_room al (base s) (length bs + 11)" "length bs \<le> 0xfffffffe"
  have "buffer_room al (base s) (length (der_tag t) + (1 + (length bs + (4 + 0))))"
    using r(1) length_der_tag [of t] by (auto simp: buffer_room_def)
  from element_bytes_room [OF assms(2) this r(2)] assms(1) show "\<exists>s'. m s = (Some (), s')" by blast
qed

lemma add_uint64_with_tag_Some:
  "CBB_add_asn1_uint64_with_tag al d v t s = (Some a, s') \<longleftrightarrow>
     andthen (CBB_add_asn1 al d t) (\<lambda>c. andthen (put_all (CBB_add_u8 al c) (uint_contents (unat v)))
       (\<lambda>_. CBB_flush al d)) s = (Some a, s')"
  by (simp add: CBB_add_asn1_uint64_with_tag_def or_error_andthen_Some uint64_body_eq)

lemma add_int64_with_tag_Some:
  "sint v < 0 \<Longrightarrow> CBB_add_asn1_int64_with_tag al d v t s = (Some a, s') \<longleftrightarrow>
     andthen (CBB_add_asn1 al d t) (\<lambda>c. andthen (put_all (CBB_add_u8 al c)
       (rev (take (int64_start (int64_memory v) 7 + 1) (int64_memory v)))) (\<lambda>_. CBB_flush al d)) s = (Some a, s')"
proof -
  have "int64_start bs n \<le> n" for bs n by (induction n) auto
  from this [of _ 7] have "int64_start (int64_memory v) 7 + 1 \<le> length (int64_memory v)"
    by (simp add: int64_memory_def le_imp_less_Suc)
  then show "sint v < 0 \<Longrightarrow> ?thesis"
    unfolding CBB_add_asn1_int64_with_tag_def Let_def
    by (subst add_bytes_down_eq) (simp_all only: or_error_andthen_Some andthen_assoc not_le [symmetric] if_False)
qed

section \<open>The contents are the shortest two's complement\<close>

lemma be_val_dropWhile: "be_val (dropWhile (\<lambda>b. b = 0) bs) = be_val bs"
  by (induction bs) (auto simp: be_val_Cons)

lemma uint_pad_value: "bs \<noteq> [] \<Longrightarrow> int_value (uint_pad bs) = int (be_val bs)"
  by (auto simp: uint_pad_def int_value_def be_val_Cons)

lemma uint_pad_valid:
  assumes "bs \<noteq> []" "hd bs \<noteq> 0 \<or> length bs = 1"
  shows "CBS_is_valid_asn1_integer (uint_pad bs) = Some False"
proof -
  obtain b r where bs: "bs = b # r" using assms by (cases bs) auto
  show ?thesis
  proof (cases r)
    case Nil
    then show ?thesis using unat_eight_bit [of b] by (auto simp: uint_pad_def bs simp del: unat_eight_bit)
  next
    case (Cons c r')
    then show ?thesis using assms by (auto simp: uint_pad_def bs unat_eq_zero)
  qed
qed

lemma uint_contents_ok:
  assumes "v < 2 ^ 64"
  shows "CBS_is_valid_asn1_integer (uint_contents v) = Some False \<and> int_value (uint_contents v) = int v"
proof (cases "v = 0")
  case True
  then show ?thesis by (simp add: uint_contents_def int_value_def)
next
  case False
  let ?bs = "dropWhile (\<lambda>b. b = 0) (be_bytes 8 v)"
  have v: "be_val ?bs = v" using assms by (simp add: be_val_dropWhile)
  then have ne: "?bs \<noteq> []" using False by (metis be_val_Nil)
  then have "hd ?bs \<noteq> 0" using hd_dropWhile [of "\<lambda>b. b = 0"] by blast
  with ne uint_pad_valid [of ?bs] uint_pad_value [of ?bs] v False show ?thesis
    by (simp add: uint_contents_def del: dropWhile_eq_Nil_conv)
qed

lemma length_uint_contents: "length (uint_contents v) \<le> 9"
  using length_dropWhile_le [of "\<lambda>b. b = 0" "be_bytes 8 v"]
  by (simp add: uint_contents_def uint_pad_def)

lemma int64_memory_rev: "rev (int64_memory v) = be_bytes 8 (unat v)"
proof -
  have "rev (map (\<lambda>i. of_nat (n div 256 ^ i)) [0..<k]) = be_bytes k n" for k n
    by (induction k) (simp_all add: be_bytes_Suc_front del: be_bytes.simps(2))
  then show ?thesis by (simp only: int64_memory_def u64_byte)
qed

lemma int64_start_le: "int64_start bs n \<le> n"
  by (induction n) auto

lemma int64_start_ok:
  assumes "n < length bs" "128 \<le> unat (bs ! n)"
  shows "CBS_is_valid_asn1_integer (rev (take (int64_start bs n + 1) bs)) \<noteq> None \<and>
    int_value (rev (take (int64_start bs n + 1) bs)) = int_value (rev (take (n + 1) bs))"
  using assms
proof (induction n)
  case 0
  then show ?case by (simp add: take_Suc_conv_app_nth)
next
  case (Suc n)
  have t: "rev (take (Suc n + 1) bs) = bs ! Suc n # bs ! n # rev (take n bs)"
    "rev (take (n + 1) bs) = bs ! n # rev (take n bs)"
    using Suc.prems by (simp_all add: take_Suc_conv_app_nth)
  show ?case
  proof (cases "bs ! Suc n = 0xff \<and> bs ! n AND 0x80 \<noteq> 0")
    case True
    then have b: "unat (bs ! Suc n) = 255" "128 \<le> unat (bs ! n)" by (simp_all add: u8_and_80 not_less)
    then have "int_value (rev (take (Suc n + 1) bs)) = int_value (rev (take (n + 1) bs))"
      unfolding t by (intro int_value_redundant) simp
    with Suc.IH b True Suc.prems show ?thesis by simp
  next
    case False
    then have "\<not> (unat (bs ! Suc n) = 255 \<and> 128 \<le> unat (bs ! n))"
      using u8_eq_iff [of "bs ! Suc n" 255] by (auto simp: u8_and_80 not_less)
    with False t Suc.prems show ?thesis by auto
  qed
qed

lemma int64_contents_ok:
  assumes "sint v < 0"
  defines "bs \<equiv> rev (take (int64_start (int64_memory v) 7 + 1) (int64_memory v))"
  shows "CBS_is_valid_asn1_integer bs \<noteq> None \<and> int_value bs = sint v \<and> length bs \<le> 8"
proof -
  have len: "length (int64_memory v) = 8" by (simp add: int64_memory_def)
  have v64: "int (unat v) = sint v + 2 ^ 64"
    using assms sint_u64_cases [of v] by auto
  then have "int (2 ^ 63) \<le> int (unat v)" using sint_u64_range [of v] by simp
  then have v: "2 ^ 63 \<le> unat v" "int (unat v) = sint v + 2 ^ 64"
    using v64 by (simp_all only: of_nat_le_iff)
  have "be_bytes 8 (unat v) = of_nat (unat v div 256 ^ 7) # be_bytes 7 (unat v)"
    using be_bytes_Suc_front [of 7 "unat v"] by simp
  moreover have "128 \<le> unat v div 256 ^ 7 \<and> unat v div 256 ^ 7 < 256"
    using v unat_u64_less [of v] by (simp add: less_eq_div_iff_mult_less_eq less_mult_imp_div_less)
  ultimately have hd: "128 \<le> unat (hd (be_bytes 8 (unat v)))" by simp
  have "int64_memory v ! 7 = hd (be_bytes 8 (unat v))"
    using len last_conv_nth [of "int64_memory v"] by (cases "int64_memory v = []") (simp_all add: int64_memory_rev [symmetric] hd_rev)
  from int64_start_ok [of 7 "int64_memory v"] this hd len
  have "CBS_is_valid_asn1_integer bs \<noteq> None \<and> int_value bs = int_value (rev (int64_memory v))"
    by (simp add: bs_def)
  moreover have "int_value (be_bytes 8 (unat v)) = sint v"
  proof -
    have "be_bytes 8 (unat v) \<noteq> []" by (metis length_be_bytes list.size(3) zero_neq_numeral)
    then show ?thesis using hd v(2) unat_u64_less [of v] by (simp add: int_value_def)
  qed
  moreover have "length bs \<le> 8" using len int64_start_le [of "int64_memory v" 7] by (simp add: bs_def)
  ultimately show ?thesis by (simp only: int64_memory_rev) simp
qed

section \<open>Object identifiers and their text\<close>

text \<open>What \<open>snprintf\<close> writes for \<open>PRIu64\<close>.\<close>

fun decimal :: "nat \<Rightarrow> bytes" where
  "decimal n = (if n < 10 then [of_nat (48 + n)] else decimal (n div 10) @ [of_nat (48 + n mod 10)])"

declare decimal.simps [simp del]

definition add_decimal :: "(nat \<Rightarrow> bool) \<Rightarrow> nat \<Rightarrow> u64 \<Rightarrow> (cbb, unit) routine" where
  "add_decimal al d v = CBB_add_bytes al d (decimal (unat v))"

lemma parse_base128_loop_consumes:
  "parse_base128_integer_loop v s = (Some w, s') \<Longrightarrow> length s' < length s"
proof (induction v s rule: parse_base128_integer_loop.induct)
  case (2 v b s)
  then show ?case by (auto simp: Let_def split: if_splits intro: less_SucI)
qed simp

function oid_text_loop :: "(nat \<Rightarrow> bool) \<Rightarrow> cbs \<Rightarrow> (cbb, unit) routine" where
  "oid_text_loop al copy =
     (if copy = [] then succeed ()
      else case parse_base128_integer copy of
             (None, _) \<Rightarrow> failure
           | (Some v, copy) \<Rightarrow>
               andthen (CBB_add_u8 al 0 0x2e) (\<lambda>_.
               andthen (add_decimal al 0 v) (\<lambda>_. oid_text_loop al copy)))"
  by pat_completeness auto
termination
  by (relation "measure (\<lambda>(al, copy). length copy)")
    (auto simp: parse_base128_integer_def dest!: sym [of "(Some _, _)"] parse_base128_loop_consumes)

declare oid_text_loop.simps [simp del]

definition CBS_asn1_oid_to_text :: "(nat \<Rightarrow> bool) \<Rightarrow> cbs \<Rightarrow> bytes option" where
  "CBS_asn1_oid_to_text al cbs =
     (case CBB_init al 32 of
        None \<Rightarrow> None
      | Some cbb \<Rightarrow>
        (case parse_base128_integer cbs of
           (None, _) \<Rightarrow> None
         | (Some v, copy) \<Rightarrow>
             fst (andthen (if v \<ge> 80
                  then andthen (CBB_add_bytes al 0 [0x32, 0x2e]) (\<lambda>_. add_decimal al 0 (v - 80))
                  else andthen (add_decimal al 0 (v div 40)) (\<lambda>_.
                       andthen (CBB_add_u8 al 0 0x2e) (\<lambda>_. add_decimal al 0 (v mod 40))))
                 (\<lambda>_. andthen (oid_text_loop al copy)
                 (\<lambda>_. andthen (CBB_add_u8 al 0 0)
                 (\<lambda>_. CBB_finish al 0 True))) cbb)))"

definition parse_dotted_decimal :: "(cbs, u64) routine" where
  "parse_dotted_decimal = andthen CBS_get_u64_decimal (\<lambda>v cbs.
     case CBS_get_u8 cbs of
       (None, cbs) \<Rightarrow> (Some v, cbs)
     | (Some dot, cbs) \<Rightarrow> (if dot = 0x2e \<and> CBS_len cbs > 0 then Some v else None, cbs))"

lemma u64_decimal_loop_length:
  "CBS_get_u64_decimal_loop v seen s = (Some w, s') \<Longrightarrow>
     length s' \<le> length s \<and> (\<not> seen \<longrightarrow> length s' < length s)"
  by (induction v seen s rule: CBS_get_u64_decimal_loop.induct)
    (fastforce split: if_splits)+

lemma parse_dotted_decimal_length:
  assumes "parse_dotted_decimal s = (Some v, s')"
  shows "length s' < length s"
proof -
  from assms obtain s1 w where s1: "CBS_get_u64_decimal_loop 0 False s = (Some w, s1)"
    and rest: "(case CBS_get_u8 s1 of (None, cbs) \<Rightarrow> (Some w, cbs)
      | (Some dot, cbs) \<Rightarrow> (if dot = 0x2e \<and> CBS_len cbs > 0 then Some w else None, cbs)) = (Some v, s')"
    unfolding parse_dotted_decimal_def CBS_get_u64_decimal_def andthen_eq_Some by blast
  have "length s' \<le> length s1" using rest by (cases s1) auto
  then show ?thesis using u64_decimal_loop_length [OF s1] by simp
qed

function oid_from_text_loop :: "(nat \<Rightarrow> bool) \<Rightarrow> nat \<Rightarrow> cbs \<Rightarrow> (cbb, unit) routine" where
  "oid_from_text_loop al d cbs =
     (if CBS_len cbs > 0
      then case parse_dotted_decimal cbs of
             (None, _) \<Rightarrow> failure
           | (Some a, cbs) \<Rightarrow> andthen (add_base128_integer al d a) (\<lambda>_. oid_from_text_loop al d cbs)
      else succeed ())"
  by pat_completeness auto
termination
  by (relation "measure (\<lambda>(al, d, cbs). length cbs)")
    (auto dest!: sym [of "(Some _, _)"] parse_dotted_decimal_length)

declare oid_from_text_loop.simps [simp del]

definition CBB_add_asn1_oid_from_text :: "(nat \<Rightarrow> bool) \<Rightarrow> nat \<Rightarrow> bytes \<Rightarrow> (cbb, unit) routine" where
  "CBB_add_asn1_oid_from_text al d txt = andthen (CBB_flush al d) (\<lambda>_.
     case parse_dotted_decimal (CBS_init txt (length txt)) of
       (None, _) \<Rightarrow> failure
     | (Some a, cbs) \<Rightarrow>
       (case parse_dotted_decimal cbs of
          (None, _) \<Rightarrow> failure
        | (Some b, cbs) \<Rightarrow>
            if a > 2 \<or> (a < 2 \<and> b > 39) \<or> b > UINT64_MAX - 80 then failure
            else andthen (add_base128_integer al d (40 * a + b)) (\<lambda>_. oid_from_text_loop al d cbs)))"

section \<open>SET OF\<close>

definition OPENSSL_memcmp :: "bytes \<Rightarrow> bytes \<Rightarrow> nat \<Rightarrow> int" where
  "OPENSSL_memcmp s1 s2 n =
     (case dropWhile (\<lambda>(x, y). x = y) (zip (take n s1) (take n s2)) of
        [] \<Rightarrow> 0
      | (x, y) # _ \<Rightarrow> uint x - uint y)"

definition compare_set_of_element :: "bytes \<Rightarrow> bytes \<Rightarrow> int" where
  "compare_set_of_element a b =
     (let a_len = length a; b_len = length b;
          min_len = (if a_len < b_len then a_len else b_len);
          ret = OPENSSL_memcmp a b min_len
      in if ret \<noteq> 0 then ret
         else if a_len = b_len then 0
         else if a_len < b_len then -1 else 1)"

text \<open>The C library's \<open>qsort\<close>. Elements that compare equal here are equal byte strings, so
  every sorted permutation is this list.\<close>

fun qsort_insert :: "('a \<Rightarrow> 'a \<Rightarrow> int) \<Rightarrow> 'a \<Rightarrow> 'a list \<Rightarrow> 'a list" where
  "qsort_insert compar x [] = [x]"
| "qsort_insert compar x (y # ys) = (if compar x y \<le> 0 then x # y # ys else y # qsort_insert compar x ys)"

definition qsort :: "('a \<Rightarrow> 'a \<Rightarrow> int) \<Rightarrow> 'a list \<Rightarrow> 'a list" where
  "qsort compar xs = foldr (qsort_insert compar) xs []"

lemma any_asn1_element_length:
  assumes "CBS_get_any_asn1_element s = (Some e, s')"
  shows "length s' < length s"
proof -
  obtain t c where "s = der_element t c @ s'" using assms by (auto simp: any_asn1_element_iff)
  moreover have "0 < length (der_tag t)" using length_der_tag [of t] by linarith
  ultimately show ?thesis by (simp add: der_element_def der_header_def)
qed

function set_of_count :: "cbs \<Rightarrow> nat option" where
  "set_of_count cbs =
     (if CBS_len cbs = 0 then Some 0
      else case CBS_get_any_asn1_element cbs of
             (None, _) \<Rightarrow> None
           | (Some _, cbs) \<Rightarrow> map_option Suc (set_of_count cbs))"
  by pat_completeness auto
termination
  by (relation "measure length") (auto dest!: sym [of "(Some _, _)"] any_asn1_element_length)

declare set_of_count.simps [simp del]

primrec set_of_children :: "nat \<Rightarrow> (cbs, cbs list) routine" where
  "set_of_children 0 = succeed []"
| "set_of_children (Suc n) = andthen CBS_get_any_asn1_element (\<lambda>e.
     andthen (set_of_children n) (\<lambda>es. succeed (elem_out e # es)))"

text \<open>A \<open>CBS\<close> is a pointer and a \<open>size_t\<close>; \<open>OPENSSL_calloc\<close> refuses a product beyond \<open>size_t\<close>.\<close>

definition CBB_flush_asn1_set_of :: "(nat \<Rightarrow> bool) \<Rightarrow> nat \<Rightarrow> (cbb, unit) routine" where
  "CBB_flush_asn1_set_of al d = andthen (CBB_flush al d) (\<lambda>_ s.
     case set_of_count (CBS_init (CBB_data s d) (CBB_len s d)) of
       None \<Rightarrow> (None, s)
     | Some num_children \<Rightarrow>
       if num_children < 2 then (Some (), s)
       else
         (case OPENSSL_memdup al (CBB_data s d) of
            None \<Rightarrow> (None, s)
          | Some copy \<Rightarrow>
            if num_children * 16 \<ge> 2 ^ 64 \<or> \<not> al (num_children * 16) then (None, s)
            else
              (case set_of_children num_children copy of
                 (None, _) \<Rightarrow> (None, s)
               | (Some children, _) \<Rightarrow>
                   let b = base s; out = concat (qsort compare_set_of_element children);
                       start = cbb_start s d
                   in (Some (), s\<lparr>base := b\<lparr>buf := take start (buf b) @ out
                        @ drop (start + length out) (buf b)\<rparr>\<rparr>))))"

section \<open>Lemmas on decimal text\<close>

lemma decimal_digit_step:
  assumes "10 * m + k < 2 ^ 64" "k < 10" "m = 0 \<longrightarrow> \<not> seen"
  shows "CBS_get_u64_decimal_loop (of_nat m) seen (of_nat (48 + k) # rest) =
    CBS_get_u64_decimal_loop (of_nat (10 * m + k)) True rest"
proof -
  have digit: "OPENSSL_isdigit (uint (of_nat (48 + k) :: u8))"
  proof -
    have "unat (of_nat (48 + k) :: u8) = 48 + k" using assms(2) by (simp del: of_nat_add)
    then have "uint (of_nat (48 + k) :: u8) = int (48 + k)" by (metis of_nat_unat)
    then show ?thesis using assms(2) by (simp add: OPENSSL_isdigit_def)
  qed
  have c: "ucast (of_nat (48 + k) - 48 :: u8) = (of_nat k :: u64)"
  proof -
    have "(of_nat (48 + k) - 48 :: u8) = of_nat k" by simp
    then show ?thesis using assms(2) by (simp add: word_unat_eq_iff unsigned_ucast_eq unat_of_nat take_bit_eq_mod)
  qed
  have um: "unat (of_nat m :: u64) = m" using assms(1) by (simp add: unat_of_nat)
  have uk: "unat (of_nat k :: u64) = k" using assms(2) by (simp add: unat_of_nat)
  have max: "unat UINT64_MAX = 2 ^ 64 - 1" by (simp add: UINT64_MAX_def unsigned_minus_1_eq_mask mask_eq_exp_minus_1)
  have 1: "\<not> of_nat m > UINT64_MAX div 10"
    using assms(1) max by (simp add: word_less_nat_alt um unat_div)
  have m10: "(of_nat m * 10 :: u64) = of_nat (10 * m)" by simp
  have "unat (of_nat (10 * m) :: u64) = 10 * m"
    using assms(1) by (simp add: unat_of_nat del: of_nat_mult)
  moreover have "unat (UINT64_MAX - of_nat k :: u64) = 2 ^ 64 - 1 - k"
    using assms(2) max uk by (simp add: unat_sub word_le_nat_alt)
  ultimately have 2: "\<not> of_nat m * 10 > UINT64_MAX - of_nat k"
    using assms(1) unfolding m10 word_less_nat_alt by simp
  have 0: "\<not> (of_nat m = (0 :: u64) \<and> seen)"
    using assms(3) um by (metis unat_0)
  have "CBS_get_u64_decimal_loop (of_nat m) seen (of_nat (48 + k) # rest) =
      CBS_get_u64_decimal_loop (of_nat m * 10 + of_nat k) True rest"
    using 0 1 2 digit unfolding CBS_get_u64_decimal_loop.simps c by (simp only: simp_thms if_False if_True)
  moreover have "of_nat m * 10 + of_nat k = (of_nat (10 * m + k) :: u64)" by simp
  ultimately show ?thesis by (simp only:)
qed

lemma decimal_loop:
  "n < 2 ^ 64 \<Longrightarrow> CBS_get_u64_decimal_loop 0 False (decimal n @ rest) = CBS_get_u64_decimal_loop (of_nat n) True rest"
proof (induction n arbitrary: rest rule: decimal.induct)
  case (1 n)
  show ?case
  proof (cases "n < 10")
    case True
    then show ?thesis using decimal_digit_step [of 0 n False rest] by (simp add: decimal.simps [of n])
  next
    case False
    then have "decimal n @ rest = decimal (n div 10) @ (of_nat (48 + n mod 10) # rest)"
      by (subst decimal.simps) simp
    moreover have "CBS_get_u64_decimal_loop 0 False (decimal (n div 10) @ (of_nat (48 + n mod 10) # rest)) =
        CBS_get_u64_decimal_loop (of_nat (n div 10)) True (of_nat (48 + n mod 10) # rest)"
      using 1 False by auto
    moreover have "\<dots> = CBS_get_u64_decimal_loop (of_nat (10 * (n div 10) + n mod 10)) True rest"
      using 1 False by (intro decimal_digit_step) auto
    ultimately show ?thesis by simp
  qed
qed

lemma get_u64_decimal:
  assumes "n < 2 ^ 64" "rest \<noteq> [] \<Longrightarrow> \<not> OPENSSL_isdigit (uint (hd rest))"
  shows "CBS_get_u64_decimal (decimal n @ rest) = (Some (of_nat n), rest)"
  using assms decimal_loop [OF assms(1), of rest]
  by (cases rest) (simp_all add: CBS_get_u64_decimal_def)

lemma parse_dotted_decimal_dot:
  "rest \<noteq> [] \<Longrightarrow> parse_dotted_decimal (decimal (unat v) @ 0x2e # rest) = (Some v, rest)"
  using unat_u64_less [of v]
  by (simp add: parse_dotted_decimal_def andthen_apply get_u64_decimal OPENSSL_isdigit_def CBS_len_def)

lemma parse_dotted_decimal_end:
  "parse_dotted_decimal (decimal (unat v)) = (Some v, [])"
  using unat_u64_less [of v] get_u64_decimal [of "unat v" "[]"]
  by (simp add: parse_dotted_decimal_def andthen_apply)

lemma decimal_nonempty [simp]: "decimal n \<noteq> []"
  by (subst decimal.simps) simp

section \<open>The two OBJECT IDENTIFIER conversions are inverse\<close>

definition dotted :: "u64 list \<Rightarrow> bytes" where
  "dotted vs = concat (map (\<lambda>v. 0x2e # decimal (unat v)) vs)"

definition oid_first :: "u64 \<Rightarrow> u64 \<times> u64" where
  "oid_first v = (if v \<ge> 80 then (2, v - 80) else (v div 40, v mod 40))"

definition oid_text :: "u64 \<Rightarrow> u64 list \<Rightarrow> bytes" where
  "oid_text v vs = (case oid_first v of (a, b) \<Rightarrow> decimal (unat a) @ dotted (b # vs))"

definition oid_bytes :: "u64 list \<Rightarrow> bytes" where
  "oid_bytes vs = concat (map (\<lambda>v. base128 (unat v)) vs)"

lemma dotted_Cons [simp]: "dotted (v # vs) = 0x2e # decimal (unat v) @ dotted vs"
  by (simp add: dotted_def)

lemma dotted_Nil [simp]: "dotted [] = []"
  by (simp add: dotted_def)

lemma oid_bytes_Cons [simp]: "oid_bytes (v # vs) = base128 (unat v) @ oid_bytes vs"
  by (simp add: oid_bytes_def)

lemma oid_bytes_Nil [simp]: "oid_bytes [] = []"
  by (simp add: oid_bytes_def)

lemma parse_dotted_decimal_dotted:
  "parse_dotted_decimal (decimal (unat v) @ dotted vs) = (Some v, tl (dotted vs))"
  by (cases vs) (simp_all add: parse_dotted_decimal_end parse_dotted_decimal_dot)

lemma oid_from_text_loop_dotted:
  "oid_from_text_loop al d (tl (dotted vs)) = put_all (CBB_add_u8 al d) (oid_bytes vs)"
proof (induction vs)
  case Nil
  then show ?case by (simp add: oid_from_text_loop.simps CBS_len_def)
next
  case (Cons v vs)
  have "CBS_len (decimal (unat v) @ dotted vs) > 0" by (simp add: CBS_len_def)
  then show ?case
    by (simp add: oid_from_text_loop.simps [of al d "decimal (unat v) @ dotted vs"] parse_dotted_decimal_dotted
        Cons add_base128_integer_eq put_all_append del: dotted_def)
qed

lemma oid_first_join:
  assumes "oid_first v = (a, b)"
  shows "a \<le> 2 \<and> \<not> (a < 2 \<and> b > 39) \<and> \<not> b > UINT64_MAX - 80 \<and> 40 * a + b = v"
proof -
  have max: "unat (UINT64_MAX - 80) = 2 ^ 64 - 1 - 80"
    by (simp add: UINT64_MAX_def unsigned_minus_1_eq_mask mask_eq_exp_minus_1 unat_sub word_le_nat_alt)
  show ?thesis
  proof (cases "v \<ge> 80")
    case True
    then have "a = 2" "b = v - 80" using assms by (simp_all add: oid_first_def)
    moreover have "unat (v - 80) = unat v - 80" using True by (simp add: unat_sub)
    ultimately show ?thesis
      using unat_u64_less [of v] max by (simp add: word_less_nat_alt not_less)
  next
    case False
    then have v: "unat v < 80" by (simp add: word_le_nat_alt)
    have ab: "a = v div 40" "b = v mod 40" using False assms by (simp_all add: oid_first_def)
    have ua: "unat a = unat v div 40" "unat b = unat v mod 40" by (simp_all add: ab unat_div unat_mod)
    have "40 * a + b = v" unfolding ab by (metis mult.commute div_mult_mod_eq)
    moreover have "unat a \<le> 1" using v ua by linarith
    moreover have "unat b \<le> 39" using ua by simp
    ultimately show ?thesis
      using max by (simp add: word_less_nat_alt word_le_nat_alt)
  qed
qed

lemma oid_from_text_eq:
  assumes "length (chain s) = d" "\<not> error (base s)"
  shows "CBB_add_asn1_oid_from_text al d (oid_text v vs) s =
    put_all (CBB_add_u8 al d) (oid_bytes (v # vs)) s"
proof -
  obtain a b where ab: "oid_first v = (a, b)" by fastforce
  have init: "CBS_init t (length t) = t" for t by (simp add: CBS_init_def)
  have 1: "parse_dotted_decimal (oid_text v vs) = (Some a, decimal (unat b) @ dotted vs)"
    using parse_dotted_decimal_dotted [of a "b # vs"] by (simp add: oid_text_def ab)
  have 2: "\<not> (a > 2 \<or> a < 2 \<and> b > 39 \<or> b > UINT64_MAX - 80)" "40 * a + b = v"
    using oid_first_join [OF ab] by auto
  have "CBB_add_asn1_oid_from_text al d (oid_text v vs) s =
      andthen (add_base128_integer al d v) (\<lambda>_. oid_from_text_loop al d (tl (dotted vs))) s"
    unfolding CBB_add_asn1_oid_from_text_def init andthen_apply CBB_flush_top [OF assms(1)]
    using assms(2) 2 by (simp only: 1 parse_dotted_decimal_dotted option.case prod.case if_False)
  then show ?thesis
    by (simp add: add_base128_integer_eq oid_from_text_loop_dotted put_all_append)
qed

lemma add_decimal_eq: "add_decimal al d v = CBB_add_space al d (decimal (unat v))"
  by (simp add: add_decimal_def CBB_add_bytes_def)

lemma oid_text_loop_written:
  "oid_text_loop al copy s = (Some (), s') \<Longrightarrow> chain s = [] \<Longrightarrow>
     \<exists>vs. copy = oid_bytes vs \<and> buf (base s') = buf (base s) @ dotted vs \<and> chain s' = []"
proof (induction al copy arbitrary: s rule: oid_text_loop.induct)
  case (1 al copy)
  show ?case
  proof (cases "copy = []")
    case True
    then have "s' = s" using 1 by (simp add: oid_text_loop.simps [of al "[]"] succeed_def)
    then show ?thesis using True 1 by (intro exI [of _ "[]"]) simp
  next
    case False
    then obtain v r where p: "parse_base128_integer copy = (Some v, r)"
      using 1 by (cases "parse_base128_integer copy"; cases "fst (parse_base128_integer copy)")
        (auto simp: oid_text_loop.simps [of al copy] failure_def)
    then obtain s1 s2 where s: "CBB_add_space al 0 [0x2e] s = (Some (), s1)"
      "CBB_add_space al 0 (decimal (unat v)) s1 = (Some (), s2)" "oid_text_loop al r s2 = (Some (), s')"
      using 1 False by (auto simp: oid_text_loop.simps [of al copy] andthen_eq_Some CBB_add_u8_eq add_decimal_eq)
    from add_space_eq_Some [OF s(1)] 1(3) have s1: "buf (base s1) = buf (base s) @ [0x2e]" "chain s1 = []" by auto
    from add_space_eq_Some [OF s(2)] s1 have s2: "buf (base s2) = buf (base s) @ 0x2e # decimal (unat v)" "chain s2 = []" by auto
    from 1(1) [OF False p [symmetric] refl s(3) s2(2)] obtain vs where
      "r = oid_bytes vs" "buf (base s') = buf (base s2) @ dotted vs" "chain s' = []" by blast
    then show ?thesis
      using parse_base128_integer_canonical [OF p] s2(1) by (intro exI [of _ "v # vs"]) simp
  qed
qed

lemma base128_nonempty [simp]: "base128 n \<noteq> []"
  by (simp add: base128_def)

lemma oid_text_loop_room:
  "chain s = [] \<Longrightarrow> buffer_room al (base s) (length (dotted vs) + n) \<Longrightarrow>
     \<exists>s'. oid_text_loop al (oid_bytes vs) s = (Some (), s') \<and> buffer_room al (base s') n \<and> chain s' = []"
proof (induction vs arbitrary: s)
  case Nil
  then show ?case by (simp add: oid_text_loop.simps succeed_def)
next
  case (Cons v vs)
  have "buffer_room al (base s) (length [0x2e :: u8] + (length (decimal (unat v)) + (length (dotted vs) + n)))"
    using Cons.prems(2) by (simp add: add.assoc)
  from add_space_room [OF this, of 0] Cons.prems(1) obtain s1 where
    s1: "CBB_add_space al 0 [0x2e] s = (Some (), s1)"
      "buffer_room al (base s1) (length (decimal (unat v)) + (length (dotted vs) + n))" by auto
  have c1: "chain s1 = []" using add_space_eq_Some [OF s1(1)] Cons.prems(1) by simp
  from add_space_room [OF s1(2), of 0] c1 obtain s2 where
    s2: "CBB_add_space al 0 (decimal (unat v)) s1 = (Some (), s2)"
      "buffer_room al (base s2) (length (dotted vs) + n)" by auto
  have c2: "chain s2 = []" using add_space_eq_Some [OF s2(1)] c1 by simp
  have "parse_base128_integer (base128 (unat v) @ oid_bytes vs) = (Some v, oid_bytes vs)"
    using parse_base128_integer_base128 [of "unat v"] unat_u64_less [of v] by simp
  then show ?case
    using Cons.IH [OF c2 s2(2)] s1(1) s2(1)
    by (subst oid_bytes_Cons, subst oid_text_loop.simps) (simp add: andthen_apply CBB_add_u8_eq add_decimal_eq)
qed

lemma oid_first_part:
  assumes "oid_first v = (a, b)"
  shows "(if v \<ge> 80 then andthen (CBB_add_bytes al 0 [0x32, 0x2e]) (\<lambda>_. add_decimal al 0 (v - 80))
      else andthen (add_decimal al 0 (v div 40)) (\<lambda>_.
        andthen (CBB_add_u8 al 0 0x2e) (\<lambda>_. add_decimal al 0 (v mod 40)))) s = (Some (), s') \<Longrightarrow> chain s = [] \<Longrightarrow>
      buf (base s') = buf (base s) @ decimal (unat a) @ 0x2e # decimal (unat b) \<and> chain s' = []"
proof -
  assume *: "(if v \<ge> 80 then andthen (CBB_add_bytes al 0 [0x32, 0x2e]) (\<lambda>_. add_decimal al 0 (v - 80))
      else andthen (add_decimal al 0 (v div 40)) (\<lambda>_.
        andthen (CBB_add_u8 al 0 0x2e) (\<lambda>_. add_decimal al 0 (v mod 40)))) s = (Some (), s')" "chain s = []"
  have [simp]: "decimal 2 = [0x32]" by (simp add: decimal.simps)
  show ?thesis
    using * assms by (auto simp: oid_first_def andthen_eq_Some CBB_add_bytes_def add_decimal_eq CBB_add_u8_eq
        split: if_splits dest!: add_space_eq_Some)
qed

lemma oid_to_text_written:
  assumes "CBS_asn1_oid_to_text al c = Some t"
  shows "\<exists>v vs. c = oid_bytes (v # vs) \<and> t = oid_text v vs @ [0]"
proof -
  obtain s where s: "CBB_init al 32 = Some s" using assms by (auto simp: CBS_asn1_oid_to_text_def split: option.splits)
  then have s0: "s = cbb_init 32 True" by (auto simp: CBB_init_def split: if_splits)
  obtain v r where p: "parse_base128_integer c = (Some v, r)"
    using assms s by (auto simp: CBS_asn1_oid_to_text_def split: option.splits prod.splits)
  obtain a b where ab: "oid_first v = (a, b)" by fastforce
  let ?first = "if v \<ge> 80 then andthen (CBB_add_bytes al 0 [0x32, 0x2e]) (\<lambda>_. add_decimal al 0 (v - 80))
      else andthen (add_decimal al 0 (v div 40)) (\<lambda>_.
        andthen (CBB_add_u8 al 0 0x2e) (\<lambda>_. add_decimal al 0 (v mod 40)))"
  let ?all = "andthen ?first (\<lambda>_. andthen (oid_text_loop al r) (\<lambda>_. andthen (CBB_add_u8 al 0 0)
      (\<lambda>_. CBB_finish al 0 True)))"
  have "fst (?all s) = Some t"
    using assms unfolding CBS_asn1_oid_to_text_def s p by (simp only: option.case prod.case)
  then obtain s4 where "?all s = (Some t, s4)" by (metis prod.collapse)
  then obtain s1 s2 s3 where 1: "?first s = (Some (), s1)"
    and 2: "oid_text_loop al r s1 = (Some (), s2)" and 3: "CBB_add_space al 0 [0] s2 = (Some (), s3)"
    and 4: "CBB_finish al 0 True s3 = (Some t, s4)"
    unfolding andthen_eq_Some_unit CBB_add_u8_eq by blast
  from oid_first_part [OF ab 1] s0 have s1: "buf (base s1) = decimal (unat a) @ 0x2e # decimal (unat b)" "chain s1 = []"
    by (auto simp: cbb_init_def)
  from oid_text_loop_written [OF 2 s1(2)] obtain vs where
    vs: "r = oid_bytes vs" "buf (base s2) = buf (base s1) @ dotted vs" "chain s2 = []" by blast
  from add_space_eq_Some [OF 3] vs(3) have s3: "buf (base s3) = buf (base s2) @ [0]" "chain s3 = []" "\<not> error (base s3)" by auto
  have "t = buf (base s3)" using 4 s3 by (auto simp: CBB_finish_def andthen_apply require_def)
  then have "t = oid_text v vs @ [0]" using s3 vs s1 by (simp add: oid_text_def ab)
  with parse_base128_integer_canonical [OF p] vs show ?thesis by auto
qed

section \<open>The order of a SET OF\<close>

lemma memcmp_simps [simp]:
  "OPENSSL_memcmp a b 0 = 0"
  "OPENSSL_memcmp (x # a) (y # b) (Suc n) = (if x = y then OPENSSL_memcmp a b n else uint x - uint y)"
  by (simp_all add: OPENSSL_memcmp_def)

lemma compare_set_of_simps [simp]:
  "compare_set_of_element [] [] = 0"
  "compare_set_of_element [] (y # b) = -1"
  "compare_set_of_element (x # a) [] = 1"
  "compare_set_of_element (x # a) (y # b) = (if x = y then compare_set_of_element a b else uint x - uint y)"
proof -
  have "(if Suc m < Suc n then Suc m else Suc n) = Suc (if m < n then m else n)" for m n :: nat by simp
  then show "compare_set_of_element (x # a) (y # b) = (if x = y then compare_set_of_element a b else uint x - uint y)"
    using word_uint_eq_iff [of x y] by (simp add: compare_set_of_element_def Let_def)
qed (simp_all add: compare_set_of_element_def)

lemma compare_set_of_flip: "compare_set_of_element a b < 0 \<longleftrightarrow> 0 < compare_set_of_element b a"
proof (induction a arbitrary: b)
  case Nil
  then show ?case by (cases b) auto
next
  case (Cons x a)
  then show ?case by (cases b) auto
qed

lemma compare_set_of_trans:
  "compare_set_of_element a b \<le> 0 \<Longrightarrow> compare_set_of_element b c \<le> 0 \<Longrightarrow> compare_set_of_element a c \<le> 0"
proof (induction a arbitrary: b c)
  case Nil
  then show ?case by (cases c) auto
next
  case (Cons x a)
  then obtain y b' where b: "b = y # b'" by (cases b) auto
  with Cons.prems obtain z c' where c: "c = z # c'" by (cases c) auto
  have "x \<noteq> y \<Longrightarrow> uint x \<noteq> uint y" "y \<noteq> z \<Longrightarrow> uint y \<noteq> uint z" "x \<noteq> z \<Longrightarrow> uint x \<noteq> uint z"
    by (simp_all add: word_uint_eq_iff)
  with Cons.prems Cons.IH [of b' c'] show ?case unfolding b c by (auto split: if_splits)
qed

interpretation set_of: comparison compare_set_of_element
  by unfold_locales (rule compare_set_of_flip, rule compare_set_of_trans)

lemma qsort_insert_mset: "mset (qsort_insert c x ys) = {#x#} + mset ys"
  by (induction ys) auto

lemma qsort_mset: "mset (qsort c xs) = mset xs"
  unfolding qsort_def by (induction xs) (auto simp: qsort_insert_mset)

context comparison begin

lemma qsort_insert_sorted: "sorted_by cmp ys \<Longrightarrow> sorted_by cmp (qsort_insert cmp x ys)"
proof (induction ys)
  case (Cons y ys)
  have set: "set (qsort_insert cmp x ys) = insert x (set ys)"
    by (metis qsort_insert_mset set_mset_mset set_mset_add_mset_insert add_mset_add_single add.commute)
  show ?case
  proof (cases "cmp x y \<le> 0")
    case True
    then show ?thesis using Cons.prems by (auto simp: sorted_by_def intro: cmp_trans)
  next
    case False
    then have "cmp y x \<le> 0" using cmp_total by blast
    then show ?thesis using False Cons set by (auto simp: sorted_by_def)
  qed
qed (simp add: sorted_by_def)

lemma qsort_sorted: "sorted_by cmp (qsort cmp xs)"
  unfolding qsort_def by (induction xs) (simp add: sorted_by_def, simp add: qsort_insert_sorted)

end

lemma set_of_count_children:
  "set_of_count s = Some n \<Longrightarrow>
     \<exists>es. set_of_children n s = (Some es, []) \<and> length es = n \<and> concat es = s \<and>
       (\<forall>e\<in>set es. \<exists>t c. valid_tag t \<and> length c < 2 ^ 32 \<and> e = der_element t c)"
proof (induction s arbitrary: n rule: set_of_count.induct)
  case (1 s)
  show ?case
  proof (cases "s = []")
    case True
    then show ?thesis using 1(2) by (simp add: set_of_count.simps CBS_len_def succeed_def)
  next
    case False
    then have ne: "CBS_len s \<noteq> 0" by (simp add: CBS_len_def)
    with 1(2) obtain e r where e: "CBS_get_any_asn1_element s = (Some e, r)"
      by (cases "CBS_get_any_asn1_element s"; cases "fst (CBS_get_any_asn1_element s)")
        (auto simp: set_of_count.simps [of s])
    with 1(2) ne obtain m where m: "set_of_count r = Some m" "n = Suc m" by (auto simp: set_of_count.simps [of s])
    from 1(1) [OF ne e [symmetric] refl m(1)] obtain es where
      es: "set_of_children m r = (Some es, [])" "length es = m" "concat es = r"
        "\<forall>e\<in>set es. \<exists>t c. valid_tag t \<and> length c < 2 ^ 32 \<and> e = der_element t c" by blast
    from e obtain t c where tc: "valid_tag t" "length c < 2 ^ 32" "e = element_result t c" "s = der_element t c @ r"
      by (auto simp: any_asn1_element_iff)
    then show ?thesis
      using es m e by (intro exI [of _ "der_element t c # es"]) (auto simp: andthen_apply succeed_def)
  qed
qed

lemma set_of_count_elements:
  "\<forall>e\<in>set es. \<exists>t c. valid_tag t \<and> length c < 2 ^ 32 \<and> e = der_element t c \<Longrightarrow>
     set_of_count (concat es) = Some (length es)"
proof (induction es)
  case Nil
  then show ?case by (simp add: set_of_count.simps CBS_len_def)
next
  case (Cons e es)
  then obtain t c where e: "valid_tag t" "length c < 2 ^ 32" "e = der_element t c" by auto
  then have "CBS_get_any_asn1_element (concat (e # es)) = (Some (element_result t c), concat es)"
    by (auto simp: any_asn1_element_iff)
  moreover from any_asn1_element_length [OF this] have "CBS_len (concat (e # es)) \<noteq> 0"
    by (auto simp: CBS_len_def)
  ultimately show ?case using Cons by (subst set_of_count.simps) simp
qed

section \<open>Fixed-width integers and length prefixes\<close>

lemma add_u_get_u:
  assumes "cbb_add_u al d v n s = (Some (), s')" "length (chain s) = d" "n \<le> 8"
  shows "\<exists>bs. buf (base s') = buf (base s) @ bs \<and> length bs = n \<and> unat v < 256 ^ n \<and> (\<forall>r. cbs_get_u n (bs @ r) = (Some v, r))"
proof -
  have v: "unat v < 256 ^ n"
    using cbb_add_u_too_large [of v n al d s] assms(1) by (cases "unat v < 256 ^ n") auto
  then have "CBB_add_space al d (be_bytes n (unat v)) s = (Some (), s')" using assms(1) by (simp add: cbb_add_u_eq)
  then have "buf (base s') = buf (base s) @ be_bytes n (unat v)" using add_space_eq_Some assms(2) by blast
  moreover have "cbs_get_u n (be_bytes n (unat v) @ r) = (Some v, r)" for r
    using cbs_get_u_be_bytes [OF v assms(3), of r] by (auto simp: word_unat_eq_iff)
  ultimately show ?thesis using v by auto
qed

lemma prefixed_written:
  assumes "length (chain s) = d" "cbb_add_length_prefixed al d k s = (Some d', s1)" "k < 2 ^ 64"
    and "buf (base s2) = buf (base s1) @ c" "chain s2 = chain s1"
    and "CBB_flush al d s2 = (Some (), s3)"
  shows "buf (base s3) = buf (base s) @ be_bytes k (length c) @ c \<and> chain s3 = chain s \<and> length c < 256 ^ k"
proof -
  let ?c = "\<lparr>offset = length (buf (base s)), pending_len_len = k, pending_is_asn1 = False\<rparr>"
  have "\<not> error (base s)" and add: "cbb_add_child al d k False s = (Some d', s1)"
    using assms(1,2) by (auto simp: cbb_add_length_prefixed_def andthen_eq_Some split: if_splits)
  from add_child_eq_Some [OF add assms(1)] have s1: "buf (base s1) = buf (base s) @ replicate k 0"
    "chain s1 = chain s @ [?c]" by simp_all
  from CBB_flush_child [OF assms(6) _ assms(1)] s1 assms(5) obtain b where
    b: "cbb_finish_child al ?c (base s2) = (Some (), b)" "s3 = s2\<lparr>base := b, chain := chain s\<rparr>" by auto
  have "buf (base s2) = buf (base s) @ replicate k 0 @ c" using assms(4) s1 by simp
  from finish_child_plain [OF b(1) _ this] assms(3) b(2) show ?thesis by simp
qed

lemma get_length_prefixed:
  assumes "length c < 256 ^ k" "k \<le> 8"
  shows "cbs_get_length_prefixed k (be_bytes k (length c) @ c @ r) = (Some c, r)"
proof -
  obtain v where "cbs_get_u k (be_bytes k (length c) @ c @ r) = (Some v, c @ r)" "unat v = length c"
    using cbs_get_u_be_bytes [OF assms] by blast
  then show ?thesis by (simp add: cbs_get_length_prefixed_def andthen_apply)
qed

lemma add_u_room:
  assumes "buffer_room al (base s) (n + m)" "length (chain s) = d" "unat v < 256 ^ n"
  shows "\<exists>s'. cbb_add_u al d v n s = (Some (), s') \<and> buffer_room al (base s') m"
  using add_space_room [of al s "be_bytes n (unat v)" m d] assms by (simp add: cbb_add_u_eq)

lemma init_fixed_simps [simp]:
  "buf (base (CBB_init_fixed n)) = []" "chain (CBB_init_fixed n) = []"
  "n < 2 ^ 64 \<Longrightarrow> buffer_room al (base (CBB_init_fixed n)) m \<longleftrightarrow> m \<le> n"
  by (auto simp: CBB_init_fixed_def cbb_init_def buffer_room_def)

lemma unat_ucast_u32_u64: "unat (ucast (w :: u32) :: u64) = unat w"
  using unat_u32_less [of w] by (simp add: unsigned_ucast_eq take_bit_nat_eq_self less_le_trans [of _ "2 ^ 32"])

section \<open>Properties\<close>

text \<open>Round trip of the fixed-width integers: what the writers of every width and byte order
  append, the readers of the same width and byte order read back, whatever follows; the 24-bit
  writer refuses a value that does not fit.\<close>

theorem fixed_width_roundtrip:
  assumes "length (chain s) = d"
  shows "(CBB_add_u8 al d b s = (Some (), s') \<longrightarrow>
      (\<exists>bs. buf (base s') = buf (base s) @ bs \<and> CBS_get_u8 (bs @ r) = (Some b, r))) \<and>
    (CBB_add_u16 al d h s = (Some (), s') \<longrightarrow>
      (\<exists>bs. buf (base s') = buf (base s) @ bs \<and> CBS_get_u16 (bs @ r) = (Some h, r))) \<and>
    (CBB_add_u16le al d h s = (Some (), s') \<longrightarrow>
      (\<exists>bs. buf (base s') = buf (base s) @ bs \<and> CBS_get_u16le (bs @ r) = (Some h, r))) \<and>
    (CBB_add_u24 al d w s = (Some (), s') \<longrightarrow> unat w < 2 ^ 24 \<and>
      (\<exists>bs. buf (base s') = buf (base s) @ bs \<and> CBS_get_u24 (bs @ r) = (Some w, r))) \<and>
    (CBB_add_u32 al d w s = (Some (), s') \<longrightarrow>
      (\<exists>bs. buf (base s') = buf (base s) @ bs \<and> CBS_get_u32 (bs @ r) = (Some w, r))) \<and>
    (CBB_add_u32le al d w s = (Some (), s') \<longrightarrow>
      (\<exists>bs. buf (base s') = buf (base s) @ bs \<and> CBS_get_u32le (bs @ r) = (Some w, r))) \<and>
    (CBB_add_u64 al d v s = (Some (), s') \<longrightarrow>
      (\<exists>bs. buf (base s') = buf (base s) @ bs \<and> CBS_get_u64 (bs @ r) = (Some v, r))) \<and>
    (CBB_add_u64le al d v s = (Some (), s') \<longrightarrow>
      (\<exists>bs. buf (base s') = buf (base s) @ bs \<and> CBS_get_u64le (bs @ r) = (Some v, r)))"
proof -
  have u: "cbb_add_u al d x n s = (Some (), s') \<Longrightarrow> n \<le> 8 \<Longrightarrow>
      \<exists>bs. buf (base s') = buf (base s) @ bs \<and> cbs_get_u n (bs @ r) = (Some x, r) \<and> unat x < 256 ^ n" for x n
    using add_u_get_u [OF _ assms] by blast
  have b: "CBB_add_u8 al d b s = (Some (), s') \<Longrightarrow> buf (base s') = buf (base s) @ [b]"
    using cbb.put_contents [OF assms] by blast
  have [simp]: "ucast (ucast h :: u64) = h" "ucast (ucast w :: u64) = w" for h :: u16 and w :: u32
    by (rule bit_word_eqI, simp add: bit_simps)+
  show ?thesis
    using b u [of "ucast h" 2] u [of "ucast (CRYPTO_bswap2 h)" 2] u [of "ucast w" 3] u [of "ucast w" 4]
      u [of "ucast (CRYPTO_bswap4 w)" 4] u [of v 8] u [of "CRYPTO_bswap8 v" 8]
    by (intro conjI impI)
      (auto simp: CBB_add_u16_def CBB_add_u16le_def CBB_add_u24_def CBB_add_u32_def CBB_add_u32le_def
        CBB_add_u64_def CBB_add_u64le_def CBS_get_u16_def CBS_get_u16le_def CBS_get_u24_def CBS_get_u32_def
        CBS_get_u32le_def CBS_get_u64_def CBS_get_u64le_def andthen_apply succeed_def unat_ucast_u32_u64
        bswap2_bswap2 bswap4_bswap4 bswap8_bswap8)
qed

theorem fixed_width_roundtrip_witness:
  "\<exists>bs. buf (base (snd (CBB_add_u32le (\<lambda>_. True) 0 0x12345678 (CBB_init_fixed 4)))) = bs \<and>
     CBS_get_u32le (bs @ [7]) = (Some 0x12345678, [7])"
proof -
  have init: "length (chain (CBB_init_fixed 4)) = 0" "buf (base (CBB_init_fixed 4)) = []" by simp_all
  have "unat (ucast (CRYPTO_bswap4 0x12345678) :: u64) < 256 ^ 4"
    by (simp add: unat_ucast_u32_u64 unat_u32_less [simplified])
  from add_u_room [OF _ init(1) this, of "\<lambda>_. True" 0] obtain s' where
    "CBB_add_u32le (\<lambda>_. True) 0 0x12345678 (CBB_init_fixed 4) = (Some (), s')"
    by (auto simp: CBB_add_u32le_def CBB_add_u32_def)
  with fixed_width_roundtrip [where al = "\<lambda>_. True" and s' = s' and r = "[7]" and w = "0x12345678", OF init(1)] init(2)
  show ?thesis by simp
qed

text \<open>Round trip of length-prefixed contents: a child opened with an 8, 16 or 24-bit prefix,
  filled with any bytes and flushed, appends one string which the reader with the same prefix
  takes back as exactly those bytes, leaving what follows.\<close>

theorem length_prefixed_roundtrip:
  assumes "length (chain s) = d" "k \<in> {1, 2, 3}" "cbb_add_length_prefixed al d k s = (Some d', s1)"
    and "buf (base s2) = buf (base s1) @ c" "chain s2 = chain s1"
    and "CBB_flush al d s2 = (Some (), s3)"
  shows "\<exists>bs. buf (base s3) = buf (base s) @ bs \<and> chain s3 = chain s \<and>
    cbs_get_length_prefixed k (bs @ r) = (Some c, r)"
proof -
  have "k < 2 ^ 64" "k \<le> 8" using assms(2) by auto
  from prefixed_written [OF assms(1,3) this(1) assms(4-6)] get_length_prefixed [OF _ this(2), of c r]
  show ?thesis by auto
qed

lemma run_prefixed:
  "CBB_init_fixed 4 = \<lparr>base = \<lparr>buf = [], cap = 4, can_resize = False, error = False\<rparr>, chain = []\<rparr>"
  by (simp add: CBB_init_fixed_def cbb_init_def)

theorem length_prefixed_roundtrip_witness:
  "cbs_get_length_prefixed 2 ([0, 1, 9] @ [5]) = (Some [9], [5])"
proof -
  let ?al = "\<lambda>_. False"
  let ?s1 = "\<lparr>base = \<lparr>buf = [0, 0], cap = 4, can_resize = False, error = False\<rparr>,
    chain = [\<lparr>offset = 0, pending_len_len = 2, pending_is_asn1 = False\<rparr>]\<rparr>"
  let ?s2 = "?s1\<lparr>base := (base ?s1)\<lparr>buf := [0, 0, 9]\<rparr>\<rparr>"
  let ?s3 = "\<lparr>base = \<lparr>buf = [0, 1, 9], cap = 4, can_resize = False, error = False\<rparr>, chain = []\<rparr>"
  have two: "replicate 2 0 = [0, 0 :: u8]" by (simp add: numeral_2_eq_2)
  have open_child: "cbb_add_length_prefixed ?al 0 2 (CBB_init_fixed 4) = (Some 1, ?s1)"
    by (simp add: run_prefixed cbb_add_length_prefixed_def cbb_add_child_def on_base_def Let_def
        cbb_buffer_add_def cbb_buffer_reserve_def andthen_apply two)
  have "store_length [0, 0, 9] 0 2 1 = ([0, 1, 9], 0)" by (simp add: numeral_2_eq_2)
  then have "CBB_flush ?al 0 ?s2 = (Some (), ?s3)"
    by (simp add: CBB_flush_def cbb_finish_child_def cbb_store_prefix_def Let_def andthen_apply)
  from length_prefixed_roundtrip [OF _ _ open_child _ _ this, of "[9]" "[5]"] show ?thesis by simp
qed

text \<open>C3. Round trip of an element: opening a child with a tag, filling it with any bytes and
  flushing appends exactly the DER encoding, whatever the length, and every DER reader takes it
  back; and the flush succeeds whenever the header fits.\<close>

theorem element_roundtrip:
  assumes "length (chain s) = d" "valid_tag t" "CBB_add_asn1 al d t s = (Some d', s1)"
    and "buf (base s2) = buf (base s1) @ c" "chain s2 = chain s1"
  shows "(CBB_flush al d s2 = (Some (), s3) \<longrightarrow>
      (\<exists>bs. buf (base s3) = buf (base s) @ bs \<and> chain s3 = chain s \<and> CBS_get_asn1 t (bs @ r) = (Some c, r))) \<and>
    (buffer_room al (base s2) 4 \<longrightarrow> length c \<le> 0xfffffffe \<longrightarrow> (\<exists>s3. CBB_flush al d s2 = (Some (), s3)))"
proof (intro conjI impI)
  assume "CBB_flush al d s2 = (Some (), s3)"
  from element_written [OF assms(1,3-5) this] assms(2)
  show "\<exists>bs. buf (base s3) = buf (base s) @ bs \<and> chain s3 = chain s \<and> CBS_get_asn1 t (bs @ r) = (Some c, r)"
    unfolding CBS_get_asn1_iff by blast
next
  assume "buffer_room al (base s2) 4" "length c \<le> 0xfffffffe"
  then show "\<exists>s3. CBB_flush al d s2 = (Some (), s3)"
    using element_room [OF assms(1,3-5), of 0] by auto
qed

theorem element_roundtrip_witness:
  "\<exists>s1 s3 bs. CBB_add_asn1 (\<lambda>_. True) 0 CBS_ASN1_OCTETSTRING (CBB_init_fixed 9) = (Some 1, s1) \<and>
     CBB_flush (\<lambda>_. True) 0 s1 = (Some (), s3) \<and> buf (base s3) = bs \<and>
     CBS_get_asn1 CBS_ASN1_OCTETSTRING (bs @ [1]) = (Some [], [1])"
proof -
  let ?al = "\<lambda>_. True" and ?s = "CBB_init_fixed 9"
  have len: "length (der_tag CBS_ASN1_OCTETSTRING) = 1" by (simp add: der_tag_def CBS_ASN1_OCTETSTRING_def)
  have init: "length (chain ?s) = 0" "buffer_room ?al (base ?s) (length (der_tag CBS_ASN1_OCTETSTRING) + (1 + 4))"
    by (simp_all add: len)
  from add_asn1_room [OF init] obtain s1 where
    s1: "CBB_add_asn1 ?al 0 CBS_ASN1_OCTETSTRING ?s = (Some 1, s1)" "buffer_room ?al (base s1) 4" by auto
  note el = element_roundtrip [OF init(1) valid_tag_simps(3) s1(1), of s1 "[]" _ "[1]"]
  from el s1 obtain s3 where "CBB_flush ?al 0 s1 = (Some (), s3)" by auto
  with el [of s3] s1 show ?thesis by auto
qed

text \<open>C9. The INTEGER writers are total on a builder with 20 bytes of room and inverse to the
  readers: every 64-bit value, unsigned or signed, is written as one element which the reader of
  the same signedness takes back as that value.\<close>

theorem integer_roundtrip:
  assumes "length (chain s) = d"
  shows "(buffer_room al (base s) 20 \<longrightarrow> (\<exists>s'. CBB_add_asn1_uint64 al d v s = (Some (), s'))) \<and>
    (CBB_add_asn1_uint64 al d v s = (Some (), s') \<longrightarrow>
      (\<exists>bs. buf (base s') = buf (base s) @ bs \<and> CBS_get_asn1_uint64 (bs @ r) = (Some v, r))) \<and>
    (buffer_room al (base s) 20 \<longrightarrow> (\<exists>s'. CBB_add_asn1_int64 al d v s = (Some (), s'))) \<and>
    (CBB_add_asn1_int64 al d v s = (Some (), s') \<longrightarrow>
      (\<exists>bs. buf (base s') = buf (base s) @ bs \<and> CBS_get_asn1_int64 (bs @ r) = (Some v, r)))"
proof -
  define cs where "cs = (if 0 \<le> sint v then uint_contents (unat v)
    else rev (take (int64_start (int64_memory v) 7 + 1) (int64_memory v)))"
  have "int (unat v) < 2 ^ 64" using unat_u64_less [of v] by (metis of_nat_less_iff of_nat_numeral of_nat_power)
  then have sv: "0 \<le> sint v \<Longrightarrow> sint v = int (unat v)" using sint_u64_cases [of v] by linarith
  have cs: "CBS_is_valid_asn1_integer cs \<noteq> None \<and> int_value cs = sint v \<and> length cs \<le> 9"
    using uint_contents_ok [OF unat_u64_less [of v]] int64_contents_ok [of v] length_uint_contents [of "unat v"]
      sv by (cases "0 \<le> sint v") (simp_all add: cs_def not_le)
  have u: "CBS_is_valid_asn1_integer (uint_contents (unat v)) \<noteq> None \<and> int_value (uint_contents (unat v)) = int (unat v)"
    using uint_contents_ok [OF unat_u64_less [of v]] by auto
  have w1: "CBB_add_asn1_uint64 al d v s = (Some a, x) \<longleftrightarrow> andthen (CBB_add_asn1 al d CBS_ASN1_INTEGER)
      (\<lambda>c. andthen (put_all (CBB_add_u8 al c) (uint_contents (unat v))) (\<lambda>_. CBB_flush al d)) s = (Some a, x)" for a x
    unfolding CBB_add_asn1_uint64_def by (rule add_uint64_with_tag_Some)
  have w2: "CBB_add_asn1_int64 al d v s = (Some a, x) \<longleftrightarrow> andthen (CBB_add_asn1 al d CBS_ASN1_INTEGER)
      (\<lambda>c. andthen (put_all (CBB_add_u8 al c) cs) (\<lambda>_. CBB_flush al d)) s = (Some a, x)" for a x
    unfolding CBB_add_asn1_int64_def cs_def
    using add_int64_with_tag_Some [of v] add_uint64_with_tag_Some [of al d v]
    by (cases "0 \<le> sint v") (simp_all add: not_le CBB_add_asn1_int64_with_tag_def)
  have room: "buffer_room al (base s) 20 \<Longrightarrow> n \<le> 9 \<Longrightarrow> buffer_room al (base s) (n + 11)" for n
    by (auto simp: buffer_room_def)
  note e1 = element_op_cases [where m = "CBB_add_asn1_uint64 al d v" and s = s, OF w1 assms]
    and e2 = element_op_cases [where m = "CBB_add_asn1_int64 al d v" and s = s, OF w2 assms]
  have "buffer_room al (base s) 20 \<Longrightarrow> \<exists>s'. CBB_add_asn1_uint64 al d v s = (Some (), s')"
    using e1(2) room length_uint_contents [of "unat v"] by fastforce
  moreover have "buffer_room al (base s) 20 \<Longrightarrow> \<exists>s'. CBB_add_asn1_int64 al d v s = (Some (), s')"
    using e2(2) room cs by fastforce
  moreover have "CBS_get_asn1_uint64 (der_element CBS_ASN1_INTEGER (uint_contents (unat v)) @ r) = (Some v, r)"
    using u length_uint_contents [of "unat v"] unfolding CBS_get_asn1_uint64_iff by force
  moreover have "CBS_get_asn1_int64 (der_element CBS_ASN1_INTEGER cs @ r) = (Some v, r)"
    using cs unfolding CBS_get_asn1_int64_iff by force
  ultimately show ?thesis using e1(1) e2(1) by blast
qed

theorem integer_roundtrip_witness:
  "\<exists>s' bs. CBB_add_asn1_int64 (\<lambda>_. True) 0 (- 129) (CBB_init_fixed 20) = (Some (), s') \<and>
     buf (base s') = bs \<and> CBS_get_asn1_int64 (bs @ [3]) = (Some (- 129), [3])"
proof -
  have init: "length (chain (CBB_init_fixed 20)) = 0" "buffer_room (\<lambda>_. True) (base (CBB_init_fixed 20)) 20" by simp_all
  from integer_roundtrip [OF init(1), where al = "\<lambda>_. True" and v = "- 129"] init(2) obtain s' where
    s': "CBB_add_asn1_int64 (\<lambda>_. True) 0 (- 129) (CBB_init_fixed 20) = (Some (), s')" by blast
  with integer_roundtrip [OF init(1), where al = "\<lambda>_. True" and v = "- 129" and s' = s' and r = "[3]"]
  show ?thesis by auto
qed

text \<open>Decimal numbers are read exactly: printing any 64-bit value and reading the text back
  gives the value, up to a following character that is not a digit.\<close>

theorem decimal_roundtrip:
  assumes "rest \<noteq> [] \<Longrightarrow> \<not> OPENSSL_isdigit (uint (hd rest))"
  shows "CBS_get_u64_decimal (decimal (unat v) @ rest) = (Some v, rest)"
  using get_u64_decimal [OF unat_u64_less assms, of v] by simp

theorem decimal_roundtrip_witness:
  "CBS_get_u64_decimal (decimal (unat (- 1 :: u64)) @ [0x2e]) = (Some (- 1), [0x2e])"
  by (rule decimal_roundtrip) (simp add: OPENSSL_isdigit_def)

lemma oid_from_text:
  assumes "CBS_asn1_oid_to_text al c = Some txt" "length (chain s) = d" "buffer_room al' (base s) (length c)"
  shows "\<exists>s'. CBB_add_asn1_oid_from_text al' d (butlast txt) s = (Some (), s') \<and>
    buf (base s') = buf (base s) @ c \<and> length (chain s') = d \<and> \<not> error (base s')"
proof -
  obtain v vs where c: "c = oid_bytes (v # vs)" "butlast txt = oid_text v vs"
    using oid_to_text_written [OF assms(1)] by auto
  have ne: "\<not> error (base s)" using assms(3) by (simp add: buffer_room_def)
  have "buffer_room al' (base s) (length (oid_bytes (v # vs)) + 0)" using assms(3) c by simp
  from cbb.put_all_room [OF assms(2) this] obtain s' where
    s': "put_all (CBB_add_u8 al' d) (oid_bytes (v # vs)) s = (Some (), s')" "buffer_room al' (base s') 0" by blast
  from cbb.put_all_contents [OF assms(2) s'(1)] s' c show ?thesis
    by (auto simp only: oid_from_text_eq [OF assms(2) ne] buffer_room_def)
qed

text \<open>C11. The two conversions of object identifiers are inverse: whenever an encoding is turned
  into dotted text, that text (without its final NUL) is accepted by the writer on any builder
  with room for it, and gives back exactly the original octets.\<close>

theorem oid_text_roundtrip:
  assumes "CBS_asn1_oid_to_text al c = Some txt" "length (chain s) = d" "buffer_room al' (base s) (length c)"
  shows "\<exists>s'. CBB_add_asn1_oid_from_text al' d (butlast txt) s = (Some (), s') \<and>
    buf (base s') = buf (base s) @ c"
  using oid_from_text [OF assms] by blast

lemma add_space_fixed_run:
  assumes "length (buf b) + length data \<le> cap b" "cap b < 2 ^ 64" "\<not> error b"
  shows "CBB_add_space al 0 data \<lparr>base = b, chain = []\<rparr> = (Some (), \<lparr>base = b\<lparr>buf := buf b @ data\<rparr>, chain = []\<rparr>)"
  using assms by (simp add: CBB_add_space_def andthen_apply on_base_def cbb_buffer_add_def
      cbb_buffer_reserve_def Let_def)

lemma oid_to_text_example:
  "CBS_asn1_oid_to_text (\<lambda>_. True) [0x2a, 3] = Some [0x31, 0x2e, 0x32, 0x2e, 0x33, 0]"
proof -
  have p: "parse_base128_integer [0x2a, 3] = (Some 42, [3])" "parse_base128_integer [3] = (Some 3, [])"
    by (simp_all add: parse_base128_integer_def)
  show ?thesis
    by (simp add: CBS_asn1_oid_to_text_def CBB_init_def cbb_init_def p oid_text_loop.simps andthen_apply
        succeed_def add_decimal_eq CBB_add_u8_eq decimal.simps add_space_fixed_run CBB_finish_def require_def)
qed

theorem oid_text_roundtrip_witness:
  "\<exists>s'. CBB_add_asn1_oid_from_text (\<lambda>_. False) 0 [0x31, 0x2e, 0x32, 0x2e, 0x33] (CBB_init_fixed 2) = (Some (), s') \<and>
    buf (base s') = [0x2a, 3]"
  using oid_text_roundtrip [OF oid_to_text_example, of "CBB_init_fixed 2" 0 "\<lambda>_. False"]
  by (simp add: buffer_room_def CBB_init_fixed_def cbb_init_def)

lemma flush_set_of_sorted:
  assumes "length (chain s) = d" "CBB_flush_asn1_set_of al d s = (Some (), s')"
  shows "\<exists>es. CBB_data s d = concat es \<and>
    (\<forall>e\<in>set es. \<exists>t c. valid_tag t \<and> length c < 2 ^ 32 \<and> e = der_element t c) \<and>
    (\<exists>es'. mset es' = mset es \<and> sorted_wrt (\<lambda>a b. compare_set_of_element a b \<le> 0) es' \<and>
      buf (base s') = take (cbb_start s d) (buf (base s)) @ concat es')"
proof -
  have sorted: "sorted_wrt (\<lambda>a b. compare_set_of_element a b \<le> 0) (qsort compare_set_of_element es)" for es
    using set_of.qsort_sorted [of es] by (simp add: sorted_by_def)
  let ?data = "CBB_data s d"
  have ne: "\<not> error (base s)" using assms by (auto simp: CBB_flush_asn1_set_of_def andthen_eq_Some split: if_splits)
  have full: "CBS_init ?data (CBB_len s d) = ?data" by (simp add: CBS_init_def CBB_data_def CBB_len_def)
  note run = assms(2) [unfolded CBB_flush_asn1_set_of_def andthen_apply CBB_flush_top [OF assms(1)] full]
  then obtain n where n: "set_of_count ?data = Some n" using ne full by (cases "set_of_count ?data") auto
  from set_of_count_children [OF n] obtain es where
    es: "set_of_children n ?data = (Some es, [])" "length es = n" "concat es = ?data"
      "\<forall>e\<in>set es. \<exists>t c. valid_tag t \<and> length c < 2 ^ 32 \<and> e = der_element t c" by blast
  let ?es' = "qsort compare_set_of_element es"
  have len: "length (concat ?es') = length ?data"
    unfolding es(3) [symmetric] length_concat by (metis mset_map qsort_mset sum_mset_sum_list)
  show ?thesis
  proof (cases "n < 2")
    case True
    then have "s' = s" using run n ne full by simp
    moreover have "length es < 2" using True es(2) by simp
    then have "sorted_wrt (\<lambda>a b. compare_set_of_element a b \<le> 0) es" by (cases es; cases "tl es") auto
    ultimately show ?thesis using es by (intro exI [of _ es]) (auto simp: CBB_data_def)
  next
    case False
    from run n ne full False es(1) have "buf (base s') = take (cbb_start s d) (buf (base s)) @ concat ?es'
        @ drop (cbb_start s d + length (concat ?es')) (buf (base s))"
      by (auto simp: OPENSSL_memdup_def Let_def split: if_splits)
    moreover have "cbb_start s d + length (concat ?es') \<ge> length (buf (base s))"
      unfolding len by (simp add: CBB_data_def)
    ultimately have "buf (base s') = take (cbb_start s d) (buf (base s)) @ concat ?es'" by simp
    then show ?thesis using es sorted qsort_mset [of compare_set_of_element es]
      by (intro exI [of _ es]) auto
  qed
qed

lemma flush_set_of_returns:
  assumes "length (chain s) = d" "\<forall>n. al n" "\<not> error (base s)" "CBB_data s d = concat es"
    and es: "\<forall>e\<in>set es. \<exists>t c. valid_tag t \<and> length c < 2 ^ 32 \<and> e = der_element t c"
    and "length es * 16 < 2 ^ 64"
  shows "\<exists>s'. CBB_flush_asn1_set_of al d s = (Some (), s')"
proof -
  have full: "CBS_init (CBB_data s d) (CBB_len s d) = CBB_data s d" by (simp add: CBS_init_def CBB_data_def CBB_len_def)
  note n = set_of_count_elements [OF es, folded assms(4)]
  obtain fs where fs: "set_of_children (length es) (CBB_data s d) = (Some fs, [])"
    using set_of_count_children [OF n] by blast
  have "CBB_data s d \<noteq> []" if "2 \<le> length es"
    using that n by (auto simp: set_of_count.simps CBS_len_def)
  then show ?thesis
    using assms(1-3,6) n fs full
    by (auto simp: CBB_flush_asn1_set_of_def andthen_apply OPENSSL_memdup_def Let_def not_less)
qed


lemma der_element_octet_example: "der_element CBS_ASN1_OCTETSTRING [x] = [4, 1, x]"
  by (simp add: der_element_def der_header_def der_tag_def der_length_def CBS_ASN1_OCTETSTRING_def)


text \<open>OCTET STRING and BOOLEAN are written as the DER elements which their readers take back.\<close>

theorem octet_string_bool_roundtrip:
  assumes "length (chain s) = d"
  shows "(CBB_add_asn1_octet_string al d data s = (Some (), s') \<longrightarrow>
      (\<exists>bs. buf (base s') = buf (base s) @ bs \<and> CBS_get_asn1 CBS_ASN1_OCTETSTRING (bs @ r) = (Some data, r))) \<and>
    (CBB_add_asn1_bool al d b s = (Some (), s') \<longrightarrow>
      (\<exists>bs. buf (base s') = buf (base s) @ bs \<and> CBS_get_asn1_bool (bs @ r) = (Some (b \<noteq> 0), r)))"
proof (intro conjI impI)
  assume "CBB_add_asn1_octet_string al d data s = (Some (), s')"
  then obtain c s1 s2 where s: "CBB_add_asn1 al d CBS_ASN1_OCTETSTRING s = (Some c, s1)"
    "CBB_add_space al c data s1 = (Some (), s2)" "CBB_flush al d s2 = (Some (), s')"
    by (auto simp: CBB_add_asn1_octet_string_def andthen_eq_Some CBB_add_bytes_def)
  from add_asn1_eq_Some [OF s(1) assms] assms have "length (chain s1) = c" by auto
  from add_space_eq_Some [OF s(2) this] element_written [OF assms s(1) _ _ s(3)]
  show "\<exists>bs. buf (base s') = buf (base s) @ bs \<and> CBS_get_asn1 CBS_ASN1_OCTETSTRING (bs @ r) = (Some data, r)"
    by (auto simp: CBS_get_asn1_iff)
next
  assume "CBB_add_asn1_bool al d b s = (Some (), s')"
  then obtain c s1 s2 where s: "CBB_add_asn1 al d CBS_ASN1_BOOLEAN s = (Some c, s1)"
    "CBB_add_space al c [if b \<noteq> 0 then 0xff else 0] s1 = (Some (), s2)" "CBB_flush al d s2 = (Some (), s')"
    by (auto simp: CBB_add_asn1_bool_def andthen_eq_Some CBB_add_u8_eq)
  from add_asn1_eq_Some [OF s(1) assms] assms have "length (chain s1) = c" by auto
  from add_space_eq_Some [OF s(2) this] element_written [OF assms s(1) _ _ s(3)]
  have "buf (base s') = buf (base s) @ der_element CBS_ASN1_BOOLEAN [if b \<noteq> 0 then 0xff else 0]" by auto
  then show "\<exists>bs. buf (base s') = buf (base s) @ bs \<and> CBS_get_asn1_bool (bs @ r) = (Some (b \<noteq> 0), r)"
    by (simp add: get_asn1_bool_iff)
qed

theorem octet_string_bool_roundtrip_witness:
  "\<exists>bs. CBS_get_asn1_bool (bs @ [1]) = (Some True, [1])"
proof -
  have init: "length (chain (CBB_init_fixed 16)) = 0" by simp
  have "\<exists>s'. CBB_add_asn1_bool (\<lambda>_. True) 0 5 (CBB_init_fixed 16) = (Some (), s')"
  proof -
    have "buffer_room (\<lambda>_. True) (base (CBB_init_fixed 16)) (length (der_tag CBS_ASN1_BOOLEAN) + (1 + (length [0xff :: u8] + (4 + 0))))"
      by (simp add: der_tag_def CBS_ASN1_BOOLEAN_def)
    from element_bytes_room [OF init this] show ?thesis
      by auto (auto simp: CBB_add_asn1_bool_def)
  qed
  then show ?thesis using octet_string_bool_roundtrip [OF init, where al = "\<lambda>_. True" and b = 5 and r = "[1]"] by auto
qed

end
