(* ===== verification/Unicode.thy ===== *)
theory Unicode
  imports CBB_ASN1
begin

text \<open>
  Code points in their encodings, crypto/bytestring/unicode.c: UTF-8, Latin-1, UCS-2 and
  UTF-32, read from a \<open>CBS\<close> and written to a \<open>CBB\<close>.
\<close>

definition is_valid_code_point :: "u32 \<Rightarrow> bool" where
  "is_valid_code_point v \<longleftrightarrow>
     \<not> (v > 0x10ffff \<or> v AND 0xfffe = 0xfffe \<or> (v \<ge> 0xfdd0 \<and> v \<le> 0xfdef) \<or> (v \<ge> 0xd800 \<and> v \<le> 0xdfff))"

definition BOTTOM_BITS :: "nat \<Rightarrow> u8" where
  "BOTTOM_BITS n = ucast (push_bit n 1 - 1 :: u32)"

definition TOP_BITS :: "nat \<Rightarrow> u8" where
  "TOP_BITS n = NOT (BOTTOM_BITS (8 - n))"

primrec utf8_loop :: "nat \<Rightarrow> u32 \<Rightarrow> (cbs, u32) routine" where
  "utf8_loop 0 v = succeed v"
| "utf8_loop (Suc n) v = andthen CBS_get_u8 (\<lambda>c.
     if c AND TOP_BITS 2 \<noteq> TOP_BITS 1 then failure
     else utf8_loop n (push_bit 6 v OR ucast (c AND BOTTOM_BITS 6)))"

definition utf8_lead :: "u8 \<Rightarrow> (u32 \<times> nat \<times> u32) option" where
  "utf8_lead c =
     (if c AND TOP_BITS 3 = TOP_BITS 2 then Some (ucast (c AND BOTTOM_BITS 5), 1, 0x80)
      else if c AND TOP_BITS 4 = TOP_BITS 3 then Some (ucast (c AND BOTTOM_BITS 4), 2, 0x800)
      else if c AND TOP_BITS 5 = TOP_BITS 4 then Some (ucast (c AND BOTTOM_BITS 3), 3, 0x10000)
      else None)"

definition CBS_get_utf8 :: "(cbs, u32) routine" where
  "CBS_get_utf8 = andthen CBS_get_u8 (\<lambda>c.
     if c \<le> 0x7f then succeed (ucast c)
     else case utf8_lead c of
            None \<Rightarrow> failure
          | Some (v, len, lower_bound) \<Rightarrow> andthen (utf8_loop len v) (\<lambda>v.
              if \<not> is_valid_code_point v \<or> v < lower_bound then failure else succeed v))"

definition CBS_get_latin1 :: "(cbs, u32) routine" where
  "CBS_get_latin1 = andthen CBS_get_u8 (\<lambda>c. succeed (ucast c))"

definition CBS_get_ucs2_be :: "(cbs, u32) routine" where
  "CBS_get_ucs2_be = andthen CBS_get_u16 (\<lambda>c.
     if \<not> is_valid_code_point (ucast c) then failure else succeed (ucast c))"

definition CBS_get_utf32_be :: "(cbs, u32) routine" where
  "CBS_get_utf32_be = andthen CBS_get_u32 (\<lambda>v. if is_valid_code_point v then succeed v else failure)"

definition CBB_get_utf8_len :: "u32 \<Rightarrow> nat" where
  "CBB_get_utf8_len u = (if u \<le> 0x7f then 1 else if u \<le> 0x7ff then 2 else if u \<le> 0xffff then 3 else 4)"

definition CBB_add_utf8 :: "(nat \<Rightarrow> bool) \<Rightarrow> nat \<Rightarrow> u32 \<Rightarrow> (cbb, unit) routine" where
  "CBB_add_utf8 al d u =
     (if \<not> is_valid_code_point u then failure
      else if u \<le> 0x7f then CBB_add_u8 al d (ucast u)
      else if u \<le> 0x7ff then
        andthen (CBB_add_u8 al d (TOP_BITS 2 OR ucast (drop_bit 6 u))) (\<lambda>_.
        CBB_add_u8 al d (TOP_BITS 1 OR ucast (u AND ucast (BOTTOM_BITS 6))))
      else if u \<le> 0xffff then
        andthen (CBB_add_u8 al d (TOP_BITS 3 OR ucast (drop_bit 12 u))) (\<lambda>_.
        andthen (CBB_add_u8 al d (TOP_BITS 1 OR ucast (drop_bit 6 u AND ucast (BOTTOM_BITS 6)))) (\<lambda>_.
        CBB_add_u8 al d (TOP_BITS 1 OR ucast (u AND ucast (BOTTOM_BITS 6)))))
      else if u \<le> 0x10ffff then
        andthen (CBB_add_u8 al d (TOP_BITS 4 OR ucast (drop_bit 18 u))) (\<lambda>_.
        andthen (CBB_add_u8 al d (TOP_BITS 1 OR ucast (drop_bit 12 u AND ucast (BOTTOM_BITS 6)))) (\<lambda>_.
        andthen (CBB_add_u8 al d (TOP_BITS 1 OR ucast (drop_bit 6 u AND ucast (BOTTOM_BITS 6)))) (\<lambda>_.
        CBB_add_u8 al d (TOP_BITS 1 OR ucast (u AND ucast (BOTTOM_BITS 6))))))
      else failure)"

definition CBB_add_latin1 :: "(nat \<Rightarrow> bool) \<Rightarrow> nat \<Rightarrow> u32 \<Rightarrow> (cbb, unit) routine" where
  "CBB_add_latin1 al d u = (if u \<le> 0xff then CBB_add_u8 al d (ucast u) else failure)"

definition CBB_add_ucs2_be :: "(nat \<Rightarrow> bool) \<Rightarrow> nat \<Rightarrow> u32 \<Rightarrow> (cbb, unit) routine" where
  "CBB_add_ucs2_be al d u =
     (if u \<le> 0xffff \<and> is_valid_code_point u then CBB_add_u16 al d (ucast u) else failure)"

definition CBB_add_utf32_be :: "(nat \<Rightarrow> bool) \<Rightarrow> nat \<Rightarrow> u32 \<Rightarrow> (cbb, unit) routine" where
  "CBB_add_utf32_be al d u = (if is_valid_code_point u then CBB_add_u32 al d u else failure)"

section \<open>The encoding as arithmetic\<close>

text \<open>The last \<open>n\<close> bytes of an encoding, and the encoding.\<close>

primrec utf8_tail :: "nat \<Rightarrow> nat \<Rightarrow> bytes" where
  "utf8_tail 0 u = []"
| "utf8_tail (Suc n) u = utf8_tail n (u div 64) @ [of_nat (128 + u mod 64)]"

definition utf8 :: "nat \<Rightarrow> bytes" where
  "utf8 u =
     (if u < 0x80 then [of_nat u]
      else if u < 0x800 then of_nat (192 + u div 64) # utf8_tail 1 u
      else if u < 0x10000 then of_nat (224 + u div 64 ^ 2) # utf8_tail 2 u
      else of_nat (240 + u div 64 ^ 3) # utf8_tail 3 u)"

lemma BOTTOM_BITS_mask: "k \<le> 8 \<Longrightarrow> BOTTOM_BITS k = mask k"
proof -
  assume k: "k \<le> 8"
  have "(push_bit k 1 - 1 :: u32) = mask k" by (simp add: mask_eq_exp_minus_1 push_bit_eq_mult)
  then show ?thesis using k by (simp add: BOTTOM_BITS_def) (rule bit_word_eqI, auto simp: bit_simps)
qed

lemma unat_and_bottom: "n \<le> 8 \<Longrightarrow> unat (c AND BOTTOM_BITS n) = unat c mod 2 ^ n"
  by (simp add: BOTTOM_BITS_mask unat_and_mask)

lemma unat_and_top: "n \<le> 8 \<Longrightarrow> unat (c AND TOP_BITS n) = 2 ^ (8 - n) * (unat c div 2 ^ (8 - n))"
proof -
  assume n: "n \<le> 8"
  then have "c AND TOP_BITS n = push_bit (8 - n) (drop_bit (8 - n) c)"
    by (simp add: TOP_BITS_def and_not_mask_eq BOTTOM_BITS_mask)
  moreover have "2 ^ (8 - n) * (unat c div 2 ^ (8 - n)) < 256"
    using unat_eight_bit [of c] by (metis mult.commute div_times_less_eq_dividend le_less_trans)
  ultimately show ?thesis
    using unat_push_or [of 0 "8 - n" "drop_bit (8 - n) c"] by (simp add: unat_drop_bit mult.commute)
qed

lemma TOP_BITS_values:
  "unat (TOP_BITS 1) = 128" "unat (TOP_BITS 2) = 192" "unat (TOP_BITS 3) = 224" "unat (TOP_BITS 4) = 240"
  using unat_and_top [of 1 "- 1"] unat_and_top [of 2 "- 1"] unat_and_top [of 3 "- 1"] unat_and_top [of 4 "- 1"]
  by (simp_all add: unsigned_minus_1_eq_mask mask_eq_exp_minus_1)

lemma lead_bits:
  "c AND TOP_BITS 2 = TOP_BITS 1 \<longleftrightarrow> unat c div 64 = 2"
  "c AND TOP_BITS 3 = TOP_BITS 2 \<longleftrightarrow> unat c div 32 = 6"
  "c AND TOP_BITS 4 = TOP_BITS 3 \<longleftrightarrow> unat c div 16 = 14"
  "c AND TOP_BITS 5 = TOP_BITS 4 \<longleftrightarrow> unat c div 8 = 30"
  unfolding u8_eq_iff TOP_BITS_values
  using unat_and_top [of 2 c] unat_and_top [of 3 c] unat_and_top [of 4 c] unat_and_top [of 5 c]
  by simp_all

lemma utf8_tail_front: "utf8_tail (Suc n) u = of_nat (128 + u div 64 ^ n mod 64) # utf8_tail n u"
proof (induction n arbitrary: u)
  case (Suc n)
  have "u div 64 div 64 ^ n = u div 64 ^ Suc n" by (simp add: div_mult2_eq)
  then show ?case using Suc [of "u div 64"] by simp
qed simp

lemma utf8_loop_iff:
  "(unat v + 1) * 64 ^ n \<le> 2 ^ 32 \<Longrightarrow>
     utf8_loop n v s = (Some w, s') \<longleftrightarrow> s = utf8_tail n (unat w) @ s' \<and> unat w div 64 ^ n = unat v"
proof (induction n arbitrary: v s)
  case 0
  then show ?case by (auto simp: succeed_def word_unat_eq_iff)
next
  case (Suc n)
  have small: "64 * unat v < 2 ^ 32"
  proof -
    have "(unat v + 1) * 64 * 1 \<le> (unat v + 1) * 64 * 64 ^ n" by (intro mult_le_mono2) simp
    then have "(unat v + 1) * 64 * 1 \<le> 2 ^ 32" using Suc.prems unfolding power_Suc mult.assoc by (rule order_trans)
    then show ?thesis by simp
  qed
  have step: "unat (push_bit 6 v OR ucast (c AND BOTTOM_BITS 6)) = 64 * unat v + unat c mod 64" for c
  proof -
    have "unat (ucast (c AND BOTTOM_BITS 6) :: u32) = unat c mod 64"
      using unat_and_bottom [of 6 c] by simp
    then show ?thesis using unat_push_or [of "ucast (c AND BOTTOM_BITS 6)" 6 v] small by simp
  qed
  have bound: "(unat (push_bit 6 v OR ucast (c AND BOTTOM_BITS 6)) + 1) * 64 ^ n \<le> 2 ^ 32" for c
  proof -
    have "m < 64 \<Longrightarrow> 64 * x + m + 1 \<le> (x + 1) * 64" for m x :: nat by simp
    from this [of "unat c mod 64"] have "64 * unat v + unat c mod 64 + 1 \<le> (unat v + 1) * 64" by simp
    then have "(64 * unat v + unat c mod 64 + 1) * 64 ^ n \<le> (unat v + 1) * 64 * 64 ^ n" by (rule mult_le_mono1)
    then show ?thesis using Suc.prems unfolding step power_Suc mult.assoc by (rule order_trans)
  qed
  have digit: "unat c div 64 = 2 \<and> m = 64 * unat v + unat c mod 64 \<longleftrightarrow>
      c = of_nat (128 + m mod 64) \<and> m div 64 = unat v" for c :: u8 and m
  proof -
    have "unat (of_nat (128 + m mod 64) :: u8) = 128 + m mod 64" by (simp del: of_nat_add)
    moreover have "k div 64 = 2 \<and> m = 64 * x + k mod 64 \<longleftrightarrow> k = 128 + m mod 64 \<and> m div 64 = x" for k x :: nat
    proof
      assume a: "k div 64 = 2 \<and> m = 64 * x + k mod 64"
      then have "k = 128 + k mod 64" using div_mult_mod_eq [of k 64] by simp
      then show "k = 128 + m mod 64 \<and> m div 64 = x" using a by simp
    next
      assume a: "k = 128 + m mod 64 \<and> m div 64 = x"
      have "128 + m mod 64 = m mod 64 + 2 * 64" by simp
      then have "k div 64 = 2 \<and> k mod 64 = m mod 64" using a by (simp only: div_mult_self1 mod_mult_self1) simp
      moreover have "m = 64 * (m div 64) + m mod 64" by simp
      ultimately show "k div 64 = 2 \<and> m = 64 * x + k mod 64" using a by simp
    qed
    ultimately show ?thesis unfolding u8_eq_iff by (simp only:)
  qed
  have shift: "unat w div 64 ^ Suc n = unat w div 64 ^ n div 64" by (simp only: power_Suc2 div_mult2_eq)
  show ?case
  proof (cases s)
    case Nil
    then show ?thesis by (simp add: andthen_apply utf8_tail_front del: utf8_tail.simps(2))
  next
    case (Cons c r)
    have "utf8_loop (Suc n) v s = (Some w, s') \<longleftrightarrow>
        unat c div 64 = 2 \<and> r = utf8_tail n (unat w) @ s' \<and> unat w div 64 ^ n = 64 * unat v + unat c mod 64"
      using Suc.IH [OF bound, of c r] by (simp add: Cons andthen_apply lead_bits [unfolded One_nat_def] failure_def step)
    also have "\<dots> \<longleftrightarrow> c = of_nat (128 + unat w div 64 ^ n mod 64) \<and> r = utf8_tail n (unat w) @ s' \<and>
        unat w div 64 ^ Suc n = unat v"
      using digit [of c "unat w div 64 ^ n"] unfolding shift by blast
    finally show ?thesis by (auto simp: Cons utf8_tail_front simp del: utf8_tail.simps(2))
  qed
qed

lemma utf8_cases:
  "(u < 0x80 \<and> utf8 u = [of_nat u]) \<or>
   (0x80 \<le> u \<and> u < 0x800 \<and> utf8 u = of_nat (192 + u div 64 ^ 1) # utf8_tail 1 u) \<or>
   (0x800 \<le> u \<and> u < 0x10000 \<and> utf8 u = of_nat (224 + u div 64 ^ 2) # utf8_tail 2 u) \<or>
   (0x10000 \<le> u \<and> utf8 u = of_nat (240 + u div 64 ^ 3) # utf8_tail 3 u)"
  unfolding utf8_def by simp

lemma valid_code_point_bound: "is_valid_code_point v \<Longrightarrow> unat v \<le> 0x10ffff"
  by (simp add: is_valid_code_point_def word_less_nat_alt not_less)

lemma utf8_multi_iff:
  assumes lead: "utf8_lead c = Some (v, n, lb)" and lo: "(unat v + 1) * 64 ^ n \<le> 2 ^ 32" and c: "\<not> c \<le> 0x7f"
  shows "CBS_get_utf8 (c # r) = (Some u, s') \<longleftrightarrow>
    is_valid_code_point u \<and> lb \<le> u \<and> unat u div 64 ^ n = unat v \<and> r = utf8_tail n (unat u) @ s'"
proof -
  have eq: "CBS_get_utf8 (c # r) = andthen (utf8_loop n v) (\<lambda>v.
      if \<not> is_valid_code_point v \<or> v < lb then failure else succeed v) r"
    using c unfolding CBS_get_utf8_def andthen_apply [of CBS_get_u8] CBS_get_u8_Cons by (simp add: lead)
  show ?thesis
    unfolding eq andthen_eq_Some utf8_loop_iff [OF lo] by (auto simp: failure_def succeed_def not_less split: if_splits)
qed

lemma ucast_bottom: "n \<le> 8 \<Longrightarrow> unat (ucast (c AND BOTTOM_BITS n) :: u32) = unat c mod 2 ^ n"
  by (simp add: unat_and_bottom)

lemma utf8_Cons_iff:
  assumes "m \<le> 0x10ffff"
  shows "c # r = utf8 m @ s' \<longleftrightarrow>
    (m < 0x80 \<and> unat c = m \<and> r = s') \<or>
    (0x80 \<le> m \<and> m < 0x800 \<and> unat c = 192 + m div 64 ^ 1 \<and> r = utf8_tail 1 m @ s') \<or>
    (0x800 \<le> m \<and> m < 0x10000 \<and> unat c = 224 + m div 64 ^ 2 \<and> r = utf8_tail 2 m @ s') \<or>
    (0x10000 \<le> m \<and> unat c = 240 + m div 64 ^ 3 \<and> r = utf8_tail 3 m @ s')"
proof -
  have c: "c = of_nat k \<longleftrightarrow> unat c = k" if "k < 256" for k
    using that by (auto simp: u8_eq_iff)
  have "m < 0x800 \<Longrightarrow> 192 + m div 64 ^ 1 < 256" "m < 0x10000 \<Longrightarrow> 224 + m div 64 ^ 2 < 256" "240 + m div 64 ^ 3 < 256"
    using assms by (simp_all add: less_mult_imp_div_less div_le_mono [THEN le_less_trans])
  note k = c [OF this(1)] c [OF this(2)] c [OF this(3)]
  consider "m < 0x80" | "0x80 \<le> m" "m < 0x800" | "0x800 \<le> m" "m < 0x10000" | "0x10000 \<le> m" by linarith
  then show ?thesis
  proof cases
    case 1
    then show ?thesis using c [of m] by (auto simp: utf8_def)
  next
    case 2
    then show ?thesis using k(1) by (auto simp: utf8_def simp del: utf8_tail.simps)
  next
    case 3
    then show ?thesis using k(2) by (auto simp: utf8_def simp del: utf8_tail.simps)
  next
    case 4
    then show ?thesis using k(3) by (auto simp: utf8_def simp del: utf8_tail.simps)
  qed
qed

lemma ascii_valid: "v \<le> 0x7f \<Longrightarrow> is_valid_code_point v"
proof -
  assume v: "v \<le> 0x7f"
  have "v AND 0xfffe \<le> v" by (rule word_and_le2)
  then have "v AND 0xfffe \<noteq> 0xfffe" using v by (auto simp: word_le_nat_alt)
  then show ?thesis using v by (auto simp: is_valid_code_point_def word_le_nat_alt word_less_nat_alt)
qed

lemma get_utf8_valid: "CBS_get_utf8 (c # r) = (Some u, s') \<Longrightarrow> is_valid_code_point u"
proof (cases "c \<le> 0x7f")
  case True
  assume "CBS_get_utf8 (c # r) = (Some u, s')"
  then have "u = ucast c" using True by (simp add: CBS_get_utf8_def andthen_apply succeed_def)
  then have "u \<le> 0x7f" using True by (simp add: word_le_nat_alt)
  then show ?thesis by (rule ascii_valid)
next
  case False
  assume "CBS_get_utf8 (c # r) = (Some u, s')"
  then show ?thesis
    using False by (auto simp: CBS_get_utf8_def andthen_apply failure_def succeed_def
        split: option.splits prod.splits if_splits)
qed

lemma utf8_lead_eq:
  "unat c div 32 = 6 \<Longrightarrow> utf8_lead c = Some (ucast (c AND BOTTOM_BITS 5), 1, 0x80)"
  "unat c div 16 = 14 \<Longrightarrow> utf8_lead c = Some (ucast (c AND BOTTOM_BITS 4), 2, 0x800)"
  "unat c div 8 = 30 \<Longrightarrow> utf8_lead c = Some (ucast (c AND BOTTOM_BITS 3), 3, 0x10000)"
  "unat c div 32 \<noteq> 6 \<Longrightarrow> unat c div 16 \<noteq> 14 \<Longrightarrow> unat c div 8 \<noteq> 30 \<Longrightarrow> utf8_lead c = None"
  unfolding utf8_lead_def lead_bits by auto

lemma get_utf8_iff:
  "CBS_get_utf8 s = (Some u, s') \<longleftrightarrow> is_valid_code_point u \<and> s = utf8 (unat u) @ s'"
proof (cases s)
  case Nil
  have "utf8 (unat u) \<noteq> []" by (auto simp: utf8_def)
  then show ?thesis using Nil by (simp add: CBS_get_utf8_def andthen_apply)
next
  case s: (Cons c r)
  obtain k where k: "unat c = k" "k < 256" using unat_eight_bit [of c] by blast
  obtain m where m: "unat u = m" by blast
  show ?thesis
  proof (cases "is_valid_code_point u")
    case False
    then show ?thesis using s get_utf8_valid by blast
  next
    case True
    have m_le: "m \<le> 0x10ffff" using valid_code_point_bound [OF True] m by simp
    note iff = utf8_Cons_iff [OF m_le, of c r s', unfolded k(1)]
    have q: "m < 0x800 \<longleftrightarrow> m div 64 ^ 1 < 32" "m < 0x10000 \<longleftrightarrow> m div 64 ^ 2 < 16" "m div 64 ^ 3 < 8"
      using m_le by (auto simp: div_less_iff_less_mult)
    obtain q1 q2 q3 where qs: "m div 64 ^ 1 = q1" "m div 64 ^ 2 = q2" "m div 64 ^ 3 = q3" by blast
    note iff' = iff [unfolded qs] and q' = q [unfolded qs]
    have cle: "c \<le> 0x7f \<longleftrightarrow> k < 128" using k(1) by (auto simp: word_le_nat_alt)
    consider (1) "k < 128" | (2) "k div 32 = 6" | (3) "k div 16 = 14" | (4) "k div 8 = 30"
      | (5) "128 \<le> k" "k div 32 \<noteq> 6" "k div 16 \<noteq> 14" "k div 8 \<noteq> 30" by linarith
    then show ?thesis
    proof cases
      case 1
      then have "c # r = utf8 m @ s' \<longleftrightarrow> k = m \<and> r = s'" using iff by auto
      moreover have "CBS_get_utf8 (c # r) = (Some u, s') \<longleftrightarrow> ucast c = u \<and> r = s'"
        using 1 cle by (simp add: CBS_get_utf8_def andthen_apply succeed_def)
      moreover have "ucast c = u \<longleftrightarrow> k = m" using k m by (auto simp: word_unat_eq_iff [where 'a = 32])
      ultimately show ?thesis using s True m by simp
    next
      case 2
      then obtain j where kk: "k = 192 + j" "j < 32" "k mod 32 = j"
        using div_mult_mod_eq [of k 32] by (intro that [of "k mod 32"]) simp_all
      have "c # r = utf8 m @ s' \<longleftrightarrow> 0x80 \<le> m \<and> m div 64 ^ 1 = j \<and> r = utf8_tail 1 m @ s'"
        using iff' q' kk(1,2) unfolding qs by auto
      then show ?thesis
        using utf8_multi_iff [OF utf8_lead_eq(1), of c r u s'] 2 k cle kk s True m ucast_bottom [of 5 c]
        by (simp add: word_le_nat_alt del: utf8_tail.simps)
    next
      case 3
      then obtain j where kk: "k = 224 + j" "j < 16" "k mod 16 = j"
        using div_mult_mod_eq [of k 16] by (intro that [of "k mod 16"]) simp_all
      have "c # r = utf8 m @ s' \<longleftrightarrow> 0x800 \<le> m \<and> m div 64 ^ 2 = j \<and> r = utf8_tail 2 m @ s'"
        using iff' q' kk(1,2) unfolding qs by auto
      then show ?thesis
        using utf8_multi_iff [OF utf8_lead_eq(2), of c r u s'] 3 k cle kk s True m ucast_bottom [of 4 c]
        by (simp add: word_le_nat_alt del: utf8_tail.simps)
    next
      case 4
      then obtain j where kk: "k = 240 + j" "j < 8" "k mod 8 = j"
        using div_mult_mod_eq [of k 8] by (intro that [of "k mod 8"]) simp_all
      have "c # r = utf8 m @ s' \<longleftrightarrow> 0x10000 \<le> m \<and> m div 64 ^ 3 = j \<and> r = utf8_tail 3 m @ s'"
        using iff' q' kk(1,2) unfolding qs by auto
      then show ?thesis
        using utf8_multi_iff [OF utf8_lead_eq(3), of c r u s'] 4 k cle kk s True m ucast_bottom [of 3 c]
        by (simp add: word_le_nat_alt del: utf8_tail.simps)
    next
      case 5
      have "CBS_get_utf8 (c # r) \<noteq> (Some u, s')"
        using 5 k cle utf8_lead_eq(4) [of c] by (simp add: CBS_get_utf8_def andthen_apply failure_def)
      moreover have "\<not> c # r = utf8 m @ s'"
      proof
        assume "c # r = utf8 m @ s'"
        then consider "m < 0x80" "k = m" | "m div 64 ^ 1 < 32" "k = 192 + m div 64 ^ 1"
          | "m div 64 ^ 2 < 16" "k = 224 + m div 64 ^ 2" | "k = 240 + m div 64 ^ 3"
          using iff q by blast
        then show False
        proof cases
          case 1
          then show ?thesis using 5(1) by simp
        next
          case 2
          then have "k div 32 = 6" by (intro div_nat_eqI) simp_all
          then show ?thesis using 5 by simp
        next
          case 3
          then have "k div 16 = 14" by (intro div_nat_eqI) simp_all
          then show ?thesis using 5 by simp
        next
          case 4
          then have "k div 8 = 30" using q(3) by (intro div_nat_eqI) simp_all
          then show ?thesis using 5 by simp
        qed
      qed
      ultimately show ?thesis using s m by simp
    qed
  qed
qed

section \<open>Writing\<close>

lemma or_lead:
  assumes "unat (y :: u8) < 2 ^ n" "2 ^ n * unat x < 256"
  shows "push_bit n x OR y = of_nat (2 ^ n * unat x + unat y)"
proof -
  have "unat (push_bit n x OR y) = 2 ^ n * unat x + unat y"
    using unat_push_or [of y n x] assms by simp
  then have "of_nat (2 ^ n * unat x + unat y) = (of_nat (unat (push_bit n x OR y)) :: u8)" by (rule arg_cong [OF sym])
  then show ?thesis by simp
qed

lemma unat_u32_byte: "unat v < 256 \<Longrightarrow> unat (ucast (v :: u32) :: u8) = unat v"
  by (simp add: unsigned_ucast_eq take_bit_eq_mod)

lemma cont_byte: "TOP_BITS 1 OR ucast (v AND ucast (BOTTOM_BITS 6)) = of_nat (128 + unat (v :: u32) mod 64)"
proof -
  have m: "(ucast (BOTTOM_BITS 6) :: u32) = mask 6"
    by (simp add: BOTTOM_BITS_mask mask_eq_exp_minus_1)
  have 1: "unat (ucast (v AND mask 6) :: u8) = unat v mod 64"
    by (subst unat_u32_byte) (simp_all add: unat_and_mask less_trans [of _ 64])
  have 3: "TOP_BITS 1 = push_bit 6 2"
    using TOP_BITS_values(1) by (simp add: u8_eq_iff push_bit_eq_mult)
  show ?thesis
    unfolding m 3 using or_lead [of "ucast (v AND mask 6)" 6 2] unfolding 1 by simp
qed

lemma lead_byte:
  "unat v < 32 \<Longrightarrow> TOP_BITS 2 OR ucast v = of_nat (192 + unat (v :: u32))"
  "unat v < 16 \<Longrightarrow> TOP_BITS 3 OR ucast v = of_nat (224 + unat (v :: u32))"
  "unat v < 8 \<Longrightarrow> TOP_BITS 4 OR ucast v = of_nat (240 + unat (v :: u32))"
proof -
  have t: "TOP_BITS 2 = push_bit 5 6" "TOP_BITS 3 = push_bit 4 14" "TOP_BITS 4 = push_bit 3 30"
    using TOP_BITS_values by (simp_all add: u8_eq_iff push_bit_eq_mult)
  show "unat v < 32 \<Longrightarrow> TOP_BITS 2 OR ucast v = of_nat (192 + unat v)"
    unfolding t using or_lead [of "ucast v" 5 6] unat_u32_byte [of v] by simp
  show "unat v < 16 \<Longrightarrow> TOP_BITS 3 OR ucast v = of_nat (224 + unat v)"
    unfolding t using or_lead [of "ucast v" 4 14] unat_u32_byte [of v] by simp
  show "unat v < 8 \<Longrightarrow> TOP_BITS 4 OR ucast v = of_nat (240 + unat v)"
    unfolding t using or_lead [of "ucast v" 3 30] unat_u32_byte [of v] by simp
qed

lemma utf8_tail_simps:
  "utf8_tail (Suc 0) m = [of_nat (128 + m mod 64)]"
  "utf8_tail 2 m = [of_nat (128 + m div 64 mod 64), of_nat (128 + m mod 64)]"
  "utf8_tail 3 m = [of_nat (128 + m div 64 div 64 mod 64), of_nat (128 + m div 64 mod 64), of_nat (128 + m mod 64)]"
  by (simp_all only: numeral_2_eq_2 numeral_3_eq_3 utf8_tail.simps append.simps)

lemma length_utf8_tail [simp]: "length (utf8_tail n m) = n"
  by (induction n arbitrary: m) auto

lemma add_utf8_eq:
  "CBB_add_utf8 al d u = (if is_valid_code_point u then put_all (CBB_add_u8 al d) (utf8 (unat u)) else failure)"
proof (cases "is_valid_code_point u")
  case True
  let ?m = "unat u"
  have m: "?m \<le> 0x10ffff" by (rule valid_code_point_bound [OF True])
  have sh: "unat (drop_bit 6 u) = ?m div 64" "unat (drop_bit 12 u) = ?m div 4096" "unat (drop_bit 18 u) = ?m div 262144"
    by (simp_all add: unat_drop_bit)
  have dd: "?m div 64 div 64 = ?m div 4096" "?m div 4096 div 64 = ?m div 262144" by (simp_all add: div_mult2_eq [symmetric])
  have le: "u \<le> 0x7f \<longleftrightarrow> ?m < 0x80" "u \<le> 0x7ff \<longleftrightarrow> ?m < 0x800" "u \<le> 0xffff \<longleftrightarrow> ?m < 0x10000" "u \<le> 0x10ffff"
    using m by (auto simp: word_le_nat_alt)
  have put1: "put_all (CBB_add_u8 al d) [b] = CBB_add_u8 al d b" for b by simp
  note tails = utf8_tail_simps [of ?m, unfolded dd]
  consider "?m < 0x80" | "0x80 \<le> ?m" "?m < 0x800" | "0x800 \<le> ?m" "?m < 0x10000" | "0x10000 \<le> ?m" by linarith
  then show ?thesis
  proof cases
    case 1
    then show ?thesis using True le by (simp add: CBB_add_utf8_def utf8_def)
  next
    case 2
    then have "unat (drop_bit 6 u) < 32" by (simp add: sh div_less_iff_less_mult)
    from lead_byte(1) [OF this] show ?thesis
      using True le 2 by (simp add: CBB_add_utf8_def utf8_def tails sh cont_byte cont_byte [unfolded One_nat_def] del: of_nat_add utf8_tail.simps)
  next
    case 3
    then have "unat (drop_bit 12 u) < 16" by (simp add: sh div_less_iff_less_mult)
    from lead_byte(2) [OF this] show ?thesis
      using True le 3 by (simp add: CBB_add_utf8_def utf8_def tails sh cont_byte cont_byte [unfolded One_nat_def] del: of_nat_add utf8_tail.simps)
  next
    case 4
    then have "unat (drop_bit 18 u) < 8" using m by (simp add: sh div_less_iff_less_mult)
    from lead_byte(3) [OF this] show ?thesis
      using True le 4 by (simp add: CBB_add_utf8_def utf8_def tails sh cont_byte cont_byte [unfolded One_nat_def] del: of_nat_add utf8_tail.simps)
  qed
qed (simp add: CBB_add_utf8_def)

lemma length_utf8: "unat u \<le> 0x10ffff \<Longrightarrow> length (utf8 (unat u)) = CBB_get_utf8_len u"
  by (auto simp: utf8_def CBB_get_utf8_len_def word_le_nat_alt simp del: utf8_tail.simps)

section \<open>Properties\<close>

text \<open>C17. UTF-8 is read exactly: a code point is read if and only if it is a valid one and the
  input starts with its shortest encoding; overlong forms, surrogates, reserved values, stray or
  missing continuation bytes are all refused.\<close>

theorem get_utf8_exact:
  "CBS_get_utf8 s = (Some u, s') \<longleftrightarrow> is_valid_code_point u \<and> s = utf8 (unat u) @ s'"
  by (rule get_utf8_iff)

text \<open>C18. Round trip of code points: on a builder with room for the predicted length, the UTF-8
  writer accepts exactly the valid code points, writes exactly the predicted number of bytes,
  and the reader takes them back.\<close>

theorem utf8_roundtrip:
  assumes "length (chain s) = d" "buffer_room al (base s) (CBB_get_utf8_len u)"
  shows "((\<exists>s'. CBB_add_utf8 al d u s = (Some (), s')) \<longleftrightarrow> is_valid_code_point u) \<and>
    (CBB_add_utf8 al d u s = (Some (), s') \<longrightarrow>
      (\<exists>bs. buf (base s') = buf (base s) @ bs \<and> length bs = CBB_get_utf8_len u \<and> CBS_get_utf8 (bs @ r) = (Some u, r)))"
proof (cases "is_valid_code_point u")
  case True
  have len: "length (utf8 (unat u)) = CBB_get_utf8_len u" by (rule length_utf8 [OF valid_code_point_bound [OF True]])
  with assms(2) have "buffer_room al (base s) (length (utf8 (unat u)) + 0)" by simp
  from cbb.put_all_room [OF assms(1) this] have "\<exists>s'. CBB_add_utf8 al d u s = (Some (), s')"
    using True by (auto simp: add_utf8_eq)
  moreover have "buf (base s') = buf (base s) @ utf8 (unat u)" if "CBB_add_utf8 al d u s = (Some (), s')"
    using cbb.put_all_contents [OF assms(1)] that True by (auto simp: add_utf8_eq)
  ultimately show ?thesis using True len by (auto simp: get_utf8_iff)
qed (auto simp: add_utf8_eq failure_def)

theorem utf8_roundtrip_witness:
  "\<exists>s'. CBB_add_utf8 (\<lambda>_. False) 0 0x20ac (CBB_init_fixed 3) = (Some (), s')"
proof -
  have v: "is_valid_code_point 0x20ac" by (simp add: is_valid_code_point_def)
  have "buffer_room (\<lambda>_. False) (base (CBB_init_fixed 3)) (CBB_get_utf8_len 0x20ac)"
    by (simp add: CBB_get_utf8_len_def)
  with utf8_roundtrip [of "CBB_init_fixed 3" 0 "\<lambda>_. False" "0x20ac"] v show ?thesis by simp
qed

text \<open>The other encodings round trip as well: Latin-1 on its 256 code points, UCS-2 on the
  valid ones below 2^16, UTF-32 on all valid ones, each writer refusing everything else.\<close>

theorem other_encodings_roundtrip:
  assumes "length (chain s) = d"
  shows "(CBB_add_latin1 al d u s = (Some (), s') \<longrightarrow> u \<le> 0xff \<and>
      (\<exists>bs. buf (base s') = buf (base s) @ bs \<and> CBS_get_latin1 (bs @ r) = (Some u, r))) \<and>
    (CBB_add_ucs2_be al d u s = (Some (), s') \<longrightarrow> u \<le> 0xffff \<and> is_valid_code_point u \<and>
      (\<exists>bs. buf (base s') = buf (base s) @ bs \<and> CBS_get_ucs2_be (bs @ r) = (Some u, r))) \<and>
    (CBB_add_utf32_be al d u s = (Some (), s') \<longrightarrow> is_valid_code_point u \<and>
      (\<exists>bs. buf (base s') = buf (base s) @ bs \<and> CBS_get_utf32_be (bs @ r) = (Some u, r)))"
proof (intro conjI impI)
  assume a: "CBB_add_latin1 al d u s = (Some (), s')"
  then have "u \<le> 0xff" "CBB_add_u8 al d (ucast u) s = (Some (), s')"
    by (auto simp: CBB_add_latin1_def failure_def split: if_splits)
  then show "u \<le> 0xff" "\<exists>bs. buf (base s') = buf (base s) @ bs \<and> CBS_get_latin1 (bs @ r) = (Some u, r)"
    using cbb.put_contents [OF assms, of al "ucast u" s']
      unat_u32_byte [of u]
    by (auto simp: CBS_get_latin1_def andthen_apply succeed_def word_le_nat_alt word_unat_eq_iff [where 'a = 32])
next
  assume a: "CBB_add_ucs2_be al d u s = (Some (), s')"
  then have u: "u \<le> 0xffff" "is_valid_code_point u" "cbb_add_u al d (ucast (ucast u :: u16)) 2 s = (Some (), s')"
    by (auto simp: CBB_add_ucs2_be_def CBB_add_u16_def failure_def split: if_splits)
  then show "u \<le> 0xffff" "is_valid_code_point u" by simp_all
  have hh: "ucast (ucast h :: u64) = h" for h :: u16 by (rule bit_word_eqI) (simp add: bit_simps)
  have h16: "unat (ucast u :: u16) = unat u"
    using u(1) by (simp add: word_le_nat_alt unsigned_ucast_eq take_bit_nat_eq_self)
  have up: "unat (ucast w :: u32) = unat w" for w :: u16
  proof -
    have "unat w < 2 ^ 32" by (rule order.strict_trans2 [OF unsigned_less]) simp
    then show ?thesis by (simp add: unsigned_ucast_eq take_bit_nat_eq_self)
  qed
  have "ucast (ucast u :: u16) = u" by (simp add: word_unat_eq_iff [where 'a = 32] h16 up)
  then have "ucast (ucast (ucast (ucast u :: u16) :: u64) :: u16) = u" by (simp only: hh)
  with add_u_get_u [OF u(3) assms] u(2)
  show "\<exists>bs. buf (base s') = buf (base s) @ bs \<and> CBS_get_ucs2_be (bs @ r) = (Some u, r)"
    by (auto simp: CBS_get_ucs2_be_def CBS_get_u16_def andthen_apply succeed_def failure_def)
next
  assume a: "CBB_add_utf32_be al d u s = (Some (), s')"
  then have u: "is_valid_code_point u" "cbb_add_u al d (ucast u) 4 s = (Some (), s')"
    by (auto simp: CBB_add_utf32_be_def CBB_add_u32_def failure_def split: if_splits)
  then show "is_valid_code_point u" by simp
  have "ucast (ucast u :: u64) = u" by (rule bit_word_eqI) (simp add: bit_simps)
  with add_u_get_u [OF u(2) assms] u(1)
  show "\<exists>bs. buf (base s') = buf (base s) @ bs \<and> CBS_get_utf32_be (bs @ r) = (Some u, r)"
    by (auto simp: CBS_get_utf32_be_def CBS_get_u32_def andthen_apply succeed_def failure_def)
qed

theorem other_encodings_roundtrip_witness:
  "\<exists>s'. CBB_add_latin1 (\<lambda>_. False) 0 0xe9 (CBB_init_fixed 1) = (Some (), s') \<and> (0xe9 :: u32) \<le> 0xff"
proof -
  have "\<exists>s'. CBB_add_u8 (\<lambda>_. False) 0 0xe9 (CBB_init_fixed 1) = (Some (), s')"
    using cbb.put_room [of "CBB_init_fixed 1" 0 "\<lambda>_. False" 0 "0xe9"] by auto
  then obtain s' where s': "CBB_add_latin1 (\<lambda>_. False) 0 0xe9 (CBB_init_fixed 1) = (Some (), s')"
    by (auto simp: CBB_add_latin1_def)
  with other_encodings_roundtrip [of "CBB_init_fixed 1" 0 "\<lambda>_. False" "0xe9" s'] show ?thesis by auto
qed

end
