(* ===== verification/BER.thy ===== *)
theory BER
  imports CBB_ASN1
begin

text \<open>
  Conversion of BER to DER, crypto/bytestring/ber.c, and the \<open>i2d\<close> finish of
  asn1_compat.c. The recursion depth is a natural number: it stays below
  \<open>kMaxDepth + 2\<close>, so the C code's \<open>uint32_t\<close> never wraps.
\<close>

definition kMaxDepth :: nat where
  "kMaxDepth = 128"

definition is_string_type :: "cbs_asn1_tag \<Rightarrow> bool" where
  "is_string_type tag \<longleftrightarrow> tag AND NOT CBS_ASN1_CONSTRUCTED \<in>
     {CBS_ASN1_OCTETSTRING, 0xc, 0x12, 0x13, 0x14, 0x15, 0x16, 0x19, 0x1a, 0x1b, 0x1c, 0x1e}"

lemma any_element_frame:
  assumes "cbs_get_any_asn1_element ber s = (Some e, s')"
  shows "s = elem_out e @ s' \<and> 2 \<le> elem_header_len e \<and> elem_header_len e \<le> length (elem_out e) \<and>
    valid_tag (elem_tag e)"
proof -
  obtain t h where tag: "parse_asn1_tag s = (Some t, h)"
    using assms by (auto simp: cbs_get_any_asn1_element_def split: prod.splits option.splits)
  from parse_asn1_tag_canonical [OF tag] have s: "s = der_tag t @ h" and valid: "valid_tag t" by auto
  obtain b r where h: "h = b # r"
    using assms tag by (cases h) (auto simp: cbs_get_any_asn1_element_def)
  have hl: "2 \<le> length s - length r" using length_der_tag [of t] by (simp add: s h)
  have res: "andthen (CBS_get_bytes n) (\<lambda>out. succeed \<lparr>elem_out = out, elem_tag = t, elem_header_len = k,
      elem_ber_found = bf, elem_indefinite = ind\<rparr>) s = (Some e, s') \<Longrightarrow> 2 \<le> k \<Longrightarrow> k \<le> n \<Longrightarrow>
      s = elem_out e @ s' \<and> 2 \<le> elem_header_len e \<and> elem_header_len e \<le> length (elem_out e) \<and> elem_tag e = t" for n k bf ind
    by (auto simp: andthen_eq_Some CBS_get_bytes_eq_Some succeed_def)
  show ?thesis
  proof (cases "b AND 0x80 = 0")
    case True
    then show ?thesis
      using assms tag h hl valid by (auto simp: cbs_get_any_asn1_element_def Let_def dest!: res)
  next
    case long: False
    let ?n = "unat (b AND 0x7f)"
    show ?thesis
    proof (cases "ber \<and> t AND CBS_ASN1_CONSTRUCTED \<noteq> 0 \<and> ?n = 0")
      case True
      then show ?thesis
        using assms tag h hl valid long by (auto simp: cbs_get_any_asn1_element_def Let_def dest!: res)
    next
      case no_indef: False
      show ?thesis
      proof (cases "cbs_get_u ?n r")
        case (Pair v r')
        show ?thesis
        proof (cases v)
          case None
          then show ?thesis using assms tag h long no_indef Pair
            by (auto simp: cbs_get_any_asn1_element_def Let_def split: if_splits)
        next
          case (Some w)
          then obtain bf where eq: "andthen (CBS_get_bytes (unat w + (length s - length r + ?n)))
              (\<lambda>out. succeed \<lparr>elem_out = out, elem_tag = t, elem_header_len = length s - length r + ?n,
                elem_ber_found = bf, elem_indefinite = False\<rparr>) s = (Some e, s')"
            using assms tag h long no_indef Pair
            by (simp add: cbs_get_any_asn1_element_def Let_def split: if_splits)
          from res [OF eq] hl valid show ?thesis by simp
        qed
      qed
    qed
  qed
qed
lemma any_element_shorter:
  assumes "CBS_get_any_ber_asn1_element s = (Some e, s')"
  shows "length s' < length s \<and> length (elem_out e) - elem_header_len e < length s \<and>
    CBS_skip (elem_header_len e) (elem_out e) = (Some (), drop (elem_header_len e) (elem_out e))"
proof -
  from any_element_frame [OF assms [unfolded CBS_get_any_ber_asn1_element_def]]
  have f: "s = elem_out e @ s'" "2 \<le> elem_header_len e" "elem_header_len e \<le> length (elem_out e)" by auto
  from arg_cong [OF f(1), of length] f(2,3) show ?thesis
    by (auto simp: CBS_skip_eq_Some)
qed

text \<open>The loop of \<open>cbs_find_ber\<close> is the function itself at the same depth: every turn starts from
  \<open>*ber_found = 0\<close>. The result is \<open>Some ber_found\<close> where the C code returns 1.\<close>

function cbs_find_ber :: "cbs \<Rightarrow> nat \<Rightarrow> bool option" where
  "cbs_find_ber s depth =
     (if depth > kMaxDepth then None
      else if CBS_len s = 0 then Some False
      else case CBS_get_any_ber_asn1_element s of
        (None, _) \<Rightarrow> None
      | (Some e, rest) \<Rightarrow>
          if elem_ber_found e then Some True
          else if elem_tag e AND CBS_ASN1_CONSTRUCTED \<noteq> 0 then
            if is_string_type (elem_tag e) then Some True
            else (case CBS_skip (elem_header_len e) (elem_out e) of
                    (None, _) \<Rightarrow> None
                  | (Some _, contents) \<Rightarrow>
                      (case cbs_find_ber contents (depth + 1) of
                         None \<Rightarrow> None
                       | Some True \<Rightarrow> Some True
                       | Some False \<Rightarrow> cbs_find_ber rest depth))
          else cbs_find_ber rest depth)"
  by pat_completeness auto
termination
  by (relation "measure (\<lambda>(s, depth). length s)")
    (auto dest!: sym [of "(Some _, _)"] any_element_shorter)

declare cbs_find_ber.simps [simp del]

text \<open>\<open>cbs_get_eoc\<close> returns whether it consumed an end-of-contents value.\<close>

definition cbs_get_eoc :: "cbs \<Rightarrow> bool \<times> cbs" where
  "cbs_get_eoc s =
     (if CBS_len s \<ge> 2 \<and> s ! 0 = 0 \<and> s ! 1 = 0
      then (case CBS_skip 2 s of (r, s) \<Rightarrow> (r \<noteq> None, s)) else (False, s))"

text \<open>The element that receives the contents of one input element: the output itself inside a
  constructed string, or a new child, and the string tag its own children must have.\<close>

definition convert_target :: "(nat \<Rightarrow> bool) \<Rightarrow> nat \<Rightarrow> cbs_asn1_tag \<Rightarrow> cbs_asn1_tag \<Rightarrow> (cbb, nat \<times> cbs_asn1_tag) routine" where
  "convert_target al out string_tag tag =
     (if string_tag \<noteq> 0 then
        andthen (require (tag AND NOT CBS_ASN1_CONSTRUCTED = string_tag)) (\<lambda>_. succeed (out, string_tag))
      else
        let str = tag AND CBS_ASN1_CONSTRUCTED \<noteq> 0 \<and> is_string_type tag;
            out_tag = (if str then tag AND NOT CBS_ASN1_CONSTRUCTED else tag)
        in andthen (CBB_add_asn1 al out out_tag) (\<lambda>out_contents.
             succeed (out_contents, if str then out_tag else string_tag)))"

lemma any_element_fails: "CBS_get_any_ber_asn1_element s = (None, s') \<Longrightarrow> s' = s"
proof -
  have res: "andthen (CBS_get_bytes n) (\<lambda>out. succeed (f out)) s = (None, s') \<Longrightarrow> s' = s" for n and f :: "cbs \<Rightarrow> asn1_element"
    by (auto simp: andthen_def CBS_get_bytes_def cbs_get_def succeed_def split: if_splits)
  show "CBS_get_any_ber_asn1_element s = (None, s') \<Longrightarrow> s' = s"
    unfolding CBS_get_any_ber_asn1_element_def cbs_get_any_asn1_element_def Let_def
    by (auto split: prod.splits option.splits if_splits dest!: res)
qed

text \<open>The state of \<open>cbs_convert_ber\<close> is the input \<open>*in\<close> and the output builder; the result is the
  C code's, with both. Every call and every turn of the loop works on less input than the one
  before, so as much fuel as there are input bytes and one more is enough; \<open>None\<close> is running out
  of it.\<close>

primrec cbs_convert_ber ::
  "nat \<Rightarrow> (nat \<Rightarrow> bool) \<Rightarrow> nat \<Rightarrow> cbs_asn1_tag \<Rightarrow> bool \<Rightarrow> nat \<Rightarrow> cbs \<Rightarrow> cbb \<Rightarrow> (bool \<times> cbs \<times> cbb) option" where
  "cbs_convert_ber 0 al out string_tag looking_for_eoc depth s b = None"
| "cbs_convert_ber (Suc fuel) al out string_tag looking_for_eoc depth s b =
     (if depth > kMaxDepth then Some (False, s, b)
      else if CBS_len s = 0 then Some (\<not> looking_for_eoc, s, b)
      else if looking_for_eoc \<and> fst (cbs_get_eoc s) then Some (True, snd (cbs_get_eoc s), b)
      else case CBS_get_any_ber_asn1_element s of
        (None, s) \<Rightarrow> Some (False, s, b)
      | (Some e, s) \<Rightarrow>
        (case convert_target al out string_tag (elem_tag e) b of
           (None, b) \<Rightarrow> Some (False, s, b)
         | (Some (out_contents, child_string_tag), b) \<Rightarrow>
           (case (if elem_indefinite e
                  then cbs_convert_ber fuel al out_contents child_string_tag True (depth + 1) s b
                  else case CBS_skip (elem_header_len e) (elem_out e) of
                         (None, _) \<Rightarrow> Some (False, s, b)
                       | (Some _, contents) \<Rightarrow>
                           if elem_tag e AND CBS_ASN1_CONSTRUCTED \<noteq> 0
                           then map_option (\<lambda>(r, _, b). (r, s, b))
                             (cbs_convert_ber fuel al out_contents child_string_tag False (depth + 1) contents b)
                           else (case CBB_add_bytes al out_contents contents b of
                                   (r, b) \<Rightarrow> Some (r \<noteq> None, s, b))) of
              None \<Rightarrow> None
            | Some (False, s, b) \<Rightarrow> Some (False, s, b)
            | Some (True, s, b) \<Rightarrow>
                (case CBB_flush al out b of
                   (None, b) \<Rightarrow> Some (False, s, b)
                 | (Some _, b) \<Rightarrow> cbs_convert_ber fuel al out string_tag looking_for_eoc depth s b))))"

declare cbs_convert_ber.simps(2) [simp del]
lemma get_eoc_length: "length (snd (cbs_get_eoc s)) \<le> length s"
  by (auto simp: cbs_get_eoc_def CBS_skip_def cbs_get_def andthen_def succeed_def split: prod.splits)

lemma convert_ber_length:
  "cbs_convert_ber n al out st look depth s b = Some (r, s', b') \<Longrightarrow> length s' \<le> length s"
proof (induction n arbitrary: out st look depth s b r s' b')
  case (Suc n)
  show ?case
  proof (cases "CBS_get_any_ber_asn1_element s")
    case (Pair x s1)
    have "length s1 \<le> length s"
      using any_element_shorter [of s _ s1] any_element_fails [of s s1] Pair by (cases x) force+
    then show ?thesis
      using Suc.prems get_eoc_length [of s] Pair
      by (auto simp: cbs_convert_ber.simps(2) split: if_splits option.splits prod.splits bool.splits
          dest!: Suc.IH)
  qed
qed simp

lemma convert_ber_returns:
  "length s < n \<Longrightarrow> cbs_convert_ber n al out st look depth s b \<noteq> None"
proof (induction n arbitrary: out st look depth s b)
  case (Suc n)
  show ?case
  proof (cases "CBS_get_any_ber_asn1_element s")
    case (Pair x s1)
    show ?thesis
    proof (cases x)
      case None
      then show ?thesis using Pair by (simp add: cbs_convert_ber.simps(2) ex_bool_eq)
    next
      case (Some e)
      note short = any_element_shorter [OF Pair [unfolded Some]]
      have IH: "cbs_convert_ber n al oc tg lk dp s2 c \<noteq> None" if "length s2 < length s" for oc tg lk dp s2 c
        using Suc.prems that by (intro Suc.IH) simp
      obtain t b1 where tgt: "convert_target al out st (elem_tag e) b = (t, b1)" by fastforce
      show ?thesis
      proof (cases t)
        case None
        then show ?thesis using Pair Some tgt by (simp add: cbs_convert_ber.simps(2) ex_bool_eq)
      next
        case t: (Some p)
        obtain oc cst where p: "p = (oc, cst)" by fastforce
        let ?inner = "if elem_indefinite e then cbs_convert_ber n al oc cst True (depth + 1) s1 b1
          else case CBS_skip (elem_header_len e) (elem_out e) of
                 (None, _) \<Rightarrow> Some (False, s1, b1)
               | (Some _, contents) \<Rightarrow>
                   if elem_tag e AND CBS_ASN1_CONSTRUCTED \<noteq> 0
                   then map_option (\<lambda>(r, _, b). (r, s1, b)) (cbs_convert_ber n al oc cst False (depth + 1) contents b1)
                   else (case CBB_add_bytes al oc contents b1 of (r, b) \<Rightarrow> Some (r \<noteq> None, s1, b))"
        have "?inner \<noteq> None"
          using short IH [of s1 oc cst True "depth + 1" b1]
            IH [of "drop (elem_header_len e) (elem_out e)" oc cst False "depth + 1" b1]
          by (auto split: prod.split)
        then obtain q where "?inner = Some q" unfolding not_None_eq by blast
        then obtain r s2 b2 where inner: "?inner = Some (r, s2, b2)" using prod_cases3 [of q thesis] by blast
        have "length s2 \<le> length s1"
          using inner short by (auto split: if_splits prod.splits dest: convert_ber_length)
        with short IH have next_turn: "cbs_convert_ber n al out st look depth s2 c \<noteq> None" for c by simp
        show ?thesis
          unfolding cbs_convert_ber.simps(2) Pair Some tgt t p prod.case option.case inner
          using next_turn by (cases r) (auto split: prod.split option.split simp: ex_bool_eq)
      qed
    qed
  qed
qed simp
section \<open>Conversion and its users\<close>

text \<open>The result is \<open>*out\<close> with whether \<open>*out_storage\<close> was allocated.\<close>

definition CBS_asn1_ber_to_der :: "(nat \<Rightarrow> bool) \<Rightarrow> (cbs, bytes \<times> bool) routine" where
  "CBS_asn1_ber_to_der al = (\<lambda>s.
     case cbs_find_ber s 0 of
       None \<Rightarrow> (None, s)
     | Some False \<Rightarrow> andthen CBS_get_any_asn1_element (\<lambda>e. succeed (elem_out e, False)) s
     | Some True \<Rightarrow>
         (case CBB_init al (CBS_len s) of
            None \<Rightarrow> (None, s)
          | Some cbb \<Rightarrow>
            (case cbs_convert_ber (CBS_len s + 1) al 0 0 False 0 s cbb of
               Some (True, s, cbb) \<Rightarrow>
                 (case CBB_finish al 0 True cbb of
                    (None, _) \<Rightarrow> (None, s)
                  | (Some out_storage, _) \<Rightarrow> (Some (CBS_init out_storage (length out_storage), True), s))
             | Some (False, s, _) \<Rightarrow> (None, s)
             | None \<Rightarrow> (None, s))))"

lemma get_asn1_shorter: "CBS_get_asn1 t s = (Some c, s') \<Longrightarrow> length s' < length s"
proof -
  assume "CBS_get_asn1 t s = (Some c, s')"
  then have "s = der_element t c @ s'" by (simp add: CBS_get_asn1_iff)
  moreover have "0 < length (der_tag t)" using length_der_tag [of t] by linarith
  ultimately show ?thesis by (simp add: der_element_def der_header_def)
qed

function implicit_string_loop :: "(nat \<Rightarrow> bool) \<Rightarrow> cbs_asn1_tag \<Rightarrow> cbs \<Rightarrow> (cbb, unit) routine" where
  "implicit_string_loop al inner_tag child =
     (if CBS_len child > 0 then
        (case CBS_get_asn1 inner_tag child of
           (None, _) \<Rightarrow> failure
         | (Some chunk, child) \<Rightarrow>
             andthen (CBB_add_bytes al 0 chunk) (\<lambda>_. implicit_string_loop al inner_tag child))
      else succeed ())"
  by pat_completeness auto
termination
  by (relation "measure (\<lambda>(al, t, child). length child)")
    (auto dest!: sym [of "(Some _, _)"] get_asn1_shorter)

declare implicit_string_loop.simps [simp del]

definition CBS_get_asn1_implicit_string ::
  "(nat \<Rightarrow> bool) \<Rightarrow> cbs_asn1_tag \<Rightarrow> cbs_asn1_tag \<Rightarrow> (cbs, bytes \<times> bool) routine" where
  "CBS_get_asn1_implicit_string al outer_tag inner_tag = (\<lambda>s.
     if CBS_peek_asn1_tag s outer_tag
     then andthen (CBS_get_asn1 outer_tag) (\<lambda>out. succeed (out, False)) s
     else
       case CBB_init al (CBS_len s) of
         None \<Rightarrow> (None, s)
       | Some result \<Rightarrow>
           andthen (CBS_get_asn1 (outer_tag OR CBS_ASN1_CONSTRUCTED)) (\<lambda>child s.
             case andthen (implicit_string_loop al inner_tag child) (\<lambda>_. CBB_finish al 0 True) result of
               (None, _) \<Rightarrow> (None, s)
             | (Some data, _) \<Rightarrow> (Some (CBS_init data (length data), True), s)) s)"

text \<open>\<open>outp\<close> is null (\<open>None\<close>), points to a null pointer, or points to a buffer; the result is
  the return value with what \<open>*outp\<close> holds afterwards.\<close>

datatype i2d_target = No_target | Null_target | Buffer_target bytes

definition CBB_finish_i2d :: "(nat \<Rightarrow> bool) \<Rightarrow> i2d_target \<Rightarrow> cbb \<Rightarrow> int \<times> i2d_target" where
  "CBB_finish_i2d al outp cbb =
     (case CBB_finish al 0 True cbb of
        (None, _) \<Rightarrow> (- 1, outp)
      | (Some der, _) \<Rightarrow>
          if length der > 2 ^ 31 - 1 then (- 1, outp)
          else (int (length der),
                case outp of
                  No_target \<Rightarrow> No_target
                | Null_target \<Rightarrow> Buffer_target der
                | Buffer_target old \<Rightarrow> Buffer_target (der @ drop (length der) old)))"

section \<open>What the conversion writes\<close>

text \<open>Sequences of DER elements without BER constructs, nested at most \<open>n\<close> deep.\<close>

inductive der_sequence :: "nat \<Rightarrow> bytes \<Rightarrow> bool" where
  empty: "der_sequence n []"
| primitive: "valid_tag t \<Longrightarrow> t AND CBS_ASN1_CONSTRUCTED = 0 \<Longrightarrow> length c < 2 ^ 32 \<Longrightarrow>
    der_sequence n w \<Longrightarrow> der_sequence n (der_element t c @ w)"
| constructed: "valid_tag t \<Longrightarrow> t AND CBS_ASN1_CONSTRUCTED \<noteq> 0 \<Longrightarrow> \<not> is_string_type t \<Longrightarrow>
    length c < 2 ^ 32 \<Longrightarrow> der_sequence n c \<Longrightarrow> der_sequence (Suc n) w \<Longrightarrow>
    der_sequence (Suc n) (der_element t c @ w)"

lemma der_sequence_append: "der_sequence n v \<Longrightarrow> der_sequence n w \<Longrightarrow> der_sequence n (v @ w)"
  by (induction rule: der_sequence.induct) (auto intro: der_sequence.intros)

lemma der_sequence_find_ber: "der_sequence n w \<Longrightarrow> depth + n \<le> kMaxDepth \<Longrightarrow> cbs_find_ber w depth = Some False"
proof (induction arbitrary: depth rule: der_sequence.induct)
  case (empty n)
  then show ?case by (simp add: cbs_find_ber.simps CBS_len_def)
next
  case (primitive t c n w)
  have "CBS_get_any_ber_asn1_element (der_element t c @ w) = (Some (element_result t c), w)"
    using primitive by (simp add: CBS_get_any_ber_asn1_element_def any_asn1_element_der)
  moreover have "der_element t c @ w \<noteq> []" using any_element_shorter [OF calculation] by auto
  ultimately show ?case
    using primitive by (subst cbs_find_ber.simps) (simp add: CBS_len_def element_result_def)
next
  case (constructed t c n w)
  have get: "CBS_get_any_ber_asn1_element (der_element t c @ w) = (Some (element_result t c), w)"
    using constructed by (simp add: CBS_get_any_ber_asn1_element_def any_asn1_element_der)
  have "CBS_skip (elem_header_len (element_result t c)) (elem_out (element_result t c)) = (Some (), c)"
    by (simp add: element_result_def der_element_def CBS_skip_eq_Some)
  moreover have "der_element t c @ w \<noteq> []" using any_element_shorter [OF get] by auto
  ultimately show ?case
    using constructed get by (subst cbs_find_ber.simps) (simp add: CBS_len_def element_result_def)
qed

lemma convert_ber_turn:
  assumes "cbs_convert_ber (Suc n) al out st look depth s b = Some (True, s', b')"
  shows "depth \<le> kMaxDepth \<and> (b' = b \<or>
    (\<exists>e s1 oc cst b1 s2 b2 b3.
      CBS_get_any_ber_asn1_element s = (Some e, s1) \<and> convert_target al out st (elem_tag e) b = (Some (oc, cst), b1) \<and>
      (elem_indefinite e \<and> cbs_convert_ber n al oc cst True (depth + 1) s1 b1 = Some (True, s2, b2) \<or>
       elem_tag e AND CBS_ASN1_CONSTRUCTED \<noteq> 0 \<and>
         (\<exists>c x. cbs_convert_ber n al oc cst False (depth + 1) c b1 = Some (True, x, b2)) \<or>
       \<not> elem_indefinite e \<and> elem_tag e AND CBS_ASN1_CONSTRUCTED = 0 \<and>
         (\<exists>c. CBB_add_bytes al oc c b1 = (Some (), b2))) \<and>
      CBB_flush al out b2 = (Some (), b3) \<and> cbs_convert_ber n al out st look depth s2 b3 = Some (True, s', b')))"
proof (cases "depth > kMaxDepth \<or> CBS_len s = 0 \<or> look \<and> fst (cbs_get_eoc s)")
  case True
  then show ?thesis using assms by (auto simp: cbs_convert_ber.simps(2) split: if_splits)
next
  case no: False
  obtain x s1 where get: "CBS_get_any_ber_asn1_element s = (x, s1)" by fastforce
  obtain e where x: "x = Some e" using assms no get by (cases x) (auto simp: cbs_convert_ber.simps(2) split: if_splits)
  obtain t b1 where tgt: "convert_target al out st (elem_tag e) b = (t, b1)" by fastforce
  obtain oc cst where t: "t = Some (oc, cst)"
    using assms no get x tgt by (cases t) (auto simp: cbs_convert_ber.simps(2) split: if_splits)
  note skip = any_element_shorter [OF get [unfolded x], THEN conjunct2, THEN conjunct2]
  let ?c = "drop (elem_header_len e) (elem_out e)"
  let ?inner = "if elem_indefinite e then cbs_convert_ber n al oc cst True (depth + 1) s1 b1
    else if elem_tag e AND CBS_ASN1_CONSTRUCTED \<noteq> 0
         then map_option (\<lambda>(r, _, b). (r, s1, b)) (cbs_convert_ber n al oc cst False (depth + 1) ?c b1)
         else (case CBB_add_bytes al oc ?c b1 of (r, b) \<Rightarrow> Some (r \<noteq> None, s1, b))"
  have run: "(case ?inner of None \<Rightarrow> None
      | Some (False, s, b) \<Rightarrow> Some (False, s, b)
      | Some (True, s, b) \<Rightarrow> (case CBB_flush al out b of
           (None, b) \<Rightarrow> Some (False, s, b)
         | (Some _, b) \<Rightarrow> cbs_convert_ber n al out st look depth s b)) = Some (True, s', b')"
    using assms no unfolding cbs_convert_ber.simps(2) get x tgt t skip prod.case option.case by (simp only: if_False de_Morgan_disj)
  obtain q where q: "?inner = Some q" using run by (cases ?inner) (auto simp del: not_None_eq)
  obtain s2 b2 where inner: "?inner = Some (True, s2, b2)"
    using run unfolding q by (cases q) (auto split: bool.splits)
  from run [unfolded inner] obtain b3 where fl: "CBB_flush al out b2 = (Some (), b3)"
    and rest: "cbs_convert_ber n al out st look depth s2 b3 = Some (True, s', b')"
    by (auto split: prod.splits option.splits)
  have "elem_indefinite e \<and> cbs_convert_ber n al oc cst True (depth + 1) s1 b1 = Some (True, s2, b2) \<or>
       elem_tag e AND CBS_ASN1_CONSTRUCTED \<noteq> 0 \<and>
         (\<exists>c x. cbs_convert_ber n al oc cst False (depth + 1) c b1 = Some (True, x, b2)) \<or>
       \<not> elem_indefinite e \<and> elem_tag e AND CBS_ASN1_CONSTRUCTED = 0 \<and>
         (\<exists>c. CBB_add_bytes al oc c b1 = (Some (), b2))"
    using inner by (cases "CBB_add_bytes al oc ?c b1") (auto split: if_splits; blast)
  with no get x tgt t fl rest show ?thesis by (intro conjI disjI2) (simp, blast)
qed

lemma indefinite_constructed:
  assumes "CBS_get_any_ber_asn1_element s = (Some e, s')" "elem_indefinite e"
  shows "elem_tag e AND CBS_ASN1_CONSTRUCTED \<noteq> 0"
proof -
  have res: "andthen (CBS_get_bytes n) (\<lambda>out. succeed \<lparr>elem_out = out, elem_tag = t, elem_header_len = k,
      elem_ber_found = bf, elem_indefinite = ind\<rparr>) s = (Some e, s') \<Longrightarrow> elem_tag e = t \<and> elem_indefinite e = ind" for n t k bf ind
    by (auto simp: andthen_eq_Some succeed_def)
  show ?thesis
    using assms unfolding CBS_get_any_ber_asn1_element_def cbs_get_any_asn1_element_def Let_def
    by (auto split: prod.splits option.splits if_splits dest!: res)
qed

lemma string_tag_simps:
  "(t AND NOT CBS_ASN1_CONSTRUCTED) AND CBS_ASN1_CONSTRUCTED = 0"
  "valid_tag t \<Longrightarrow> valid_tag (t AND NOT CBS_ASN1_CONSTRUCTED)"
  "valid_tag t \<Longrightarrow> t AND NOT CBS_ASN1_CONSTRUCTED \<noteq> 0"
  by (auto simp: valid_tag_def and.assoc and.left_commute)

lemma convert_ber_writes:
  "cbs_convert_ber n al out st look depth s b = Some (True, s', b') \<Longrightarrow> length (chain b) = out \<Longrightarrow>
     chain b' = chain b \<and> (\<exists>w. buf (base b') = buf (base b) @ w \<and> (st = 0 \<longrightarrow> der_sequence (kMaxDepth - depth) w))"
proof (induction n arbitrary: out st look depth s b s' b')
  case (Suc n)
  note turn = convert_ber_turn [OF Suc.prems(1)]
  show ?case
  proof (cases "b' = b")
    case True
    then show ?thesis by (auto intro: der_sequence.empty)
  next
    case False
    with turn obtain e s1 oc cst b1 s2 b2 b3 where
      get: "CBS_get_any_ber_asn1_element s = (Some e, s1)" and
      tgt: "convert_target al out st (elem_tag e) b = (Some (oc, cst), b1)" and
      inner: "elem_indefinite e \<and> cbs_convert_ber n al oc cst True (depth + 1) s1 b1 = Some (True, s2, b2) \<or>
       elem_tag e AND CBS_ASN1_CONSTRUCTED \<noteq> 0 \<and>
         (\<exists>c x. cbs_convert_ber n al oc cst False (depth + 1) c b1 = Some (True, x, b2)) \<or>
       \<not> elem_indefinite e \<and> elem_tag e AND CBS_ASN1_CONSTRUCTED = 0 \<and>
         (\<exists>c. CBB_add_bytes al oc c b1 = (Some (), b2))" and
      fl: "CBB_flush al out b2 = (Some (), b3)" and
      rest: "cbs_convert_ber n al out st look depth s2 b3 = Some (True, s', b')" by blast
    have valid: "valid_tag (elem_tag e)"
      using any_element_frame get by (auto simp: CBS_get_any_ber_asn1_element_def)
    have constr: "elem_tag e AND CBS_ASN1_CONSTRUCTED = 0 \<or> depth + 1 \<le> kMaxDepth"
    proof -
      have "cbs_convert_ber n al oc cst lk (depth + 1) c b1 = Some (True, y, b2) \<Longrightarrow> depth + 1 \<le> kMaxDepth" for lk c y
        by (cases n) (auto dest: convert_ber_turn)
      then show ?thesis using inner indefinite_constructed [OF get] by blast
    qed
    have contents: "chain b2 = chain b1 \<and> (\<exists>w. buf (base b2) = buf (base b1) @ w \<and>
        (elem_tag e AND CBS_ASN1_CONSTRUCTED \<noteq> 0 \<longrightarrow> cst = 0 \<longrightarrow> der_sequence (kMaxDepth - (depth + 1)) w))"
      if "length (chain b1) = oc"
    proof -
      have "CBB_add_bytes al oc c b1 = (Some (), b2) \<Longrightarrow> chain b2 = chain b1 \<and> buf (base b2) = buf (base b1) @ c" for c
        using add_space_eq_Some that by (auto simp: CBB_add_bytes_def)
      then show ?thesis using inner Suc.IH [OF _ that] by blast
    qed
    show ?thesis
    proof (cases "st = 0")
      case False
      then have "oc = out" "b1 = b" using tgt by (auto simp: convert_target_def andthen_apply require_def succeed_def split: if_splits)
      with contents Suc.prems(2) obtain w where w: "chain b2 = chain b" "buf (base b2) = buf (base b) @ w" by auto
      have "b3 = b2" using fl w Suc.prems(2) by (auto split: if_splits)
      with Suc.IH [OF rest] w Suc.prems(2) False show ?thesis by auto
    next
      case True
      define str where "str \<longleftrightarrow> elem_tag e AND CBS_ASN1_CONSTRUCTED \<noteq> 0 \<and> is_string_type (elem_tag e)"
      define ot where "ot = (if str then elem_tag e AND NOT CBS_ASN1_CONSTRUCTED else elem_tag e)"
      from tgt True have add: "CBB_add_asn1 al out ot b = (Some oc, b1)" and cst: "cst = (if str then ot else 0)"
        by (auto simp: convert_target_def Let_def andthen_eq_Some succeed_def str_def ot_def split: if_splits)
      from add_asn1_eq_Some [OF add Suc.prems(2)] Suc.prems(2) have "length (chain b1) = oc" by auto
      from contents [OF this] obtain w where w: "chain b2 = chain b1" "buf (base b2) = buf (base b1) @ w"
        "elem_tag e AND CBS_ASN1_CONSTRUCTED \<noteq> 0 \<Longrightarrow> cst = 0 \<Longrightarrow> der_sequence (kMaxDepth - (depth + 1)) w" by blast
      from element_written [OF Suc.prems(2) add w(2,1) fl]
      have b3: "buf (base b3) = buf (base b) @ der_element ot w" "chain b3 = chain b" "length w < 2 ^ 32" by auto
      from Suc.IH [OF rest] b3(2) Suc.prems(2) True obtain v where
        v: "chain b' = chain b" "buf (base b') = buf (base b3) @ v" "der_sequence (kMaxDepth - depth) v" by auto
      have "der_sequence (kMaxDepth - depth) (der_element ot w @ v)"
      proof (cases "elem_tag e AND CBS_ASN1_CONSTRUCTED = 0 \<or> str")
        case True
        then have "valid_tag ot" "ot AND CBS_ASN1_CONSTRUCTED = 0"
          using valid string_tag_simps by (auto simp: ot_def str_def)
        then show ?thesis using b3(3) v(3) by (intro der_sequence.primitive)
      next
        case False
        then have "ot = elem_tag e" "cst = 0" "\<not> is_string_type ot" by (auto simp: ot_def str_def cst)
        moreover have "kMaxDepth - depth = Suc (kMaxDepth - (depth + 1))" using constr False by auto
        ultimately show ?thesis using False valid b3(3) v(3) w(3) by (auto intro: der_sequence.constructed)
      qed
      then show ?thesis using v b3 by auto
    qed
  qed
qed simp
section \<open>Properties\<close>

lemma ber_to_der_converted:
  assumes "CBS_asn1_ber_to_der al s = (Some (out, True), s')"
  shows "der_sequence kMaxDepth out"
proof -
  obtain cbb where i: "CBB_init al (CBS_len s) = Some cbb"
    and "cbs_find_ber s 0 = Some True"
    using assms by (auto simp: CBS_asn1_ber_to_der_def andthen_apply succeed_def
        split: option.splits bool.splits prod.splits)
  with assms obtain s1 b x where conv: "cbs_convert_ber (CBS_len s + 1) al 0 0 False 0 s cbb = Some (True, s1, b)"
    and fin: "CBB_finish al 0 True b = (Some out, x)"
    by (auto simp: CBS_asn1_ber_to_der_def CBS_init_def split: option.splits bool.splits prod.splits)
  have cbb: "cbb = cbb_init (CBS_len s) True" using i by (auto simp: CBB_init_def split: if_splits)
  from convert_ber_writes [OF conv] obtain w where
    w: "chain b = []" "buf (base b) = w" "der_sequence kMaxDepth w"
    by (auto simp: cbb cbb_init_def)
  have "out = buf (base b)" using fin w(1) by (auto simp: CBB_finish_def andthen_eq_Some split: if_splits)
  with w show ?thesis by simp
qed


lemma octet_string_no_ber: "cbs_find_ber [4, 1, 9] 0 = Some False"
proof -
  have "der_sequence 0 (der_element CBS_ASN1_OCTETSTRING [9] @ [])"
    using valid_tag_simps(3) by (intro der_sequence.intros)
      (simp_all add: CBS_ASN1_OCTETSTRING_def CBS_ASN1_CONSTRUCTED_def)
  then show ?thesis
    using der_sequence_find_ber [of 0 "[4, 1, 9]" 0] by (simp add: der_element_octet_example)
qed

lemma octet_string_element:
  "CBS_get_any_asn1_element [4, 1, 9] = (Some (element_result CBS_ASN1_OCTETSTRING [9]), [])"
  using any_asn1_element_iff [of "[4, 1, 9]"] valid_tag_simps(3)
  by (auto simp: der_element_octet_example intro!: exI)






text \<open>C16. The strict reader is a restriction of the lenient one: whatever is read as a DER element
  is read as a BER element with the same result.\<close>

theorem der_reader_refines_ber:
  assumes "CBS_get_any_asn1_element s = (Some e, s')"
  shows "CBS_get_any_ber_asn1_element s = (Some e, s') \<and> \<not> elem_ber_found e \<and> \<not> elem_indefinite e"
  using assms by (auto simp: any_asn1_element_iff CBS_get_any_ber_asn1_element_def any_asn1_element_der element_result_def)

theorem der_reader_refines_ber_witness:
  "\<exists>e. CBS_get_any_ber_asn1_element [4, 1, 9] = (Some e, [])"
  using der_reader_refines_ber [OF octet_string_element] by blast

end
