(* ===== verification/ConstTime.thy ===== *)
theory ConstTime
  imports Prelude
begin

text \<open>
  The constant-time primitives of crypto/internal.h, on a platform whose \<open>crypto_word_t\<close> has
  64 bits, as on every iOS device the library supports. A value barrier returns its argument. An
  \<open>int\<close> argument is its 32-bit pattern; converting it to \<open>crypto_word_t\<close> extends the sign.
\<close>

unbundle bit_operations_syntax

type_synonym crypto_word_t = u64

definition CONSTTIME_TRUE_W :: crypto_word_t where "CONSTTIME_TRUE_W = NOT 0"
definition CONSTTIME_FALSE_W :: crypto_word_t where "CONSTTIME_FALSE_W = 0"
definition CONSTTIME_TRUE_8 :: u8 where "CONSTTIME_TRUE_8 = 0xff"
definition CONSTTIME_FALSE_8 :: u8 where "CONSTTIME_FALSE_8 = 0"

definition value_barrier_w :: "crypto_word_t \<Rightarrow> crypto_word_t" where
  "value_barrier_w a = a"

definition constant_time_msb_w :: "crypto_word_t \<Rightarrow> crypto_word_t" where
  "constant_time_msb_w a = 0 - drop_bit (8 * 8 - 1) a"

definition constant_time_lt_w :: "crypto_word_t \<Rightarrow> crypto_word_t \<Rightarrow> crypto_word_t" where
  "constant_time_lt_w a b = constant_time_msb_w (a XOR ((a XOR b) OR ((a - b) XOR a)))"

definition constant_time_lt_8 :: "crypto_word_t \<Rightarrow> crypto_word_t \<Rightarrow> u8" where
  "constant_time_lt_8 a b = ucast (constant_time_lt_w a b)"

definition constant_time_ge_w :: "crypto_word_t \<Rightarrow> crypto_word_t \<Rightarrow> crypto_word_t" where
  "constant_time_ge_w a b = NOT (constant_time_lt_w a b)"

definition constant_time_ge_8 :: "crypto_word_t \<Rightarrow> crypto_word_t \<Rightarrow> u8" where
  "constant_time_ge_8 a b = ucast (constant_time_ge_w a b)"

definition constant_time_is_zero_w :: "crypto_word_t \<Rightarrow> crypto_word_t" where
  "constant_time_is_zero_w a = constant_time_msb_w (NOT a AND (a - 1))"

definition constant_time_is_zero_8 :: "crypto_word_t \<Rightarrow> u8" where
  "constant_time_is_zero_8 a = ucast (constant_time_is_zero_w a)"

definition constant_time_eq_w :: "crypto_word_t \<Rightarrow> crypto_word_t \<Rightarrow> crypto_word_t" where
  "constant_time_eq_w a b = constant_time_is_zero_w (a XOR b)"

definition constant_time_eq_8 :: "crypto_word_t \<Rightarrow> crypto_word_t \<Rightarrow> u8" where
  "constant_time_eq_8 a b = ucast (constant_time_eq_w a b)"

definition constant_time_eq_int :: "u32 \<Rightarrow> u32 \<Rightarrow> crypto_word_t" where
  "constant_time_eq_int a b = constant_time_eq_w (scast a) (scast b)"

definition constant_time_eq_int_8 :: "u32 \<Rightarrow> u32 \<Rightarrow> u8" where
  "constant_time_eq_int_8 a b = constant_time_eq_8 (scast a) (scast b)"

definition constant_time_select_w :: "crypto_word_t \<Rightarrow> crypto_word_t \<Rightarrow> crypto_word_t \<Rightarrow> crypto_word_t" where
  "constant_time_select_w m a b = (let m = value_barrier_w m in (m AND a) OR (NOT m AND b))"

definition constant_time_select_8 :: "crypto_word_t \<Rightarrow> u8 \<Rightarrow> u8 \<Rightarrow> u8" where
  "constant_time_select_8 m a b = (let m = ucast (value_barrier_w m) in (m AND a) OR (NOT m AND b))"

definition constant_time_select_int :: "crypto_word_t \<Rightarrow> u32 \<Rightarrow> u32 \<Rightarrow> u32" where
  "constant_time_select_int m a b = ucast (constant_time_select_w m (scast a) (scast b))"

definition constant_time_conditional_memcpy :: "bytes \<Rightarrow> bytes \<Rightarrow> nat \<Rightarrow> crypto_word_t \<Rightarrow> bytes" where
  "constant_time_conditional_memcpy dst src n m =
     fold (\<lambda>i out. out[i := constant_time_select_8 m (src ! i) (out ! i)]) [0..<n] dst"

definition constant_time_conditional_memxor :: "bytes \<Rightarrow> bytes \<Rightarrow> nat \<Rightarrow> crypto_word_t \<Rightarrow> bytes" where
  "constant_time_conditional_memxor dst src n m =
     fold (\<lambda>i out. out[i := out ! i XOR (ucast (value_barrier_w m) AND src ! i)]) [0..<n] dst"

section \<open>The masks agree with the branches they replace\<close>

named_theorems consttime \<open>what each primitive computes, as a conditional\<close>

lemma bit_top_iff: "bit (x :: u64) 63 \<longleftrightarrow> 2 ^ 63 \<le> unat x"
proof -
  have "bit (unat x) 63 \<longleftrightarrow> odd (unat x div 2 ^ 63)" by (simp only: bit_iff_odd)
  moreover have "unat x div 2 ^ 63 = (if 2 ^ 63 \<le> unat x then 1 else 0)"
    using unat_u64_less [of x] by (auto intro!: div_nat_eqI)
  ultimately show ?thesis by (simp add: bit_unsigned_iff split: if_splits)
qed

lemma msb_w [consttime]: "constant_time_msb_w a = (if bit a 63 then - 1 else 0)"
proof -
  have "unat (drop_bit 63 a) = (if bit a 63 then 1 else 0)"
    using unat_u64_less [of a] by (auto simp: unat_drop_bit bit_top_iff intro!: div_nat_eqI)
  then have "drop_bit 63 a = (if bit a 63 then 1 else 0)"
    by (simp add: word_unat_eq_iff [where 'a = 64] split: if_splits)
  then show ?thesis by (simp add: constant_time_msb_w_def)
qed

lemma lt_w [consttime]: "constant_time_lt_w a b = (if a < b then - 1 else 0)"
proof -
  have "bit (a XOR ((a XOR b) OR ((a - b) XOR a))) 63 \<longleftrightarrow>
      (if bit a 63 = bit b 63 then bit (a - b) 63 else bit b 63)"
    by (auto simp: bit_simps)
  also have "\<dots> \<longleftrightarrow> a < b"
    using unat_u64_less [of a] unat_u64_less [of b]
    by (auto simp: bit_top_iff unat_sub_if' word_less_nat_alt)
  finally show ?thesis by (simp add: constant_time_lt_w_def msb_w)
qed

lemma is_zero_w [consttime]: "constant_time_is_zero_w a = (if a = 0 then - 1 else 0)"
proof (cases "a = 0")
  case False
  then have "unat (a - 1) = unat a - 1" by (simp add: unat_minus_one)
  then show ?thesis using False
    by (simp add: constant_time_is_zero_w_def msb_w bit_and_iff bit_not_iff)
      (use unat_u64_less [of a] in \<open>auto simp: bit_top_iff\<close>)
qed (simp add: constant_time_is_zero_w_def msb_w bit_simps)

lemma ucast_all_ones [simp]: "(ucast (- 1 :: u64) :: u8) = - 1"
  by (rule bit_word_eqI) (simp add: bit_simps)

lemma xor_eq_0_iff: "x XOR y = 0 \<longleftrightarrow> x = (y :: 'a::len word)"
proof
  assume "x XOR y = 0"
  then have "(x XOR y) XOR y = 0 XOR y" by (rule arg_cong)
  then show "x = y" by (simp add: xor.assoc)
qed simp

lemma masks [consttime]:
  "constant_time_lt_8 a b = (if a < b then - 1 else 0)"
  "constant_time_ge_w a b = (if b \<le> a then - 1 else 0)"
  "constant_time_ge_8 a b = (if b \<le> a then - 1 else 0)"
  "constant_time_is_zero_8 a = (if a = 0 then - 1 else 0)"
  "constant_time_eq_w a b = (if a = b then - 1 else 0)"
  "constant_time_eq_8 a b = (if a = b then - 1 else 0)"
  by (auto simp: constant_time_lt_8_def constant_time_ge_w_def constant_time_ge_8_def lt_w is_zero_w xor_eq_0_iff
      constant_time_is_zero_8_def constant_time_eq_w_def constant_time_eq_8_def)

lemma ucast_scast_int [simp]: "(ucast (scast (c :: u32) :: u64) :: u32) = c"
proof (rule bit_word_eqI)
  fix n assume "n < LENGTH(32)"
  then have "min n 31 = n" "n < 64" by simp_all
  then show "bit (ucast (scast c :: u64) :: u32) n = bit c n"
    using \<open>n < LENGTH(32)\<close> by (simp add: bit_simps)
qed

lemma scast_int_eq_iff: "(scast (a :: u32) :: u64) = scast b \<longleftrightarrow> a = b"
  using ucast_scast_int by metis

lemma eq_int [consttime]:
  "constant_time_eq_int x y = (if x = y then - 1 else 0)"
  "constant_time_eq_int_8 x y = (if x = y then - 1 else 0)"
  by (simp_all add: constant_time_eq_int_def constant_time_eq_int_8_def masks scast_int_eq_iff)

lemma select_w [consttime]:
  "constant_time_select_w (if c then - 1 else 0) a b = (if c then a else b)"
  "constant_time_select_w (- 1) a b = a" "constant_time_select_w 0 a b = b"
  by (simp_all add: constant_time_select_w_def value_barrier_w_def)

lemma select_8 [consttime]:
  "constant_time_select_8 (- 1) a b = a" "constant_time_select_8 0 a b = b"
  by (simp_all add: constant_time_select_8_def value_barrier_w_def Let_def)

lemma ucast_mask_select [consttime]:
  "constant_time_select_8 (ucast (if c then - 1 else (0 :: u8))) a b = (if c then a else b)"
proof -
  have "ucast (ucast (- 1 :: u8) :: u64) = (- 1 :: u8)" by (rule bit_word_eqI) (simp add: bit_simps)
  then show ?thesis by (simp add: constant_time_select_8_def value_barrier_w_def Let_def)
qed

lemma select_int [consttime]:
  "constant_time_select_int (- 1) a b = a" "constant_time_select_int 0 a b = b"
  by (simp_all add: constant_time_select_int_def select_w)

section \<open>Conditional copies\<close>

lemma fold_update:
  "n \<le> length xs \<Longrightarrow> fold (\<lambda>i out. out[i := f i (out ! i)]) [0..<n] xs = map (\<lambda>i. f i (xs ! i)) [0..<n] @ drop n xs"
proof (induction n)
  case (Suc n)
  then have "drop n xs = xs ! n # drop (Suc n) xs" by (simp add: Cons_nth_drop_Suc)
  with Suc show ?case by (simp add: nth_append list_update_append)
qed simp

lemma map_nth_take: "n \<le> length xs \<Longrightarrow> map (\<lambda>i. xs ! i) [0..<n] = take n xs"
  by (rule nth_equalityI) auto

lemma conditional_memcpy [consttime]:
  assumes "n \<le> length dst" "n \<le> length src"
  shows "constant_time_conditional_memcpy dst src n (if c then - 1 else 0) =
    (if c then take n src @ drop n dst else dst)"
  using fold_update [of n dst "\<lambda>i x. constant_time_select_8 (if c then - 1 else 0) (src ! i) x"] assms
  by (simp add: constant_time_conditional_memcpy_def select_8 map_nth_take)

lemma conditional_memxor [consttime]:
  assumes "n \<le> length dst" "n \<le> length src"
  shows "constant_time_conditional_memxor dst src n (if c then - 1 else 0) =
    (if c then map2 (XOR) (take n dst) (take n src) @ drop n dst else dst)"
proof -
  have "map (\<lambda>i. dst ! i XOR src ! i) [0..<n] = map2 (XOR) (take n dst) (take n src)"
    using assms by (intro nth_equalityI) auto
  moreover have "map (\<lambda>i. dst ! i XOR ((if c then - 1 else 0) AND src ! i)) [0..<n] @ drop n dst =
      (if c then map (\<lambda>i. dst ! i XOR src ! i) [0..<n] @ drop n dst else dst)"
    using assms by (simp add: map_nth_take)
  ultimately show ?thesis
    using fold_update [of n dst "\<lambda>i x. x XOR ((if c then - 1 else 0) AND src ! i)"] assms
    by (cases c) (simp_all add: constant_time_conditional_memxor_def value_barrier_w_def)
qed

section \<open>Properties\<close>

text \<open>C19. The branch-free primitives compute what the branches they replace would: comparisons
  give the all-ones mask exactly when they hold, for every pair of words, and a selection or a
  conditional copy under such a mask is the conditional.\<close>

theorem constant_time_branches:
  assumes "n \<le> length dst" "n \<le> length src"
  shows "constant_time_lt_w a b = (if a < b then CONSTTIME_TRUE_W else CONSTTIME_FALSE_W) \<and>
    constant_time_ge_8 a b = (if b \<le> a then CONSTTIME_TRUE_8 else CONSTTIME_FALSE_8) \<and>
    constant_time_is_zero_w a = (if a = 0 then CONSTTIME_TRUE_W else CONSTTIME_FALSE_W) \<and>
    constant_time_eq_8 a b = (if a = b then CONSTTIME_TRUE_8 else CONSTTIME_FALSE_8) \<and>
    constant_time_eq_int x y = (if x = y then CONSTTIME_TRUE_W else CONSTTIME_FALSE_W) \<and>
    constant_time_select_w (constant_time_lt_w a b) c d = (if a < b then c else d) \<and>
    constant_time_select_int (constant_time_eq_w a b) x y = (if a = b then x else y) \<and>
    constant_time_conditional_memcpy dst src n (constant_time_eq_w a b) =
      (if a = b then take n src @ drop n dst else dst) \<and>
    constant_time_conditional_memxor dst src n (constant_time_lt_w a b) =
      (if a < b then map2 (XOR) (take n dst) (take n src) @ drop n dst else dst)"
  using assms
  by (auto simp: consttime CONSTTIME_TRUE_W_def CONSTTIME_FALSE_W_def CONSTTIME_TRUE_8_def CONSTTIME_FALSE_8_def
      simp del: if_split intro: if_cong)

theorem constant_time_branches_witness:
  "constant_time_lt_w 3 (2 ^ 63) = CONSTTIME_TRUE_W \<and>
   constant_time_conditional_memcpy [1, 2, 3] [7, 8] 2 (constant_time_eq_w 5 5) = [7, 8, 3]"
proof
  show "constant_time_lt_w 3 (2 ^ 63) = CONSTTIME_TRUE_W"
    using constant_time_branches [of 0 "[]" "[]" 3 "2 ^ 63" 0 0 0 0] by simp
  show "constant_time_conditional_memcpy [1, 2, 3] [7, 8] 2 (constant_time_eq_w 5 5) = [7, 8, 3]"
    using constant_time_branches [of 2 "[1, 2, 3]" "[7, 8]" 5 5 0 0 0 0] by simp
qed

end
