(* ===== verification/Base64.thy ===== *)
theory Base64
  imports ConstTime
begin

text \<open>
  Base64 encoding and decoding, crypto/base64/base64.c: the one-shot routines on blocks and the
  streaming ones, which keep an incomplete line or quad in an \<open>EVP_ENCODE_CTX\<close>. Output is the list
  of bytes written before the terminating NUL, which every routine writes after its output
  and the next one overwrites.
\<close>

unbundle bit_operations_syntax

section \<open>Single characters\<close>

definition constant_time_lt_args_8 :: "u8 \<Rightarrow> u8 \<Rightarrow> u8" where
  "constant_time_lt_args_8 a b = (let aw = ucast a; bw = ucast b in ucast (constant_time_msb_w (aw - bw)))"

definition constant_time_in_range_8 :: "u8 \<Rightarrow> u8 \<Rightarrow> u8 \<Rightarrow> u8" where
  "constant_time_in_range_8 a lo hi = (let a = a - lo in constant_time_lt_args_8 a (hi - lo + 1))"

definition conv_bin2ascii :: "u8 \<Rightarrow> u8" where
  "conv_bin2ascii a =
     (let a = a AND 0x3f;
          ret = constant_time_select_8 (ucast (constant_time_eq_8 (ucast a) 62)) 43 47;
          ret = constant_time_select_8 (ucast (constant_time_lt_args_8 a 62)) (a - 52 + 48) ret;
          ret = constant_time_select_8 (ucast (constant_time_lt_args_8 a 52)) (a - 26 + 97) ret
      in constant_time_select_8 (ucast (constant_time_lt_args_8 a 26)) (a + 65) ret)"

definition base64_ascii_to_bin :: "u8 \<Rightarrow> u8" where
  "base64_ascii_to_bin a =
     (let is_upper = constant_time_in_range_8 a 65 90;
          is_lower = constant_time_in_range_8 a 97 122;
          is_digit = constant_time_in_range_8 a 48 57;
          is_plus = constant_time_eq_8 (ucast a) 43;
          is_slash = constant_time_eq_8 (ucast a) 47;
          is_equals = constant_time_eq_8 (ucast a) 61;
          ret = 0;
          ret = ret OR (is_upper AND (a - 65));
          ret = ret OR (is_lower AND (a - 97 + 26));
          ret = ret OR (is_digit AND (a - 48 + 52));
          ret = ret OR (is_plus AND 62);
          ret = ret OR (is_slash AND 63);
          is_valid = is_upper OR is_lower OR is_digit OR is_plus OR is_slash OR is_equals
      in ret OR NOT is_valid)"

lemma ucast_u8_u64_eq_iff: "(ucast (a :: u8) :: u64) = ucast b \<longleftrightarrow> a = b"
proof -
  have "unat (ucast c :: u64) = unat c" for c :: u8 by simp
  then show ?thesis by (metis u8_eq_iff)
qed

lemma lt_args_8: "constant_time_lt_args_8 a b = (if a < b then - 1 else 0)"
proof -
  have u: "unat (ucast c :: u64) = unat c" for c :: u8 by simp
  have "unat (ucast a - ucast b :: u64) = (if unat b \<le> unat a then unat a - unat b else 2 ^ 64 + unat a - unat b)"
    using unat_eight_bit [of b] by (auto simp: unat_sub_if' u)
  then have "bit (ucast a - ucast b :: u64) 63 \<longleftrightarrow> unat a < unat b"
    using unat_eight_bit [of a] unat_eight_bit [of b] by (auto simp: bit_top_iff simp del: unat_eight_bit)
  then show ?thesis by (simp add: constant_time_lt_args_8_def msb_w word_less_nat_alt)
qed

lemma in_range_8:
  assumes "lo \<le> hi" "unat hi < 255"
  shows "constant_time_in_range_8 a lo hi = (if lo \<le> a \<and> a \<le> hi then - 1 else 0)"
proof -
  have "unat (hi - lo + 1) = unat hi - unat lo + 1"
    using assms by (simp add: unat_word_ariths unat_sub word_le_nat_alt)
  moreover have "unat (a - lo) = (if unat lo \<le> unat a then unat a - unat lo else 256 + unat a - unat lo)"
    using unat_eight_bit [of lo] by (auto simp: unat_sub_if')
  ultimately have "a - lo < hi - lo + 1 \<longleftrightarrow> lo \<le> a \<and> a \<le> hi"
    using assms unat_eight_bit [of hi] by (auto simp: word_less_nat_alt word_le_nat_alt)
  then show ?thesis by (simp add: constant_time_in_range_8_def lt_args_8)
qed

text \<open>The alphabet, as a function of the six bits.\<close>

definition alphabet :: "nat \<Rightarrow> nat" where
  "alphabet n = (if n < 26 then n + 65 else if n < 52 then n + 71 else if n < 62 then n - 4 else if n = 62 then 43 else 47)"

lemma u8_and_3f: "unat (a AND 0x3f :: u8) = unat a mod 64"
  using unat_and_eq_mod [of "0x3f" 6 a] by (simp add: mask_eq_exp_minus_1)

lemma conv_bin2ascii: "unat (conv_bin2ascii a) = alphabet (unat a mod 64)"
proof -
  define n where "n = a AND 0x3f"
  have n: "unat n = unat a mod 64" "unat n < 64" by (simp_all add: n_def u8_and_3f)
  have "constant_time_eq_8 (ucast n) 62 = (if n = 62 then - 1 else 0)"
    using ucast_u8_u64_eq_iff [of n 62] by (simp add: masks)
  then have "conv_bin2ascii a =
      (if n < 26 then n + 65 else if n < 52 then n - 26 + 97 else if n < 62 then n - 52 + 48 else if n = 62 then 43 else 47)"
    unfolding conv_bin2ascii_def Let_def n_def [symmetric] by (simp only: lt_args_8 ucast_mask_select)
  then show ?thesis
    using n by (auto simp: alphabet_def word_less_nat_alt unat_word_ariths unat_sub_if' u8_eq_iff)
qed

lemma ascii_to_bin:
  "base64_ascii_to_bin a =
     (if 65 \<le> a \<and> a \<le> 90 then a - 65 else if 97 \<le> a \<and> a \<le> 122 then a - 71 else if 48 \<le> a \<and> a \<le> 57 then a + 4
      else if a = 43 then 62 else if a = 47 then 63 else if a = 61 then 0 else 0xff)"
proof -
  have eq: "constant_time_eq_8 (ucast a) 43 = (if a = 43 then - 1 else 0)"
    "constant_time_eq_8 (ucast a) 47 = (if a = 47 then - 1 else 0)"
    "constant_time_eq_8 (ucast a) 61 = (if a = 61 then - 1 else 0)"
    using ucast_u8_u64_eq_iff [of a 43] ucast_u8_u64_eq_iff [of a 47] ucast_u8_u64_eq_iff [of a 61]
    by (simp_all add: masks)
  show ?thesis
    unfolding base64_ascii_to_bin_def Let_def
    by (simp add: in_range_8 eq) (auto simp: word_le_nat_alt)
qed
section \<open>Blocks\<close>

text \<open>The loop of \<open>EVP_EncodeBlock\<close>; \<open>dst\<close> is what has been written, \<open>ret\<close> the counter it returns.\<close>

fun encode_block_loop :: "bytes \<Rightarrow> bytes \<Rightarrow> nat \<Rightarrow> bytes \<times> nat" where
  "encode_block_loop [] dst ret = (dst, ret)"
| "encode_block_loop (s0 # s1 # s2 # src) dst ret =
     (let l = push_bit 16 (ucast s0 :: u32) OR push_bit 8 (ucast s1) OR ucast s2
      in encode_block_loop src
           (dst @ [conv_bin2ascii (ucast (drop_bit 18 l)), conv_bin2ascii (ucast (drop_bit 12 l)),
                   conv_bin2ascii (ucast (drop_bit 6 l)), conv_bin2ascii (ucast l)]) (ret + 4))"
| "encode_block_loop src dst ret =
     (let l = push_bit 16 (ucast (src ! 0) :: u32);
          l = (if length src = 2 then l OR push_bit 8 (ucast (src ! 1)) else l)
      in (dst @ [conv_bin2ascii (ucast (drop_bit 18 l)), conv_bin2ascii (ucast (drop_bit 12 l)),
                 if length src = 1 then 61 else conv_bin2ascii (ucast (drop_bit 6 l)), 61], ret + 4))"

definition EVP_EncodeBlock :: "bytes \<Rightarrow> bytes \<times> nat" where
  "EVP_EncodeBlock src = encode_block_loop src [] 0"

definition EVP_EncodedLength :: "u64 \<Rightarrow> u64 option" where
  "EVP_EncodedLength len =
     (if len + 2 < len then None
      else let len = (len + 2) div 3
           in if drop_bit 2 (push_bit 2 len) \<noteq> len then None
              else let len = push_bit 2 len in if len + 1 < len then None else Some (len + 1))"

definition EVP_DecodedLength :: "u64 \<Rightarrow> u64 option" where
  "EVP_DecodedLength len = (if len mod 4 \<noteq> 0 then None else Some (len div 4 * 3))"

text \<open>The result is the bytes written to \<open>out\<close>, so that \<open>*out_num_bytes\<close> is their number.\<close>

definition base64_decode_quad :: "bytes \<Rightarrow> bytes option" where
  "base64_decode_quad inp =
     (let a = base64_ascii_to_bin (inp ! 0); b = base64_ascii_to_bin (inp ! 1);
          c = base64_ascii_to_bin (inp ! 2); d = base64_ascii_to_bin (inp ! 3)
      in if a = 0xff \<or> b = 0xff \<or> c = 0xff \<or> d = 0xff then None
         else
           let v = push_bit 18 (ucast a :: u32) OR push_bit 12 (ucast b) OR push_bit 6 (ucast c) OR ucast d;
               padding_pattern = push_bit 3 (of_bool (inp ! 0 = 61) :: u32) OR push_bit 2 (of_bool (inp ! 1 = 61)) OR
                 push_bit 1 (of_bool (inp ! 2 = 61)) OR of_bool (inp ! 3 = 61)
           in if padding_pattern = 0 then Some [ucast (drop_bit 16 v), ucast (drop_bit 8 v), ucast v]
              else if padding_pattern = 1 then Some [ucast (drop_bit 16 v), ucast (drop_bit 8 v)]
              else if padding_pattern = 3 then Some [ucast (drop_bit 16 v)]
              else None)"

fun decode_base64_loop :: "bytes \<Rightarrow> bytes \<Rightarrow> bytes option" where
  "decode_base64_loop (i0 # i1 # i2 # i3 # inp) out =
     (case base64_decode_quad [i0, i1, i2, i3] of
        None \<Rightarrow> None
      | Some q \<Rightarrow> if length q \<noteq> 3 \<and> inp \<noteq> [] then None else decode_base64_loop inp (out @ q))"
| "decode_base64_loop _ out = Some out"

text \<open>The output buffer has room for \<open>max_out\<close> bytes. The result is the output, of which
  \<open>*out_len\<close> is the length.\<close>

definition EVP_DecodeBase64 :: "nat \<Rightarrow> bytes \<Rightarrow> bytes option" where
  "EVP_DecodeBase64 max_out inp =
     (if length inp mod 4 \<noteq> 0 then None
      else case EVP_DecodedLength (of_nat (length inp)) of
        None \<Rightarrow> None
      | Some max_len \<Rightarrow> if max_out < unat max_len then None else decode_base64_loop inp [])"

text \<open>The second loop of \<open>EVP_DecodeBlock\<close>: the length without trailing white space.\<close>

primrec trim_length :: "bytes \<Rightarrow> nat \<Rightarrow> nat" where
  "trim_length src 0 = 0"
| "trim_length src (Suc n) = (if src ! n \<in> {32, 9, 13, 10} then trim_length src n else Suc n)"

definition INT_MAX :: nat where "INT_MAX = 2 ^ 31 - 1"

text \<open>The result is \<open>dst\<close>, with the zeros that replace the padding; its length is returned.\<close>

definition EVP_DecodeBlock :: "bytes \<Rightarrow> bytes option" where
  "EVP_DecodeBlock src =
     (let src = dropWhile (\<lambda>c. c = 32 \<or> c = 9) src;
          src = take (trim_length src (length src)) src
      in case EVP_DecodedLength (of_nat (length src)) of
           None \<Rightarrow> None
         | Some dst_len \<Rightarrow>
             if unat dst_len > INT_MAX then None
             else map_option (\<lambda>dst. dst @ replicate ((3 - length dst mod 3) mod 3) 0)
                    (EVP_DecodeBase64 (unat dst_len) src))"

section \<open>The encoding of RFC 4648\<close>

definition digit :: "nat \<Rightarrow> u8" where
  "digit n = of_nat (alphabet n)"

fun base64 :: "bytes \<Rightarrow> bytes" where
  "base64 [] = []"
| "base64 [a] = [digit (unat a div 4), digit (unat a mod 4 * 16), 61, 61]"
| "base64 [a, b] = [digit (unat a div 4), digit (unat a mod 4 * 16 + unat b div 16), digit (unat b mod 16 * 4), 61]"
| "base64 (a # b # c # bs) =
     [digit (unat a div 4), digit (unat a mod 4 * 16 + unat b div 16), digit (unat b mod 16 * 4 + unat c div 64),
      digit (unat c mod 64)] @ base64 bs"

lemma alphabet_less [simp]: "alphabet n < 256" if "n < 64"
  using that by (auto simp: alphabet_def)

lemma unat_digit [simp]: "n < 64 \<Longrightarrow> unat (digit n) = alphabet n"
  by (simp add: digit_def)

lemma digit_not_equals [simp]: "n < 64 \<Longrightarrow> digit n \<noteq> 61"
  by (auto simp: u8_eq_iff alphabet_def)

lemma digit_not_space [simp]: "n < 64 \<Longrightarrow> digit n \<noteq> 32 \<and> digit n \<noteq> 9 \<and> digit n \<noteq> 13 \<and> digit n \<noteq> 10"
  by (auto simp: u8_eq_iff alphabet_def)

lemma ascii_to_bin_digit: "n < 64 \<Longrightarrow> unat (base64_ascii_to_bin (digit n)) = n"
  unfolding ascii_to_bin
  by (auto simp: word_le_nat_alt unat_sub_if' unat_word_ariths u8_eq_iff) (auto simp: alphabet_def split: if_splits)

lemma ascii_to_bin_digit_valid [simp]: "n < 64 \<Longrightarrow> base64_ascii_to_bin (digit n) \<noteq> 0xff"
  using ascii_to_bin_digit [of n] by (auto simp: u8_eq_iff)

lemma ascii_to_bin_equals [simp]: "base64_ascii_to_bin 61 = 0"
  by (simp add: ascii_to_bin word_le_nat_alt)

lemma unat_ucast_u32_u8: "unat (ucast (x :: u32) :: u8) = unat x mod 256"
  by (simp add: unsigned_ucast_eq take_bit_eq_mod)

lemma conv_shift: "conv_bin2ascii (ucast (drop_bit k (x :: u32))) = digit (unat x div 2 ^ k mod 64)"
  by (simp add: u8_eq_iff conv_bin2ascii unat_ucast_u32_u8 unat_drop_bit mod_mod_cancel)

lemma three_bytes: "unat (push_bit 16 (ucast (a :: u8) :: u32) OR push_bit 8 (ucast (b :: u8)) OR ucast (c :: u8)) =
   65536 * unat a + 256 * unat b + unat c"
proof -
  have "push_bit 16 (ucast a :: u32) OR push_bit 8 (ucast b) = push_bit 8 (push_bit 8 (ucast a) OR ucast b)"
    by (simp add: push_bit_or)
  moreover have inner: "unat (push_bit 8 (ucast a :: u32) OR ucast b) = 256 * unat a + unat b"
    using unat_push_or [of "ucast b :: u32" 8 "ucast a"] unat_eight_bit [of a] unat_eight_bit [of b]
    by (simp del: unat_eight_bit)
  moreover have "256 * unat (push_bit 8 (ucast a :: u32) OR ucast b) < 2 ^ 32"
    using unat_eight_bit [of a] unat_eight_bit [of b] unfolding inner by (simp del: unat_eight_bit)
  ultimately show ?thesis
    using unat_push_or [of "ucast c :: u32" 8 "push_bit 8 (ucast a) OR ucast b"] by (simp add: or.assoc)
qed
lemma bytes_to_digits:
  fixes a b c :: nat
  assumes "a < 256" "b < 256" "c < 256"
  shows "(65536 * a + 256 * b + c) div 262144 mod 64 = a div 4"
    "(65536 * a + 256 * b + c) div 4096 mod 64 = a mod 4 * 16 + b div 16"
    "(65536 * a + 256 * b + c) div 64 mod 64 = b mod 16 * 4 + c div 64"
    "(65536 * a + 256 * b + c) mod 64 = c mod 64"
proof -
  define a1 a0 b1 b0 c1 c0 where d: "a1 = a div 4" "a0 = a mod 4" "b1 = b div 16" "b0 = b mod 16" "c1 = c div 64" "c0 = c mod 64"
  have e: "a = 4 * a1 + a0" "b = 16 * b1 + b0" "c = 64 * c1 + c0" by (simp_all add: d)
  have r: "a0 < 4" "b0 < 16" "c0 < 64" "a1 < 64" "b1 < 16" "c1 < 4" using assms by (simp_all add: d less_mult_imp_div_less)
  have v: "65536 * a + 256 * b + c = 262144 * a1 + 65536 * a0 + 4096 * b1 + 256 * b0 + 64 * c1 + c0" by (simp add: e)
  have q: "(65536 * a + 256 * b + c) div 262144 = a1" "(65536 * a + 256 * b + c) div 4096 = 64 * a1 + (16 * a0 + b1)"
    "(65536 * a + 256 * b + c) div 64 = 64 * (64 * a1 + 16 * a0 + b1) + (4 * b0 + c1)"
    using r unfolding v by (auto intro!: div_nat_eqI)
  show "(65536 * a + 256 * b + c) div 262144 mod 64 = a div 4"
    unfolding q d [symmetric] using r by simp
  show "(65536 * a + 256 * b + c) div 4096 mod 64 = a mod 4 * 16 + b div 16"
    unfolding q d [symmetric] mod_mult_self4 using r by simp
  show "(65536 * a + 256 * b + c) div 64 mod 64 = b mod 16 * 4 + c div 64"
    unfolding q d [symmetric] mod_mult_self4 using r by simp
  have "65536 * a + 256 * b + c = 64 * (1024 * a + 4 * b) + c" by simp
  then show "(65536 * a + 256 * b + c) mod 64 = c mod 64" by (metis mod_mult_self4)
qed

lemma quad_chars:
  assumes "unat l = 65536 * unat a + 256 * unat b + unat c"
  shows "conv_bin2ascii (ucast (drop_bit 18 (l :: u32))) = digit (unat (a :: u8) div 4)"
    "conv_bin2ascii (ucast (drop_bit 12 l)) = digit (unat a mod 4 * 16 + unat (b :: u8) div 16)"
    "conv_bin2ascii (ucast (drop_bit 6 l)) = digit (unat b mod 16 * 4 + unat (c :: u8) div 64)"
    "conv_bin2ascii (ucast l) = digit (unat c mod 64)"
proof -
  note v = bytes_to_digits [OF unat_eight_bit unat_eight_bit unat_eight_bit, of a b c]
  have p: "(2 :: nat) ^ 18 = 262144" "(2 :: nat) ^ 12 = 4096" "(2 :: nat) ^ 6 = 64" by simp_all
  show "conv_bin2ascii (ucast (drop_bit 18 (l :: u32))) = digit (unat (a :: u8) div 4)"
    "conv_bin2ascii (ucast (drop_bit 12 l)) = digit (unat a mod 4 * 16 + unat (b :: u8) div 16)"
    "conv_bin2ascii (ucast (drop_bit 6 l)) = digit (unat b mod 16 * 4 + unat (c :: u8) div 64)"
    unfolding conv_shift assms p v by (rule refl)+
  show "conv_bin2ascii (ucast l) = digit (unat c mod 64)"
    using conv_shift [of 0 l] unfolding drop_bit_0 id_apply power_0 div_by_1 assms v .
qed

lemma encode_block_loop: "encode_block_loop src dst ret = (dst @ base64 src, ret + length (base64 src))"
proof (induction src dst ret rule: encode_block_loop.induct, goal_cases)
  case (2 s0 s1 s2 src dst ret)
  show ?case
    unfolding encode_block_loop.simps Let_def quad_chars [OF three_bytes] 2 [OF refl, unfolded quad_chars [OF three_bytes]]
    by simp
next
  case (3 a dst ret)
  have l: "unat (push_bit 16 (ucast a :: u32)) = 65536 * unat a + 256 * unat (0 :: u8) + unat (0 :: u8)"
    using three_bytes [of a 0 0] by simp
  show ?case by (simp add: Let_def quad_chars [OF l])
next
  case (4 a b dst ret)
  have l: "unat (push_bit 16 (ucast a :: u32) OR push_bit 8 (ucast b)) = 65536 * unat a + 256 * unat b + unat (0 :: u8)"
    using three_bytes [of a b 0] by simp
  show ?case by (simp add: Let_def quad_chars [OF l] del: drop_bit_or)
qed simp

lemma encode_block [simp]: "EVP_EncodeBlock src = (base64 src, length (base64 src))"
  by (simp add: EVP_EncodeBlock_def encode_block_loop)

lemma length_base64 [simp]: "length (base64 bs) = 4 * ((length bs + 2) div 3)"
proof (induction bs rule: base64.induct)
  case (4 a b c bs)
  have "(length (a # b # c # bs) + 2) div 3 = (length bs + 2) div 3 + 1" by simp
  with 4 show ?case by simp
qed simp_all

lemma base64_append: "length xs mod 3 = 0 \<Longrightarrow> base64 (xs @ ys) = base64 xs @ base64 ys"
  by (induction xs rule: base64.induct) auto

text \<open>A quad of digits, and the numbers it carries.\<close>

lemma quad_value:
  assumes "a < 64" "b < 64" "c < 64" "d < 64"
  shows "unat (push_bit 18 (ucast (of_nat a :: u8) :: u32) OR push_bit 12 (ucast (of_nat b :: u8)) OR
    push_bit 6 (ucast (of_nat c :: u8)) OR ucast (of_nat d :: u8)) = 262144 * a + 4096 * b + 64 * c + d"
proof -
  let ?a = "ucast (of_nat a :: u8) :: u32" and ?b = "ucast (of_nat b :: u8) :: u32"
    and ?c = "ucast (of_nat c :: u8) :: u32" and ?d = "ucast (of_nat d :: u8) :: u32"
  have u: "unat ?a = a" "unat ?b = b" "unat ?c = c" "unat ?d = d" using assms by simp_all
  have fold: "push_bit 18 ?a OR push_bit 12 ?b OR push_bit 6 ?c OR ?d =
      push_bit 6 (push_bit 6 (push_bit 6 ?a OR ?b) OR ?c) OR ?d"
    by (simp add: push_bit_or or.assoc)
  have 1: "unat (push_bit 6 ?a OR ?b) = 64 * a + b"
    using unat_push_or [of ?b 6 ?a] assms unfolding u by simp
  have 2: "unat (push_bit 6 (push_bit 6 ?a OR ?b) OR ?c) = 4096 * a + 64 * b + c"
    using unat_push_or [of ?c 6 "push_bit 6 ?a OR ?b"] assms unfolding u 1 by simp
  show ?thesis
    using unat_push_or [of ?d 6 "push_bit 6 (push_bit 6 ?a OR ?b) OR ?c"] assms unfolding u 2 fold by simp
qed

lemma ascii_to_bin_digit_word: "n < 64 \<Longrightarrow> base64_ascii_to_bin (digit n) = of_nat n"
  by (simp add: u8_eq_iff ascii_to_bin_digit)

lemma ucast_drop_quad:
  fixes a b c d :: nat
  assumes "a < 64" "b < 64" "c < 64" "d < 64" "unat (v :: u32) = 262144 * a + 4096 * b + 64 * c + d"
  shows "ucast (drop_bit 16 v) = (of_nat (4 * a + b div 16) :: u8)"
    "ucast (drop_bit 8 v) = (of_nat (16 * b + c div 4) :: u8)"
    "ucast v = (of_nat (64 * c + d) :: u8)"
proof -
  define b1 b0 c1 c0 where d: "b1 = b div 16" "b0 = b mod 16" "c1 = c div 4" "c0 = c mod 4"
  have e: "b = 16 * b1 + b0" "c = 4 * c1 + c0" by (simp_all add: d)
  have r: "b0 < 16" "c0 < 4" "b1 < 4" "c1 < 16" using assms by (simp_all add: d less_mult_imp_div_less)
  have v: "262144 * a + 4096 * b + 64 * c + d = 262144 * a + 65536 * b1 + 4096 * b0 + 256 * c1 + 64 * c0 + d"
    by (simp add: e)
  have "(262144 * a + 4096 * b + 64 * c + d) div 65536 = 4 * a + b1"
    "(262144 * a + 4096 * b + 64 * c + d) div 256 = 1024 * a + 256 * b1 + (16 * b0 + c1)"
    using r assms(4) unfolding v by (auto intro!: div_nat_eqI)
  moreover have "(1024 * a + 256 * b1 + (16 * b0 + c1)) mod 256 = (16 * b + c1) mod 256"
  proof -
    have "1024 * a + 256 * b1 + (16 * b0 + c1) = 256 * (4 * a + b1) + (16 * b0 + c1)"
      "16 * b + c1 = 256 * b1 + (16 * b0 + c1)" by (simp_all add: e)
    then show ?thesis by (simp only: mod_mult_self4)
  qed
  ultimately show "ucast (drop_bit 16 v) = (of_nat (4 * a + b div 16) :: u8)"
    "ucast (drop_bit 8 v) = (of_nat (16 * b + c div 4) :: u8)"
    unfolding d [symmetric]
    by (simp_all only: u8_eq_iff unat_ucast_u32_u8 unat_drop_bit assms(5) unat_of_nat_u8) simp_all
  have "262144 * a + 4096 * b + 64 * c + d = 256 * (1024 * a + 16 * b) + (64 * c + d)" by simp
  then show "ucast v = (of_nat (64 * c + d) :: u8)"
    by (simp only: u8_eq_iff unat_ucast_u32_u8 assms(5) unat_of_nat_u8 mod_mult_self4)
qed
lemma decode_quad:
  assumes lt: "a < 64" "b < 64" "c < 64" "d < 64"
    and bin: "base64_ascii_to_bin i0 = of_nat a" "base64_ascii_to_bin i1 = of_nat b"
      "base64_ascii_to_bin i2 = of_nat c" "base64_ascii_to_bin i3 = of_nat d"
  shows "base64_decode_quad [i0, i1, i2, i3] =
    (if i0 = 61 \<or> i1 = 61 \<or> i2 = 61 \<and> i3 \<noteq> 61 then None
     else Some (take (if i3 \<noteq> 61 then 3 else if i2 \<noteq> 61 then 2 else 1)
       [of_nat (4 * a + b div 16), of_nat (16 * b + c div 4), of_nat (64 * c + d)]))"
proof -
  have valid: "of_nat n \<noteq> (0xff :: u8)" if "n < 64" for n
    using that by (simp add: u8_eq_iff)
  have i: "[i0, i1, i2, i3] ! 0 = i0" "[i0, i1, i2, i3] ! 1 = i1" "[i0, i1, i2, i3] ! 2 = i2" "[i0, i1, i2, i3] ! 3 = i3"
    by simp_all
  show ?thesis
    unfolding base64_decode_quad_def Let_def i bin ucast_drop_quad [OF lt quad_value [OF lt]]
    by (cases "i0 = 61"; cases "i1 = 61"; cases "i2 = 61"; cases "i3 = 61")
      (simp_all add: valid lt del: of_nat_add of_nat_mult of_nat_numeral)
qed

lemma decode_quad_digits:
  assumes "a < 64" "b < 64" "c < 64" "d < 64"
  shows "base64_decode_quad [digit a, digit b, digit c, digit d] =
      Some [of_nat (4 * a + b div 16), of_nat (16 * b + c div 4), of_nat (64 * c + d)]"
    "base64_decode_quad [digit a, digit b, digit c, 61] = Some [of_nat (4 * a + b div 16), of_nat (16 * b + c div 4)]"
    "base64_decode_quad [digit a, digit b, 61, 61] = Some [of_nat (4 * a + b div 16)]"
proof -
  note bin = ascii_to_bin_digit_word
  have eq: "base64_ascii_to_bin 61 = of_nat 0" by simp
  show "base64_decode_quad [digit a, digit b, digit c, digit d] =
      Some [of_nat (4 * a + b div 16), of_nat (16 * b + c div 4), of_nat (64 * c + d)]"
    unfolding decode_quad [OF assms bin [OF assms(1)] bin [OF assms(2)] bin [OF assms(3)] bin [OF assms(4)]]
    using assms by (simp del: of_nat_add of_nat_mult)
  show "base64_decode_quad [digit a, digit b, digit c, 61] = Some [of_nat (4 * a + b div 16), of_nat (16 * b + c div 4)]"
    unfolding decode_quad [OF assms(1-3) zero_less_numeral bin [OF assms(1)] bin [OF assms(2)] bin [OF assms(3)] eq]
    using assms by (simp del: of_nat_add of_nat_mult)
  show "base64_decode_quad [digit a, digit b, 61, 61] = Some [of_nat (4 * a + b div 16)]"
    unfolding decode_quad [OF assms(1-2) zero_less_numeral zero_less_numeral bin [OF assms(1)] bin [OF assms(2)] eq eq]
    using assms by (simp del: of_nat_add of_nat_mult)
qed

text \<open>Three bytes survive being cut into four digits.\<close>

lemma digits_to_bytes:
  "of_nat (4 * (unat a div 4) + unat a mod 4 * 16 div 16) = (a :: u8)"
  "of_nat (4 * (unat a div 4) + (unat a mod 4 * 16 + unat b div 16) div 16) = (a :: u8)"
  "of_nat (16 * (unat a mod 4 * 16 + unat b div 16) + unat b mod 16 * 4 div 4) = (b :: u8)"
  "of_nat (16 * (unat a mod 4 * 16 + unat b div 16) + (unat b mod 16 * 4 + unat c div 64) div 4) = (b :: u8)"
  "of_nat (64 * (unat b mod 16 * 4 + unat c div 64) + unat c mod 64) = (c :: u8)"
proof -
  have b: "unat b div 16 < 16" and c: "unat c div 64 < 4"
    using unat_eight_bit [of b] unat_eight_bit [of c] by (simp_all add: less_mult_imp_div_less del: unat_eight_bit)
  have 1: "(unat a mod 4 * 16 + unat b div 16) div 16 = unat a mod 4" "unat a mod 4 * 16 div 16 = unat a mod 4"
    "unat b mod 16 * 4 div 4 = unat b mod 16" "(unat b mod 16 * 4 + unat c div 64) div 4 = unat b mod 16"
    using b c by simp_all
  have 2: "16 * (unat a mod 4 * 16 + unat b div 16) + unat b mod 16 = 256 * (unat a mod 4) + unat b"
    "64 * (unat b mod 16 * 4 + unat c div 64) + unat c mod 64 = 256 * (unat b mod 16) + unat c"
    by simp_all
  have 3: "(of_nat (256 * k + unat d) :: u8) = d" for k d
    by (simp only: u8_eq_iff unat_of_nat_u8 mod_mult_self4) simp
  show "of_nat (4 * (unat a div 4) + unat a mod 4 * 16 div 16) = a"
    "of_nat (4 * (unat a div 4) + (unat a mod 4 * 16 + unat b div 16) div 16) = a"
    "of_nat (16 * (unat a mod 4 * 16 + unat b div 16) + unat b mod 16 * 4 div 4) = b"
    "of_nat (16 * (unat a mod 4 * 16 + unat b div 16) + (unat b mod 16 * 4 + unat c div 64) div 4) = b"
    "of_nat (64 * (unat b mod 16 * 4 + unat c div 64) + unat c mod 64) = c"
    unfolding 1 2 3 mult_div_mod_eq by (simp_all only: of_nat_unat ucast_id refl)
qed

lemma digit_bounds [simp]:
  "unat (a :: u8) div 4 < 64" "unat a mod 4 * 16 < 64" "unat a mod 4 * 16 + unat (b :: u8) div 16 < 64"
  "unat b mod 16 * 4 < 64" "unat b mod 16 * 4 + unat (c :: u8) div 64 < 64"
proof -
  have "unat a div 4 < 64" "unat b div 16 < 16" "unat c div 64 < 4" "unat a mod 4 < 4" "unat b mod 16 < 16"
    using unat_eight_bit [of a] unat_eight_bit [of b] unat_eight_bit [of c]
    by (simp_all add: less_mult_imp_div_less del: unat_eight_bit)
  then show "unat (a :: u8) div 4 < 64" "unat a mod 4 * 16 < 64" "unat a mod 4 * 16 + unat (b :: u8) div 16 < 64"
    "unat b mod 16 * 4 < 64" "unat b mod 16 * 4 + unat (c :: u8) div 64 < 64" by linarith+
qed

lemma decode_quad_base64:
  "base64_decode_quad (base64 [a]) = Some [a]"
  "base64_decode_quad (base64 [a, b]) = Some [a, b]"
  "base64_decode_quad (base64 [a, b, c]) = Some [a, b, c]"
  by (simp_all only: base64.simps append_Nil2 decode_quad_digits(1) [OF digit_bounds(1,3,5) mod_less_divisor [OF zero_less_numeral]]
      decode_quad_digits(2) [OF digit_bounds(1,3,4) zero_less_numeral]
      decode_quad_digits(3) [OF digit_bounds(1,2) zero_less_numeral zero_less_numeral] digits_to_bytes)

lemma decode_base64_loop: "decode_base64_loop (base64 bs) out = Some (out @ bs)"
proof (induction bs arbitrary: out rule: base64.induct)
  case (2 a)
  then show ?case using decode_quad_base64(1) [of a] by (simp del: decode_quad_base64)
next
  case (3 a b)
  then show ?case using decode_quad_base64(2) [of a b] by simp
next
  case (4 a b c bs)
  then show ?case using decode_quad_base64(3) [of a b c] by simp
qed simp
section \<open>Streams\<close>

record evp_encode_ctx =
  data_used :: nat
  ctx_data :: bytes
  eof_seen :: bool
  error_encountered :: bool

definition EVP_EncodeInit :: evp_encode_ctx where
  "EVP_EncodeInit = \<lparr>data_used = 0, ctx_data = replicate 48 0, eof_seen = False, error_encountered = False\<rparr>"

definition EVP_DecodeInit :: evp_encode_ctx where
  "EVP_DecodeInit = \<lparr>data_used = 0, ctx_data = replicate 48 0, eof_seen = False, error_encountered = False\<rparr>"

text \<open>\<open>OPENSSL_memcpy\<close> to \<open>ctx->data\<close> at an offset.\<close>

definition ctx_copy :: "nat \<Rightarrow> bytes \<Rightarrow> evp_encode_ctx \<Rightarrow> evp_encode_ctx" where
  "ctx_copy i bs ctx = ctx\<lparr>ctx_data := take i (ctx_data ctx) @ bs @ drop (i + length bs) (ctx_data ctx)\<rparr>"

text \<open>The loop of \<open>EVP_EncodeUpdate\<close> over whole lines. The result has \<open>None\<close> for the counter when
  it overflows, and the input that is left.\<close>

function encode_update_loop :: "bytes \<Rightarrow> bytes \<Rightarrow> nat \<Rightarrow> nat option \<times> bytes \<times> bytes" where
  "encode_update_loop inp out tot =
     (if length inp \<ge> 48 then
        case EVP_EncodeBlock (take 48 inp) of (text, encoded) \<Rightarrow>
          let inp = drop 48 inp; out = out @ text @ [10]
          in if (tot + encoded + 1) mod 2 ^ 64 < tot then (None, inp, out)
             else encode_update_loop inp out ((tot + encoded + 1) mod 2 ^ 64)
      else (Some tot, inp, out))"
  by pat_completeness auto
termination
  by (relation "measure (\<lambda>(inp, out, tot). length inp)") auto

declare encode_update_loop.simps [simp del]

text \<open>The results are the new context, the output and \<open>*out_len\<close>.\<close>

definition EVP_EncodeUpdate :: "evp_encode_ctx \<Rightarrow> bytes \<Rightarrow> evp_encode_ctx \<times> bytes \<times> nat" where
  "EVP_EncodeUpdate ctx inp =
     (if length inp = 0 then (ctx, [], 0)
      else if 48 - data_used ctx > length inp then
        ((ctx_copy (data_used ctx) inp ctx)\<lparr>data_used := data_used ctx + length inp\<rparr>, [], 0)
      else
        let (ctx, inp, out, tot) =
          (if data_used ctx \<noteq> 0 then
             let todo = 48 - data_used ctx;
                 ctx = ctx_copy (data_used ctx) (take todo inp) ctx;
                 (text, encoded) = EVP_EncodeBlock (ctx_data ctx)
             in (ctx\<lparr>data_used := 0\<rparr>, drop todo inp, text @ [10], encoded + 1)
           else (ctx, inp, [], 0))
        in case encode_update_loop inp out tot of
             (None, _, out) \<Rightarrow> (ctx, out, 0)
           | (Some tot, inp, out) \<Rightarrow>
               let ctx = (if length inp \<noteq> 0 then ctx_copy 0 inp ctx else ctx)
               in (ctx\<lparr>data_used := length inp\<rparr>, out, if tot > INT_MAX then 0 else tot))"

definition EVP_EncodeFinal :: "evp_encode_ctx \<Rightarrow> evp_encode_ctx \<times> bytes \<times> nat" where
  "EVP_EncodeFinal ctx =
     (if data_used ctx = 0 then (ctx, [], 0)
      else case EVP_EncodeBlock (take (data_used ctx) (ctx_data ctx)) of (text, encoded) \<Rightarrow>
        (ctx\<lparr>data_used := 0\<rparr>, text @ [10], encoded + 1))"

text \<open>The body of the loop of \<open>EVP_DecodeUpdate\<close> for one character: \<open>False\<close> if it returns with an
  error, the context, and the bytes written to \<open>out\<close>.\<close>

definition decode_char :: "u8 \<Rightarrow> evp_encode_ctx \<Rightarrow> bool \<times> evp_encode_ctx \<times> bytes" where
  "decode_char c ctx =
     (if c \<in> {32, 9, 13, 10} then (True, ctx, [])
      else if eof_seen ctx then (False, ctx\<lparr>error_encountered := True\<rparr>, [])
      else
        let ctx = ctx\<lparr>ctx_data := (ctx_data ctx)[data_used ctx := c], data_used := data_used ctx + 1\<rparr>
        in if data_used ctx = 4 then
             case base64_decode_quad (take 4 (ctx_data ctx)) of
               None \<Rightarrow> (False, ctx\<lparr>error_encountered := True\<rparr>, [])
             | Some q \<Rightarrow>
                 let ctx = ctx\<lparr>data_used := 0\<rparr>
                 in (True, if length q < 3 then ctx\<lparr>eof_seen := True\<rparr> else ctx, q)
           else (True, ctx, []))"

text \<open>\<open>out\<close> is what has been written; \<open>bytes_out\<close> is its length.\<close>

primrec decode_update_loop :: "bytes \<Rightarrow> evp_encode_ctx \<Rightarrow> bytes \<Rightarrow> bool \<times> evp_encode_ctx \<times> bytes" where
  "decode_update_loop [] ctx out = (True, ctx, out)"
| "decode_update_loop (c # inp) ctx out =
     (case decode_char c ctx of
        (False, ctx, w) \<Rightarrow> (False, ctx, out @ w)
      | (True, ctx, w) \<Rightarrow> decode_update_loop inp ctx (out @ w))"

text \<open>The results are the return value, the new context, what was written to \<open>out\<close>, and
  \<open>*out_len\<close>.\<close>

definition EVP_DecodeUpdate :: "evp_encode_ctx \<Rightarrow> bytes \<Rightarrow> int \<times> evp_encode_ctx \<times> bytes \<times> nat" where
  "EVP_DecodeUpdate ctx inp =
     (if error_encountered ctx then (- 1, ctx, [], 0)
      else case decode_update_loop inp ctx [] of
        (False, ctx, out) \<Rightarrow> (- 1, ctx, out, 0)
      | (True, ctx, out) \<Rightarrow>
          if length out > INT_MAX then (- 1, ctx\<lparr>error_encountered := True\<rparr>, out, 0)
          else (if eof_seen ctx then 0 else 1, ctx, out, length out))"

definition EVP_DecodeFinal :: "evp_encode_ctx \<Rightarrow> int" where
  "EVP_DecodeFinal ctx = (if error_encountered ctx \<or> data_used ctx \<noteq> 0 then - 1 else 1)"

section \<open>What the streams produce\<close>

text \<open>The encoder's input that has not been written yet.\<close>

definition pending :: "evp_encode_ctx \<Rightarrow> bytes" where
  "pending ctx = take (data_used ctx) (ctx_data ctx)"

definition encoder_ok :: "evp_encode_ctx \<Rightarrow> bool" where
  "encoder_ok ctx \<longleftrightarrow> length (ctx_data ctx) = 48 \<and> data_used ctx < 48"

definition decoder_ok :: "evp_encode_ctx \<Rightarrow> bool" where
  "decoder_ok ctx \<longleftrightarrow> length (ctx_data ctx) = 48 \<and>
     (data_used ctx < 4 \<or> data_used ctx = 4 \<and> error_encountered ctx)"

text \<open>The whole lines of an input, and what is left for the last, shorter line.\<close>

function full_lines :: "bytes \<Rightarrow> bytes" where
  "full_lines bs = (if length bs \<ge> 48 then base64 (take 48 bs) @ [10] @ full_lines (drop 48 bs) else [])"
  by pat_completeness auto
termination by (relation "measure length") auto

declare full_lines.simps [simp del]

definition last_line :: "bytes \<Rightarrow> bytes" where
  "last_line bs = drop (length bs - length bs mod 48) bs"

definition lines :: "bytes \<Rightarrow> bytes" where
  "lines bs = full_lines bs @ (if last_line bs = [] then [] else base64 (last_line bs) @ [10])"
lemma encoder_init: "encoder_ok EVP_EncodeInit \<and> pending EVP_EncodeInit = [] \<and> decoder_ok EVP_DecodeInit"
  by (simp add: encoder_ok_def pending_def EVP_EncodeInit_def decoder_ok_def EVP_DecodeInit_def)

lemma full_lines_short [simp]: "length bs < 48 \<Longrightarrow> full_lines bs = []"
  by (subst full_lines.simps) simp

lemma last_line_short [simp]: "length bs < 48 \<Longrightarrow> last_line bs = bs"
  by (simp add: last_line_def)

lemma full_lines_Cons_line: "length l = 48 \<Longrightarrow> full_lines (l @ bs) = base64 l @ [10] @ full_lines bs"
  by (subst full_lines.simps) simp

lemma last_line_Cons_line: "length l = 48 \<Longrightarrow> last_line (l @ bs) = last_line bs"
  using mod_less_eq_dividend [of "length bs" 48] by (simp add: last_line_def)

lemma length_full_lines: "length (full_lines bs) = 65 * (length bs div 48)"
proof (induction bs rule: full_lines.induct)
  case (1 bs)
  then show ?case
    by (cases "48 \<le> length bs") (simp_all add: full_lines.simps [of bs] le_div_geq)
qed

lemma encode_update_loop:
  "tot + 65 * (length inp div 48) < 2 ^ 64 \<Longrightarrow>
   encode_update_loop inp out tot = (Some (tot + 65 * (length inp div 48)), last_line inp, out @ full_lines inp)"
proof (induction inp out tot rule: encode_update_loop.induct)
  case (1 inp out tot)
  show ?case
  proof (cases "48 \<le> length inp")
    case True
    then obtain l rest where inp: "inp = l @ rest" "length l = 48"
      by (metis append_take_drop_id length_take min.absorb2)
    have div: "length inp div 48 = Suc (length rest div 48)" by (simp add: inp le_div_geq)
    have "(tot + length (base64 l) + 1) mod 2 ^ 64 = tot + 65" using 1(2) by (simp add: inp(2) div)
    with 1(1) [OF True, of "base64 (take 48 inp)" 64] 1(2) True show ?thesis
      by (subst encode_update_loop.simps)
        (simp add: inp div [unfolded inp(1), simplified, unfolded inp(2)] full_lines_Cons_line last_line_Cons_line Let_def)
  next
    case False
    then show ?thesis by (subst encode_update_loop.simps) simp
  qed
qed

lemma ctx_copy_simps [simp]:
  "data_used (ctx_copy i bs ctx) = data_used ctx"
  "i + length bs \<le> length (ctx_data ctx) \<Longrightarrow> length (ctx_data (ctx_copy i bs ctx)) = length (ctx_data ctx)"
  "i \<le> length (ctx_data ctx) \<Longrightarrow> take (i + length bs) (ctx_data (ctx_copy i bs ctx)) = take i (ctx_data ctx) @ bs"
  "length bs \<le> length (ctx_data ctx) \<Longrightarrow> length (ctx_data (ctx_copy 0 bs ctx)) = length (ctx_data ctx)"
  "take (length bs) (ctx_data (ctx_copy 0 bs ctx)) = bs"
  by (auto simp: ctx_copy_def min_def)

text \<open>Each update writes the lines that the pending and the new input complete.\<close>

lemma encode_update:
  assumes ok: "encoder_ok ctx" and bound: "length (pending ctx @ inp) < 2 ^ 63"
    and run: "EVP_EncodeUpdate ctx inp = (ctx', out, n)"
  shows "encoder_ok ctx' \<and> pending ctx' = last_line (pending ctx @ inp) \<and> out = full_lines (pending ctx @ inp) \<and>
    n = (if length out > INT_MAX then 0 else length out)"
proof (cases "inp = [] \<or> data_used ctx + length inp < 48")
  case True
  then show ?thesis using ok run
    by (auto simp: EVP_EncodeUpdate_def encoder_ok_def pending_def split: if_splits)
next
  case False
  define todo where "todo = 48 - data_used ctx"
  define l rest where "l = pending ctx @ take todo inp" and "rest = drop todo inp"
  have todo: "todo \<le> length inp" "inp \<noteq> []" using False by (auto simp: todo_def)
  have split: "pending ctx @ inp = l @ rest" by (simp add: l_def rest_def)
  have used: "data_used ctx < 48" "length (ctx_data ctx) = 48" using ok by (simp_all add: encoder_ok_def)
  show ?thesis
  proof (cases "data_used ctx = 0")
    case True
    then have p: "pending ctx = []" by (simp add: pending_def)
    have "encode_update_loop inp [] 0 = (Some (65 * (length inp div 48)), last_line inp, full_lines inp)"
      using encode_update_loop [of 0 inp "[]"] bound p by simp
    moreover have "length (last_line inp) < 48" by (simp add: last_line_def)
    ultimately show ?thesis
      using run False True used todo(2) p
      by (auto simp: EVP_EncodeUpdate_def encoder_ok_def pending_def length_full_lines split: if_splits)
  next
    case pos: False
    have l: "length l = 48" using used todo by (simp add: l_def pending_def todo_def)
    define ctx1 where "ctx1 = ctx_copy (data_used ctx) (take todo inp) ctx"
    have data: "ctx_data ctx1 = l"
      using used todo by (simp add: ctx1_def ctx_copy_def l_def pending_def todo_def)
    have div: "length (l @ rest) div 48 = Suc (length rest div 48)" by (simp add: l le_div_geq)
    have loop: "encode_update_loop rest (base64 l @ [10]) 65 =
        (Some (65 + 65 * (length rest div 48)), last_line rest, base64 l @ [10] @ full_lines rest)"
      using encode_update_loop [of 65 rest "base64 l @ [10]"] bound div unfolding split by simp
    have "length (last_line rest) < 48" by (simp add: last_line_def)
    then show ?thesis
      using run False pos used todo data loop l unfolding split EVP_EncodeUpdate_def
      by (auto simp: Let_def todo_def [symmetric] rest_def [symmetric] ctx1_def [symmetric] encoder_ok_def pending_def
          full_lines_Cons_line last_line_Cons_line length_full_lines split: if_splits)
  qed
qed
lemma lines_append:
  "full_lines (xs @ ys) = full_lines xs @ full_lines (last_line xs @ ys) \<and> last_line (xs @ ys) = last_line (last_line xs @ ys)"
proof (induction xs rule: full_lines.induct)
  case (1 xs)
  show ?case
  proof (cases "48 \<le> length xs")
    case True
    then obtain l rest where xs: "xs = l @ rest" "length l = 48"
      by (metis append_take_drop_id length_take min.absorb2)
    with 1 show ?thesis by (simp add: full_lines_Cons_line last_line_Cons_line)
  qed simp
qed

lemma last_line_last_line [simp]: "last_line (last_line xs) = last_line xs" "full_lines (last_line xs) = []"
  by (simp_all add: last_line_def)

text \<open>A sequence of updates, and the whole stream from \<open>EVP_EncodeInit\<close> to \<open>EVP_EncodeFinal\<close>.\<close>

primrec encode_chunks :: "evp_encode_ctx \<Rightarrow> bytes list \<Rightarrow> evp_encode_ctx \<times> bytes" where
  "encode_chunks ctx [] = (ctx, [])"
| "encode_chunks ctx (c # cs) =
     (case EVP_EncodeUpdate ctx c of (ctx, out, _) \<Rightarrow>
       (case encode_chunks ctx cs of (ctx, rest) \<Rightarrow> (ctx, out @ rest)))"

definition encode_stream :: "bytes list \<Rightarrow> bytes" where
  "encode_stream chunks =
     (case encode_chunks EVP_EncodeInit chunks of (ctx, out) \<Rightarrow>
       (case EVP_EncodeFinal ctx of (_, rest, _) \<Rightarrow> out @ rest))"

lemma length_last_line: "length (last_line xs) \<le> length xs"
  by (simp add: last_line_def)

lemma encode_chunks:
  "encoder_ok ctx \<Longrightarrow> length (pending ctx @ concat cs) < 2 ^ 63 \<Longrightarrow> encode_chunks ctx cs = (ctx', out) \<Longrightarrow>
     encoder_ok ctx' \<and> pending ctx' = last_line (pending ctx @ concat cs) \<and> out = full_lines (pending ctx @ concat cs)"
proof (induction cs arbitrary: ctx ctx' out)
  case Nil
  then have "length (pending ctx) < 48" by (simp add: encoder_ok_def pending_def)
  with Nil show ?case by simp
next
  case (Cons c cs)
  obtain ctx1 out1 n where 1: "EVP_EncodeUpdate ctx c = (ctx1, out1, n)" by (metis prod_cases3)
  obtain rest where 2: "encode_chunks ctx1 cs = (ctx', rest)" "out = out1 @ rest"
    using Cons.prems 1 by (auto split: prod.splits)
  have up: "encoder_ok ctx1" "pending ctx1 = last_line (pending ctx @ c)" "out1 = full_lines (pending ctx @ c)"
    using encode_update [OF Cons.prems(1) _ 1] Cons.prems(2) by simp_all
  moreover have "length (pending ctx1 @ concat cs) < 2 ^ 63"
    using Cons.prems(2) length_last_line [of "pending ctx @ c"] up(2) by simp
  ultimately show ?case
    using Cons.IH [OF _ _ 2(1)] 2(2) lines_append [of "pending ctx @ c" "concat cs"] by simp
qed

lemma encode_stream_lines: "length (concat chunks) < 2 ^ 63 \<Longrightarrow> encode_stream chunks = lines (concat chunks)"
proof -
  assume b: "length (concat chunks) < 2 ^ 63"
  obtain ctx out where run: "encode_chunks EVP_EncodeInit chunks = (ctx, out)" by fastforce
  with encode_chunks [OF _ _ run] encoder_init b
  have s: "encoder_ok ctx" "pending ctx = last_line (concat chunks)" "out = full_lines (concat chunks)" by simp_all
  then have "data_used ctx = 0 \<longleftrightarrow> last_line (concat chunks) = []" by (auto simp: pending_def encoder_ok_def)
  with run s show ?thesis
    by (simp add: encode_stream_def lines_def EVP_EncodeFinal_def pending_def split: if_splits)
qed

section \<open>Decoding streams\<close>

lemma decode_update_append:
  "decode_update_loop (xs @ ys) ctx out =
     (case decode_update_loop xs ctx out of
        (True, ctx, out) \<Rightarrow> decode_update_loop ys ctx out
      | (False, ctx, out) \<Rightarrow> (False, ctx, out))"
  by (induction xs arbitrary: ctx out) (auto split: bool.splits prod.splits)

lemma decode_update_out:
  "decode_update_loop xs ctx out = (case decode_update_loop xs ctx [] of (r, ctx, w) \<Rightarrow> (r, ctx, out @ w))"
proof (induction xs arbitrary: ctx out)
  case (Cons c xs)
  obtain r ctx1 w where "decode_char c ctx = (r, ctx1, w)" by (metis prod_cases3)
  then show ?case
    using Cons.IH [of ctx1 "out @ w"] Cons.IH [of ctx1 w] by (auto split: bool.splits prod.splits)
qed simp

lemma decode_char_ok:
  "decoder_ok ctx \<Longrightarrow> data_used ctx < 4 \<Longrightarrow> decode_char c ctx = (r, ctx', w) \<Longrightarrow>
     decoder_ok ctx' \<and> (r \<longrightarrow> data_used ctx' < 4 \<and> error_encountered ctx' = error_encountered ctx) \<and> (\<not> r \<longrightarrow> error_encountered ctx')"
  by (auto simp: decode_char_def Let_def decoder_ok_def split: if_splits option.splits)

lemma decode_update_loop_ok:
  "decoder_ok ctx \<Longrightarrow> data_used ctx < 4 \<Longrightarrow> decode_update_loop xs ctx out = (r, ctx', out') \<Longrightarrow>
     decoder_ok ctx' \<and> (r \<longrightarrow> data_used ctx' < 4 \<and> error_encountered ctx' = error_encountered ctx) \<and> (\<not> r \<longrightarrow> error_encountered ctx')"
  by (induction xs arbitrary: ctx out)
    (auto split: prod.splits bool.splits dest: decode_char_ok)

text \<open>A whole quad, and the text of a byte string.\<close>

definition between_quads :: "evp_encode_ctx \<Rightarrow> bool" where
  "between_quads ctx \<longleftrightarrow> length (ctx_data ctx) = 48 \<and> data_used ctx = 0 \<and> \<not> error_encountered ctx"

lemma decode_char_newline [simp]: "decode_char 10 ctx = (True, ctx, [])"
  by (simp add: decode_char_def)

lemma decode_update_quad:
  assumes "between_quads ctx" "\<not> eof_seen ctx" "{a, b, c, d} \<inter> {32, 9, 13, 10} = {}"
    and quad: "base64_decode_quad [a, b, c, d] = Some q"
  shows "\<exists>ctx'. decode_update_loop ([a, b, c, d] @ rest) ctx out = decode_update_loop rest ctx' (out @ q) \<and>
    between_quads ctx' \<and> eof_seen ctx' = (length q < 3)"
proof -
  obtain x0 x1 x2 x3 xs where data: "ctx_data ctx = x0 # x1 # x2 # x3 # xs"
  proof -
    have "4 \<le> length (ctx_data ctx)" using assms(1) by (simp add: between_quads_def)
    then show ?thesis using that by (auto simp: Suc_le_length_iff numeral_eq_Suc)
  qed
  show ?thesis
    using assms by (auto simp: decode_char_def between_quads_def data Let_def)
qed

lemma decode_update_base64:
  assumes "between_quads ctx" "\<not> eof_seen ctx"
  shows "\<exists>ctx'. decode_update_loop (base64 bs @ rest) ctx out = decode_update_loop rest ctx' (out @ bs) \<and>
    between_quads ctx' \<and> (length bs mod 3 = 0 \<longrightarrow> \<not> eof_seen ctx')"
  using assms
proof (induction bs arbitrary: ctx out rule: base64.induct)
  case (2 a)
  have "{digit (unat a div 4), digit (unat a mod 4 * 16), 61, 61} \<inter> {32, 9, 13, 10} = {}" by simp
  from decode_update_quad [OF 2 this decode_quad_base64(1) [unfolded base64.simps], of rest out]
  show ?case unfolding base64.simps by auto
next
  case (3 a b)
  have "{digit (unat a div 4), digit (unat a mod 4 * 16 + unat b div 16), digit (unat b mod 16 * 4), 61} \<inter>
      {32, 9, 13, 10} = {}" by simp
  from decode_update_quad [OF 3 this decode_quad_base64(2) [unfolded base64.simps], of rest out]
  show ?case unfolding base64.simps by auto
next
  case (4 a b c bs)
  have "{digit (unat a div 4), digit (unat a mod 4 * 16 + unat b div 16), digit (unat b mod 16 * 4 + unat c div 64),
      digit (unat c mod 64)} \<inter> {32, 9, 13, 10} = {}" by simp
  from decode_update_quad [OF 4(2,3) this decode_quad_base64(3) [unfolded base64.simps append_Nil2], of "base64 bs @ rest" out]
  obtain ctx1 where 1: "decode_update_loop (base64 (a # b # c # bs) @ rest) ctx out =
      decode_update_loop (base64 bs @ rest) ctx1 (out @ [a, b, c])" "between_quads ctx1" "\<not> eof_seen ctx1"
    unfolding base64.simps append_assoc by auto
  have "length (a # b # c # bs) = length bs + 3" by simp
  then have "length (a # b # c # bs) mod 3 = length bs mod 3" by (simp only: mod_add_self2)
  with 4(1) [OF 1(2,3), of "out @ [a, b, c]"] show ?case unfolding 1(1) by simp
qed auto
definition whole_lines :: "bytes \<Rightarrow> bytes" where
  "whole_lines bs = take (length bs - length bs mod 48) bs"

lemma whole_last: "whole_lines bs @ last_line bs = bs"
  by (simp add: whole_lines_def last_line_def)

lemma decode_full_lines:
  assumes "between_quads ctx" "\<not> eof_seen ctx"
  shows "\<exists>ctx'. decode_update_loop (full_lines bs @ rest) ctx out = decode_update_loop rest ctx' (out @ whole_lines bs) \<and>
    between_quads ctx' \<and> \<not> eof_seen ctx'"
  using assms
proof (induction bs arbitrary: ctx out rule: full_lines.induct)
  case (1 bs)
  show ?case
  proof (cases "48 \<le> length bs")
    case True
    then obtain l bs' where bs: "bs = l @ bs'" "length l = 48"
      by (metis append_take_drop_id length_take min.absorb2)
    from decode_update_base64 [OF 1(2,3), of l "[10] @ full_lines bs' @ rest" out] bs(2) obtain ctx1 where
      1: "decode_update_loop (base64 l @ [10] @ full_lines bs' @ rest) ctx out =
        decode_update_loop ([10] @ full_lines bs' @ rest) ctx1 (out @ l)" "between_quads ctx1" "\<not> eof_seen ctx1" by auto
    have IH: "\<exists>ctx'. decode_update_loop (full_lines bs' @ rest) ctx1 (out @ l) =
        decode_update_loop rest ctx' ((out @ l) @ whole_lines bs') \<and> between_quads ctx' \<and> \<not> eof_seen ctx'"
      using "1.IH" [OF True, of ctx1 "out @ l"] 1 bs by simp
    have "whole_lines bs = l @ whole_lines bs'"
      using mod_less_eq_dividend [of "length bs'" 48] by (simp add: whole_lines_def bs)
    with IH 1(1) bs show ?thesis by (simp add: full_lines_Cons_line)
  next
    case False
    then show ?thesis using 1 by (auto simp: whole_lines_def)
  qed
qed

lemma decode_lines:
  "\<exists>ctx'. decode_update_loop (lines bs) EVP_DecodeInit [] = (True, ctx', bs) \<and> between_quads ctx'"
proof -
  have init: "between_quads EVP_DecodeInit" "\<not> eof_seen EVP_DecodeInit"
    by (simp_all add: between_quads_def EVP_DecodeInit_def)
  from decode_full_lines [OF init, of bs "if last_line bs = [] then [] else base64 (last_line bs) @ [10]" "[]"] obtain ctx1 where
    1: "decode_update_loop (lines bs) EVP_DecodeInit [] =
      decode_update_loop (if last_line bs = [] then [] else base64 (last_line bs) @ [10]) ctx1 (whole_lines bs)"
    "between_quads ctx1" "\<not> eof_seen ctx1" unfolding lines_def by auto
  from decode_update_base64 [OF 1(2,3), of "last_line bs" "[10]" "whole_lines bs"] 1 show ?thesis
    by (auto simp: whole_last)
qed

text \<open>A sequence of decoder updates, and the whole stream; \<open>None\<close> if a call reports an error.\<close>

primrec decode_chunks :: "evp_encode_ctx \<Rightarrow> bytes list \<Rightarrow> (evp_encode_ctx \<times> bytes) option" where
  "decode_chunks ctx [] = Some (ctx, [])"
| "decode_chunks ctx (c # cs) =
     (case EVP_DecodeUpdate ctx c of (r, ctx, out, n) \<Rightarrow>
       if r = - 1 then None
       else map_option (\<lambda>(ctx, rest). (ctx, take n out @ rest)) (decode_chunks ctx cs))"

definition decode_stream :: "bytes list \<Rightarrow> bytes option" where
  "decode_stream pieces =
     (case decode_chunks EVP_DecodeInit pieces of
        None \<Rightarrow> None
      | Some (ctx, out) \<Rightarrow> if EVP_DecodeFinal ctx = 1 then Some out else None)"

lemma decode_update_no_error:
  "decode_update_loop xs ctx out = (True, ctx', out') \<Longrightarrow> error_encountered ctx' = error_encountered ctx"
proof (induction xs arbitrary: ctx out)
  case (Cons c xs)
  have "decode_char c ctx = (True, ctx1, w) \<Longrightarrow> error_encountered ctx1 = error_encountered ctx" for ctx1 w
    by (auto simp: decode_char_def Let_def split: if_splits option.splits)
  with Cons show ?case by (auto split: prod.splits bool.splits)
qed simp

lemma decode_chunks:
  "\<not> error_encountered ctx \<Longrightarrow> decode_update_loop (concat cs) ctx [] = (True, ctx', w) \<Longrightarrow> length w \<le> INT_MAX \<Longrightarrow>
     decode_chunks ctx cs = Some (ctx', w)"
proof (induction cs arbitrary: ctx w)
  case (Cons c cs)
  obtain ctx1 w1 where 1: "decode_update_loop c ctx [] = (True, ctx1, w1)"
    and 2: "decode_update_loop (concat cs) ctx1 w1 = (True, ctx', w)"
    using Cons.prems(2) by (auto simp: decode_update_append split: prod.splits bool.splits)
  from 2 obtain w2 where 3: "decode_update_loop (concat cs) ctx1 [] = (True, ctx', w2)" "w = w1 @ w2"
    using decode_update_out [of "concat cs" ctx1 w1] by (auto split: prod.splits)
  have ok: "\<not> error_encountered ctx1" using decode_update_no_error [OF 1] Cons.prems(1) by simp
  with Cons.IH [OF ok 3(1)] 1 3(2) Cons.prems show ?case by (simp add: EVP_DecodeUpdate_def)
qed simp

section \<open>Properties\<close>

text \<open>Encoding a block writes its RFC 4648 encoding, and decoding that, in one block, gives the
  block back.\<close>

theorem base64_block_roundtrip:
  assumes "length src < 2 ^ 61" "3 * ((length src + 2) div 3) \<le> max_out"
  shows "EVP_EncodeBlock src = (base64 src, length (base64 src)) \<and>
    EVP_DecodeBase64 max_out (fst (EVP_EncodeBlock src)) = Some src"
proof -
  let ?n = "(length src + 2) div 3"
  have len: "unat (of_nat (4 * ?n) :: u64) = 4 * ?n"
    using assms(1) by (subst unat_of_nat) simp
  have "unat (of_nat (4 * ?n) mod 4 :: u64) = 0" "unat (of_nat (4 * ?n) div 4 * 3 :: u64) = 3 * ?n"
    using assms(1) by (simp_all only: unat_mod unat_div unat_word_ariths len) simp_all
  then have "EVP_DecodedLength (of_nat (4 * ?n)) = Some (of_nat (4 * ?n) div 4 * 3)"
    "unat (of_nat (4 * ?n) div 4 * 3 :: u64) = 3 * ?n"
    by (simp_all only: EVP_DecodedLength_def unat_eq_zero simp_thms if_False)
  then show ?thesis
    using assms(2) decode_base64_loop [of src "[]"] by (simp add: EVP_DecodeBase64_def)
qed

theorem base64_block_roundtrip_witness:
  "EVP_DecodeBase64 3 (fst (EVP_EncodeBlock [1])) = Some [1]"
  using base64_block_roundtrip [of "[1]" 3] by simp



lemma decode_char_bound:
  assumes "decode_char c ctx = (r, ctx', w)" "data_used ctx < 4"
  shows "4 * length w + (if r then 3 * data_used ctx' else 0) \<le> 3 * (data_used ctx + 1)"
proof -
  have "base64_decode_quad i = Some q \<Longrightarrow> length q \<le> 3" for i q
    by (auto simp: base64_decode_quad_def Let_def split: if_splits)
  with assms show ?thesis
    by (fastforce simp: decode_char_def Let_def split: if_splits option.splits)
qed

lemma decode_update_bound:
  "decoder_ok ctx \<Longrightarrow> data_used ctx < 4 \<Longrightarrow> decode_update_loop xs ctx out = (r, ctx', out') \<Longrightarrow>
     4 * length out' \<le> 4 * length out + 3 * (data_used ctx + length xs)"
proof (induction xs arbitrary: ctx out)
  case (Cons c xs)
  obtain r1 ctx1 w where 1: "decode_char c ctx = (r1, ctx1, w)" by (metis prod_cases3)
  note b = decode_char_bound [OF 1 Cons.prems(2)]
  show ?case
  proof (cases r1)
    case True
    with decode_char_ok [OF Cons.prems(1,2) 1] Cons.IH [of ctx1 "out @ w"] 1 b Cons.prems(3)
    show ?thesis by simp
  next
    case False
    with 1 b Cons.prems(3) show ?thesis by auto
  qed
qed simp

text \<open>The decoder's context keeps its invariant: an update leaves fewer than four characters
  pending unless it has found an error, it writes no more than three bytes for every four
  characters, and after an error every later call fails.\<close>

lemma decoder_context_kept:
  assumes "decoder_ok ctx" "EVP_DecodeUpdate ctx inp = (r, ctx', out, n)"
  shows "decoder_ok ctx' \<and> 4 * length out \<le> 3 * (data_used ctx + length inp) \<and> n \<le> length out \<and>
    (r = - 1 \<longleftrightarrow> error_encountered ctx') \<and>
    (r = - 1 \<longrightarrow> EVP_DecodeUpdate ctx' inp' = (- 1, ctx', [], 0) \<and> EVP_DecodeFinal ctx' = - 1)"
proof (cases "error_encountered ctx")
  case True
  then show ?thesis using assms by (auto simp: EVP_DecodeUpdate_def EVP_DecodeFinal_def)
next
  case False
  then have used: "data_used ctx < 4" using assms(1) by (auto simp: decoder_ok_def)
  obtain r0 ctx0 where loop: "decode_update_loop inp ctx [] = (r0, ctx0, out)"
    using assms(2) False by (auto simp: EVP_DecodeUpdate_def split: prod.splits bool.splits if_splits)
  from decode_update_loop_ok [OF assms(1) used loop] decode_update_bound [OF assms(1) used loop] assms(2) loop False
  show ?thesis
    by (auto simp: EVP_DecodeUpdate_def EVP_DecodeFinal_def decoder_ok_def split: bool.splits if_splits)
qed

lemma decoder_context_kept_example:
  "\<exists>r ctx' out n. EVP_DecodeUpdate EVP_DecodeInit [65, 32] = (r, ctx', out, n) \<and> decoder_ok ctx'"
proof -
  obtain r ctx' out n where run: "EVP_DecodeUpdate EVP_DecodeInit [65, 32] = (r, ctx', out, n)" by (metis prod_cases4)
  from decoder_context_kept [OF _ run] encoder_init run show ?thesis by blast
qed

lemma add_wraps_iff: "(n::nat) < N \<Longrightarrow> k < N \<Longrightarrow> (n + k) mod N < n \<longleftrightarrow> N \<le> n + k"
  by (cases "n + k < N") (auto simp: le_mod_geq)

lemma EVP_EncodedLength_exact:
  "EVP_EncodedLength len =
     (let n = 4 * ((unat len + 2) div 3) + 1 in if n < 2 ^ 64 then Some (of_nat n) else None)"
proof (cases "len + 2 < len")
  case True
  then have "2 ^ 64 \<le> unat len + 2"
    using add_wraps_iff [OF unat_u64_less [of len], of 2] by (simp add: word_less_nat_alt unat_word_ariths)
  then have "\<not> 4 * ((unat len + 2) div 3) + 1 < 2 ^ 64"
    using div_le_mono [of "2 ^ 64" "unat len + 2" 3] by simp
  then show ?thesis using True by (simp add: EVP_EncodedLength_def Let_def)
next
  case False
  define q where "q = (unat len + 2) div 3"
  have "unat len + 2 < 2 ^ 64"
    using False add_wraps_iff [OF unat_u64_less [of len], of 2] by (simp add: word_less_nat_alt unat_word_ariths)
  then have q: "unat ((len + 2) div 3) = q" by (simp add: q_def unat_div unat_word_ariths)
  have shift: "unat (push_bit 2 ((len + 2) div 3)) = (4 * q) mod 2 ^ 64"
    unfolding push_bit_eq_mult unat_word_ariths(2) q by (simp add: mult.commute)
  have "drop_bit 2 (push_bit 2 ((len + 2) div 3)) = (len + 2) div 3 \<longleftrightarrow> (4 * q) mod 2 ^ 64 div 4 = q"
    unfolding word_unat_eq_iff unat_drop_bit shift q by simp
  also have "\<dots> \<longleftrightarrow> 4 * q < 2 ^ 64"
  proof
    assume "(4 * q) mod 2 ^ 64 div 4 = q"
    then have "4 * q \<le> (4 * q) mod 2 ^ 64" by (metis times_div_less_eq_dividend)
    then show "4 * q < 2 ^ 64" by (rule le_less_trans) simp
  qed simp
  finally have over: "drop_bit 2 (push_bit 2 ((len + 2) div 3)) = (len + 2) div 3 \<longleftrightarrow> 4 * q < 2 ^ 64" .
  show ?thesis
  proof (cases "4 * q < 2 ^ 64")
    case True
    then have fits: "4 * q + 1 < 2 ^ 64" by simp
    have "unat (push_bit 2 ((len + 2) div 3) + 1) = 4 * q + 1"
      using fits True by (simp add: unat_word_ariths shift)
    then have "push_bit 2 ((len + 2) div 3) + 1 = of_nat (4 * q + 1)"
      "\<not> push_bit 2 ((len + 2) div 3) + 1 < push_bit 2 ((len + 2) div 3)"
      using True fits by (simp_all only: word_unat_eq_iff word_less_nat_alt shift unat_of_nat) simp_all
    then show ?thesis
      using False over True fits unfolding EVP_EncodedLength_def Let_def q_def [symmetric]
      by (simp del: of_nat_add of_nat_mult)
  next
    case no: False
    then show ?thesis using False over unfolding EVP_EncodedLength_def Let_def q_def [symmetric] by simp
  qed
qed

lemma EVP_EncodedLength_enough:
  assumes "EVP_EncodedLength (of_nat (length bs)) = Some n" "length bs < 2 ^ 64"
  shows "unat n = length (fst (EVP_EncodeBlock bs)) + 1"
proof -
  define m where "m = 4 * ((length bs + 2) div 3) + 1"
  have "unat (of_nat (length bs) :: u64) = length bs" using assms(2) by (simp add: unat_of_nat)
  then have "m < 2 ^ 64" "n = of_nat m"
    using assms(1) by (auto simp: EVP_EncodedLength_exact Let_def m_def simp del: of_nat_add of_nat_mult split: if_splits)
  then show ?thesis by (simp add: unat_of_nat) (simp add: m_def)
qed

end
