(* ===== verification/Posix_Time.thy ===== *)
theory Posix_Time
  imports Prelude "HOL-Library.Signed_Division"
begin

text \<open>
  Calendar time: the conversions between broken-down UTC times and POSIX seconds of
  crypto/asn1/posix_time.c. C's integer division truncates (\<open>sdiv\<close>, \<open>smod\<close>). The intermediate
  values of valid times are far inside the range of \<open>int64_t\<close>, so integers are unbounded here; the
  arguments of \<open>OPENSSL_gmtime_adj\<close> are assumed not to overflow the sum, which would be undefined
  behaviour in C.
\<close>

section \<open>Conversions\<close>

abbreviation "SECS_PER_HOUR \<equiv> 3600 :: int"
abbreviation "SECS_PER_DAY \<equiv> 86400 :: int"

definition is_valid_date :: "int \<Rightarrow> int \<Rightarrow> int \<Rightarrow> bool" where
  "is_valid_date year month day =
     (if day < 1 \<or> month < 1 \<or> year < 0 \<or> year > 9999 then False
      else if month \<in> {1, 3, 5, 7, 8, 10, 12} then day > 0 \<and> day \<le> 31
      else if month \<in> {4, 6, 9, 11} then day > 0 \<and> day \<le> 30
      else if month = 2 then
        if (year smod 4 = 0 \<and> year smod 100 \<noteq> 0) \<or> year smod 400 = 0
        then day > 0 \<and> day \<le> 29 else day > 0 \<and> day \<le> 28
      else False)"

definition is_valid_time :: "int \<Rightarrow> int \<Rightarrow> int \<Rightarrow> bool" where
  "is_valid_time hours minutes seconds \<longleftrightarrow>
     \<not> (hours < 0 \<or> minutes < 0 \<or> seconds < 0 \<or> hours > 23 \<or> minutes > 59 \<or> seconds > 59)"

definition is_valid_epoch_time :: "int \<Rightarrow> bool" where
  "is_valid_epoch_time time \<longleftrightarrow> - 62167219200 \<le> time \<and> time \<le> 253402300799"

definition posix_time_from_utc :: "int \<Rightarrow> int \<Rightarrow> int \<Rightarrow> int \<Rightarrow> int \<Rightarrow> int \<Rightarrow> int option" where
  "posix_time_from_utc year month day hours minutes seconds =
     (if \<not> is_valid_date year month day \<or> \<not> is_valid_time hours minutes seconds then None
      else
        let year = (if month \<le> 2 then year - 1 else year);
            era = (if year \<ge> 0 then year else year - 399) sdiv 400;
            year_of_era = year - era * 400;
            day_of_year = (153 * (if month > 2 then month - 3 else month + 9) + 2) sdiv 5 + day - 1;
            day_of_era = year_of_era * 365 + year_of_era sdiv 4 - year_of_era sdiv 100 + day_of_year;
            posix_days = era * 146097 + day_of_era - 719468
        in Some (posix_days * SECS_PER_DAY + hours * SECS_PER_HOUR + minutes * 60 + seconds))"

definition utc_from_posix_time :: "int \<Rightarrow> (int \<times> int \<times> int \<times> int \<times> int \<times> int) option" where
  "utc_from_posix_time time =
     (if \<not> is_valid_epoch_time time then None
      else
        let days = time sdiv SECS_PER_DAY;
            leftover_seconds = time smod SECS_PER_DAY;
            (days, leftover_seconds) =
              (if leftover_seconds < 0 then (days - 1, leftover_seconds + SECS_PER_DAY) else (days, leftover_seconds));
            days = days + 719468;
            era = (if days > 0 then days else days - 146096) sdiv 146097;
            day_of_era = days - era * 146097;
            year_of_era = (day_of_era - day_of_era sdiv 1460 + day_of_era sdiv 36524 - day_of_era sdiv 146096) sdiv 365;
            year = year_of_era + era * 400;
            day_of_year = day_of_era - (365 * year_of_era + year_of_era sdiv 4 - year_of_era sdiv 100);
            month_of_year = (5 * day_of_year + 2) sdiv 153;
            month = (if month_of_year < 10 then month_of_year + 3 else month_of_year - 9);
            year = (if month \<le> 2 then year + 1 else year);
            day = day_of_year - (153 * month_of_year + 2) sdiv 5 + 1;
            hours = leftover_seconds sdiv SECS_PER_HOUR;
            leftover_seconds = leftover_seconds smod SECS_PER_HOUR;
            minutes = leftover_seconds sdiv 60;
            seconds = leftover_seconds smod 60
        in Some (year, month, day, hours, minutes, seconds))"

text \<open>The members of \<open>struct tm\<close> the code reads or clears.\<close>

record tm =
  tm_sec :: int
  tm_min :: int
  tm_hour :: int
  tm_mday :: int
  tm_mon :: int
  tm_year :: int
  tm_wday :: int
  tm_yday :: int
  tm_isdst :: int

definition OPENSSL_tm_to_posix :: "tm \<Rightarrow> int option" where
  "OPENSSL_tm_to_posix t =
     posix_time_from_utc (tm_year t + 1900) (tm_mon t + 1) (tm_mday t) (tm_hour t) (tm_min t) (tm_sec t)"

text \<open>Storing the results of \<open>utc_from_posix_time\<close> and rebasing the year and the month.\<close>

definition set_utc :: "int \<times> int \<times> int \<times> int \<times> int \<times> int \<Rightarrow> tm \<Rightarrow> tm" where
  "set_utc = (\<lambda>(year, month, day, hours, minutes, seconds) t.
     t\<lparr>tm_year := year - 1900, tm_mon := month - 1, tm_mday := day, tm_hour := hours, tm_min := minutes,
       tm_sec := seconds\<rparr>)"

definition OPENSSL_posix_to_tm :: "int \<Rightarrow> tm option" where
  "OPENSSL_posix_to_tm time =
     (let t = \<lparr>tm_sec = 0, tm_min = 0, tm_hour = 0, tm_mday = 0, tm_mon = 0, tm_year = 0, tm_wday = 0, tm_yday = 0, tm_isdst = 0\<rparr>
      in map_option (\<lambda>u. set_utc u t) (utc_from_posix_time time))"

text \<open>\<open>time_t\<close> has 64 bits on the platforms of the library, so the range check for 32 bits never
  fails.\<close>

definition OPENSSL_timegm :: "tm \<Rightarrow> int option" where
  "OPENSSL_timegm t = OPENSSL_tm_to_posix t"

definition OPENSSL_gmtime :: "int \<Rightarrow> tm option" where
  "OPENSSL_gmtime time = OPENSSL_posix_to_tm time"

definition OPENSSL_gmtime_adj :: "tm \<Rightarrow> int \<Rightarrow> int \<Rightarrow> tm option" where
  "OPENSSL_gmtime_adj t off_day offset_sec =
     (case posix_time_from_utc (tm_year t + 1900) (tm_mon t + 1) (tm_mday t) (tm_hour t) (tm_min t) (tm_sec t) of
        None \<Rightarrow> None
      | Some posix_time \<Rightarrow>
          map_option (\<lambda>u. set_utc u t) (utc_from_posix_time (posix_time + off_day * SECS_PER_DAY + offset_sec)))"

definition OPENSSL_gmtime_diff :: "tm \<Rightarrow> tm \<Rightarrow> (int \<times> int) option" where
  "OPENSSL_gmtime_diff from_tm to_tm =
     (case posix_time_from_utc (tm_year to_tm + 1900) (tm_mon to_tm + 1) (tm_mday to_tm) (tm_hour to_tm) (tm_min to_tm) (tm_sec to_tm) of
        None \<Rightarrow> None
      | Some time_to \<Rightarrow>
        (case posix_time_from_utc (tm_year from_tm + 1900) (tm_mon from_tm + 1) (tm_mday from_tm) (tm_hour from_tm) (tm_min from_tm) (tm_sec from_tm) of
           None \<Rightarrow> None
         | Some time_from \<Rightarrow>
             let timediff = time_to - time_from;
                 daydiff = timediff sdiv SECS_PER_DAY;
                 timediff = timediff smod SECS_PER_DAY
             in if daydiff > 2 ^ 31 - 1 \<or> daydiff < - (2 ^ 31) then None else Some (daydiff, timediff)))"

section \<open>Truncating division\<close>

lemma sdiv_nonneg [simp]: "0 \<le> a \<Longrightarrow> 0 \<le> b \<Longrightarrow> a sdiv b = a div (b :: int)"
  by (auto simp: signed_divide_int_def sgn_if)

lemma smod_nonneg [simp]: "0 \<le> a \<Longrightarrow> 0 \<le> b \<Longrightarrow> a smod b = a mod (b :: int)"
  by (auto simp: signed_modulo_int_def sgn_if)

lemma sdiv_floor:
  assumes "(0 :: int) < b"
  shows "(if 0 \<le> a then a else a - (b - 1)) sdiv b = a div b" "(if 0 < a then a else a - (b - 1)) sdiv b = a div b"
proof -
  have neg: "(a - (b - 1)) sdiv b = a div b" if "a \<le> 0"
  proof -
    have "(a - (b - 1)) sdiv b = - ((b - 1 - a) div b)"
      using assms that by (cases "a = b - 1") (auto simp: signed_divide_int_def sgn_if abs_if)
    also have "(b - 1 - a) div b = - (a div b)"
    proof (rule int_div_pos_eq)
      show "b - 1 - a = b * - (a div b) + (b - 1 - a mod b)" by (simp add: minus_mod_eq_mult_div [symmetric])
    qed (use assms pos_mod_bound [of b a] pos_mod_sign [of b a] in linarith)+
    finally show ?thesis by simp
  qed
  show "(if 0 \<le> a then a else a - (b - 1)) sdiv b = a div b" "(if 0 < a then a else a - (b - 1)) sdiv b = a div b"
    using assms neg by (auto simp: not_less not_le)
qed

lemma smod_floor:
  assumes "(0 :: int) < b"
  shows "(if a smod b < 0 then (a sdiv b - 1, a smod b + b) else (a sdiv b, a smod b)) = (a div b, a mod b)"
proof (cases "0 \<le> a")
  case False
  then have "sgn a = - 1" by simp
  then show ?thesis
    using assms pos_mod_bound [of b a] pos_mod_sign [of b a]
    by (auto simp: signed_divide_int_eq_divide_int signed_modulo_int_eq_modulo_int dvd_eq_mod_eq_0)
next
  case True
  then show ?thesis using assms pos_mod_sign [of b a] by (simp add: not_less)
qed
section \<open>Days of an era and days of a year\<close>

text \<open>The code's years start on 1 March, so that the leap day is a year's last: \<open>year_of_era\<close> is from 0
  to 399 and \<open>day_of_year\<close> from 0 to 365.\<close>

definition last_day :: "int \<Rightarrow> int" where
  "last_day yoe = (if (yoe + 1) mod 4 = 0 \<and> (yoe + 1) mod 100 \<noteq> 0 \<or> yoe = 399 then 365 else 364)"

definition day_in_era :: "int \<Rightarrow> int \<Rightarrow> int" where
  "day_in_era yoe doy = yoe * 365 + yoe div 4 - yoe div 100 + doy"

lemma year_digits:
  assumes "0 \<le> yoe" "yoe < (400 :: int)"
  obtains c q r where "yoe = 100 * c + 4 * q + r" "0 \<le> c" "c \<le> 3" "0 \<le> q" "q \<le> 24" "0 \<le> r" "r \<le> 3"
    "yoe div 4 = 25 * c + q" "yoe div 100 = c"
proof -
  define c where "c = yoe div 100"
  define q where "q = yoe mod 100 div 4"
  define r where "r = yoe mod 100 mod 4"
  have "yoe = 100 * c + 4 * q + r" "0 \<le> c" "c \<le> 3" "0 \<le> q" "q \<le> 24" "0 \<le> r" "r \<le> 3"
  proof -
    have "yoe = 100 * c + yoe mod 100" "yoe mod 100 = 4 * q + r" by (simp_all add: c_def q_def r_def)
    moreover have "0 \<le> yoe mod 100" "yoe mod 100 < 100" "0 \<le> r" "r < 4" by (simp_all add: r_def)
    ultimately show "yoe = 100 * c + 4 * q + r" "0 \<le> c" "c \<le> 3" "0 \<le> q" "q \<le> 24" "0 \<le> r" "r \<le> 3"
      using assms by linarith+
  qed
  then show thesis using that [of c q r] by (simp add: int_div_pos_eq [of _ _ _ r] int_div_pos_eq [of _ _ _ "4 * q + r"])
qed

lemma day_in_era_digits:
  "yoe = 100 * c + 4 * q + r \<Longrightarrow> yoe div 4 = 25 * c + q \<Longrightarrow> yoe div 100 = c \<Longrightarrow>
     day_in_era yoe doy = 36524 * c + 1461 * q + 365 * r + doy"
  by (simp add: day_in_era_def)

lemma last_day_digits:
  assumes "yoe = 100 * c + 4 * q + r" "0 \<le> c" "c \<le> 3" "0 \<le> q" "q \<le> (24 :: int)" "0 \<le> r" "r \<le> 3"
  shows "last_day yoe = (if r = 3 \<and> (q = 24 \<longrightarrow> c = 3) then 365 else 364)"
proof -
  have "(yoe + 1) mod 4 = 0 \<longleftrightarrow> r = 3" "(yoe + 1) mod 100 = 0 \<longleftrightarrow> q = 24 \<and> r = 3" "yoe = 399 \<longleftrightarrow> c = 3 \<and> q = 24 \<and> r = 3"
  proof -
    have "yoe + 1 = 4 * (25 * c + q) + (r + 1)" "yoe + 1 = 100 * c + (4 * q + r + 1)" by (simp_all add: assms(1))
    then have m: "(yoe + 1) mod 4 = (r + 1) mod 4" "(yoe + 1) mod 100 = (4 * q + r + 1) mod 100"
      by (metis mod_mult_self4)+
    have "r = 0 \<or> r = 1 \<or> r = 2 \<or> r = 3" using assms(6,7) by linarith
    then show "(yoe + 1) mod 4 = 0 \<longleftrightarrow> r = 3" unfolding m by auto
    show "(yoe + 1) mod 100 = 0 \<longleftrightarrow> q = 24 \<and> r = 3"
    proof (cases "q = 24 \<and> r = 3")
      case False
      then have "0 < 4 * q + r + 1" "4 * q + r + 1 < 100" using assms(4-7) by auto
      then show ?thesis using False unfolding m by simp
    qed (simp add: m)
    show "yoe = 399 \<longleftrightarrow> c = 3 \<and> q = 24 \<and> r = 3" using assms by linarith
  qed
  then show ?thesis by (auto simp: last_day_def)
qed

lemma year_of_day:
  assumes "0 \<le> yoe" "yoe < 400" "0 \<le> doy" "doy \<le> last_day yoe"
  defines "n \<equiv> day_in_era yoe doy"
  shows "(n - n div 1460 + n div 36524 - n div 146096) div 365 = yoe" "0 \<le> n" "n < 146097"
proof -
  obtain c q r where d: "yoe = 100 * c + 4 * q + r" "0 \<le> c" "c \<le> 3" "0 \<le> q" "q \<le> 24" "0 \<le> r" "r \<le> 3"
    "yoe div 4 = 25 * c + q" "yoe div 100 = c"
    using year_digits assms(1,2) by blast
  have n: "n = 36524 * c + 1461 * q + 365 * r + doy" unfolding n_def using d by (intro day_in_era_digits)
  have doy: "doy \<le> (if r = 3 \<and> (q = 24 \<longrightarrow> c = 3) then 365 else 364)" using assms(4) last_day_digits [OF d(1-7)] by simp
  then have doy': "doy \<le> 365" "doy = 365 \<longrightarrow> r = 3 \<and> (q = 24 \<longrightarrow> c = 3)" by (auto split: if_splits)
  define e where "e = (if 24 * c + q + 365 * r + doy \<ge> 1460 then 1 else 0 :: int)"
  define l where "l = (if n = 146096 then 1 else 0 :: int)"
  show n0: "0 \<le> n" "n < 146097" unfolding n by (cases "doy = 365"; use d doy' assms(3) in auto)+
  have 1: "n div 1460 = 25 * c + q + e"
    using d doy' assms(3) unfolding n e_def by (intro int_div_pos_eq [of _ _ _ "24 * c + q + 365 * r + doy - 1460 * e"]) (auto simp: e_def)
  have 2: "n div 36524 = c + l"
    using d doy' assms(3) unfolding n l_def by (intro int_div_pos_eq [of _ _ _ "1461 * q + 365 * r + doy - 36524 * l"]) (auto simp: l_def n)
  have 3: "n div 146096 = l" using n0 by (simp add: l_def)
  have "n - n div 1460 + n div 36524 - n div 146096 = 365 * yoe + (doy - e)" unfolding 1 2 3 using d by (simp add: n)
  moreover have "0 \<le> doy - e" "doy - e < 365" using d doy' assms(3) by (auto simp: e_def)
  ultimately show "(n - n div 1460 + n div 36524 - n div 146096) div 365 = yoe"
    by (intro int_div_pos_eq [of _ _ _ "doy - e"]) auto
qed
lemma year_exists:
  assumes "0 \<le> n" "n < 146097"
  shows "\<exists>yoe doy. 0 \<le> yoe \<and> yoe < 400 \<and> 0 \<le> doy \<and> doy \<le> last_day yoe \<and> n = day_in_era yoe doy"
proof -
  define c where "c = (if n = 146096 then 3 else n div 36524)"
  define n1 where "n1 = n - 36524 * c"
  define q where "q = n1 div 1461"
  define n2 where "n2 = n1 - 1461 * q"
  define r where "r = (if n2 = 1460 then 3 else n2 div 365)"
  define doy where "doy = n2 - 365 * r"
  have c: "0 \<le> c" "c \<le> 3" "0 \<le> n1" "n1 \<le> 36524" "n1 = 36524 \<Longrightarrow> c = 3"
    using assms pos_mod_bound [of 36524 n] pos_mod_sign [of 36524 n] mult_div_mod_eq [of 36524 n]
    by (auto simp: c_def n1_def minus_mult_div_eq_mod)
  have q: "0 \<le> q" "q \<le> 24" "0 \<le> n2" "n2 \<le> 1460" "q = 24 \<Longrightarrow> n2 = 1460 \<Longrightarrow> c = 3"
    using c pos_mod_bound [of 1461 n1] pos_mod_sign [of 1461 n1] mult_div_mod_eq [of 1461 n1]
    by (auto simp: q_def n2_def minus_mult_div_eq_mod)
  have r: "0 \<le> r" "r \<le> 3" "0 \<le> doy" "doy \<le> (if r = 3 \<and> (q = 24 \<longrightarrow> c = 3) then 365 else 364)"
    using q pos_mod_bound [of 365 n2] pos_mod_sign [of 365 n2]
    by (auto simp: r_def doy_def minus_mult_div_eq_mod)
  let ?y = "100 * c + 4 * q + r"
  have div: "?y div 4 = 25 * c + q" "?y div 100 = c"
    using c q r by (auto intro!: int_div_pos_eq [of _ _ _ r] int_div_pos_eq [of _ _ _ "4 * q + r"])
  have "last_day ?y = (if r = 3 \<and> (q = 24 \<longrightarrow> c = 3) then 365 else 364)"
    using c q r by (intro last_day_digits) auto
  moreover have "n = day_in_era ?y doy"
    using day_in_era_digits [OF refl div] by (simp add: doy_def n2_def n1_def)
  moreover have "0 \<le> ?y" "?y < 400" using c q r by auto
  ultimately show ?thesis using r by (intro exI [of _ ?y] exI [of _ doy]) simp
qed

text \<open>The lengths of the months, March first.\<close>

definition month_start :: "int \<Rightarrow> int" where
  "month_start mp = (153 * mp + 2) div 5"

definition month_length :: "int \<Rightarrow> int \<Rightarrow> int" where
  "month_length mp yoe = (if mp = 11 then last_day yoe - 336 else if mp \<in> {1, 3, 6, 8} then 30 else 31)"

lemma month_cases: "0 \<le> mp \<Longrightarrow> mp \<le> 11 \<Longrightarrow>
    mp = 0 \<or> mp = 1 \<or> mp = 2 \<or> mp = 3 \<or> mp = 4 \<or> mp = 5 \<or> mp = 6 \<or> mp = 7 \<or> mp = 8 \<or> mp = 9 \<or> mp = 10 \<or> mp = (11 :: int)"
  by presburger

lemma last_day_bounds: "364 \<le> last_day yoe" "last_day yoe \<le> 365"
  by (simp_all add: last_day_def)

lemma month_of_day:
  assumes "0 \<le> mp" "mp \<le> 11" "1 \<le> d" "d \<le> month_length mp yoe"
  defines "doy \<equiv> month_start mp + d - 1"
  shows "(5 * doy + 2) div 153 = mp \<and> 0 \<le> doy \<and> doy \<le> last_day yoe \<and> (mp \<le> 9 \<longleftrightarrow> doy \<le> 305)"
proof -
  have "(5 * doy + 2) div 153 = mp" if "0 \<le> 5 * doy + 2 - 153 * mp" "5 * doy + 2 - 153 * mp < 153"
    using that by (intro int_div_pos_eq [of _ _ _ "5 * doy + 2 - 153 * mp"]) auto
  then show ?thesis
    using month_cases [OF assms(1,2)] assms(3,4) last_day_bounds [of yoe] unfolding doy_def month_start_def month_length_def
    by (elim disjE) simp_all
qed

lemma month_exists:
  assumes "0 \<le> doy" "doy \<le> last_day yoe"
  shows "\<exists>mp d. 0 \<le> mp \<and> mp \<le> 11 \<and> 1 \<le> d \<and> d \<le> month_length mp yoe \<and> doy = month_start mp + d - 1"
proof -
  define mp where "mp = (5 * doy + 2) div 153"
  have b: "153 * mp \<le> 5 * doy + 2" "5 * doy + 2 < 153 * mp + 153"
    using pos_mod_bound [of 153 "5 * doy + 2"] pos_mod_sign [of 153 "5 * doy + 2"]
      mult_div_mod_eq [of 153 "5 * doy + 2"] unfolding mp_def by linarith+
  then have mp: "0 \<le> mp" "mp \<le> 11" using assms last_day_bounds [of yoe] by linarith+
  show ?thesis
    using month_cases [OF mp] b assms mp
    by (intro exI [of _ mp] exI [of _ "doy - month_start mp + 1"])
      (elim disjE; simp add: month_start_def month_length_def)
qed
section \<open>The conversions are inverse\<close>

text \<open>The code's year, starting in March, and month, counted from March.\<close>

definition march_year :: "int \<Rightarrow> int \<Rightarrow> int" where
  "march_year year month = (if month \<le> 2 then year - 1 else year)"

definition march_month :: "int \<Rightarrow> int" where
  "march_month month = (if month > 2 then month - 3 else month + 9)"

definition posix_day :: "int \<Rightarrow> int \<Rightarrow> int \<Rightarrow> int" where
  "posix_day year month day =
     march_year year month div 400 * 146097 +
     day_in_era (march_year year month mod 400) (month_start (march_month month) + day - 1) - 719468"

definition seconds_of_day :: "int \<Rightarrow> int \<Rightarrow> int \<Rightarrow> int" where
  "seconds_of_day hours minutes seconds = hours * 3600 + minutes * 60 + seconds"

lemma leap_last_day: "last_day ((year - 1) mod 400) = 365 \<longleftrightarrow> year mod 4 = 0 \<and> year mod 100 \<noteq> 0 \<or> year mod 400 = 0"
proof -
  define x k where "x = (year - 1) mod 400" and "k = (year - 1) div 400"
  have x: "0 \<le> x" "x < 400" by (simp_all add: x_def)
  have y: "year = 400 * k + (x + 1)" using mult_div_mod_eq [of 400 "year - 1"] unfolding x_def k_def by linarith
  then have "year = 4 * (100 * k) + (x + 1)" "year = 100 * (4 * k) + (x + 1)" by simp_all
  then have m: "(x + 1) mod 4 = year mod 4" "(x + 1) mod 100 = year mod 100" "(x + 1) mod 400 = year mod 400"
    using y by (metis mod_mult_self4)+
  have "x = 399 \<longleftrightarrow> year mod 400 = 0" using x by (cases "x = 399") (simp_all flip: m(3))
  then show ?thesis unfolding x_def [symmetric] by (auto simp: last_day_def m)
qed

lemma is_valid_date_iff:
  "is_valid_date year month day \<longleftrightarrow> 0 \<le> year \<and> year \<le> 9999 \<and> 1 \<le> month \<and> month \<le> 12 \<and> 1 \<le> day \<and>
     day \<le> month_length (march_month month) (march_year year month mod 400)"
proof -
  have len: "last_day ((year - 1) mod 400) - 336 =
      (if year mod 4 = 0 \<and> year mod 100 \<noteq> 0 \<or> year mod 400 = 0 then 29 else 28)"
    using leap_last_day [of year] last_day_bounds [of "(year - 1) mod 400"] by auto
  show ?thesis
  proof (cases "1 \<le> month \<and> month \<le> 12")
    case True
    show ?thesis
    proof (cases "day < 1 \<or> year < 0 \<or> year > 9999")
      case True
      then have invalid: "(day < 1 \<or> month < 1 \<or> year < 0 \<or> year > 9999) = True" by blast
      from True show ?thesis unfolding is_valid_date_def invalid if_True by auto
    next
      case False
      then have smod: "year smod k = year mod k" if "0 \<le> k" for k using that by simp
      have "month - 1 = 0 \<or> month - 1 = 1 \<or> month - 1 = 2 \<or> month - 1 = 3 \<or> month - 1 = 4 \<or> month - 1 = 5 \<or> month - 1 = 6 \<or>
          month - 1 = 7 \<or> month - 1 = 8 \<or> month - 1 = 9 \<or> month - 1 = 10 \<or> month - 1 = 11"
        using True month_cases [of "month - 1"] by linarith
      then have "month \<in> {1, 3, 5, 7, 8, 10, 12} \<or> month \<in> {4, 6, 9, 11} \<or> month = 2"
        by (elim disjE) (simp_all add: diff_eq_eq)
      moreover have "month \<in> {1, 3, 5, 7, 8, 10, 12} \<Longrightarrow> month_length (march_month month) yoe = 31" for yoe
        by (auto simp: month_length_def march_month_def)
      moreover have "month \<in> {4, 6, 9, 11} \<Longrightarrow> month_length (march_month month) yoe = 30" for yoe
        by (auto simp: month_length_def march_month_def)
      moreover have "month = 2 \<Longrightarrow> month_length (march_month month) (march_year year month mod 400) =
          (if year mod 4 = 0 \<and> year mod 100 \<noteq> 0 \<or> year mod 400 = 0 then 29 else 28)"
        using len by (simp add: month_length_def march_month_def march_year_def)
      ultimately show ?thesis
        using True False unfolding is_valid_date_def by (elim disjE) (auto simp add: smod)
    qed
  next
    case False
    then show ?thesis by (auto simp: is_valid_date_def)
  qed
qed

lemma posix_time_eq:
  "posix_time_from_utc year month day hours minutes seconds =
     (if is_valid_date year month day \<and> is_valid_time hours minutes seconds
      then Some (posix_day year month day * 86400 + seconds_of_day hours minutes seconds) else None)"
proof (cases "is_valid_date year month day \<and> is_valid_time hours minutes seconds")
  case True
  define y where "y = march_year year month"
  define mp where "mp = march_month month"
  have y: "(if month \<le> 2 then year - 1 else year) = y" and mp: "(if month > 2 then month - 3 else month + 9) = mp"
    by (simp_all add: y_def mp_def march_year_def march_month_def)
  have "0 \<le> mp" using True by (auto simp: is_valid_date_iff mp_def march_month_def)
  then have start: "(153 * mp + 2) sdiv 5 = month_start mp" by (simp add: month_start_def)
  have era: "(if y \<ge> 0 then y else y - 399) sdiv 400 = y div 400" using sdiv_floor(1) [of 400 y] by (auto split: if_splits)
  have yoe: "y - y div 400 * 400 = y mod 400" by (simp add: minus_div_mult_eq_mod)
  have "0 \<le> y mod 400" by simp
  then have "y mod 400 sdiv 4 = y mod 400 div 4" "y mod 400 sdiv 100 = y mod 400 div 100" by simp_all
  then show ?thesis
    using True unfolding posix_time_from_utc_def Let_def y mp start era yoe posix_day_def y_def [symmetric] mp_def [symmetric]
    by (simp add: day_in_era_def seconds_of_day_def)
qed (auto simp: posix_time_from_utc_def)

definition civil :: "int \<Rightarrow> int \<times> int \<times> int" where
  "civil n =
     (let doe = n mod 146097;
          yoe = (doe - doe div 1460 + doe div 36524 - doe div 146096) div 365;
          doy = doe - (365 * yoe + yoe div 4 - yoe div 100);
          mp = (5 * doy + 2) div 153;
          month = (if mp < 10 then mp + 3 else mp - 9);
          year = yoe + n div 146097 * 400
      in (if month \<le> 2 then year + 1 else year, month, doy - month_start mp + 1))"

lemma civil_of_era:
  assumes "0 \<le> yoe" "yoe < 400" "0 \<le> mp" "mp \<le> 11" "1 \<le> d" "d \<le> month_length mp yoe"
  shows "civil (era * 146097 + day_in_era yoe (month_start mp + d - 1)) =
    (yoe + era * 400 + (if mp \<ge> 10 then 1 else 0), if mp < 10 then mp + 3 else mp - 9, d)"
proof -
  define doy where "doy = month_start mp + d - 1"
  note m = month_of_day [OF assms(3-6), folded doy_def]
  define n where "n = day_in_era yoe doy"
  have n: "(n - n div 1460 + n div 36524 - n div 146096) div 365 = yoe" "0 \<le> n" "n < 146097"
    using year_of_day [OF assms(1,2), of doy] m by (auto simp: n_def)
  have e: "(era * 146097 + n) mod 146097 = n" "(era * 146097 + n) div 146097 = era" using n(2,3) by simp_all
  have doy: "n - (365 * yoe + yoe div 4 - yoe div 100) = doy" by (simp add: n_def day_in_era_def)
  have d: "doy - month_start mp + 1 = d" by (simp add: doy_def)
  show ?thesis
    unfolding doy_def [symmetric] n_def [symmetric] civil_def Let_def e n doy m [THEN conjunct1] d
    using assms(3,4) by auto
qed

lemma utc_eq:
  "utc_from_posix_time t =
     (if is_valid_epoch_time t then
        (case civil (t div 86400 + 719468) of (year, month, day) \<Rightarrow>
          Some (year, month, day, t mod 86400 div 3600, t mod 86400 mod 3600 div 60, t mod 86400 mod 3600 mod 60)) else None)"
proof (cases "is_valid_epoch_time t")
  case True
  define n where "n = t div 86400 + 719468"
  define doe where "doe = n mod 146097"
  define yoe where "yoe = (doe - doe div 1460 + doe div 36524 - doe div 146096) div 365"
  define doy where "doy = doe - (365 * yoe + yoe div 4 - yoe div 100)"
  define mp where "mp = (5 * doy + 2) div 153"
  have "0 \<le> doe" "doe < 146097" by (simp_all add: doe_def)
  then obtain y' d' where ex: "0 \<le> y'" "y' < 400" "0 \<le> d'" "d' \<le> last_day y'" "doe = day_in_era y' d'"
    using year_exists by blast
  have "yoe = y'" using year_of_day(1) [OF ex(1-4)] ex(5) by (simp add: yoe_def)
  then have "0 \<le> yoe" "doy = d'" using ex by (simp_all add: doy_def day_in_era_def)
  then have pos: "0 \<le> yoe" "0 \<le> doy" "0 \<le> mp" using ex(3) by (simp_all add: mp_def)
  have sd: "doe sdiv 1460 = doe div 1460" "doe sdiv 36524 = doe div 36524" "doe sdiv 146096 = doe div 146096"
    "(doe - doe div 1460 + doe div 36524 - doe div 146096) sdiv 365 = yoe" "yoe sdiv 4 = yoe div 4" "yoe sdiv 100 = yoe div 100"
    "(5 * doy + 2) sdiv 153 = mp" "(153 * mp + 2) sdiv 5 = month_start mp"
  proof -
    have b: "0 \<le> doe - doe div 1460 + doe div 36524 - doe div 146096"
    proof -
      have "k * (doe div k) \<le> doe" "0 \<le> doe div k" if "0 < k" for k
        using that \<open>0 \<le> doe\<close> mult_div_mod_eq [of k doe] pos_mod_sign [of k doe] by (linarith, simp add: pos_imp_zdiv_nonneg_iff)
      from this [of 1460] this [of 36524] this [of 146096] show ?thesis using \<open>0 \<le> doe\<close> by linarith
    qed
    show "doe sdiv 1460 = doe div 1460" "doe sdiv 36524 = doe div 36524" "doe sdiv 146096 = doe div 146096"
      using \<open>0 \<le> doe\<close> by simp_all
    show "(doe - doe div 1460 + doe div 36524 - doe div 146096) sdiv 365 = yoe"
      unfolding yoe_def using b by (intro sdiv_nonneg) simp_all
    show "yoe sdiv 4 = yoe div 4" "yoe sdiv 100 = yoe div 100" using pos by simp_all
    show "(5 * doy + 2) sdiv 153 = mp" unfolding mp_def using pos by (intro sdiv_nonneg) simp_all
    show "(153 * mp + 2) sdiv 5 = month_start mp" unfolding month_start_def using pos by (intro sdiv_nonneg) simp_all
  qed
  have era: "(if n > 0 then n else n - 146096) sdiv 146097 = n div 146097" using sdiv_floor(2) [of 146097 n] by (auto split: if_splits)
  have sec: "0 \<le> t mod 86400" by simp
  have days: "(if t smod 86400 < 0 then (t sdiv 86400 - 1, t smod 86400 + 86400) else (t sdiv 86400, t smod 86400)) =
      (t div 86400, t mod 86400)" by (rule smod_floor) simp
  have rest: "n - n div 146097 * 146097 = doe" by (simp add: doe_def minus_div_mult_eq_mod)
  have time: "t mod 86400 sdiv 3600 = t mod 86400 div 3600" "t mod 86400 smod 3600 = t mod 86400 mod 3600"
    "t mod 86400 mod 3600 sdiv 60 = t mod 86400 mod 3600 div 60" "t mod 86400 mod 3600 smod 60 = t mod 86400 mod 3600 mod 60"
    by simp_all
  show ?thesis
    using True unfolding utc_from_posix_time_def Let_def days prod.case n_def [symmetric] era rest sd time
      doy_def [symmetric] civil_def doe_def [symmetric] yoe_def [symmetric] mp_def [symmetric] by simp
qed (simp add: utc_from_posix_time_def)
text \<open>Times that a valid day can have are in range, and every time in range is one.\<close>

lemma march_bounds:
  assumes "is_valid_date year month day"
  shows "0 \<le> march_month month" "march_month month \<le> 11" "1 \<le> day"
    "day \<le> month_length (march_month month) (march_year year month mod 400)"
    "0 \<le> march_year year month mod 400" "march_year year month mod 400 < 400"
  using assms by (auto simp: is_valid_date_iff march_month_def)

lemma posix_day_bounds:
  assumes "is_valid_date year month day"
  shows "- 719528 \<le> posix_day year month day" "posix_day year month day \<le> 2932896"
proof -
  define y yoe era mp where "y = march_year year month" and "yoe = y mod 400" and "era = y div 400" and "mp = march_month month"
  note m = march_bounds [OF assms, folded y_def, folded yoe_def mp_def]
  define doy where "doy = month_start mp + day - 1"
  note doy = month_of_day [OF m(1-4), folded doy_def]
  have y: "y = 400 * era + yoe" by (simp add: yoe_def era_def)
  have late: "mp \<le> 9 \<longleftrightarrow> 2 < month" "year \<le> 9999" "0 \<le> year"
    using assms by (auto simp: mp_def march_month_def is_valid_date_iff)
  have yb: "y = (if mp \<le> 9 then year else year - 1)" using late(1) by (auto simp: y_def march_year_def)
  have era: "- 1 \<le> era" "era \<le> 24" using y yb late m(5,6) by (auto split: if_splits)
  have dib: "365 * yoe \<le> day_in_era yoe doy" "day_in_era yoe doy \<le> 365 * yoe + 99 + doy"
  proof -
    have "yoe div 4 \<le> 99" "0 \<le> yoe div 100" "yoe div 100 \<le> yoe div 4"
      using m(5,6) zdiv_mono2 [of yoe 4 100] by auto
    then show "365 * yoe \<le> day_in_era yoe doy" "day_in_era yoe doy \<le> 365 * yoe + 99 + doy"
      using doy unfolding day_in_era_def by linarith+
  qed
  have last: "yoe = 399 \<Longrightarrow> day_in_era yoe doy = 145731 + doy" by (simp add: day_in_era_def)
  have doy365: "0 \<le> doy" "doy \<le> 365" using doy last_day_bounds [of yoe] by auto
  have p: "posix_day year month day = era * 146097 + day_in_era yoe doy - 719468"
    by (simp add: posix_day_def era_def yoe_def mp_def doy_def y_def)
  show "- 719528 \<le> posix_day year month day"
  proof (cases "era = - 1")
    case True
    then have "yoe = 399" "\<not> mp \<le> 9" using y yb late m(5,6) by (auto split: if_splits)
    then show ?thesis using last doy True unfolding p by simp
  next
    case False
    then have "0 \<le> era" using era by simp
    then show ?thesis using dib m(5) unfolding p by simp
  qed
  show "posix_day year month day \<le> 2932896"
  proof (cases "era = 24")
    case True
    show ?thesis
    proof (cases "yoe = 399")
      case last_year: True
      then have "mp \<le> 9" using y yb late True by (auto split: if_splits)
      then show ?thesis using last [OF last_year] doy True unfolding p by simp
    next
      case False
      then show ?thesis using dib doy365 m(6) True unfolding p by simp
    qed
  next
    case False
    then have "era \<le> 23" using era by simp
    then show ?thesis using year_of_day(3) [OF m(5,6), of doy] doy unfolding p by simp
  qed
qed

lemma day_exists:
  assumes "- 719528 \<le> n" "n \<le> 2932896"
  shows "\<exists>year month day. is_valid_date year month day \<and> posix_day year month day = n"
proof -
  define era doe where "era = (n + 719468) div 146097" and "doe = (n + 719468) mod 146097"
  have n: "n + 719468 = 146097 * era + doe" "0 \<le> doe" "doe < 146097" by (simp_all add: era_def doe_def)
  then obtain yoe doy where yd: "0 \<le> yoe" "yoe < 400" "0 \<le> doy" "doy \<le> last_day yoe" "doe = day_in_era yoe doy"
    using year_exists by blast
  obtain mp d where md: "0 \<le> mp" "mp \<le> 11" "1 \<le> d" "d \<le> month_length mp yoe" "doy = month_start mp + d - 1"
    using month_exists [OF yd(3,4)] by blast
  define month where "month = (if mp \<le> 9 then mp + 3 else mp - 9)"
  define year where "year = yoe + 400 * era + (if mp \<le> 9 then 0 else 1)"
  have month: "1 \<le> month" "month \<le> 12" "march_month month = mp" "march_year year month = yoe + 400 * era"
    using md by (auto simp: month_def march_month_def march_year_def year_def)
  have mod: "(yoe + 400 * era) mod 400 = yoe" "(yoe + 400 * era) div 400 = era" using yd(1,2) by simp_all
  have late: "mp \<le> 9 \<longleftrightarrow> doy \<le> 305" using month_of_day [OF md(1-4)] md(5) by simp
  have doe: "yoe = 399 \<Longrightarrow> doe = 145731 + doy" "doe \<le> 365 * yoe + 99 + doy"
  proof -
    have "yoe div 4 \<le> 99" "0 \<le> yoe div 100" using yd(1,2) by auto
    then show "doe \<le> 365 * yoe + 99 + doy" unfolding yd(5) day_in_era_def by linarith
  qed (simp add: yd(5) day_in_era_def)
  have era: "- 1 \<le> era" "era \<le> 24" using n assms by linarith+
  have low: "0 \<le> year"
  proof (cases "era = - 1")
    case True
    then have big: "146037 \<le> doe" using n assms by linarith
    then have "yoe = 399" using doe(2) yd(2,4) last_day_bounds [of yoe] by linarith
    moreover from this have "\<not> mp \<le> 9" using doe(1) big late by simp
    ultimately show ?thesis using True by (simp add: year_def)
  next
    case False
    then show ?thesis using era yd(1) by (simp add: year_def)
  qed
  have high: "year \<le> 9999"
  proof (cases "era = 24 \<and> yoe = 399")
    case True
    then have "doy \<le> 305" using n assms doe(1) by linarith
    then show ?thesis using late True by (simp add: year_def)
  next
    case False
    then show ?thesis using era yd(2) by (auto simp: year_def)
  qed
  have "is_valid_date year month d" using low high month md yd(1,2) by (simp add: is_valid_date_iff)
  moreover have "posix_day year month d = n"
    using n(1) yd(1,2,5) md(5) by (simp add: posix_day_def month mod)
  ultimately show ?thesis by blast
qed
lemma seconds_of_day_bounds:
  assumes "is_valid_time h mi s"
  shows "0 \<le> seconds_of_day h mi s" "seconds_of_day h mi s < 86400" "seconds_of_day h mi s div 3600 = h"
    "seconds_of_day h mi s mod 3600 div 60 = mi" "seconds_of_day h mi s mod 3600 mod 60 = s"
proof -
  have v: "0 \<le> h" "h \<le> 23" "0 \<le> mi" "mi \<le> 59" "0 \<le> s" "s \<le> 59" using assms by (auto simp: is_valid_time_def)
  then show "0 \<le> seconds_of_day h mi s" "seconds_of_day h mi s < 86400" by (auto simp: seconds_of_day_def)
  show h: "seconds_of_day h mi s div 3600 = h"
    using v by (intro int_div_pos_eq [of _ _ _ "mi * 60 + s"]) (auto simp: seconds_of_day_def)
  have m: "seconds_of_day h mi s mod 3600 = mi * 60 + s"
  proof -
    have "seconds_of_day h mi s mod 3600 = (mi * 60 + s + h * 3600) mod 3600" by (simp add: seconds_of_day_def algebra_simps)
    also have "\<dots> = (mi * 60 + s) mod 3600" by (rule mod_mult_self1)
    also have "\<dots> = mi * 60 + s" using v by simp
    finally show ?thesis .
  qed
  show "seconds_of_day h mi s mod 3600 div 60 = mi" "seconds_of_day h mi s mod 3600 mod 60 = s"
    unfolding m using v by simp_all
qed

lemma posix_utc:
  assumes "posix_time_from_utc year month day h mi s = Some t"
  shows "is_valid_epoch_time t \<and> utc_from_posix_time t = Some (year, month, day, h, mi, s)"
proof -
  have v: "is_valid_date year month day" "is_valid_time h mi s"
    and t: "t = posix_day year month day * 86400 + seconds_of_day h mi s"
    using assms by (auto simp: posix_time_eq split: if_splits)
  note sod = seconds_of_day_bounds [OF v(2)]
  note pd = posix_day_bounds [OF v(1)]
  note m = march_bounds [OF v(1)]
  have epoch: "is_valid_epoch_time t" using sod(1,2) pd unfolding t is_valid_epoch_time_def by auto
  have dm: "t div 86400 = posix_day year month day" "t mod 86400 = seconds_of_day h mi s"
    using sod(1,2) unfolding t by (simp_all add: mult.commute)
  have n: "posix_day year month day + 719468 = march_year year month div 400 * 146097 +
      day_in_era (march_year year month mod 400) (month_start (march_month month) + day - 1)"
    by (simp add: posix_day_def)
  have "civil (posix_day year month day + 719468) = (year, month, day)"
    unfolding n civil_of_era [OF m(5,6) m(1-4)]
    using v(1) div_mult_mod_eq [of "march_year year month" 400]
    by (auto simp: march_month_def march_year_def is_valid_date_iff split: if_splits)
  then show ?thesis using epoch sod by (simp add: utc_eq dm)
qed

lemma posix_exists:
  assumes "is_valid_epoch_time t"
  shows "\<exists>year month day h mi s. posix_time_from_utc year month day h mi s = Some t"
proof -
  have bounds: "- 719528 \<le> t div 86400" "t div 86400 \<le> 2932896"
  proof -
    have "- 62167219200 div 86400 \<le> t div 86400" "t div 86400 \<le> 253402300799 div 86400"
      using assms unfolding is_valid_epoch_time_def by (intro zdiv_mono1; simp)+
    then show "- 719528 \<le> t div 86400" "t div 86400 \<le> 2932896" by simp_all
  qed
  then obtain year month day where d: "is_valid_date year month day" "posix_day year month day = t div 86400"
    using day_exists by blast
  define sec where "sec = t mod 86400"
  have sec: "0 \<le> sec" "sec < 86400" by (simp_all add: sec_def)
  define h mi s where "h = sec div 3600" and "mi = sec mod 3600 div 60" and "s = sec mod 3600 mod 60"
  have r: "0 \<le> sec mod 3600" "sec mod 3600 < 3600" by simp_all
  have "0 \<le> h" "h \<le> 23" using sec by (auto simp: h_def)
  moreover have "0 \<le> mi" "mi \<le> 59" using r unfolding mi_def by linarith+
  moreover have "0 \<le> s" "s \<le> 59" unfolding s_def using pos_mod_sign [of 60 "sec mod 3600"] pos_mod_bound [of 60 "sec mod 3600"] by linarith+
  ultimately have "is_valid_time h mi s" by (simp add: is_valid_time_def)
  moreover have "seconds_of_day h mi s = sec"
    using div_mult_mod_eq [of sec 3600] div_mult_mod_eq [of "sec mod 3600" 60]
    unfolding seconds_of_day_def h_def mi_def s_def by linarith
  moreover have "t div 86400 * 86400 + sec = t" by (simp add: sec_def)
  ultimately have "posix_time_from_utc year month day h mi s = Some t" using d by (simp add: posix_time_eq)
  then show ?thesis by blast
qed

lemma utc_posix:
  assumes "utc_from_posix_time t = Some (year, month, day, h, mi, s)"
  shows "posix_time_from_utc year month day h mi s = Some t"
proof -
  have "is_valid_epoch_time t" using assms by (rule_tac ccontr) (simp add: utc_eq)
  then obtain year' month' day' h' mi' s' where ex: "posix_time_from_utc year' month' day' h' mi' s' = Some t"
    using posix_exists by blast
  with posix_utc [OF ex] assms show ?thesis by simp
qed

lemma posix_time_valid_iff: "utc_from_posix_time t = None \<longleftrightarrow> \<not> is_valid_epoch_time t"
  by (simp add: utc_eq split: prod.split)

section \<open>Properties of the conversions\<close>

text \<open>C21. The two conversions are inverse to each other on their whole domain: a POSIX time converts
  to a date and time exactly when that date and time converts back to it, and exactly the POSIX
  times from year 0 to year 9999 convert.\<close>

theorem posix_time_bijective:
  "(utc_from_posix_time t = Some (year, month, day, h, mi, s) \<longleftrightarrow>
      posix_time_from_utc year month day h mi s = Some t) \<and>
   (is_valid_epoch_time t \<longleftrightarrow> utc_from_posix_time t \<noteq> None)"
  using posix_utc [of year month day h mi s t] utc_posix [of t year month day h mi s]
  by (auto simp: posix_time_valid_iff)

text \<open>The day after a date, by the calendar.\<close>

definition days_in_month :: "int \<Rightarrow> int \<Rightarrow> int" where
  "days_in_month year month =
     (if month = 2 then if year mod 4 = 0 \<and> year mod 100 \<noteq> 0 \<or> year mod 400 = 0 then 29 else 28
      else if month \<in> {4, 6, 9, 11} then 30 else 31)"

definition next_date :: "int \<Rightarrow> int \<Rightarrow> int \<Rightarrow> int \<times> int \<times> int" where
  "next_date year month day =
     (if day < days_in_month year month then (year, month, day + 1)
      else if month < 12 then (year, month + 1, 1) else (year + 1, 1, 1))"
lemma div_succ: "0 < k \<Longrightarrow> (x + 1) div k = x div k + (if (x + 1) mod k = 0 then 1 else (0 :: int))"
proof -
  assume k: "0 < k"
  have x: "x + 1 = k * ((x + 1) div k) + (x + 1) mod k" by simp
  have m: "0 \<le> (x + 1) mod k" "(x + 1) mod k < k" using k by simp_all
  show ?thesis
  proof (cases "(x + 1) mod k = 0")
    case True
    have "x = k * ((x + 1) div k - 1) + (k - 1)" using x True by (simp add: right_diff_distrib)
    then have "x div k = (x + 1) div k - 1" by (rule int_div_pos_eq) (use k in simp_all)
    then show ?thesis using True by simp
  next
    case False
    have "x = k * ((x + 1) div k) + ((x + 1) mod k - 1)" using x by linarith
    then have "x div k = (x + 1) div k" by (rule int_div_pos_eq) (use m False in linarith)+
    then show ?thesis using False by simp
  qed
qed

lemma year_end:
  "posix_day year 3 1 = posix_day year 2 (days_in_month year 2) + 1"
proof -
  define y where "y = year - 1"
  define yoe era where "yoe = y mod 400" and "era = y div 400"
  have yoe: "0 \<le> yoe" "yoe < 400" by (simp_all add: yoe_def)
  have feb: "days_in_month year 2 = last_day yoe - 336"
    using leap_last_day [of year] last_day_bounds [of yoe] by (auto simp: days_in_month_def yoe_def y_def)
  have old: "posix_day year 2 (days_in_month year 2) = era * 146097 + day_in_era yoe (last_day yoe) - 719468"
    by (simp add: posix_day_def march_year_def march_month_def month_start_def feb era_def yoe_def y_def)
  have "posix_day year 3 1 = (y + 1) div 400 * 146097 + day_in_era ((y + 1) mod 400) 0 - 719468"
    by (simp add: posix_day_def march_year_def march_month_def month_start_def y_def)
  also have "\<dots> = era * 146097 + day_in_era yoe (last_day yoe) + 1 - 719468"
  proof (cases "yoe = 399")
    case True
    have "y + 1 = 400 * (era + 1)" using True mult_div_mod_eq [of 400 y] by (simp add: era_def yoe_def)
    then have "(y + 1) div 400 = era + 1" "(y + 1) mod 400 = 0" by simp_all
    then show ?thesis using True by (simp add: day_in_era_def last_day_def)
  next
    case False
    have "y + 1 = 400 * era + (yoe + 1)" by (simp add: era_def yoe_def)
    then have "(y + 1) div 400 = era" by (rule int_div_pos_eq) (use yoe False in linarith)+
    moreover from \<open>y + 1 = _\<close> have "(y + 1) mod 400 = yoe + 1" by (rule int_mod_pos_eq) (use yoe False in linarith)+
    ultimately have e: "(y + 1) div 400 = era" "(y + 1) mod 400 = yoe + 1" .
    have "(yoe + 1) mod 100 mod 4 = (yoe + 1) mod 4" by (rule mod_mod_cancel) simp
    then have "(yoe + 1) mod 100 = 0 \<Longrightarrow> (yoe + 1) mod 4 = 0" by (metis mod_0)
    then have year: "last_day yoe = 364 + (if (yoe + 1) mod 4 = 0 then 1 else 0) - (if (yoe + 1) mod 100 = 0 then 1 else 0)"
      using False unfolding last_day_def by simp
    have "day_in_era (yoe + 1) 0 = yoe * 365 + 365 + (yoe + 1) div 4 - (yoe + 1) div 100" by (simp add: day_in_era_def)
    also have "\<dots> = day_in_era yoe (last_day yoe) + 1"
      unfolding year day_in_era_def div_succ [OF zero_less_numeral] by linarith
    finally have "day_in_era (yoe + 1) 0 = day_in_era yoe (last_day yoe) + 1" .
    then show ?thesis unfolding e by simp
  qed
  finally show ?thesis using old by simp
qed

lemma month_end:
  assumes "1 \<le> month" "month < 12" "month \<noteq> 2"
  shows "posix_day year (month + 1) 1 = posix_day year month (days_in_month year month) + 1"
proof -
  have y: "march_year year (month + 1) = march_year year month" using assms by (simp add: march_year_def)
  have mp: "march_month (month + 1) = march_month month + 1" using assms by (auto simp: march_month_def)
  have "month_start (march_month month + 1) = month_start (march_month month) + days_in_month year month"
  proof -
    have "0 \<le> month - 1" "month - 1 \<le> 11" using assms by auto
    from month_cases [OF this] assms show ?thesis
      by (elim disjE) (simp_all add: month_start_def march_month_def days_in_month_def diff_eq_eq)
  qed
  then show ?thesis by (simp add: posix_day_def y mp day_in_era_def)
qed

lemma days_in_month:
  "1 \<le> month \<Longrightarrow> month \<le> 12 \<Longrightarrow> days_in_month year month = month_length (march_month month) (march_year year month mod 400)"
proof (cases "month = 2")
  case True
  then show ?thesis using leap_last_day [of year] last_day_bounds [of "(year - 1) mod 400"]
    by (auto simp: days_in_month_def month_length_def march_month_def march_year_def)
next
  case False
  assume "1 \<le> month" "month \<le> 12"
  then have "0 \<le> month - 1" "month - 1 \<le> 11" by auto
  from month_cases [OF this] False show ?thesis
    by (elim disjE) (simp_all add: days_in_month_def month_length_def march_month_def diff_eq_eq)
qed

lemma is_valid_date_calendar:
  "is_valid_date year month day \<longleftrightarrow> 0 \<le> year \<and> year \<le> 9999 \<and> 1 \<le> month \<and> month \<le> 12 \<and> 1 \<le> day \<and>
     day \<le> days_in_month year month"
  using days_in_month by (auto simp: is_valid_date_iff)

lemma days_in_month_bounds: "28 \<le> days_in_month year month" "month \<noteq> 2 \<Longrightarrow> 30 \<le> days_in_month year month"
    "days_in_month year 12 = 31"
  by (simp_all add: days_in_month_def)

text \<open>POSIX time counts days by the calendar: the same time of day on the next date, leap days
  and the ends of months, years and centuries included, is 86400 seconds later.\<close>

theorem posix_time_next_day:
  assumes "posix_time_from_utc year month day h mi s = Some t" "(year, month, day) \<noteq> (9999, 12, 31)"
  shows "case next_date year month day of (year', month', day') \<Rightarrow>
    posix_time_from_utc year' month' day' h mi s = Some (t + 86400)"
proof -
  have v: "is_valid_date year month day" and vt: "is_valid_time h mi s"
    and t: "t = posix_day year month day * 86400 + seconds_of_day h mi s"
    using assms(1) by (auto simp: posix_time_eq split: if_splits)
  obtain year' month' day' where n: "next_date year month day = (year', month', day')" by (metis prod_cases3)
  have valid: "is_valid_date year' month' day'"
    using n v assms(2) days_in_month_bounds(1) [of year' month']
    by (auto simp: days_in_month_bounds(3) next_date_def is_valid_date_calendar split: if_splits)
  have "posix_day year' month' day' = posix_day year month day + 1"
  proof (cases "day < days_in_month year month")
    case True
    then show ?thesis using n by (auto simp: next_date_def posix_day_def day_in_era_def)
  next
    case False
    then have day: "day = days_in_month year month" using v days_in_month by (auto simp: is_valid_date_iff)
    consider "month = 12" | "month = 2" | "1 \<le> month" "month < 12" "month \<noteq> 2"
      using v by (fastforce simp: is_valid_date_iff)
    then show ?thesis
    proof cases
      case 1
      then show ?thesis using n False day
        by (auto simp: next_date_def posix_day_def day_in_era_def march_year_def march_month_def month_start_def days_in_month_def)
    next
      case 2
      then show ?thesis using n False day year_end [of year] by (auto simp: next_date_def)
    next
      case 3
      then show ?thesis using n False day month_end [OF 3, of year] by (auto simp: next_date_def)
    qed
  qed
  with valid vt show ?thesis unfolding n by (simp add: posix_time_eq t)
qed

theorem posix_time_next_day_witness:
  "posix_time_from_utc 2000 3 1 0 0 0 = Some (951782400 + 86400)"
proof -
  have "posix_time_from_utc 2000 2 29 0 0 0 = Some 951782400"
    by (simp add: posix_time_from_utc_def is_valid_date_def is_valid_time_def)
  from posix_time_next_day [OF this] show ?thesis by (simp add: next_date_def days_in_month_def)
qed

end
