(* ===== verification/ASN1_Time.thy ===== *)
theory ASN1_Time
  imports CBS Posix_Time
begin

text \<open>
  The parsers of UTCTime and GeneralizedTime in crypto/bytestring/cbs.c, within the limits of
  RFC 5280.
\<close>

unbundle bit_operations_syntax

section \<open>UTCTime and GeneralizedTime\<close>

definition cbs_get_two_digits :: "(cbs, int) routine" where
  "cbs_get_two_digits =
     andthen CBS_get_u8 (\<lambda>first_digit.
     andthen (require (OPENSSL_isdigit (uint first_digit))) (\<lambda>_.
     andthen CBS_get_u8 (\<lambda>second_digit.
     andthen (require (OPENSSL_isdigit (uint second_digit))) (\<lambda>_.
       succeed ((uint first_digit - 48) * 10 + (uint second_digit - 48))))))"

definition is_valid_day :: "int \<Rightarrow> int \<Rightarrow> int \<Rightarrow> bool" where
  "is_valid_day year month day =
     (if day < 1 then False
      else if month \<in> {1, 3, 5, 7, 8, 10, 12} then day \<le> 31
      else if month \<in> {4, 6, 9, 11} then day \<le> 30
      else if month = 2 then
        if (year smod 4 = 0 \<and> year smod 100 \<noteq> 0) \<or> year smod 400 = 0 then day \<le> 29 else day \<le> 28
      else False)"

text \<open>The parts of \<open>CBS_parse_rfc5280_time_internal\<close>: the year, the other fields with the character
  after them, and the offset, in the order in which they are read from the copy of the input.\<close>

definition rfc5280_year :: "bool \<Rightarrow> (cbs, int) routine" where
  "rfc5280_year is_gentime =
     (if is_gentime then
        andthen cbs_get_two_digits (\<lambda>t1. andthen cbs_get_two_digits (\<lambda>t2. succeed (t1 * 100 + t2)))
      else
        andthen cbs_get_two_digits (\<lambda>tmp.
          let year = 1900 + tmp; year = (if year < 1950 then year + 100 else year)
          in andthen (require (\<not> year \<ge> 2050)) (\<lambda>_. succeed year)))"

definition rfc5280_fields :: "int \<Rightarrow> (cbs, int \<times> int \<times> int \<times> int \<times> int \<times> u8) routine" where
  "rfc5280_fields year =
     andthen cbs_get_two_digits (\<lambda>month. andthen (require (\<not> month < 1 \<and> \<not> month > 12)) (\<lambda>_.
     andthen cbs_get_two_digits (\<lambda>day. andthen (require (is_valid_day year month day)) (\<lambda>_.
     andthen cbs_get_two_digits (\<lambda>hour. andthen (require (\<not> hour > 23)) (\<lambda>_.
     andthen cbs_get_two_digits (\<lambda>mi. andthen (require (\<not> mi > 59)) (\<lambda>_.
     andthen cbs_get_two_digits (\<lambda>sec. andthen (require (\<not> sec > 59)) (\<lambda>_.
     andthen CBS_get_u8 (\<lambda>tz. succeed (month, day, hour, mi, sec, tz))))))))))))"

definition rfc5280_offset :: "bool \<Rightarrow> u8 \<Rightarrow> (cbs, int) routine" where
  "rfc5280_offset allow_timezone_offset tz =
     andthen (require (tz = 90 \<or> tz = 43 \<or> tz = 45)) (\<lambda>_.
       let offset_sign = (if tz = 90 then 0 else if tz = 43 then 1 else - 1)
       in if offset_sign \<noteq> 0 then
            andthen (require allow_timezone_offset) (\<lambda>_.
            andthen cbs_get_two_digits (\<lambda>offset_hours. andthen (require (\<not> offset_hours > 23)) (\<lambda>_.
            andthen cbs_get_two_digits (\<lambda>offset_minutes. andthen (require (\<not> offset_minutes > 59)) (\<lambda>_.
              succeed (offset_sign * (offset_hours * 3600 + offset_minutes * 60)))))))
          else succeed 0)"

definition rfc5280_text :: "bool \<Rightarrow> bool \<Rightarrow> (cbs, int \<times> int \<times> int \<times> int \<times> int \<times> int \<times> int) routine" where
  "rfc5280_text is_gentime allow_timezone_offset =
     andthen (rfc5280_year is_gentime) (\<lambda>year.
     andthen (rfc5280_fields year) (\<lambda>(month, day, hour, mi, sec, tz).
     andthen (rfc5280_offset allow_timezone_offset tz) (\<lambda>offset_seconds.
     andthen get_state (\<lambda>copy. andthen (require (CBS_len copy = 0)) (\<lambda>_.
       succeed (year, month, day, hour, mi, sec, offset_seconds))))))"

text \<open>\<open>out_tm\<close> is \<open>None\<close> for the null pointer and otherwise what it points to before the call; the
  result is the return value with what it points to afterwards.\<close>

definition CBS_parse_rfc5280_time_internal :: "cbs \<Rightarrow> bool \<Rightarrow> bool \<Rightarrow> tm option \<Rightarrow> bool \<times> tm option" where
  "CBS_parse_rfc5280_time_internal s is_gentime allow_timezone_offset out_tm =
     (case rfc5280_text is_gentime allow_timezone_offset s of
        (None, _) \<Rightarrow> (False, out_tm)
      | (Some (year, month, day, hour, mi, sec, offset_seconds), _) \<Rightarrow>
          (case out_tm of
             None \<Rightarrow> (True, None)
           | Some t \<Rightarrow>
               let t = set_utc (year, month, day, hour, mi, sec) t
               in if offset_seconds \<noteq> 0 then
                    (case OPENSSL_gmtime_adj t 0 offset_seconds of
                       None \<Rightarrow> (False, Some t)
                     | Some t \<Rightarrow> (True, Some t))
                  else (True, Some t)))"

definition CBS_parse_generalized_time :: "cbs \<Rightarrow> tm option \<Rightarrow> bool \<Rightarrow> bool \<times> tm option" where
  "CBS_parse_generalized_time s out_tm allow_timezone_offset =
     CBS_parse_rfc5280_time_internal s True allow_timezone_offset out_tm"

definition CBS_parse_utc_time :: "cbs \<Rightarrow> tm option \<Rightarrow> bool \<Rightarrow> bool \<times> tm option" where
  "CBS_parse_utc_time s out_tm allow_timezone_offset =
     CBS_parse_rfc5280_time_internal s False allow_timezone_offset out_tm"

section \<open>What the parsers accept\<close>

definition two_digits :: "int \<Rightarrow> bytes" where
  "two_digits n = [of_int (48 + n div 10), of_int (48 + n mod 10)]"

lemma get_two_digits_iff:
  "cbs_get_two_digits s = (Some n, s') \<longleftrightarrow> 0 \<le> n \<and> n \<le> 99 \<and> s = two_digits n @ s'"
proof
  assume "cbs_get_two_digits s = (Some n, s')"
  then obtain a b where s: "s = a # b # s'" and d: "OPENSSL_isdigit (uint a)" "OPENSSL_isdigit (uint b)"
    and n: "n = (uint a - 48) * 10 + (uint b - 48)"
    by (auto simp: cbs_get_two_digits_def andthen_eq_Some CBS_get_u8_eq_Some)
  from d have "48 \<le> uint a" "uint a \<le> 57" "48 \<le> uint b" "uint b \<le> 57" by (simp_all add: OPENSSL_isdigit_def)
  moreover from this have "n div 10 = uint a - 48" "n mod 10 = uint b - 48"
    by (auto simp: n intro!: int_div_pos_eq [of _ _ _ "uint b - 48"] int_mod_pos_eq [of _ _ "uint a - 48"])
  ultimately have "n div 10 = uint a - 48" "n mod 10 = uint b - 48" "0 \<le> n" "n \<le> 99" by (simp_all add: n)
  then show "0 \<le> n \<and> n \<le> 99 \<and> s = two_digits n @ s'" by (simp add: two_digits_def s)
next
  assume "0 \<le> n \<and> n \<le> 99 \<and> s = two_digits n @ s'"
  moreover from this have "0 \<le> n div 10" "n div 10 \<le> 9" "0 \<le> n mod 10" "n mod 10 \<le> 9" "10 * (n div 10) + n mod 10 = n"
    by auto
  moreover have "uint (of_int (48 + k) :: u8) = 48 + k" if "0 \<le> k" "k \<le> 9" for k
    using that by (simp add: uint_word_of_int del: of_int_add)
  ultimately show "cbs_get_two_digits s = (Some n, s')"
    by (auto simp: cbs_get_two_digits_def andthen_apply two_digits_def OPENSSL_isdigit_def require_def succeed_def
        simp del: of_int_add)
qed

lemma is_valid_day_date: "0 \<le> year \<Longrightarrow> year \<le> 9999 \<Longrightarrow> 1 \<le> month \<Longrightarrow> is_valid_day year month day = is_valid_date year month day"
  by (auto simp: is_valid_day_def is_valid_date_def)

text \<open>The text of the fields that both formats share.\<close>

definition fields_text :: "int \<Rightarrow> int \<Rightarrow> int \<Rightarrow> int \<Rightarrow> int \<Rightarrow> bytes" where
  "fields_text month day h mi s = two_digits month @ two_digits day @ two_digits h @ two_digits mi @ two_digits s"

definition year_text :: "bool \<Rightarrow> int \<Rightarrow> bytes" where
  "year_text is_gentime year = (if is_gentime then two_digits (year div 100) @ two_digits (year mod 100) else two_digits (year mod 100))"

definition year_fits :: "bool \<Rightarrow> int \<Rightarrow> bool" where
  "year_fits is_gentime year \<longleftrightarrow> (if is_gentime then 0 \<le> year \<and> year \<le> 9999 else 1950 \<le> year \<and> year \<le> 2049)"

lemma rfc5280_year_iff:
  "rfc5280_year g s = (Some year, s') \<longleftrightarrow> year_fits g year \<and> s = year_text g year @ s'"
proof (cases g)
  case True
  have "(\<exists>a b. 0 \<le> a \<and> a \<le> 99 \<and> 0 \<le> b \<and> b \<le> 99 \<and> s = two_digits a @ two_digits b @ s' \<and> year = a * 100 + b) \<longleftrightarrow>
      0 \<le> year \<and> year \<le> 9999 \<and> s = two_digits (year div 100) @ two_digits (year mod 100) @ s'" (is "?l \<longleftrightarrow> ?r")
  proof
    assume ?r
    then have "0 \<le> year div 100" "year div 100 \<le> 99" "0 \<le> year mod 100" "year mod 100 \<le> 99" by auto
    with \<open>?r\<close> show ?l by (intro exI [of _ "year div 100"] exI [of _ "year mod 100"]) auto
  qed auto
  then show ?thesis using True
    by (auto simp: rfc5280_year_def andthen_eq_Some get_two_digits_iff year_fits_def year_text_def)
next
  case False
  have "(\<exists>a. 0 \<le> a \<and> a \<le> 99 \<and> s = two_digits a @ s' \<and> year = (if a < 50 then 2000 + a else 1900 + a)) \<longleftrightarrow>
      1950 \<le> year \<and> year \<le> 2049 \<and> s = two_digits (year mod 100) @ s'" (is "?l \<longleftrightarrow> ?r")
  proof -
    have m: "x mod 100 = x - 1900" if "1900 \<le> x" "x < 2000" for x :: int
      using that by (intro int_mod_pos_eq [of _ _ 19]) auto
    have m': "x mod 100 = x - 2000" if "2000 \<le> x" "x < 2100" for x :: int
      using that by (intro int_mod_pos_eq [of _ _ 20]) auto
    show ?thesis
    proof
      assume ?r
      then show ?l
      proof (cases "year < 2000")
        case True
        with \<open>?r\<close> m [of year] show ?thesis by (intro exI [of _ "year - 1900"]) simp
      next
        case False
        with \<open>?r\<close> m' [of year] show ?thesis by (intro exI [of _ "year - 2000"]) simp
      qed
    next
      assume ?l
      then obtain a where a: "0 \<le> a" "a \<le> 99" "s = two_digits a @ s'" "year = (if a < 50 then 2000 + a else 1900 + a)" by blast
      have "year mod 100 = a \<and> 1950 \<le> year \<and> year \<le> 2049"
      proof (cases "a < 50")
        case True
        then have y: "year = 2000 + a" using a(4) by simp
        have "year mod 100 = year - 2000" by (rule m') (use y a(1,2) in linarith)+
        then show ?thesis using y a(1) True by linarith
      next
        case False
        then have y: "year = 1900 + a" using a(4) by simp
        have "year mod 100 = year - 1900" by (rule m) (use y a(1,2) in linarith)+
        then show ?thesis using y a(2) False by linarith
      qed
      with a(3) show ?r by blast
    qed
  qed
  moreover have "rfc5280_year False s = (Some year, s') \<longleftrightarrow>
      (\<exists>a. 0 \<le> a \<and> a \<le> 99 \<and> s = two_digits a @ s' \<and> year = (if a < 50 then 2000 + a else 1900 + a))"
  proof -
    let ?body = "\<lambda>tmp. let year = 1900 + tmp; year = (if year < 1950 then year + 100 else year)
           in andthen (require (\<not> year \<ge> 2050)) (\<lambda>_. succeed year) :: (cbs, int) routine"
    have body: "?body a s1 = (Some year, s') \<longleftrightarrow> year = (if a < 50 then 2000 + a else 1900 + a) \<and> s' = s1" if "a \<le> 99" for a s1
      using that by (cases "a < 50") (auto simp: Let_def andthen_apply require_def succeed_def)
    have "rfc5280_year False s = (Some year, s') \<longleftrightarrow>
        (\<exists>a s1. (0 \<le> a \<and> a \<le> 99 \<and> s = two_digits a @ s1) \<and> ?body a s1 = (Some year, s'))"
      unfolding rfc5280_year_def if_False if_True simp_thms andthen_eq_Some get_two_digits_iff by (rule TrueI)
    then show ?thesis using body by metis
  qed
  ultimately show ?thesis using False by (simp add: year_fits_def year_text_def)
qed
lemma rfc5280_fields_iff:
  assumes "0 \<le> year" "year \<le> 9999"
  shows "rfc5280_fields year s = (Some (month, day, h, mi, sec, tz), s') \<longleftrightarrow>
    is_valid_date year month day \<and> is_valid_time h mi sec \<and> s = fields_text month day h mi sec @ tz # s'"
proof
  assume "rfc5280_fields year s = (Some (month, day, h, mi, sec, tz), s')"
  then have "1 \<le> month" "month \<le> 12" "is_valid_day year month day" "0 \<le> h" "h \<le> 23" "0 \<le> mi" "mi \<le> 59" "0 \<le> sec" "sec \<le> 59"
    "s = fields_text month day h mi sec @ tz # s'"
    by (auto simp: rfc5280_fields_def andthen_eq_Some get_two_digits_iff CBS_get_u8_eq_Some fields_text_def)
  then show "is_valid_date year month day \<and> is_valid_time h mi sec \<and> s = fields_text month day h mi sec @ tz # s'"
    using is_valid_day_date [OF assms] by (simp add: is_valid_time_def)
next
  assume a: "is_valid_date year month day \<and> is_valid_time h mi sec \<and> s = fields_text month day h mi sec @ tz # s'"
  then have "1 \<le> month" "month \<le> 12" "1 \<le> day" "day \<le> 31"
    by (auto simp: is_valid_date_calendar days_in_month_def split: if_splits)
  moreover from this have "is_valid_day year month day" using a is_valid_day_date [OF assms] by simp
  moreover have "0 \<le> h" "h \<le> 23" "0 \<le> mi" "mi \<le> 59" "0 \<le> sec" "sec \<le> 59" using a by (auto simp: is_valid_time_def)
  moreover have "cbs_get_two_digits (two_digits n @ r) = (Some n, r)" if "0 \<le> n" "n \<le> 99" for n r
    using that get_two_digits_iff by blast
  ultimately show "rfc5280_fields year s = (Some (month, day, h, mi, sec, tz), s')"
    using a by (simp add: rfc5280_fields_def andthen_apply require_def succeed_def fields_text_def)
qed

lemma rfc5280_offset_strict: "rfc5280_offset False tz s = (Some off, s') \<longleftrightarrow> tz = 90 \<and> off = 0 \<and> s' = s"
  by (auto simp: rfc5280_offset_def Let_def andthen_eq_Some)

lemma year_fits_range: "year_fits g year \<Longrightarrow> 0 \<le> year \<and> year \<le> 9999"
  by (auto simp: year_fits_def split: if_splits)

lemma rfc5280_text_iff:
  "rfc5280_text g al s = (Some (year, month, day, h, mi, sec, off), s') \<longleftrightarrow>
     year_fits g year \<and> is_valid_date year month day \<and> is_valid_time h mi sec \<and> s' = [] \<and>
     (\<exists>tz w. s = year_text g year @ fields_text month day h mi sec @ tz # w \<and> rfc5280_offset al tz w = (Some off, []))"
proof
  assume "rfc5280_text g al s = (Some (year, month, day, h, mi, sec, off), s')"
  then obtain s1 tz s2 where y: "rfc5280_year g s = (Some year, s1)"
    and f: "rfc5280_fields year s1 = (Some (month, day, h, mi, sec, tz), s2)"
    and o: "rfc5280_offset al tz s2 = (Some off, s')" and e: "CBS_len s' = 0"
    by (auto simp: rfc5280_text_def andthen_eq_Some get_state_def split: prod.splits)
  from y have y': "year_fits g year" "s = year_text g year @ s1" by (simp_all add: rfc5280_year_iff)
  with year_fits_range have "0 \<le> year" "year \<le> 9999" by blast+
  from f [unfolded rfc5280_fields_iff [OF this]] o e y'
  show "year_fits g year \<and> is_valid_date year month day \<and> is_valid_time h mi sec \<and> s' = [] \<and>
     (\<exists>tz w. s = year_text g year @ fields_text month day h mi sec @ tz # w \<and> rfc5280_offset al tz w = (Some off, []))"
    by (auto simp: CBS_len_def)
next
  assume a: "year_fits g year \<and> is_valid_date year month day \<and> is_valid_time h mi sec \<and> s' = [] \<and>
     (\<exists>tz w. s = year_text g year @ fields_text month day h mi sec @ tz # w \<and> rfc5280_offset al tz w = (Some off, []))"
  then obtain tz w where s: "s = year_text g year @ fields_text month day h mi sec @ tz # w"
    and o: "rfc5280_offset al tz w = (Some off, [])" by blast
  have "0 \<le> year" "year \<le> 9999" using a year_fits_range by blast+
  from rfc5280_fields_iff [OF this] a
  have "rfc5280_fields year (fields_text month day h mi sec @ tz # w) = (Some (month, day, h, mi, sec, tz), w)" by blast
  moreover have "rfc5280_year g s = (Some year, fields_text month day h mi sec @ tz # w)"
    using a s rfc5280_year_iff by blast
  ultimately show "rfc5280_text g al s = (Some (year, month, day, h, mi, sec, off), s')"
    using o a by (simp add: rfc5280_text_def andthen_apply get_state_def require_def succeed_def CBS_len_def)
qed

lemma rfc5280_offset_given:
  assumes "0 \<le> hh" "hh \<le> 23" "0 \<le> mm" "mm \<le> 59"
  shows "rfc5280_offset True (if behind then 45 else 43) (two_digits hh @ two_digits mm) =
    (Some ((if behind then - 1 else 1) * (hh * 3600 + mm * 60)), [])"
proof -
  have "cbs_get_two_digits (two_digits n @ r) = (Some n, r)" if "0 \<le> n" "n \<le> 99" for n r
    using that get_two_digits_iff by blast
  from this [of hh "two_digits mm"] this [of mm "[]"] assms show ?thesis
    by (simp add: rfc5280_offset_def Let_def andthen_apply require_def succeed_def)
qed

section \<open>Properties\<close>


text \<open>Where offsets are allowed, a time with an offset of \<open>hh\<close> hours and \<open>mm\<close> minutes is stored as
  the written time plus the offset if it has a plus sign, and minus the offset if it has a minus
  sign, and is refused if that leaves the years 0 to 9999.\<close>

lemma rfc5280_offset_added:
  assumes "year_fits is_gentime year" "posix_time_from_utc year month day h mi sec = Some p"
    and "0 \<le> hh" "hh \<le> 23" "0 \<le> mm" "mm \<le> 59" "hh * 3600 + mm * 60 \<noteq> 0"
    and "off = (if behind then - 1 else 1) * (hh * 3600 + mm * 60)"
    and "s = year_text is_gentime year @ fields_text month day h mi sec @ (if behind then 45 else 43) # two_digits hh @ two_digits mm"
  shows "(is_valid_epoch_time (p + off) \<longrightarrow>
      (\<exists>t'. CBS_parse_rfc5280_time_internal s is_gentime True (Some t) = (True, Some t') \<and>
         OPENSSL_tm_to_posix t' = Some (p + off))) \<and>
    (\<not> is_valid_epoch_time (p + off) \<longrightarrow> \<not> fst (CBS_parse_rfc5280_time_internal s is_gentime True (Some t)))"
proof -
  have v: "is_valid_date year month day" "is_valid_time h mi sec" using assms(2) by (auto simp: posix_time_eq split: if_splits)
  have off: "off \<noteq> 0" using assms(7,8) by simp
  have parsed: "rfc5280_text is_gentime True s = (Some (year, month, day, h, mi, sec, off), [])"
    unfolding rfc5280_text_iff using assms(1,8,9) v rfc5280_offset_given [OF assms(3-6)] by blast
  have adj: "OPENSSL_gmtime_adj (set_utc (year, month, day, h, mi, sec) t) 0 off =
      map_option (\<lambda>u. set_utc u (set_utc (year, month, day, h, mi, sec) t)) (utc_from_posix_time (p + off))"
    using assms(2) by (simp add: OPENSSL_gmtime_adj_def set_utc_def)
  show ?thesis
  proof (cases "utc_from_posix_time (p + off)")
    case None
    then have "\<not> is_valid_epoch_time (p + off)" using posix_time_valid_iff by blast
    then show ?thesis using adj off parsed None by (simp add: CBS_parse_rfc5280_time_internal_def Let_def)
  next
    case (Some u)
    obtain y' m' d' h' mi' s' where u: "u = (y', m', d', h', mi', s')" by (metis prod_cases6)
    then have "posix_time_from_utc y' m' d' h' mi' s' = Some (p + off)" using Some utc_posix by simp
    then have "OPENSSL_tm_to_posix (set_utc u t0) = Some (p + off)" for t0
      by (simp add: OPENSSL_tm_to_posix_def set_utc_def u)
    moreover have "is_valid_epoch_time (p + off)" using Some posix_time_valid_iff by (metis option.distinct(1))
    ultimately show ?thesis using adj off parsed Some
      by (simp add: CBS_parse_rfc5280_time_internal_def Let_def)
  qed
qed

lemma rfc5280_offset_added_example:
  "\<exists>t t'. CBS_parse_rfc5280_time_internal
      (year_text False 1970 @ fields_text 1 2 0 0 0 @ 43 # two_digits 1 @ two_digits 0) False True (Some t) = (True, Some t') \<and>
    OPENSSL_tm_to_posix t' = Some 90000"
proof -
  have "posix_time_from_utc 1970 1 2 0 0 0 = Some 86400"
    by (simp add: posix_time_from_utc_def is_valid_date_def is_valid_time_def)
  from rfc5280_offset_added [OF _ this, of False 1 0 3600 False]
  show ?thesis by (simp add: year_fits_def is_valid_epoch_time_def)
qed

end
