(* ===== verification/Stack.thy ===== *)
theory Stack imports Mem Comparison "HOL-Library.Multiset" begin

text \<open>
  Stacks of pointers, crypto/stack/stack.c. A pointer is an \<open>'p option\<close>, with \<open>None\<close> for the null
  pointer, and so is the pointer to the stack itself: every operation takes the null stack and
  returns what the C code returns for it. A comparison function is known by its address, of type
  \<open>'c\<close>, and called through \<open>call_cmp_func\<close> as in the C code. Whether an allocation of a given number
  of bytes succeeds is the parameter \<open>al\<close>; memory that has not been written reads as null here, and
  no operation depends on it. Sizes are natural numbers below 2^64.
\<close>

type_synonym 'p pointer = "'p option"
type_synonym ('p, 'c) call_cmp = "'c \<Rightarrow> 'p pointer \<Rightarrow> 'p pointer \<Rightarrow> int"

record ('p, 'c) stack_st =
  num :: nat
  data :: "'p pointer list"
  sorted_flag :: bool
  num_alloc :: nat
  comp :: "'c option"

definition kMinSize :: nat where "kMinSize = 4"
definition SK_INT_MAX :: nat where "SK_INT_MAX = 2 ^ 31 - 1"

text \<open>\<open>sizeof(OPENSSL_STACK)\<close> is 40 where pointers have eight bytes.\<close>

definition OPENSSL_sk_new :: "(nat \<Rightarrow> bool) \<Rightarrow> 'c option \<Rightarrow> ('p, 'c) stack_st option" where
  "OPENSSL_sk_new al c =
     (if al 40 \<and> al (kMinSize * 8)
      then Some \<lparr>num = 0, data = replicate kMinSize None, sorted_flag = False, num_alloc = kMinSize, comp = c\<rparr>
      else None)"

definition OPENSSL_sk_new_null :: "(nat \<Rightarrow> bool) \<Rightarrow> ('p, 'c) stack_st option" where
  "OPENSSL_sk_new_null al = OPENSSL_sk_new al None"

definition OPENSSL_sk_num :: "('p, 'c) stack_st option \<Rightarrow> nat" where
  "OPENSSL_sk_num sk = (case sk of None \<Rightarrow> 0 | Some sk \<Rightarrow> num sk)"

definition OPENSSL_sk_zero :: "('p, 'c) stack_st option \<Rightarrow> ('p, 'c) stack_st option" where
  "OPENSSL_sk_zero sk =
     (case sk of None \<Rightarrow> None
      | Some sk \<Rightarrow>
          if num sk = 0 then Some sk
          else Some (sk\<lparr>data := replicate (num sk) None @ drop (num sk) (data sk), num := 0, sorted_flag := False\<rparr>))"

definition OPENSSL_sk_value :: "('p, 'c) stack_st option \<Rightarrow> nat \<Rightarrow> 'p pointer" where
  "OPENSSL_sk_value sk i =
     (case sk of None \<Rightarrow> None | Some sk \<Rightarrow> if i \<ge> num sk then None else data sk ! i)"

definition OPENSSL_sk_set ::
  "('p, 'c) stack_st option \<Rightarrow> nat \<Rightarrow> 'p pointer \<Rightarrow> 'p pointer \<times> ('p, 'c) stack_st option" where
  "OPENSSL_sk_set sk i value =
     (case sk of None \<Rightarrow> (None, None)
      | Some sk \<Rightarrow>
          if i \<ge> num sk then (None, Some sk)
          else (value, Some (sk\<lparr>data := (data sk)[i := value]\<rparr>)))"

text \<open>The pointers on which \<open>free_func\<close> is called, in order; the stack itself is freed too.\<close>

definition OPENSSL_sk_pop_free_ex :: "('p, 'c) stack_st option \<Rightarrow> 'p list" where
  "OPENSSL_sk_pop_free_ex sk =
     (case sk of None \<Rightarrow> []
      | Some sk \<Rightarrow> concat (map (\<lambda>i. case data sk ! i of None \<Rightarrow> [] | Some p \<Rightarrow> [p]) [0..<num sk]))"

text \<open>Growing the array before an insertion; \<open>None\<close> if that fails.\<close>

definition sk_grow :: "(nat \<Rightarrow> bool) \<Rightarrow> ('p, 'c) stack_st \<Rightarrow> ('p, 'c) stack_st option" where
  "sk_grow al sk =
     (if num_alloc sk \<le> num sk + 1 then
        let new_alloc = (num_alloc sk * 2) mod 2 ^ 64;
            alloc_size = (new_alloc * 8) mod 2 ^ 64;
            (new_alloc, alloc_size) =
              (if new_alloc < num_alloc sk \<or> alloc_size div 8 \<noteq> new_alloc
               then ((num_alloc sk + 1) mod 2 ^ 64, ((num_alloc sk + 1) mod 2 ^ 64 * 8) mod 2 ^ 64)
               else (new_alloc, alloc_size))
        in if new_alloc < num_alloc sk \<or> alloc_size div 8 \<noteq> new_alloc then None
           else if al alloc_size
           then Some (sk\<lparr>data := take new_alloc (data sk) @ replicate (new_alloc - length (data sk)) None, num_alloc := new_alloc\<rparr>)
           else None
      else Some sk)"

text \<open>\<open>OPENSSL_memmove\<close> of \<open>n\<close> pointers from index \<open>src\<close> to index \<open>dst\<close> of the same array.\<close>

definition move_pointers :: "nat \<Rightarrow> nat \<Rightarrow> nat \<Rightarrow> 'a list \<Rightarrow> 'a list" where
  "move_pointers dst src n xs = take dst xs @ take n (drop src xs) @ drop (dst + n) xs"

definition OPENSSL_sk_insert ::
  "(nat \<Rightarrow> bool) \<Rightarrow> ('p, 'c) stack_st option \<Rightarrow> 'p pointer \<Rightarrow> nat \<Rightarrow> nat \<times> ('p, 'c) stack_st option" where
  "OPENSSL_sk_insert al sk p where_idx =
     (case sk of None \<Rightarrow> (0, None)
      | Some sk \<Rightarrow>
          if num sk \<ge> SK_INT_MAX then (0, Some sk)
          else
            (case sk_grow al sk of
               None \<Rightarrow> (0, Some sk)
             | Some sk \<Rightarrow>
                 let d = (if where_idx \<ge> num sk then (data sk)[num sk := p]
                          else (move_pointers (where_idx + 1) where_idx (num sk - where_idx) (data sk))[where_idx := p])
                 in (num sk + 1, Some (sk\<lparr>data := d, num := num sk + 1, sorted_flag := False\<rparr>))))"

definition OPENSSL_sk_delete ::
  "('p, 'c) stack_st option \<Rightarrow> nat \<Rightarrow> 'p pointer \<times> ('p, 'c) stack_st option" where
  "OPENSSL_sk_delete sk where_idx =
     (case sk of None \<Rightarrow> (None, None)
      | Some sk \<Rightarrow>
          if where_idx \<ge> num sk then (None, Some sk)
          else
            let ret = data sk ! where_idx;
                d = (if where_idx \<noteq> num sk - 1
                     then move_pointers where_idx (where_idx + 1) (num sk - where_idx - 1) (data sk) else data sk)
            in (ret, Some (sk\<lparr>data := d, num := num sk - 1\<rparr>)))"

text \<open>The first index below \<open>n\<close> with a property: the linear searches of the code.\<close>

definition first_index :: "(nat \<Rightarrow> bool) \<Rightarrow> nat \<Rightarrow> nat option" where
  "first_index P n = List.find P [0..<n]"

definition OPENSSL_sk_delete_ptr ::
  "('p, 'c) stack_st option \<Rightarrow> 'p pointer \<Rightarrow> 'p pointer \<times> ('p, 'c) stack_st option" where
  "OPENSSL_sk_delete_ptr sk p =
     (case sk of None \<Rightarrow> (None, None)
      | Some s \<Rightarrow>
          (case first_index (\<lambda>i. data s ! i = p) (num s) of
             Some i \<Rightarrow> OPENSSL_sk_delete sk i
           | None \<Rightarrow> (None, sk)))"

text \<open>The loop of \<open>OPENSSL_sk_delete_if\<close>, from index \<open>i\<close> on; \<open>k\<close> turns are left.\<close>

primrec delete_if_loop :: "('p pointer \<Rightarrow> bool) \<Rightarrow> nat \<Rightarrow> nat \<Rightarrow> nat \<Rightarrow> 'p pointer list \<Rightarrow> nat \<times> 'p pointer list" where
  "delete_if_loop drop_it 0 i new_num d = (new_num, d)"
| "delete_if_loop drop_it (Suc k) i new_num d =
     (if \<not> drop_it (d ! i) then delete_if_loop drop_it k (i + 1) (new_num + 1) (d[new_num := d ! i])
      else delete_if_loop drop_it k (i + 1) new_num d)"

definition OPENSSL_sk_delete_if ::
  "('p, 'c) stack_st option \<Rightarrow> ('p pointer \<Rightarrow> bool) \<Rightarrow> ('p, 'c) stack_st option" where
  "OPENSSL_sk_delete_if sk drop_it =
     (case sk of None \<Rightarrow> None
      | Some sk \<Rightarrow>
          (case delete_if_loop drop_it (num sk) 0 0 (data sk) of
             (new_num, d) \<Rightarrow> Some (sk\<lparr>data := d, num := new_num\<rparr>)))"

definition OPENSSL_sk_is_sorted :: "('p, 'c) stack_st option \<Rightarrow> bool" where
  "OPENSSL_sk_is_sorted sk =
     (case sk of None \<Rightarrow> True | Some sk \<Rightarrow> sorted_flag sk \<or> comp sk \<noteq> None \<and> num sk < 2)"

text \<open>The binary search: \<open>cmp_at i\<close> compares the key with the element at \<open>i\<close>.\<close>

function binary_search :: "(nat \<Rightarrow> int) \<Rightarrow> nat \<Rightarrow> nat \<Rightarrow> nat option" where
  "binary_search cmp_at lo hi =
     (if lo < hi then
        let mid = lo + (hi - lo - 1) div 2; r = cmp_at mid
        in if r > 0 then binary_search cmp_at (mid + 1) hi
           else if r < 0 then binary_search cmp_at lo mid
           else if hi - lo = 1 then Some mid
           else binary_search cmp_at lo (mid + 1)
      else None)"
  by pat_completeness auto
termination
  by (relation "measure (\<lambda>(c, lo, hi). hi - lo)") (auto simp: less_diff_conv2)

declare binary_search.simps [simp del]

definition OPENSSL_sk_find ::
  "('p, 'c) call_cmp \<Rightarrow> ('p, 'c) stack_st option \<Rightarrow> 'p pointer \<Rightarrow> nat option" where
  "OPENSSL_sk_find call_cmp_func sk p =
     (case sk of None \<Rightarrow> None
      | Some s \<Rightarrow>
          (case comp s of
             None \<Rightarrow> first_index (\<lambda>i. data s ! i = p) (num s)
           | Some c \<Rightarrow>
               if p = None then None
               else if \<not> OPENSSL_sk_is_sorted sk
               then first_index (\<lambda>i. call_cmp_func c p (data s ! i) = 0) (num s)
               else binary_search (\<lambda>i. call_cmp_func c p (data s ! i)) 0 (num s)))"

definition OPENSSL_sk_shift :: "('p, 'c) stack_st option \<Rightarrow> 'p pointer \<times> ('p, 'c) stack_st option" where
  "OPENSSL_sk_shift sk =
     (case sk of None \<Rightarrow> (None, None)
      | Some s \<Rightarrow> if num s = 0 then (None, sk) else OPENSSL_sk_delete sk 0)"

definition OPENSSL_sk_push ::
  "(nat \<Rightarrow> bool) \<Rightarrow> ('p, 'c) stack_st \<Rightarrow> 'p pointer \<Rightarrow> nat \<times> ('p, 'c) stack_st option" where
  "OPENSSL_sk_push al sk p = OPENSSL_sk_insert al (Some sk) p (num sk)"

definition OPENSSL_sk_pop :: "('p, 'c) stack_st option \<Rightarrow> 'p pointer \<times> ('p, 'c) stack_st option" where
  "OPENSSL_sk_pop sk =
     (case sk of None \<Rightarrow> (None, None)
      | Some s \<Rightarrow> if num s = 0 then (None, sk) else OPENSSL_sk_delete sk (num s - 1))"

definition OPENSSL_sk_dup :: "(nat \<Rightarrow> bool) \<Rightarrow> ('p, 'c) stack_st option \<Rightarrow> ('p, 'c) stack_st option" where
  "OPENSSL_sk_dup al sk =
     (case sk of None \<Rightarrow> None
      | Some sk \<Rightarrow>
          if al 40 \<and> al (8 * num_alloc sk)
          then Some \<lparr>num = num sk, data = data sk, sorted_flag = sorted_flag sk, num_alloc = num_alloc sk, comp = comp sk\<rparr>
          else None)"

definition parent_idx :: "nat \<Rightarrow> nat" where
  "parent_idx idx = (idx - 1) div 2"

definition left_idx :: "nat \<Rightarrow> nat" where
  "left_idx idx = 2 * idx + 1"

definition swap :: "nat \<Rightarrow> nat \<Rightarrow> 'a list \<Rightarrow> 'a list" where
  "swap i j xs = xs[i := xs ! j, j := xs ! i]"

text \<open>The child of \<open>i\<close> with which \<open>down_heap\<close> swaps it, or \<open>i\<close>.\<close>

definition largest_child :: "('a \<Rightarrow> 'a \<Rightarrow> int) \<Rightarrow> nat \<Rightarrow> nat \<Rightarrow> 'a list \<Rightarrow> nat" where
  "largest_child cmp i n xs =
     (let left = left_idx i;
          next_idx = (if cmp (xs ! i) (xs ! left) < 0 then left else i);
          right = left + 1
      in if right < n \<and> cmp (xs ! next_idx) (xs ! right) < 0 then right else next_idx)"

function down_heap :: "('a \<Rightarrow> 'a \<Rightarrow> int) \<Rightarrow> nat \<Rightarrow> nat \<Rightarrow> 'a list \<Rightarrow> 'a list" where
  "down_heap cmp i n xs =
     (if left_idx i \<ge> n then xs
      else let next_idx = largest_child cmp i n xs
           in if i = next_idx then xs else down_heap cmp next_idx n (swap i next_idx xs))"
  by pat_completeness auto

lemma largest_child_cases:
  "left_idx i < n \<Longrightarrow> largest_child cmp i n xs = i \<or> largest_child cmp i n xs = 2 * i + 1 \<or>
     largest_child cmp i n xs = 2 * i + 2 \<and> 2 * i + 2 < n"
  by (auto simp: largest_child_def left_idx_def Let_def)

termination down_heap
proof (relation "measure (\<lambda>(cmp, i, n, xs). n - i)")
  fix cmp :: "'a \<Rightarrow> 'a \<Rightarrow> int" and i n xs next_idx
  assume "\<not> n \<le> left_idx i" "next_idx = largest_child cmp i n xs" "i \<noteq> next_idx"
  then show "((cmp, next_idx, n, swap i next_idx xs), cmp, i, n, xs) \<in> measure (\<lambda>(cmp, i, n, xs). n - i)"
    using largest_child_cases [of i n cmp xs] by (auto simp: left_idx_def)
qed simp

declare down_heap.simps [simp del]

text \<open>The first loop of \<open>OPENSSL_sk_sort\<close>, down to index 0, and the second one.\<close>

primrec build_heap :: "('a \<Rightarrow> 'a \<Rightarrow> int) \<Rightarrow> nat \<Rightarrow> nat \<Rightarrow> 'a list \<Rightarrow> 'a list" where
  "build_heap cmp n 0 xs = down_heap cmp 0 n xs"
| "build_heap cmp n (Suc i) xs = build_heap cmp n i (down_heap cmp (Suc i) n xs)"

primrec extract_loop :: "('a \<Rightarrow> 'a \<Rightarrow> int) \<Rightarrow> nat \<Rightarrow> 'a list \<Rightarrow> 'a list" where
  "extract_loop cmp 0 xs = xs"
| "extract_loop cmp (Suc i) xs = extract_loop cmp i (down_heap cmp 0 (Suc i) (swap 0 (Suc i) xs))"

definition OPENSSL_sk_sort :: "('p, 'c) call_cmp \<Rightarrow> ('p, 'c) stack_st option \<Rightarrow> ('p, 'c) stack_st option" where
  "OPENSSL_sk_sort call_cmp_func sk =
     (case sk of None \<Rightarrow> None
      | Some s \<Rightarrow>
          (case comp s of
             None \<Rightarrow> sk
           | Some c \<Rightarrow>
               if sorted_flag s then sk
               else
                 let d = (if num s \<ge> 2
                          then extract_loop (call_cmp_func c) (num s - 1)
                                 (build_heap (call_cmp_func c) (num s) (parent_idx (num s - 1)) (data s))
                          else data s)
                 in Some (s\<lparr>data := d, sorted_flag := True\<rparr>)))"

definition OPENSSL_sk_set_cmp_func :: "('p, 'c) stack_st \<Rightarrow> 'c option \<Rightarrow> 'c option \<times> ('p, 'c) stack_st" where
  "OPENSSL_sk_set_cmp_func sk c =
     (comp sk, sk\<lparr>sorted_flag := (if comp sk \<noteq> c then False else sorted_flag sk), comp := c\<rparr>)"

text \<open>The loop of \<open>OPENSSL_sk_deep_copy\<close> from index \<open>i\<close> on, with \<open>k\<close> turns left: the array, or the
  pointers it frees when a copy fails.\<close>

primrec deep_copy_loop ::
  "('p \<Rightarrow> 'p pointer) \<Rightarrow> nat \<Rightarrow> nat \<Rightarrow> 'p pointer list \<Rightarrow> 'p list + 'p pointer list" where
  "deep_copy_loop copy 0 i d = Inr d"
| "deep_copy_loop copy (Suc k) i d =
     (case d ! i of
        None \<Rightarrow> deep_copy_loop copy k (i + 1) d
      | Some p \<Rightarrow>
          (case copy p of
             None \<Rightarrow> Inl (concat (map (\<lambda>j. case d ! j of None \<Rightarrow> [] | Some q \<Rightarrow> [q]) [0..<i]))
           | Some q \<Rightarrow> deep_copy_loop copy k (i + 1) (d[i := Some q])))"

definition OPENSSL_sk_deep_copy ::
  "(nat \<Rightarrow> bool) \<Rightarrow> ('p, 'c) stack_st option \<Rightarrow> ('p \<Rightarrow> 'p pointer) \<Rightarrow> 'p list + ('p, 'c) stack_st" where
  "OPENSSL_sk_deep_copy al sk copy =
     (case OPENSSL_sk_dup al sk of
        None \<Rightarrow> Inl []
      | Some ret \<Rightarrow>
          (case deep_copy_loop copy (num ret) 0 (data ret) of
             Inl freed \<Rightarrow> Inl freed
           | Inr d \<Rightarrow> Inr (ret\<lparr>data := d\<rparr>)))"

section \<open>Heaps in arrays\<close>

text \<open>Every index from \<open>k\<close> on is at least as large as its children, below \<open>n\<close>, except perhaps \<open>i\<close>,
  whose children are then not larger than its parent.\<close>

definition heap_from :: "('a \<Rightarrow> 'a \<Rightarrow> int) \<Rightarrow> nat \<Rightarrow> nat \<Rightarrow> 'a list \<Rightarrow> bool" where
  "heap_from cmp k n xs \<longleftrightarrow> (\<forall>j. 0 < j \<and> j < n \<and> k \<le> parent_idx j \<longrightarrow> cmp (xs ! j) (xs ! parent_idx j) \<le> 0)"

definition heap_except :: "('a \<Rightarrow> 'a \<Rightarrow> int) \<Rightarrow> nat \<Rightarrow> nat \<Rightarrow> nat \<Rightarrow> 'a list \<Rightarrow> bool" where
  "heap_except cmp k i n xs \<longleftrightarrow>
     (\<forall>j. 0 < j \<and> j < n \<and> k \<le> parent_idx j \<and> parent_idx j \<noteq> i \<longrightarrow> cmp (xs ! j) (xs ! parent_idx j) \<le> 0) \<and>
     (\<forall>j. 0 < j \<and> j < n \<and> parent_idx j = i \<and> 0 < i \<and> k \<le> parent_idx i \<longrightarrow> cmp (xs ! j) (xs ! parent_idx i) \<le> 0)"

lemma parent_iff: "0 < j \<Longrightarrow> parent_idx j = i \<longleftrightarrow> j = 2 * i + 1 \<or> j = 2 * i + 2"
  by (auto simp: parent_idx_def)

lemma parent_less: "0 < j \<Longrightarrow> parent_idx j < j"
  by (auto simp: parent_idx_def)

lemma swap_nth: "i < length xs \<Longrightarrow> j < length xs \<Longrightarrow> swap i j xs ! k = (if k = j then xs ! i else if k = i then xs ! j else xs ! k)"
  by (auto simp: swap_def nth_list_update)

lemma length_swap [simp]: "length (swap i j xs) = length xs"
  by (simp add: swap_def)

lemma swap_mset: "i < n \<Longrightarrow> j < n \<Longrightarrow> n \<le> length xs \<Longrightarrow> mset (take n (swap i j xs)) = mset (take n xs)"
  using mset_swap [of j "take n xs" i] by (simp add: swap_def take_update_swap)

lemma swap_drop: "i < n \<Longrightarrow> j < n \<Longrightarrow> drop n (swap i j xs) = drop n xs"
  by (simp add: swap_def)

lemma down_heap_frame:
  "i < n \<Longrightarrow> n \<le> length xs \<Longrightarrow>
     length (down_heap cmp i n xs) = length xs \<and> mset (take n (down_heap cmp i n xs)) = mset (take n xs) \<and>
     drop n (down_heap cmp i n xs) = drop n xs"
proof (induction cmp i n xs rule: down_heap.induct)
  case (1 cmp i n xs)
  show ?case
  proof (cases "n \<le> left_idx i \<or> i = largest_child cmp i n xs")
    case True
    then show ?thesis unfolding down_heap.simps [of cmp i n xs] by (auto simp: Let_def)
  next
    case False
    then have c: "largest_child cmp i n xs < n" using largest_child_cases [of i n cmp xs] by (auto simp: left_idx_def)
    with 1 False have "down_heap cmp i n xs = down_heap cmp (largest_child cmp i n xs) n (swap i (largest_child cmp i n xs) xs)"
      unfolding down_heap.simps [of cmp i n xs] by (simp add: Let_def)
    with 1 False c show ?thesis by (simp add: swap_mset swap_drop)
  qed
qed

text \<open>Sorting a heap, for every comparison that keeps the laws of the interface.\<close>

context comparison begin

lemma largest_child_ge:
  fixes xs :: "'a list"
  assumes "left_idx i < n"
  defines "c \<equiv> largest_child cmp i n xs"
  shows "cmp (xs ! i) (xs ! c) \<le> 0" "cmp (xs ! (2 * i + 1)) (xs ! c) \<le> 0"
    "2 * i + 2 < n \<Longrightarrow> cmp (xs ! (2 * i + 2)) (xs ! c) \<le> 0"
proof -
  define m where "m = (if cmp (xs ! i) (xs ! (2 * i + 1)) < 0 then 2 * i + 1 else i)"
  have m: "cmp (xs ! i) (xs ! m) \<le> 0" "cmp (xs ! (2 * i + 1)) (xs ! m) \<le> 0"
    using cmp_flip_le [of "xs ! (2 * i + 1)" "xs ! i"] by (auto simp: m_def)
  have c: "c = (if 2 * i + 2 < n \<and> cmp (xs ! m) (xs ! (2 * i + 2)) < 0 then 2 * i + 2 else m)"
    by (simp add: c_def largest_child_def left_idx_def Let_def m_def)
  show "cmp (xs ! i) (xs ! c) \<le> 0" "cmp (xs ! (2 * i + 1)) (xs ! c) \<le> 0"
    using m cmp_trans [of _ "xs ! m" "xs ! (2 * i + 2)"] by (auto simp: c)
  show "2 * i + 2 < n \<Longrightarrow> cmp (xs ! (2 * i + 2)) (xs ! c) \<le> 0"
    using cmp_flip_le [of "xs ! (2 * i + 2)" "xs ! m"] by (auto simp: c)
qed

lemma down_heap_heap:
  "i < n \<Longrightarrow> n \<le> length xs \<Longrightarrow> k \<le> i \<Longrightarrow> heap_except cmp k i n xs \<Longrightarrow> heap_from cmp k n (down_heap cmp i n xs)"
proof (induction "n - i" arbitrary: i xs rule: less_induct)
  case less
  define c where "c = largest_child cmp i n xs"
  show ?case
  proof (cases "n \<le> left_idx i \<or> i = c")
    case True
    then have same: "down_heap cmp i n xs = xs"
      unfolding down_heap.simps [of cmp i n xs] by (auto simp: c_def Let_def)
    have "cmp (xs ! j) (xs ! i) \<le> 0" if "0 < j" "j < n" "parent_idx j = i" for j
      using True that largest_child_ge [of i n xs] unfolding c_def [symmetric]
      by (auto simp: parent_iff left_idx_def)
    then show ?thesis using less.prems(4) unfolding same by (auto simp: heap_except_def heap_from_def)
  next
    case False
    then have left: "left_idx i < n" and ci: "c \<noteq> i" by auto
    have c: "c = 2 * i + 1 \<or> c = 2 * i + 2" "c < n" "i < c"
      using largest_child_cases [OF left, of cmp xs] ci left unfolding c_def [symmetric] by (auto simp: left_idx_def)
    let ?ys = "swap i c xs"
    have ys: "?ys ! j = (if j = c then xs ! i else if j = i then xs ! c else xs ! j)" for j
      using c less.prems by (intro swap_nth) auto
    note ge = largest_child_ge [OF left, of xs, folded c_def]
    have pc: "parent_idx c = i" using c by (auto simp: parent_iff)
    note H = less.prems(4) [unfolded heap_except_def]
    have "heap_except cmp k c n ?ys"
      unfolding heap_except_def
    proof (intro conjI allI impI)
      fix j assume j: "0 < j \<and> j < n \<and> k \<le> parent_idx j \<and> parent_idx j \<noteq> c"
      show "cmp (?ys ! j) (?ys ! parent_idx j) \<le> 0"
      proof (cases "parent_idx j = i")
        case True
        then have "j = 2 * i + 1 \<or> j = 2 * i + 2" using j by (simp add: parent_iff)
        then show ?thesis using True ge j c by (auto simp: ys)
      next
        case False
        then have "j \<noteq> c" using pc by auto
        show ?thesis
        proof (cases "j = i")
          case True
          then show ?thesis using False \<open>j \<noteq> c\<close> j H c pc by (auto simp: ys)
        next
          case no: False
          then show ?thesis using False \<open>j \<noteq> c\<close> j H by (auto simp: ys)
        qed
      qed
    next
      fix j assume j: "0 < j \<and> j < n \<and> parent_idx j = c \<and> 0 < c \<and> k \<le> parent_idx c"
      then have "j \<noteq> c" "j \<noteq> i" using parent_less [of j] c by auto
      moreover have "k \<le> parent_idx j" using j c pc less.prems(3) by simp
      ultimately show "cmp (?ys ! j) (?ys ! parent_idx c) \<le> 0" using j H pc ci by (auto simp: ys)
    qed
    moreover have "down_heap cmp i n xs = down_heap cmp c n ?ys"
      unfolding down_heap.simps [of cmp i n xs] using False by (simp add: c_def Let_def)
    ultimately show ?thesis using less.hyps [of c ?ys] c less.prems by simp
  qed
qed

lemma heap_root:
  "heap_from cmp 0 n xs \<Longrightarrow> j < n \<Longrightarrow> cmp (xs ! j) (xs ! 0) \<le> 0"
proof (induction j rule: less_induct)
  case (less j)
  show ?case
  proof (cases "j = 0")
    case False
    then have p: "parent_idx j < j" by (simp add: parent_less)
    from less.IH [OF this less.prems(1)] less.prems p have "cmp (xs ! parent_idx j) (xs ! 0) \<le> 0" by simp
    moreover have "cmp (xs ! j) (xs ! parent_idx j) \<le> 0" using less.prems False by (simp add: heap_from_def)
    ultimately show ?thesis using cmp_trans by blast
  qed simp
qed

lemma build_heap:
  "i < n \<Longrightarrow> n \<le> length xs \<Longrightarrow> heap_from cmp (Suc i) n xs \<Longrightarrow>
     heap_from cmp 0 n (build_heap cmp n i xs) \<and> length (build_heap cmp n i xs) = length xs \<and>
     mset (take n (build_heap cmp n i xs)) = mset (take n xs) \<and> drop n (build_heap cmp n i xs) = drop n xs"
proof (induction i arbitrary: xs)
  case 0
  then have "heap_except cmp 0 0 n xs" by (auto simp: heap_from_def heap_except_def)
  with 0 down_heap_heap [of 0 n xs 0] down_heap_frame [of 0 n xs cmp] show ?case by simp
next
  case (Suc i)
  have "parent_idx j \<noteq> Suc i \<Longrightarrow> Suc i \<le> parent_idx j \<Longrightarrow> Suc (Suc i) \<le> parent_idx j" for j by simp
  with Suc.prems(3) have "heap_except cmp (Suc i) (Suc i) n xs"
    using parent_less [of "Suc i"] by (auto simp: heap_from_def heap_except_def)
  with Suc.prems down_heap_heap [of "Suc i" n xs "Suc i"] have "heap_from cmp (Suc i) n (down_heap cmp (Suc i) n xs)" by simp
  with Suc.IH [of "down_heap cmp (Suc i) n xs"] Suc.prems down_heap_frame [of "Suc i" n xs cmp] show ?case by simp
qed

lemma extract_loop:
  "i < n \<Longrightarrow> n \<le> length xs \<Longrightarrow> heap_from cmp 0 (Suc i) xs \<Longrightarrow> sorted_by cmp (drop (Suc i) (take n xs)) \<Longrightarrow>
   (\<forall>x \<in> set (take (Suc i) xs). \<forall>y \<in> set (drop (Suc i) (take n xs)). cmp x y \<le> 0) \<Longrightarrow>
     sorted_by cmp (take n (extract_loop cmp i xs)) \<and> length (extract_loop cmp i xs) = length xs \<and>
     mset (take n (extract_loop cmp i xs)) = mset (take n xs) \<and> drop n (extract_loop cmp i xs) = drop n xs"
proof (induction i arbitrary: xs)
  case 0
  then obtain x zs m where "xs = x # zs" "n = Suc m" by (cases xs; cases n) auto
  with 0 show ?case by (simp add: sorted_by_def)
next
  case (Suc i)
  let ?n = "Suc (Suc i)"
  define ys where "ys = swap 0 (Suc i) xs"
  define zs where "zs = down_heap cmp 0 (Suc i) ys"
  have len: "length ys = length xs" "Suc i < length xs" using Suc.prems by (simp_all add: ys_def)
  have ys: "ys ! j = (if j = Suc i then xs ! 0 else if j = 0 then xs ! Suc i else xs ! j)" for j
    using len unfolding ys_def by (subst swap_nth) auto
  have zs: "length zs = length xs" "mset (take (Suc i) zs) = mset (take (Suc i) ys)" "drop (Suc i) zs = drop (Suc i) ys"
    using down_heap_frame [of 0 "Suc i" ys cmp] len by (simp_all add: zs_def)
  have all: "mset (take ?n ys) = mset (take ?n xs)" "drop ?n ys = drop ?n xs"
    using len Suc.prems by (simp_all add: ys_def swap_mset swap_drop)
  have take_ys: "take ?n ys = take (Suc i) ys @ [xs ! 0]"
    using len ys [of "Suc i"] by (simp add: take_Suc_conv_app_nth)
  have top: "cmp x (xs ! 0) \<le> 0" if x: "x \<in> set (take ?n xs)" for x
  proof -
    from x obtain j where "j < ?n" "x = xs ! j" by (metis in_set_conv_nth length_take min_less_iff_conj nth_take)
    then show ?thesis using heap_root [OF Suc.prems(3), of j] by simp
  qed
  have sub: "set (take (Suc i) zs) \<subseteq> set (take ?n xs)"
  proof -
    have "set (take (Suc i) zs) = set (take (Suc i) ys)" using zs(2) by (metis set_mset_mset)
    also have "\<dots> \<subseteq> set (take ?n ys)" by (rule set_take_subset_set_take) simp
    also have "\<dots> = set (take ?n xs)" using all(1) by (metis set_mset_mset)
    finally show ?thesis .
  qed
  have drop_zs: "drop (Suc i) (take n zs) = xs ! 0 # drop ?n (take n xs)"
  proof -
    have "drop (Suc i) (take n zs) = take (n - Suc i) (drop (Suc i) ys)" by (simp add: drop_take zs(3))
    also have "drop (Suc i) ys = xs ! 0 # drop ?n xs"
      using len all(2) ys [of "Suc i"] by (metis Cons_nth_drop_Suc)
    also have "n - Suc i = Suc (n - ?n)" using Suc.prems(1) by simp
    finally show ?thesis by (simp add: drop_take)
  qed
  have "heap_except cmp 0 0 (Suc i) ys"
  proof -
    have "cmp (ys ! j) (ys ! parent_idx j) \<le> 0" if "0 < j" "j < Suc i" "parent_idx j \<noteq> 0" for j
      using that parent_less [of j] Suc.prems(3) by (auto simp: ys heap_from_def)
    then show ?thesis by (auto simp: heap_except_def)
  qed
  then have heap: "heap_from cmp 0 (Suc i) zs"
    using len unfolding zs_def by (intro down_heap_heap) auto
  have sorted: "sorted_by cmp (drop (Suc i) (take n zs))"
    using Suc.prems(4,5) top nth_mem [of 0 "take ?n xs"] len unfolding drop_zs by (auto simp: sorted_by_def)
  have below: "\<forall>x \<in> set (take (Suc i) zs). \<forall>y \<in> set (drop (Suc i) (take n zs)). cmp x y \<le> 0"
    using sub top Suc.prems(5) unfolding drop_zs by auto
  have mset: "mset (take n zs) = mset (take n xs)"
  proof -
    have "mset (take n zs) = mset (take (Suc i) zs) + mset (drop (Suc i) (take n zs))"
      using Suc.prems(1) by (metis append_take_drop_id less_imp_le_nat min.absorb1 mset_append take_take Suc_lessD)
    also have "\<dots> = mset (take ?n ys) + mset (drop ?n (take n xs))" by (simp add: drop_zs zs(2) take_ys)
    also have "\<dots> = mset (take n xs)"
      using Suc.prems(1) all(1) by (metis append_take_drop_id Suc_leI min.absorb1 mset_append take_take)
    finally show ?thesis .
  qed
  have drop: "drop n zs = drop n xs"
    using zs(3) all(2) Suc.prems(1) by (metis Suc_leI drop_drop le_add_diff_inverse2 less_imp_le_nat Suc_lessD)
  have "extract_loop cmp (Suc i) xs = extract_loop cmp i zs" by (simp add: zs_def ys_def)
  with Suc.IH [of zs] Suc.prems(1,2) heap sorted below mset drop zs(1) show ?case by simp
qed

text \<open>The loops of \<open>OPENSSL_sk_sort\<close> together.\<close>

lemma heap_sort:
  assumes "2 \<le> n" "n \<le> length xs"
  defines "ys \<equiv> extract_loop cmp (n - 1) (build_heap cmp n (parent_idx (n - 1)) xs)"
  shows "sorted_by cmp (take n ys) \<and> length ys = length xs \<and> mset (take n ys) = mset (take n xs) \<and> drop n ys = drop n xs"
proof -
  define zs where "zs = build_heap cmp n (parent_idx (n - 1)) xs"
  have "heap_from cmp (Suc (parent_idx (n - 1))) n xs"
  proof -
    have "parent_idx j \<le> parent_idx (n - 1)" if "j < n" for j
      using that by (auto simp: parent_idx_def intro!: div_le_mono)
    then show ?thesis by (fastforce simp: heap_from_def)
  qed
  moreover have "parent_idx (n - 1) < n" using assms(1) parent_less [of "n - 1"] by simp
  ultimately have zs: "heap_from cmp 0 n zs" "length zs = length xs" "mset (take n zs) = mset (take n xs)" "drop n zs = drop n xs"
    using build_heap [OF _ assms(2)] by (simp_all add: zs_def)
  have "Suc (n - 1) = n" using assms(1) by simp
  then show ?thesis
    using extract_loop [of "n - 1" n zs] zs assms(1,2) unfolding ys_def zs_def [symmetric] by (simp add: sorted_by_def)
qed

end

section \<open>The stack as a list\<close>

definition elements :: "('p, 'c) stack_st \<Rightarrow> 'p pointer list" where
  "elements s = take (num s) (data s)"

definition stack_ok :: "('p, 'c) stack_st \<Rightarrow> bool" where
  "stack_ok s \<longleftrightarrow> length (data s) = num_alloc s \<and> num s < num_alloc s \<and> num_alloc s < 2 ^ 64 \<and> num s \<le> SK_INT_MAX"

text \<open>What the flag promises, for the comparison that is set.\<close>

definition sorted_ok :: "('p, 'c) call_cmp \<Rightarrow> ('p, 'c) stack_st \<Rightarrow> bool" where
  "sorted_ok call_cmp_func s \<longleftrightarrow> (\<forall>c. sorted_flag s \<longrightarrow> comp s = Some c \<longrightarrow> sorted_by (call_cmp_func c) (elements s))"

lemma length_elements [simp]: "stack_ok s \<Longrightarrow> length (elements s) = num s"
  by (simp add: elements_def stack_ok_def)

lemma sk_new_ok: "OPENSSL_sk_new al c = Some s \<Longrightarrow> stack_ok s \<and> sorted_ok f s \<and> elements s = []"
  by (auto simp: OPENSSL_sk_new_def stack_ok_def sorted_ok_def elements_def kMinSize_def SK_INT_MAX_def split: if_splits)

lemma sk_grow_ok:
  assumes "sk_grow al s = Some s'" "stack_ok s" "num s < SK_INT_MAX"
  shows "stack_ok s' \<and> num s' = num s \<and> elements s' = elements s \<and> num s + 1 < num_alloc s' \<and>
    sorted_flag s' = sorted_flag s \<and> comp s' = comp s"
proof (cases "num_alloc s \<le> num s + 1")
  case True
  have small: "num s + 1 \<le> 2 ^ 31" "num_alloc s \<le> 2 ^ 31" "num s < num_alloc s" "length (data s) = num_alloc s"
    using assms(2,3) True by (simp_all add: stack_ok_def SK_INT_MAX_def)
  then have eq: "(num_alloc s * 2) mod 2 ^ 64 = num_alloc s * 2" "(num_alloc s * 2 * 8) mod 2 ^ 64 = num_alloc s * 2 * 8"
    by simp_all
  have "num_alloc s = num s + 1" using small True by simp
  then show ?thesis
    using assms(1) small True unfolding sk_grow_def Let_def eq
    by (auto simp: stack_ok_def elements_def SK_INT_MAX_def split: if_splits)
next
  case False
  then show ?thesis using assms by (auto simp: sk_grow_def)
qed

lemma split_at:
  assumes "w < n" "n \<le> length xs"
  obtains A b B C where "xs = A @ b # B @ C" "length A = w" "n = w + 1 + length B"
proof
  show "xs = take w xs @ xs ! w # drop (Suc w) (take n xs) @ drop n xs"
  proof -
    have "take n xs = take w (take n xs) @ take n xs ! w # drop (Suc w) (take n xs)"
      using assms by (intro id_take_nth_drop) simp
    then show ?thesis using assms by (metis Cons_eq_appendI append.assoc append_take_drop_id min.absorb1 less_imp_le_nat nth_take take_take)
  qed
  show "length (take w xs) = w" "n = w + 1 + length (drop (Suc w) (take n xs))" using assms by auto
qed

lemma move_right:
  assumes "w < n" "n < length xs"
  shows "take (Suc n) ((move_pointers (w + 1) w (n - w) xs)[w := p]) = take w (take n xs) @ [p] @ drop w (take n xs) \<and>
     length (move_pointers (w + 1) w (n - w) xs) = length xs"
proof -
  obtain A b B C where xs: "xs = A @ b # B @ C" "length A = w" "n = w + 1 + length B"
    using split_at [OF assms(1) less_imp_le [OF assms(2)]] by metis
  obtain c C' where C: "C = c # C'" using assms xs by (cases C) auto
  show ?thesis by (simp add: move_pointers_def xs C list_update_append)
qed

lemma move_left:
  assumes "w < n" "n \<le> length xs"
  shows "take (n - 1) (move_pointers w (w + 1) (n - w - 1) xs) = take w (take n xs) @ drop (Suc w) (take n xs) \<and>
     length (move_pointers w (w + 1) (n - w - 1) xs) = length xs"
proof -
  obtain A b B C where xs: "xs = A @ b # B @ C" "length A = w" "n = w + 1 + length B"
    using split_at [OF assms] by metis
  show ?thesis by (simp add: move_pointers_def xs)
qed

lemma sk_insert_elements:
  assumes "OPENSSL_sk_insert al (Some s) p w = (r, Some s')" "stack_ok s"
  shows "stack_ok s' \<and> comp s' = comp s \<and>
    (r = 0 \<and> s' = s \<or>
     r = num s + 1 \<and> \<not> sorted_flag s' \<and> elements s' = take w (elements s) @ [p] @ drop w (elements s))"
proof (cases "num s \<ge> SK_INT_MAX \<or> sk_grow al s = None")
  case True
  then show ?thesis using assms by (auto simp: OPENSSL_sk_insert_def split: if_splits)
next
  case False
  then obtain s1 where g: "sk_grow al s = Some s1" by auto
  from sk_grow_ok [OF g assms(2)] False have s1: "stack_ok s1" "num s1 = num s" "elements s1 = elements s"
    "num s + 1 < num_alloc s1" "comp s1 = comp s" by auto
  then have len: "length (data s1) = num_alloc s1" "take (num s) (data s1) = elements s"
    by (simp_all add: stack_ok_def elements_def)
  show ?thesis
  proof (cases "w \<ge> num s")
    case True
    have "take (Suc (num s)) ((data s1)[num s := p]) = elements s @ [p]"
      using len s1(4) by (simp add: take_Suc_conv_app_nth)
    then show ?thesis
      using assms False g s1 len True
      by (auto simp: OPENSSL_sk_insert_def Let_def stack_ok_def elements_def)
  next
    case mid: False
    from move_right [of w "num s" "data s1" p] mid s1(4) len show ?thesis
      using assms False g s1 
      by (auto simp: OPENSSL_sk_insert_def Let_def stack_ok_def elements_def)
  qed
qed

lemma sk_delete_elements:
  assumes "stack_ok s" "w < num s" "OPENSSL_sk_delete (Some s) w = (r, Some s')"
  shows "stack_ok s' \<and> comp s' = comp s \<and> sorted_flag s' = sorted_flag s \<and> r = elements s ! w \<and>
    elements s' = take w (elements s) @ drop (Suc w) (elements s)"
proof -
  have len: "num s \<le> length (data s)" using assms(1) by (simp add: stack_ok_def)
  have "take (num s - 1) (data s) = take w (elements s) @ drop (Suc w) (elements s)" if "w = num s - 1"
    using that assms(2) by (simp add: elements_def)
  then show ?thesis
    using move_left [OF assms(2) len] assms by (auto simp: OPENSSL_sk_delete_def Let_def stack_ok_def elements_def split: if_splits)
qed

lemma delete_if_loop:
  "k + i \<le> length d \<Longrightarrow> m \<le> i \<Longrightarrow> delete_if_loop f k i m d = (m', d') \<Longrightarrow>
     length d' = length d \<and> m' \<le> m + k \<and> take m' d' = take m d @ filter (\<lambda>p. \<not> f p) (take k (drop i d))"
proof (induction k arbitrary: i m d)
  case (Suc k)
  have d: "drop i d = d ! i # drop (Suc i) d" using Suc.prems(1) by (simp add: Cons_nth_drop_Suc)
  show ?case
  proof (cases "f (d ! i)")
    case True
    then show ?thesis using Suc.IH [of "i + 1" d m] Suc.prems by (auto simp: d)
  next
    case False
    have "take (Suc m) (d[m := d ! i]) = take m d @ [d ! i]"
      using Suc.prems(1,2) by (simp add: take_Suc_conv_app_nth)
    then show ?thesis using Suc.IH [of "i + 1" "d[m := d ! i]" "m + 1"] Suc.prems False by (auto simp: d)
  qed
qed simp

lemma sk_delete_if_elements:
  assumes "stack_ok s" "OPENSSL_sk_delete_if (Some s) f = Some s'"
  shows "stack_ok s' \<and> comp s' = comp s \<and> sorted_flag s' = sorted_flag s \<and> elements s' = filter (\<lambda>p. \<not> f p) (elements s)"
proof -
  obtain m d where loop: "delete_if_loop f (num s) 0 0 (data s) = (m, d)" by fastforce
  have "num s + 0 \<le> length (data s)" using assms(1) by (simp add: stack_ok_def)
  from delete_if_loop [OF this _ loop] assms loop show ?thesis
    by (auto simp: OPENSSL_sk_delete_if_def stack_ok_def elements_def)
qed

lemma sk_sort_elements:
  assumes "stack_ok s" "OPENSSL_sk_sort f (Some s) = Some s'" "\<And>c. comp s = Some c \<Longrightarrow> comparison (f c)" "sorted_ok f s"
  shows "stack_ok s' \<and> comp s' = comp s \<and> num s' = num s \<and> mset (elements s') = mset (elements s) \<and> sorted_ok f s' \<and>
    (comp s \<noteq> None \<longrightarrow> sorted_flag s')"
proof (cases "comp s = None \<or> sorted_flag s \<or> num s < 2")
  case True
  have short: "num s < 2 \<Longrightarrow> sorted_by c (elements s)" for c
    by (cases "data s"; cases "num s") (auto simp: sorted_by_def elements_def)
  show ?thesis using True assms short by (auto simp: OPENSSL_sk_sort_def Let_def sorted_ok_def stack_ok_def elements_def split: option.splits if_splits)
next
  case False
  then obtain c where c: "comp s = Some c" "\<not> sorted_flag s" "2 \<le> num s" by auto
  have len: "num s \<le> length (data s)" using assms(1) by (simp add: stack_ok_def)
  from comparison.heap_sort [OF assms(3) [OF c(1)] c(3) len] c assms(1,2) show ?thesis
    by (auto simp: OPENSSL_sk_sort_def Let_def sorted_ok_def stack_ok_def elements_def)
qed

section \<open>Searching\<close>

lemma first_index_eq_Some: "first_index P n = Some i \<longleftrightarrow> i < n \<and> P i \<and> (\<forall>j<i. \<not> P j)"
proof -
  have "List.find P [0..<n] = Some i \<longleftrightarrow> i < n \<and> P ([0..<n] ! i) \<and> i = [0..<n] ! i \<and> (\<forall>j<i. \<not> P ([0..<n] ! j))" if "i < n"
    using that by (auto simp: find_Some_iff)
  moreover have "List.find P [0..<n] = Some i \<Longrightarrow> i < n"
    by (auto simp: find_Some_iff)
  ultimately show ?thesis by (auto simp: first_index_def)
qed

lemma first_index_eq_None: "first_index P n = None \<longleftrightarrow> (\<forall>j<n. \<not> P j)"
  by (auto simp: first_index_def find_None_iff)

text \<open>The binary search finds the first zero, if the results decrease in sign: elements before
  \<open>lo\<close> are too low, and the first match, if there is one, is before \<open>hi\<close>.\<close>

lemma binary_search_first:
  assumes neg: "\<And>i j. i \<le> j \<Longrightarrow> j < n \<Longrightarrow> c i < 0 \<Longrightarrow> c j < 0"
  shows "hi \<le> n \<Longrightarrow> (\<And>j. j < lo \<Longrightarrow> 0 < c j) \<Longrightarrow> (\<And>i. first_index (\<lambda>i. c i = 0) n = Some i \<Longrightarrow> i < hi) \<Longrightarrow>
    (\<And>i j. i \<le> j \<Longrightarrow> j < n \<Longrightarrow> 0 < c j \<Longrightarrow> 0 < c i) \<Longrightarrow>
    binary_search c lo hi = first_index (\<lambda>i. c i = 0) n"
proof (induction "hi - lo" arbitrary: lo hi rule: less_induct)
  case less
  show ?case
  proof (cases "lo < hi")
    case False
    have "first_index (\<lambda>i. c i = 0) n = None"
    proof (rule ccontr)
      assume "first_index (\<lambda>i. c i = 0) n \<noteq> None"
      then obtain i where i: "first_index (\<lambda>i. c i = 0) n = Some i" by blast
      with less.prems(3) False have "i < lo" by fastforce
      with less.prems(2) i show False by (fastforce simp: first_index_eq_Some)
    qed
    then show ?thesis using False by (simp add: binary_search.simps)
  next
    case True
    define mid where "mid = lo + (hi - lo - 1) div 2"
    have mid: "lo \<le> mid" "mid < hi" using True by (auto simp: mid_def)
    consider (low) "0 < c mid" | (high) "c mid < 0" | (found) "c mid = 0" "hi - lo = 1" | (more) "c mid = 0" "hi - lo \<noteq> 1" by linarith
    then show ?thesis
    proof cases
      case low
      have "0 < c j" if "j < mid + 1" for j using less.prems(4) [of j mid] low that mid less.prems(1) by simp
      then have "binary_search c (mid + 1) hi = first_index (\<lambda>i. c i = 0) n"
        using less.prems mid by (intro less.hyps) auto
      then show ?thesis
        unfolding binary_search.simps [of c lo hi] Let_def mid_def [symmetric] using True low by simp
    next
      case high
      have "i < mid" if "first_index (\<lambda>i. c i = 0) n = Some i" for i
        using neg [of mid i] high that by (fastforce simp: first_index_eq_Some not_less [symmetric])
      then have "binary_search c lo mid = first_index (\<lambda>i. c i = 0) n"
        using less.prems mid by (intro less.hyps) auto
      then show ?thesis
        unfolding binary_search.simps [of c lo hi] Let_def mid_def [symmetric] using True high by simp
    next
      case found
      then have "mid = lo" using mid by simp
      then have "first_index (\<lambda>i. c i = 0) n = Some mid"
        using found mid less.prems(1,2) by (fastforce simp: first_index_eq_Some)
      then show ?thesis
        unfolding binary_search.simps [of c lo hi] Let_def mid_def [symmetric] using True found by simp
    next
      case more
      then have shrink: "mid + 1 < hi" using True by (auto simp: mid_def less_diff_conv2)
      have "i < mid + 1" if "first_index (\<lambda>i. c i = 0) n = Some i" for i
        using that more(1) by (fastforce simp: first_index_eq_Some less_Suc_eq_le not_less [symmetric])
      then have "binary_search c lo (mid + 1) = first_index (\<lambda>i. c i = 0) n"
        using less.prems mid shrink by (intro less.hyps) auto
      then show ?thesis
        unfolding binary_search.simps [of c lo hi] Let_def mid_def [symmetric] using True more by simp
    qed
  qed
qed

text \<open>What searching means: the first element that matches.\<close>

definition matches :: "('p, 'c) call_cmp \<Rightarrow> 'c option \<Rightarrow> 'p pointer \<Rightarrow> 'p pointer \<Rightarrow> bool" where
  "matches call_cmp_func c p x = (case c of None \<Rightarrow> x = p | Some c \<Rightarrow> p \<noteq> None \<and> call_cmp_func c p x = 0)"

lemma sk_find_first:
  assumes "stack_ok s" "sorted_ok f s" "\<And>c. comp s = Some c \<Longrightarrow> comparison (f c)"
  shows "OPENSSL_sk_find f (Some s) p = first_index (\<lambda>i. matches f (comp s) p (elements s ! i)) (length (elements s))"
proof -
  have nth: "i < num s \<Longrightarrow> elements s ! i = data s ! i" for i by (simp add: elements_def)
  have cong: "first_index (\<lambda>i. P (elements s ! i)) (num s) = first_index (\<lambda>i. P (data s ! i)) (num s)" for P
    unfolding first_index_def using nth by (intro find_cong) auto
  show ?thesis
  proof (cases "comp s")
    case None
    then show ?thesis using assms(1) cong [of "\<lambda>x. x = p"] by (simp add: OPENSSL_sk_find_def matches_def)
  next
    case (Some c)
    note laws = assms(3) [OF Some]
    show ?thesis
    proof (cases "p = None \<or> \<not> OPENSSL_sk_is_sorted (Some s)")
      case True
      have "first_index (\<lambda>i. False) m = None" for m by (simp add: first_index_eq_None)
      then show ?thesis
        using True Some assms(1) cong [of "\<lambda>x. f c p x = 0"] by (auto simp: OPENSSL_sk_find_def matches_def)
    next
      case False
      have sorted: "sorted_by (f c) (elements s)"
      proof (cases "sorted_flag s")
        case True
        then show ?thesis using assms(2) Some by (simp add: sorted_ok_def)
      next
        case no: False
        then have "num s < 2" using False Some by (simp add: OPENSSL_sk_is_sorted_def)
        then show ?thesis by (cases "data s"; cases "num s") (auto simp: sorted_by_def elements_def)
      qed
      have mono: "f c (elements s ! i) (elements s ! j) \<le> 0" if "i \<le> j" "j < num s" for i j
        using comparison.sorted_nth [OF laws sorted] that assms(1) by simp
      let ?c = "\<lambda>i. f c p (data s ! i)"
      have "binary_search ?c 0 (num s) = first_index (\<lambda>i. ?c i = 0) (num s)"
      proof (rule binary_search_first)
        show "?c j < 0" if "i \<le> j" "j < num s" "?c i < 0" for i j
          using comparison.cmp_less_trans [OF laws that(3)] mono [OF that(1,2)] nth that by simp
        show "0 < ?c i" if "i \<le> j" "j < num s" "0 < ?c j" for i j
          using comparison.cmp_trans [OF laws, of p "data s ! i" "data s ! j"] mono [OF that(1,2)] nth that by fastforce
      qed (auto simp: first_index_eq_Some)
      then show ?thesis using False Some assms(1) cong [of "\<lambda>x. f c p x = 0"] by (auto simp: OPENSSL_sk_find_def matches_def)
    qed
  qed
qed

lemma sorted_by_drop_nth:
  assumes "sorted_by c xs"
  shows "sorted_by c (take w xs @ drop (Suc w) xs)"
proof -
  have "sorted_by c (take w xs @ drop w xs)" using assms by simp
  then have parts: "sorted_wrt (\<lambda>x y. c x y \<le> 0) (take w xs) \<and> sorted_wrt (\<lambda>x y. c x y \<le> 0) (drop w xs) \<and>
      (\<forall>x \<in> set (take w xs). \<forall>y \<in> set (drop w xs). c x y \<le> 0)"
    unfolding sorted_by_def sorted_wrt_append .
  moreover have tl: "drop (Suc w) xs = tl (drop w xs)" by (simp add: drop_Suc tl_drop)
  ultimately show ?thesis
    unfolding sorted_by_def sorted_wrt_append tl by (cases "drop w xs") auto
qed

lemma sorted_by_filter: "sorted_by c xs \<Longrightarrow> sorted_by c (filter P xs)"
  by (auto simp: sorted_by_def intro: sorted_wrt_filter)

section \<open>Properties\<close>

text \<open>C36. Stacks are lists. Starting from a stack whose invariant holds, insertion puts the pointer
  at its index or changes nothing, deletion, shifting and popping take out one element and return
  it, and conditional deletion keeps the others in order; each keeps the invariant, and the promise of
  the sorted flag.\<close>

theorem stack_refines_list:
  assumes "stack_ok s" "sorted_ok f s"
  shows "(OPENSSL_sk_insert al (Some s) p w = (r, Some s') \<longrightarrow> stack_ok s' \<and> sorted_ok f s' \<and>
      (if r = 0 then s' = s else r = length (elements s') \<and> elements s' = take w (elements s) @ [p] @ drop w (elements s))) \<and>
    (w < length (elements s) \<and> OPENSSL_sk_delete (Some s) w = (q, Some s') \<longrightarrow> stack_ok s' \<and> sorted_ok f s' \<and>
      q = elements s ! w \<and> elements s' = take w (elements s) @ drop (Suc w) (elements s)) \<and>
    (elements s \<noteq> [] \<and> OPENSSL_sk_shift (Some s) = (q, Some s') \<longrightarrow> stack_ok s' \<and> sorted_ok f s' \<and>
      q # elements s' = elements s) \<and>
    (elements s \<noteq> [] \<and> OPENSSL_sk_pop (Some s) = (q, Some s') \<longrightarrow> stack_ok s' \<and> sorted_ok f s' \<and>
      elements s' @ [q] = elements s) \<and>
    (OPENSSL_sk_delete_if (Some s) d = Some s' \<longrightarrow> stack_ok s' \<and> sorted_ok f s' \<and>
      elements s' = filter (\<lambda>x. \<not> d x) (elements s))"
proof (intro conjI impI)
  assume "OPENSSL_sk_insert al (Some s) p w = (r, Some s')"
  note ins = sk_insert_elements [OF this assms(1)]
  show "stack_ok s'" "sorted_ok f s'" using ins assms(2) by (auto simp: sorted_ok_def)
  have "length (take w (elements s) @ [p] @ drop w (elements s)) = num s + 1" using assms(1) by simp
  with ins have "r = 0 \<and> s' = s \<or>
      r = length (elements s') \<and> r \<noteq> 0 \<and> elements s' = take w (elements s) @ [p] @ drop w (elements s)"
    by (metis add_is_0 one_neq_zero)
  then show "if r = 0 then s' = s else r = length (elements s') \<and> elements s' = take w (elements s) @ [p] @ drop w (elements s)"
    by (metis (full_types))
next
  assume "w < length (elements s) \<and> OPENSSL_sk_delete (Some s) w = (q, Some s')"
  then show "stack_ok s'" "sorted_ok f s'" "q = elements s ! w" "elements s' = take w (elements s) @ drop (Suc w) (elements s)"
    using sk_delete_elements [OF assms(1), of w q s'] assms sorted_by_drop_nth by (auto simp: sorted_ok_def)
next
  assume "elements s \<noteq> [] \<and> OPENSSL_sk_shift (Some s) = (q, Some s')"
  then have "0 < num s" "OPENSSL_sk_delete (Some s) 0 = (q, Some s')"
    using assms(1) by (auto simp: OPENSSL_sk_shift_def elements_def split: if_splits)
  moreover have "elements s ! 0 # drop (Suc 0) (elements s) = elements s"
    using Cons_nth_drop_Suc [of 0 "elements s"] assms(1) \<open>0 < num s\<close> by simp
  ultimately show "stack_ok s'" "sorted_ok f s'" "q # elements s' = elements s"
    using sk_delete_elements [OF assms(1), of 0 q s'] sorted_by_drop_nth [of _ "elements s" 0] assms
    by (auto simp: sorted_ok_def)
next
  assume "elements s \<noteq> [] \<and> OPENSSL_sk_pop (Some s) = (q, Some s')"
  then have "num s - 1 < num s" "OPENSSL_sk_delete (Some s) (num s - 1) = (q, Some s')"
    using assms(1) by (auto simp: OPENSSL_sk_pop_def elements_def split: if_splits)
  moreover have "take (num s - 1) (elements s) @ [elements s ! (num s - 1)] = elements s"
    using take_Suc_conv_app_nth [of "num s - 1" "elements s"] assms(1) \<open>num s - 1 < num s\<close> by simp
  ultimately show "stack_ok s'" "sorted_ok f s'" "elements s' @ [q] = elements s"
    using sk_delete_elements [OF assms(1), of "num s - 1" q s'] sorted_by_drop_nth [of _ "elements s" "num s - 1"] assms
    by (auto simp: sorted_ok_def)
next
  assume "OPENSSL_sk_delete_if (Some s) d = Some s'"
  from sk_delete_if_elements [OF assms(1) this] assms sorted_by_filter
  show "stack_ok s'" "sorted_ok f s'" "elements s' = filter (\<lambda>x. \<not> d x) (elements s)"
    by (auto simp: sorted_ok_def)
qed

text \<open>C37. Sorting: with a comparison function that orders its arguments, the result is a sorted
  permutation of the elements, and the flag says so.\<close>

theorem sk_sort_sorts:
  assumes "stack_ok s" "sorted_ok f s" "comp s = Some c" "comparison (f c)"
  shows "\<exists>s'. OPENSSL_sk_sort f (Some s) = Some s' \<and> stack_ok s' \<and> sorted_flag s' \<and>
    sorted_by (f c) (elements s') \<and> mset (elements s') = mset (elements s)"
proof -
  obtain s' where s': "OPENSSL_sk_sort f (Some s) = Some s'"
    using assms(3) by (cases "sorted_flag s") (auto simp: OPENSSL_sk_sort_def Let_def)
  from sk_sort_elements [OF assms(1) s' _ assms(2)] assms(3,4) show ?thesis using s' by (auto simp: sorted_ok_def)
qed

text \<open>C38. Searching finds the first match, whether the stack is searched from the start or, when it is
  sorted, by halving the range: the two agree.\<close>

theorem sk_find_linear:
  assumes "stack_ok s" "sorted_ok f s" "\<And>c. comp s = Some c \<Longrightarrow> comparison (f c)"
  shows "OPENSSL_sk_find f (Some s) p = first_index (\<lambda>i. matches f (comp s) p (elements s ! i)) (length (elements s))"
  by (rule sk_find_first [OF assms])

text \<open>A stack of numbers with the order of the numbers, for examples.\<close>

definition number_order :: "unit \<Rightarrow> nat pointer \<Rightarrow> nat pointer \<Rightarrow> int" where
  "number_order c a b = (case (a, b) of (Some x, Some y) \<Rightarrow> int x - int y | (None, None) \<Rightarrow> 0 | (None, _) \<Rightarrow> - 1 | _ \<Rightarrow> 1)"

lemma number_order: "comparison (number_order c)"
  by unfold_locales (auto simp: number_order_def split: option.splits)

definition numbers :: "(nat, unit) stack_st" where
  "numbers = \<lparr>num = 3, data = [Some 3, Some 1, Some 2, None], sorted_flag = False, num_alloc = 4, comp = Some ()\<rparr>"

lemma numbers_ok: "stack_ok numbers" "sorted_ok number_order numbers" "comp numbers = Some ()"
    "elements numbers = [Some 3, Some 1, Some 2]"
  by (simp_all add: numbers_def stack_ok_def sorted_ok_def SK_INT_MAX_def elements_def)

theorem stack_refines_list_witness:
  "elements (the (snd (OPENSSL_sk_pop (Some numbers)))) @ [fst (OPENSSL_sk_pop (Some numbers))] = elements numbers"
proof -
  obtain s' where "OPENSSL_sk_pop (Some numbers) = (fst (OPENSSL_sk_pop (Some numbers)), Some s')"
    by (simp add: OPENSSL_sk_pop_def OPENSSL_sk_delete_def numbers_def)
  then show ?thesis
    using stack_refines_list [OF numbers_ok(1,2), of _ _ _ _ s' "fst (OPENSSL_sk_pop (Some numbers))"] numbers_ok(4)
    by (metis list.discI option.sel snd_conv)
qed

theorem sk_sort_sorts_witness:
  "\<exists>s'. OPENSSL_sk_sort number_order (Some numbers) = Some s' \<and> sorted_by (number_order ()) (elements s')"
  using sk_sort_sorts [OF numbers_ok(1-3) number_order] by blast

theorem sk_find_linear_witness:
  "OPENSSL_sk_find number_order (Some numbers) (Some 2) = Some 2"
  using sk_find_linear [OF numbers_ok(1,2) number_order]
  by (simp add: numbers_ok first_index_def matches_def number_order_def upt_rec)

text \<open>\<open>OPENSSL_sk_set\<close> leaves the sorted flag alone. Replacing an element of a sorted stack can
  therefore leave the flag set on elements that are not in order, and a search that relies on it
  misses an element that is there.\<close>

theorem sk_set_stale_flag:
  "\<exists>s s'. stack_ok s \<and> sorted_ok number_order s \<and> OPENSSL_sk_set (Some s) 0 (Some 9) = (Some 9, Some s') \<and>
    \<not> sorted_ok number_order s' \<and> Some 9 \<in> set (elements s') \<and>
    OPENSSL_sk_find number_order (Some s') (Some 9) = None"
proof -
  define s :: "(nat, unit) stack_st" where
    "s = \<lparr>num = 3, data = [Some 1, Some 2, Some 3, None], sorted_flag = True, num_alloc = 4, comp = Some ()\<rparr>"
  define s' where "s' = s\<lparr>data := [Some 9, Some 2, Some 3, None]\<rparr>"
  have "OPENSSL_sk_set (Some s) 0 (Some 9) = (Some 9, Some s')"
    by (simp add: OPENSSL_sk_set_def s_def s'_def)
  moreover have "stack_ok s" "sorted_ok number_order s" "\<not> sorted_ok number_order s'" "Some 9 \<in> set (elements s')"
    by (simp_all add: s_def s'_def stack_ok_def sorted_ok_def SK_INT_MAX_def elements_def sorted_by_def number_order_def)
  moreover have "OPENSSL_sk_find number_order (Some s') (Some 9) = None"
    by (simp add: OPENSSL_sk_find_def OPENSSL_sk_is_sorted_def s_def s'_def binary_search.simps number_order_def)
  ultimately show ?thesis by blast
qed

end
