(* ===== verification/ObjC.thy ===== *)
theory ObjC imports Main begin

text \<open>
  What the Objective-C classes use of Foundation. A reference to an object may be nil, which is
  \<open>None\<close> here; a message to nil does nothing and returns nil, zero or NO. A method body maps the
  state before to the state after, or to \<open>None\<close> when it raises an exception that nobody catches.
\<close>

type_synonym nsstring = "string option"

definition isEqualToString :: "nsstring \<Rightarrow> nsstring \<Rightarrow> bool" where
  "isEqualToString a b \<longleftrightarrow> a \<noteq> None \<and> a = b"

lemma isEqualToString_Some [simp]: "isEqualToString a (Some t) \<longleftrightarrow> a = Some t"
  by (auto simp: isEqualToString_def)

type_synonym 's body = "'s \<Rightarrow> 's option"

definition seq :: "'s body \<Rightarrow> 's body \<Rightarrow> 's body" where
  "seq f g s = (case f s of None \<Rightarrow> None | Some s' \<Rightarrow> g s')"

text \<open>A loop over the elements of an array.\<close>

primrec for_each :: "('x \<Rightarrow> 's body) \<Rightarrow> 'x list \<Rightarrow> 's body" where
  "for_each f [] s = Some s"
| "for_each f (x # xs) s = seq (f x) (for_each f xs) s"

lemma seq_eq_Some: "seq f g s = Some s' \<longleftrightarrow> (\<exists>s1. f s = Some s1 \<and> g s1 = Some s')"
  by (auto simp: seq_def split: option.splits)

lemma seq_Some [simp]: "f s = Some s1 \<Longrightarrow> seq f g s = g s1"
  by (simp add: seq_def)

text \<open>What every turn of a loop keeps, the loop keeps; and it raises nothing if no turn does.\<close>

lemma for_each_keeps:
  assumes "\<And>x s. x \<in> set xs \<Longrightarrow> P s \<Longrightarrow> \<exists>s'. f x s = Some s' \<and> P s'" "P s"
  shows "\<exists>s'. for_each f xs s = Some s' \<and> P s'"
  using assms
proof (induction xs arbitrary: s)
  case (Cons x xs)
  from Cons.prems obtain s1 where "f x s = Some s1" "P s1" by force
  then show ?case using Cons.IH [of s1] Cons.prems(1) by auto
qed simp

lemma for_each_mono:
  assumes "\<And>x s s'. f x s = Some s' \<Longrightarrow> P s s'" "\<And>s. P s s" "\<And>a b c. P a b \<Longrightarrow> P b c \<Longrightarrow> P a c"
  shows "for_each f xs s = Some s' \<Longrightarrow> P s s'"
  by (induction xs arbitrary: s) (auto simp: seq_eq_Some intro: assms)

text \<open>An array without the first element that has a property.\<close>

primrec remove_first :: "('a \<Rightarrow> bool) \<Rightarrow> 'a list \<Rightarrow> 'a list" where
  "remove_first P [] = []"
| "remove_first P (x # xs) = (if P x then xs else x # remove_first P xs)"

lemma remove_first_subset: "set (remove_first P xs) \<subseteq> set xs"
  by (induction xs) auto

lemma remove_first_keeps: "x \<in> set xs \<Longrightarrow> \<not> P x \<Longrightarrow> x \<in> set (remove_first P xs)"
  by (induction xs) auto

lemma remove_first_none: "\<not> (\<exists>x \<in> set xs. P x) \<Longrightarrow> remove_first P xs = xs"
  by (induction xs) auto

end
