(* ===== verification/Purchases.thy ===== *)
theory Purchases imports ObjC "HOL-Library.Multiset" begin

text \<open>
  In-app purchases: XMApplePay, XMAppleIAP and XMAppleIAP_Lost_Transaction_Helper in
  src/XMSDK_ios/Classes/XMApplePay, with the parts of UserManager and TTNetworkRequest that they
  use. The state is that of the shared objects, the order list in NSUserDefaults and the network
  requests that have not been answered; what the classes do to the outside is recorded in a trace.
  A block that is kept for later is a value that names the block and what it has captured. The
  blocks of the program that calls the SDK are of type \<open>'c\<close> and not nil, as the headers ask.

  StoreKit, the network and YYModel are outside: their calls are inputs, and the conversion of an
  order to JSON and back is a parameter. Asserting builds raise when \<open>startWithConfig:\<close> has not
  been called before the first request; here it has been.
\<close>

section \<open>Data\<close>

datatype XMAppleIAPType = CMAppleIAPTypeOneTime | CMAppleIAPTypeSubscribe

record XMAppleIAPModel =
  uid :: nsstring
  pid :: nsstring
  type_of :: XMAppleIAPType
  tid :: nsstring
  token :: nsstring

record UserModel =
  user_uid :: nsstring
  user_token :: nsstring
  firstSign :: bool

text \<open>\<open>yy_modelToJSONString\<close> and \<open>yy_modelWithJSON:\<close>; both may return nil.\<close>

record json =
  modelToJSONString :: "XMAppleIAPModel \<Rightarrow> nsstring"
  modelWithJSON :: "string \<Rightarrow> XMAppleIAPModel option"

datatype transaction_state = Purchasing | Purchased | Failed | Restored | Deferred

text \<open>\<open>originalTransaction\<close> is the product of the original transaction, if there is one.\<close>

record transaction =
  transactionIdentifier :: nsstring
  originalTransaction :: "string option"
  transactionState :: transaction_state
  cancelled :: bool

datatype 'c sucess_block = Client_sucess 'c | Apple_pay_sucess "UserModel option" nsstring XMAppleIAPType 'c

datatype 'c login_handler = Buy nsstring XMAppleIAPType 'c | Renewed string nsstring nsstring

text \<open>A request that waits for its answer. All callers of \<open>applePayWithUid:\<close> pass a success block
  that forgets the saved order with the captured transaction identifier.\<close>

datatype 'c net_request =
    Login "'c login_handler"
  | Apple_pay_request nsstring nsstring XMAppleIAPType nsstring nsstring "'c option"

datatype reply = Dictionary bool UserModel | Other_object | Transport_failure

datatype 'c event =
    Call_sucess 'c nsstring nsstring
  | Call_failure 'c int nsstring
  | Call_products 'c "string list"
  | Start_products_request "string list"
  | Add_observer
  | Add_payment string
  | Finish_transaction transaction
  | Post_login
  | Post_pay XMAppleIAPType nsstring nsstring nsstring
  | Saved XMAppleIAPModel
  | Accepted nsstring
  | Login_complete int

record 'c app =
  currentPurchaseID :: nsstring
  products_block :: "'c option"
  sucess_block :: "'c sucess_block option"
  failure_block :: "'c option"
  userModel :: "UserModel option"
  iap_product :: "string list option"
  requests :: "'c net_request list"
  trace :: "'c event list"

definition launch :: "'c app" where
  "launch = \<lparr>currentPurchaseID = None, products_block = None, sucess_block = None, failure_block = None,
     userModel = None, iap_product = None, requests = [], trace = []\<rparr>"

definition emit :: "'c event \<Rightarrow> 'c app \<Rightarrow> 'c app" where
  "emit e s = s\<lparr>trace := trace s @ [e]\<rparr>"

text \<open>\<open>if (self.failure) self.failure(code, message)\<close>\<close>

definition call_failure :: "int \<Rightarrow> nsstring \<Rightarrow> 'c app \<Rightarrow> 'c app" where
  "call_failure code message s =
     (case failure_block s of None \<Rightarrow> s | Some c \<Rightarrow> emit (Call_failure c code message) s)"

section \<open>Saved orders\<close>

definition saveUid ::
  "json \<Rightarrow> nsstring \<Rightarrow> nsstring \<Rightarrow> XMAppleIAPType \<Rightarrow> nsstring \<Rightarrow> nsstring \<Rightarrow> 'c app body" where
  "saveUid j u p ty t tok s =
     (let model = \<lparr>uid = u, pid = p, type_of = ty, tid = t, token = tok\<rparr>;
          jsonArray = (case iap_product s of None \<Rightarrow> [] | Some a \<Rightarrow> a)
      in case modelToJSONString j model of
           None \<Rightarrow> None
         | Some str \<Rightarrow> Some (emit (Saved model) (s\<lparr>iap_product := Some (jsonArray @ [str])\<rparr>)))"

text \<open>Adding nil to an array raises, so a string that does not parse ends in an exception.\<close>

definition savedProductInfos :: "json \<Rightarrow> 'c app \<Rightarrow> XMAppleIAPModel list option" where
  "savedProductInfos j s =
     those (map (modelWithJSON j)
       (filter (\<lambda>str. str \<noteq> []) (case iap_product s of None \<Rightarrow> [] | Some a \<Rightarrow> a)))"

definition updateSavedProductInfo :: "json \<Rightarrow> nsstring \<Rightarrow> 'c app body" where
  "updateSavedProductInfo j t s =
     (case savedProductInfos j s of
        None \<Rightarrow> None
      | Some infos \<Rightarrow>
          if \<exists>m \<in> set infos. isEqualToString (tid m) t then
            (case those (map (modelToJSONString j) (remove_first (\<lambda>m. isEqualToString (tid m) t) infos)) of
               None \<Rightarrow> None
             | Some jsonArray \<Rightarrow> Some (s\<lparr>iap_product := Some jsonArray\<rparr>))
          else Some s)"

definition processLostTransaction :: "json \<Rightarrow> (XMAppleIAPModel \<Rightarrow> 'c app body) \<Rightarrow> 'c app body" where
  "processLostTransaction j body s =
     (case savedProductInfos j s of None \<Rightarrow> None | Some infos \<Rightarrow> for_each body infos s)"

section \<open>Requests\<close>

text \<open>\<open>kNetworkErrorMsg\<close>, in UTF-8.\<close>

definition kNetworkErrorCode :: int where "kNetworkErrorCode = -1"

definition kNetworkErrorMsg :: string where
  "kNetworkErrorMsg = map char_of [230::nat, 151, 160, 230, 179, 149, 232, 191, 158, 230, 142, 165, 229, 136,
     176, 231, 189, 145, 231, 187, 156, 239, 188, 140, 232, 175, 183, 231, 168, 141, 229, 144, 142, 229, 134,
     141, 232, 175, 149]"

definition applePayWithUid ::
  "nsstring \<Rightarrow> nsstring \<Rightarrow> XMAppleIAPType \<Rightarrow> nsstring \<Rightarrow> nsstring \<Rightarrow> 'c option \<Rightarrow> 'c app \<Rightarrow> 'c app" where
  "applePayWithUid u p ty tok t fail s =
     emit (Post_pay ty u p tok) (s\<lparr>requests := requests s @ [Apple_pay_request u p ty tok t fail]\<rparr>)"

text \<open>The answer to \<open>applePayWithUid:\<close>.\<close>

definition apple_pay_answer :: "json \<Rightarrow> nsstring \<Rightarrow> 'c option \<Rightarrow> reply \<Rightarrow> 'c app body" where
  "apple_pay_answer j t fail r s =
     (case r of
        Dictionary _ _ \<Rightarrow> updateSavedProductInfo j t (emit (Accepted t) s)
      | _ \<Rightarrow> Some (case fail of None \<Rightarrow> s
                   | Some c \<Rightarrow> emit (Call_failure c kNetworkErrorCode (Some kNetworkErrorMsg)) s))"

section \<open>Purchases through StoreKit\<close>

definition queryProductsWithIDs :: "string list \<Rightarrow> 'c \<Rightarrow> 'c app \<Rightarrow> 'c app" where
  "queryProductsWithIDs ids c s = emit (Start_products_request ids) (s\<lparr>products_block := Some c\<rparr>)"

text \<open>\<open>canMakePayments\<close> is what StoreKit answers at the time.\<close>

definition startPurchaseWithID ::
  "bool \<Rightarrow> nsstring \<Rightarrow> 'c sucess_block \<Rightarrow> 'c \<Rightarrow> 'c app \<Rightarrow> 'c app" where
  "startPurchaseWithID canMakePayments purchID sucess fail s =
     (let s = s\<lparr>sucess_block := Some sucess, failure_block := Some fail\<rparr>
      in case purchID of
           None \<Rightarrow> emit (Call_failure fail (-1) (Some ''purchID can not be nil'')) s
         | Some purchID \<Rightarrow>
             if canMakePayments
             then emit (Start_products_request [purchID]) (s\<lparr>currentPurchaseID := Some purchID\<rparr>)
             else emit (Call_failure fail (-1) (Some '''')) s)"

text \<open>The handlers passed to \<open>requestUserModelWithHandler:\<close>. A message to a nil user gives nil.\<close>

definition uid_of :: "UserModel option \<Rightarrow> nsstring" where
  "uid_of u = (case u of None \<Rightarrow> None | Some u \<Rightarrow> user_uid u)"

definition run_login_handler :: "json \<Rightarrow> bool \<Rightarrow> 'c login_handler \<Rightarrow> UserModel option \<Rightarrow> 'c app body" where
  "run_login_handler j canMakePayments h u s =
     (case h of
        Buy subjectId ty fail \<Rightarrow>
          Some (startPurchaseWithID canMakePayments subjectId (Apple_pay_sucess u subjectId ty fail) fail s)
      | Renewed p t ptoken \<Rightarrow>
          (case saveUid j (uid_of u) (Some p) CMAppleIAPTypeSubscribe t ptoken s of
             None \<Rightarrow> None
           | Some s \<Rightarrow> Some (applePayWithUid (uid_of u) (Some p) CMAppleIAPTypeSubscribe ptoken t None s)))"

definition requestUserModelWithHandler :: "json \<Rightarrow> bool \<Rightarrow> 'c login_handler \<Rightarrow> 'c app body" where
  "requestUserModelWithHandler j canMakePayments h s =
     (case userModel s of
        Some u \<Rightarrow> run_login_handler j canMakePayments h (Some u) s
      | None \<Rightarrow> Some (emit Post_login (s\<lparr>requests := requests s @ [Login h]\<rparr>)))"

text \<open>\<open>userLoginWithUniqueId:\<close> answers with a user if the object has a value for \<open>success\<close>.\<close>

definition login_answer :: "json \<Rightarrow> bool \<Rightarrow> 'c login_handler \<Rightarrow> reply \<Rightarrow> 'c app body" where
  "login_answer j canMakePayments h r s =
     (let (u, code) = (case r of Dictionary True u \<Rightarrow> (Some u, 0) | _ \<Rightarrow> (None, kNetworkErrorCode));
          s = (if code = 0 then s\<lparr>userModel := u\<rparr> else s)
      in case run_login_handler j canMakePayments h u s of
           None \<Rightarrow> None
         | Some s \<Rightarrow> Some (emit (Login_complete code) s))"

text \<open>\<open>receipt\<close> is the Base64 text of the receipt in the bundle, nil if there is none.\<close>

definition parseReceipteWithPaymentTransaction :: "json \<Rightarrow> bool \<Rightarrow> nsstring \<Rightarrow> transaction \<Rightarrow> 'c app body" where
  "parseReceipteWithPaymentTransaction j canMakePayments receipt t s =
     (case originalTransaction t of
        Some p \<Rightarrow>
          (case requestUserModelWithHandler j canMakePayments (Renewed p (transactionIdentifier t) receipt) s of
             None \<Rightarrow> None
           | Some s \<Rightarrow> Some (emit (Finish_transaction t) s))
      | None \<Rightarrow>
          if receipt = None then Some (call_failure (-1) (Some ''receipt is nil'') s)
          else
            (case (case sucess_block s of
                     None \<Rightarrow> Some s
                   | Some (Client_sucess c) \<Rightarrow> Some (emit (Call_sucess c (transactionIdentifier t) receipt) s)
                   | Some (Apple_pay_sucess u subjectId ty fail) \<Rightarrow>
                       (case saveUid j (uid_of u) subjectId ty (transactionIdentifier t) receipt s of
                          None \<Rightarrow> None
                        | Some s' \<Rightarrow> Some (applePayWithUid (uid_of u) subjectId ty receipt (transactionIdentifier t)
                                           (Some fail) s'))) of
               None \<Rightarrow> None
             | Some s \<Rightarrow> Some (emit (Finish_transaction t) s)))"

definition failedTransaction :: "transaction \<Rightarrow> 'c app \<Rightarrow> 'c app" where
  "failedTransaction t s =
     emit (Finish_transaction t)
       (if \<not> cancelled t then call_failure (-1) (Some ''payment failed'') s
        else call_failure (-2) (Some ''payment cancel'') s)"

text \<open>One turn of the loop of \<open>paymentQueue:updatedTransactions:\<close>.\<close>

definition updatedTransaction :: "json \<Rightarrow> bool \<Rightarrow> nsstring \<Rightarrow> transaction \<Rightarrow> 'c app body" where
  "updatedTransaction j canMakePayments receipt t s =
     (case transactionState t of
        Purchased \<Rightarrow> parseReceipteWithPaymentTransaction j canMakePayments receipt t s
      | Restored \<Rightarrow>
          Some (emit (Finish_transaction t) (call_failure (-3) (Some ''SKPaymentTransactionStateRestored'') s))
      | Failed \<Rightarrow> Some (failedTransaction t s)
      | _ \<Rightarrow> Some s)"

definition didReceiveResponse :: "string list \<Rightarrow> 'c app \<Rightarrow> 'c app" where
  "didReceiveResponse product s =
     (if length product \<le> 0 then call_failure (-1) (Some ''not find product'') s
      else
        (case products_block s of
           Some c \<Rightarrow> (emit (Call_products c product) s)\<lparr>products_block := None\<rparr>
         | None \<Rightarrow>
             if currentPurchaseID s = None then call_failure (-1) (Some ''not find product'') s
             else
               (case List.find (\<lambda>pro. isEqualToString (Some pro) (currentPurchaseID s)) product of
                  None \<Rightarrow> call_failure (-1) (Some ''not find product'') s
                | Some pro \<Rightarrow> emit (Add_payment pro) s)))"

definition didFailWithError :: "int \<Rightarrow> nsstring \<Rightarrow> 'c app \<Rightarrow> 'c app" where
  "didFailWithError code message s = call_failure code message s"

definition shouldAddStorePayment :: "bool \<Rightarrow> string \<Rightarrow> 'c app \<Rightarrow> bool \<times> 'c app" where
  "shouldAddStorePayment canMakePayments pro s =
     (if canMakePayments then (True, emit (Add_payment pro) (emit Add_observer s)) else (False, s))"

section \<open>The entry points\<close>

text \<open>\<open>+[XMApplePay startPurchaseWithID:...]\<close>: the success block of the caller is not used.\<close>

definition XMApplePay_startPurchaseWithID ::
  "json \<Rightarrow> bool \<Rightarrow> nsstring \<Rightarrow> XMAppleIAPType \<Rightarrow> 'c \<Rightarrow> 'c app body" where
  "XMApplePay_startPurchaseWithID j canMakePayments subjectId ty c =
     seq (processLostTransaction j
            (\<lambda>m s. Some (applePayWithUid (uid m) (pid m) (type_of m) (token m) (tid m) (Some c) s)))
         (requestUserModelWithHandler j canMakePayments (Buy subjectId ty c))"

text \<open>\<open>-[XMSDKIOS startPurchaseWithID:...]\<close> goes to StoreKit directly.\<close>

definition XMSDKIOS_startPurchaseWithID ::
  "bool \<Rightarrow> nsstring \<Rightarrow> 'c \<Rightarrow> 'c app \<Rightarrow> 'c app" where
  "XMSDKIOS_startPurchaseWithID canMakePayments purchID c =
     startPurchaseWithID canMakePayments purchID (Client_sucess c) c"

text \<open>
  What can happen: calls of the program, calls of StoreKit, the answer to the request with a given
  index, and a new start of the program, which only keeps the order list. The boolean of an input
  is what \<open>canMakePayments\<close> answers meanwhile.
\<close>

datatype 'c input =
    Apple_pay bool nsstring XMAppleIAPType 'c
  | Sdk_purchase bool nsstring 'c
  | Query_products "string list" 'c
  | Products_response "string list"
  | Request_failed int nsstring
  | Updated_transactions bool nsstring "transaction list"
  | Store_payment bool string
  | Answer bool nat reply
  | Relaunch

definition relaunch :: "'c app \<Rightarrow> 'c app" where
  "relaunch s = launch\<lparr>iap_product := iap_product s, trace := trace s\<rparr>"

definition answer :: "json \<Rightarrow> bool \<Rightarrow> nat \<Rightarrow> reply \<Rightarrow> 'c app body" where
  "answer j canMakePayments i r s =
     (if i < length (requests s) then
        let s' = s\<lparr>requests := take i (requests s) @ drop (Suc i) (requests s)\<rparr>
        in case requests s ! i of
             Login h \<Rightarrow> login_answer j canMakePayments h r s'
           | Apple_pay_request u p ty tok t fail \<Rightarrow> apple_pay_answer j t fail r s'
      else Some s)"

fun handle :: "json \<Rightarrow> 'c input \<Rightarrow> 'c app body" where
  "handle j (Apple_pay can p ty c) s = XMApplePay_startPurchaseWithID j can p ty c s"
| "handle j (Sdk_purchase can p c) s = Some (XMSDKIOS_startPurchaseWithID can p c s)"
| "handle j (Query_products ids c) s = Some (queryProductsWithIDs ids c s)"
| "handle j (Products_response product) s = Some (didReceiveResponse product s)"
| "handle j (Request_failed code message) s = Some (didFailWithError code message s)"
| "handle j (Updated_transactions can receipt ts) s = for_each (updatedTransaction j can receipt) ts s"
| "handle j (Store_payment can pro) s = Some (snd (shouldAddStorePayment can pro s))"
| "handle j (Answer can i r) s = answer j can i r s"
| "handle j Relaunch s = Some (relaunch s)"

abbreviation run :: "json \<Rightarrow> 'c input list \<Rightarrow> 'c app body" where
  "run j \<equiv> for_each (handle j)"

section \<open>The list of saved orders\<close>

text \<open>YYModel writes every order as a nonempty string and reads it back as it was.\<close>

definition json_ok :: "json \<Rightarrow> bool" where
  "json_ok j \<longleftrightarrow> (\<forall>m. \<exists>str. modelToJSONString j m = Some str \<and> str \<noteq> [] \<and> modelWithJSON j str = Some m)"

definition stored_as :: "json \<Rightarrow> XMAppleIAPModel list \<Rightarrow> 'c app \<Rightarrow> bool" where
  "stored_as j ms s \<longleftrightarrow>
     (case iap_product s of None \<Rightarrow> [] | Some a \<Rightarrow> a) = map (\<lambda>m. the (modelToJSONString j m)) ms"

text \<open>The orders that must still be there: saved, with an identifier, and not accepted.\<close>

definition outstanding :: "'c app \<Rightarrow> XMAppleIAPModel set" where
  "outstanding s = {m. Saved m \<in> set (trace s) \<and> tid m \<noteq> None \<and> Accepted (tid m) \<notin> set (trace s)}"

definition orders_kept :: "json \<Rightarrow> 'c app \<Rightarrow> bool" where
  "orders_kept j s \<longleftrightarrow> (\<exists>ms. stored_as j ms s \<and> outstanding s \<subseteq> set ms)"

named_theorems app_simps \<open>what emitting an event and setting an attribute leave alone\<close>

lemma emit_attributes [app_simps]:
  "currentPurchaseID (emit e s) = currentPurchaseID s" "products_block (emit e s) = products_block s"
  "sucess_block (emit e s) = sucess_block s" "failure_block (emit e s) = failure_block s"
  "userModel (emit e s) = userModel s" "iap_product (emit e s) = iap_product s" "requests (emit e s) = requests s"
  "trace (emit e s) = trace s @ [e]"
  by (simp_all add: emit_def)

lemma orders_kept_cong:
  assumes "iap_product s' = iap_product s" "outstanding s' \<subseteq> outstanding s" "orders_kept j s"
  shows "orders_kept j s'"
  using assms by (auto simp: orders_kept_def stored_as_def)

lemma orders_kept_updates [app_simps]:
  "orders_kept j (s\<lparr>currentPurchaseID := a\<rparr>) = orders_kept j s"
  "orders_kept j (s\<lparr>products_block := b\<rparr>) = orders_kept j s"
  "orders_kept j (s\<lparr>sucess_block := c\<rparr>) = orders_kept j s"
  "orders_kept j (s\<lparr>failure_block := d\<rparr>) = orders_kept j s"
  "orders_kept j (s\<lparr>userModel := e\<rparr>) = orders_kept j s"
  "orders_kept j (s\<lparr>requests := f\<rparr>) = orders_kept j s"
  by (simp_all add: orders_kept_def stored_as_def outstanding_def)

lemma orders_kept_emit:
  assumes "orders_kept j s" "\<And>m. e \<noteq> Saved m"
  shows "orders_kept j (emit e s)"
proof (rule orders_kept_cong)
  show "outstanding (emit e s) \<subseteq> outstanding s" using assms(2) by (auto simp: outstanding_def emit_def)
qed (simp_all add: app_simps assms)

lemma orders_kept_call_failure: "orders_kept j s \<Longrightarrow> orders_kept j (call_failure code message s)"
  by (auto simp: call_failure_def intro: orders_kept_emit split: option.splits)

lemma those_map_Some: "(\<And>x. x \<in> set xs \<Longrightarrow> f x = Some (g x)) \<Longrightarrow> those (map f xs) = Some (map g xs)"
  by (induction xs) auto

lemma savedProductInfos_stored:
  assumes "json_ok j" "stored_as j ms s"
  shows "savedProductInfos j s = Some ms"
proof -
  define str where "str = (\<lambda>m. the (modelToJSONString j m))"
  have str: "str m \<noteq> []" "modelWithJSON j (str m) = Some m" for m
    using assms(1) unfolding json_ok_def str_def by (metis option.sel)+
  then have "filter (\<lambda>str. str \<noteq> []) (map str ms) = map str ms" by (simp add: filter_id_conv)
  moreover have "those (map (modelWithJSON j) (map str ms)) = Some (map (\<lambda>m. m) ms)"
    using str(2) by (simp add: comp_def those_map_Some)
  ultimately show ?thesis using assms(2) by (simp add: savedProductInfos_def stored_as_def str_def)
qed

lemma json_map: "json_ok j \<Longrightarrow> those (map (modelToJSONString j) ms) = Some (map (\<lambda>m. the (modelToJSONString j m)) ms)"
  by (intro those_map_Some) (metis json_ok_def option.sel)

lemma saveUid_stored:
  assumes "json_ok j" "stored_as j ms s" "m = \<lparr>uid = u, pid = p, type_of = ty, tid = t, token = tok\<rparr>"
  obtains a where "saveUid j u p ty t tok s = Some (emit (Saved m) (s\<lparr>iap_product := a\<rparr>))"
    "stored_as j (ms @ [m]) (emit (Saved m) (s\<lparr>iap_product := a\<rparr>))"
proof -
  obtain str where "modelToJSONString j m = Some str" using assms(1) unfolding json_ok_def by blast
  then show ?thesis
    using assms(2) that [of "Some ((case iap_product s of None \<Rightarrow> [] | Some a \<Rightarrow> a) @ [str])"]
    by (simp add: saveUid_def Let_def stored_as_def app_simps assms(3) [symmetric])
qed

lemma saveUid_keeps:
  assumes "json_ok j" "orders_kept j s"
  shows "\<exists>s'. saveUid j u p ty t tok s = Some s' \<and> orders_kept j s'"
proof -
  obtain ms where ms: "stored_as j ms s" "outstanding s \<subseteq> set ms" using assms(2) by (auto simp: orders_kept_def)
  from saveUid_stored [OF assms(1) ms(1) refl, of u p ty t tok] obtain a where
    a: "saveUid j u p ty t tok s =
        Some (emit (Saved \<lparr>uid = u, pid = p, type_of = ty, tid = t, token = tok\<rparr>) (s\<lparr>iap_product := a\<rparr>))"
      "stored_as j (ms @ [\<lparr>uid = u, pid = p, type_of = ty, tid = t, token = tok\<rparr>])
        (emit (Saved \<lparr>uid = u, pid = p, type_of = ty, tid = t, token = tok\<rparr>) (s\<lparr>iap_product := a\<rparr>))" .
  have "outstanding (emit (Saved m) (s\<lparr>iap_product := a\<rparr>)) \<subseteq> insert m (outstanding s)" for m
    by (auto simp: outstanding_def emit_def)
  with a ms(2) show ?thesis unfolding orders_kept_def by fastforce
qed

lemma update_stored:
  assumes "json_ok j" "stored_as j ms s"
  obtains a where "updateSavedProductInfo j t s = Some (s\<lparr>iap_product := a\<rparr>)"
    "stored_as j (remove_first (\<lambda>m. isEqualToString (tid m) t) ms) (s\<lparr>iap_product := a\<rparr>)"
proof (cases "\<exists>m \<in> set ms. isEqualToString (tid m) t")
  case True
  then show ?thesis
    using assms that [of "Some (map (\<lambda>m. the (modelToJSONString j m)) (remove_first (\<lambda>m. isEqualToString (tid m) t) ms))"]
    by (simp add: updateSavedProductInfo_def savedProductInfos_stored json_map stored_as_def)
next
  case False
  then show ?thesis
    using assms that [of "iap_product s"] remove_first_none [OF False]
    by (simp add: updateSavedProductInfo_def savedProductInfos_stored)
qed

lemma update_keeps:
  assumes "json_ok j" "orders_kept j s" "Accepted t \<in> set (trace s)"
  shows "\<exists>s'. updateSavedProductInfo j t s = Some s' \<and> orders_kept j s'"
proof -
  obtain ms where ms: "stored_as j ms s" "outstanding s \<subseteq> set ms" using assms(2) by (auto simp: orders_kept_def)
  from update_stored [OF assms(1) ms(1), of t] obtain a where a: "updateSavedProductInfo j t s = Some (s\<lparr>iap_product := a\<rparr>)"
    "stored_as j (remove_first (\<lambda>m. isEqualToString (tid m) t) ms) (s\<lparr>iap_product := a\<rparr>)" .
  have "outstanding (s\<lparr>iap_product := a\<rparr>) \<subseteq> set (remove_first (\<lambda>m. isEqualToString (tid m) t) ms)"
    using ms(2) assms(3) by (auto simp: outstanding_def isEqualToString_def intro!: remove_first_keeps)
  with a show ?thesis by (auto simp: orders_kept_def)
qed

section \<open>Invariants of the inputs\<close>

text \<open>
  What an invariant of the purchases has to show about the elementary changes of the state for
  every input to keep it. \<open>allowed\<close> says which success blocks may be set.
\<close>

locale app_invariant =
  fixes P :: "json \<Rightarrow> 'c app \<Rightarrow> bool" and allowed :: "'c sucess_block \<Rightarrow> bool"
  assumes P_emit: "P j s \<Longrightarrow> (\<And>m. e \<noteq> Saved m) \<Longrightarrow> (\<And>c t r. e = Call_sucess c t r \<Longrightarrow> allowed (Client_sucess c)) \<Longrightarrow> P j (emit e s)"
    and P_purchase: "P j s \<Longrightarrow> P j (s\<lparr>currentPurchaseID := a\<rparr>)"
    and P_products: "P j s \<Longrightarrow> P j (s\<lparr>products_block := b\<rparr>)"
    and P_failure: "P j s \<Longrightarrow> P j (s\<lparr>failure_block := d\<rparr>)"
    and P_user: "P j s \<Longrightarrow> P j (s\<lparr>userModel := u\<rparr>)"
    and P_requests: "P j s \<Longrightarrow> P j (s\<lparr>requests := q\<rparr>)"
    and P_sucess: "P j s \<Longrightarrow> allowed sb \<Longrightarrow> P j (s\<lparr>sucess_block := Some sb\<rparr>)"
    and sucess_allowed: "P j s \<Longrightarrow> sucess_block s = Some sb \<Longrightarrow> allowed sb"
    and apple_pay_allowed: "allowed (Apple_pay_sucess w p ty c)"
    and P_relaunch: "P j s \<Longrightarrow> P j (relaunch s)"
    and P_infos: "json_ok j \<Longrightarrow> P j s \<Longrightarrow> savedProductInfos j s \<noteq> None"
    and P_save: "json_ok j \<Longrightarrow> P j s \<Longrightarrow> \<exists>s'. saveUid j x p ty t tok s = Some s' \<and> P j s'"
    and P_update: "json_ok j \<Longrightarrow> P j s \<Longrightarrow> Accepted t \<in> set (trace s) \<Longrightarrow> \<exists>s'. updateSavedProductInfo j t s = Some s' \<and> P j s'"
begin

lemma P_call_failure: "P j s \<Longrightarrow> P j (call_failure code message s)"
  by (auto simp: call_failure_def intro: P_emit split: option.splits)

lemmas P_intros = P_emit P_call_failure P_purchase P_products P_failure P_user P_requests P_sucess apple_pay_allowed

lemma applePay_keeps: "P j s \<Longrightarrow> P j (applePayWithUid u p ty tok t fail s)"
  by (auto simp: applePayWithUid_def intro!: P_intros)

lemma startPurchase_keeps: "P j s \<Longrightarrow> allowed b \<Longrightarrow> P j (startPurchaseWithID can p b c s)"
  by (auto simp: startPurchaseWithID_def Let_def intro!: P_intros split: option.splits)

lemma login_handler_keeps:
  assumes "json_ok j" "P j s"
  shows "\<exists>s'. run_login_handler j can h u s = Some s' \<and> P j s'"
proof (cases h)
  case (Buy p ty c)
  then show ?thesis using assms(2) by (simp add: run_login_handler_def startPurchase_keeps apple_pay_allowed)
next
  case (Renewed p t tok)
  obtain s' where "saveUid j (uid_of u) (Some p) CMAppleIAPTypeSubscribe t tok s = Some s'" "P j s'"
    using P_save [OF assms] by blast
  then show ?thesis using Renewed by (simp add: run_login_handler_def applePay_keeps)
qed

lemma request_user_keeps:
  assumes "json_ok j" "P j s"
  shows "\<exists>s'. requestUserModelWithHandler j can h s = Some s' \<and> P j s'"
  using login_handler_keeps [OF assms] assms(2)
  by (auto simp: requestUserModelWithHandler_def intro!: P_intros split: option.splits)

lemma parse_receipt_keeps:
  assumes "json_ok j" "P j s"
  shows "\<exists>s'. parseReceipteWithPaymentTransaction j can r t s = Some s' \<and> P j s'"
proof (cases "originalTransaction t")
  case (Some p)
  from request_user_keeps [OF assms, of can "Renewed p (transactionIdentifier t) r"] Some show ?thesis
    by (auto simp: parseReceipteWithPaymentTransaction_def intro!: P_intros)
next
  case None
  consider (nil) "r = None \<or> sucess_block s = None"
    | (client) c where "r \<noteq> None" "sucess_block s = Some (Client_sucess c)"
    | (apple) u p ty c where "r \<noteq> None" "sucess_block s = Some (Apple_pay_sucess u p ty c)"
    by (metis not_Some_eq sucess_block.exhaust)
  then show ?thesis
  proof cases
    case apple
    obtain s' where "saveUid j (uid_of u) p ty (transactionIdentifier t) r s = Some s'" "P j s'"
      using P_save [OF assms] by blast
    then show ?thesis
      using None apple
      by (auto simp: parseReceipteWithPaymentTransaction_def intro!: P_emit applePay_keeps)
  next
    case client
    have "P j (emit (Call_sucess c (transactionIdentifier t) r) s)"
      using sucess_allowed [OF assms(2) client(2)] assms(2) by (auto intro: P_emit)
    then show ?thesis
      using None client by (auto simp: parseReceipteWithPaymentTransaction_def intro!: P_emit)
  qed (use None assms(2) in \<open>auto simp: parseReceipteWithPaymentTransaction_def intro!: P_intros\<close>)
qed

lemma updated_transaction_keeps:
  "json_ok j \<Longrightarrow> P j s \<Longrightarrow> \<exists>s'. updatedTransaction j can r t s = Some s' \<and> P j s'"
  by (auto simp: updatedTransaction_def parse_receipt_keeps failedTransaction_def intro!: P_intros
      split: transaction_state.splits)

lemma products_keeps: "P j s \<Longrightarrow> P j (didReceiveResponse ps s)"
  by (auto simp: didReceiveResponse_def intro!: P_intros split: option.splits)

lemma login_answer_keeps:
  assumes "json_ok j" "P j s"
  shows "\<exists>s'. login_answer j can h r s = Some s' \<and> P j s'"
proof -
  have "\<exists>s'. run_login_handler j can h v (s\<lparr>userModel := w\<rparr>) = Some s' \<and> P j s'" for v w
    by (rule login_handler_keeps [OF assms(1)]) (rule P_user [OF assms(2)])
  moreover have "\<exists>s'. run_login_handler j can h v s = Some s' \<and> P j s'" for v
    by (rule login_handler_keeps [OF assms])
  moreover have "\<exists>v w code. login_answer j can h r s = (case run_login_handler j can h v w of
      None \<Rightarrow> None | Some s \<Rightarrow> Some (emit (Login_complete code) s)) \<and> (w = s \<or> w = s\<lparr>userModel := v\<rparr>)"
    by (cases r; cases "\<exists>u. r = Dictionary True u")
      (auto simp: login_answer_def Let_def kNetworkErrorCode_def split: bool.splits intro: exI [of _ "Some _"])
  moreover have "P j (emit (Login_complete code) s')" if "P j s'" for s' code
    using that by (auto intro: P_emit)
  ultimately show ?thesis by (metis option.simps(5))
qed

lemma pay_answer_keeps:
  assumes "json_ok j" "P j s"
  shows "\<exists>s'. apple_pay_answer j t c r s = Some s' \<and> P j s'"
proof (cases r)
  case (Dictionary b u)
  have "P j (emit (Accepted t) s)" using assms(2) by (auto intro: P_emit)
  then show ?thesis
    using P_update [OF assms(1), of "emit (Accepted t) s" t] Dictionary
    by (simp add: apple_pay_answer_def app_simps)
qed (use assms(2) in \<open>auto simp: apple_pay_answer_def intro!: P_intros split: option.splits\<close>)

lemma answer_keeps:
  assumes "json_ok j" "P j s"
  shows "\<exists>s'. answer j can i r s = Some s' \<and> P j s'"
  using login_answer_keeps [OF assms(1)] pay_answer_keeps [OF assms(1)] P_requests [OF assms(2)] assms(2)
  by (auto simp: answer_def Let_def split: net_request.splits)

lemma lost_transactions_keeps:
  assumes "json_ok j" "P j s"
  shows "\<exists>s'. processLostTransaction j
      (\<lambda>m s. Some (applePayWithUid (uid m) (pid m) (type_of m) (token m) (tid m) (Some c) s)) s = Some s' \<and> P j s'"
  using P_infos [OF assms] assms(2) by (auto simp: processLostTransaction_def applePay_keeps intro!: for_each_keeps)

lemma handle_keeps:
  assumes "json_ok j" "P j s" "\<And>can p c. i = Sdk_purchase can p c \<Longrightarrow> allowed (Client_sucess c)"
  shows "\<exists>s'. handle j i s = Some s' \<and> P j s'"
proof (cases i)
  case (Apple_pay can p ty c)
  then show ?thesis
    using request_user_keeps [OF assms(1)] lost_transactions_keeps [OF assms(1,2), of c]
    by (auto simp: XMApplePay_startPurchaseWithID_def)
next
  case (Updated_transactions can r ts)
  then show ?thesis using assms by (auto intro!: for_each_keeps updated_transaction_keeps)
qed (use assms in \<open>auto simp: XMSDKIOS_startPurchaseWithID_def startPurchase_keeps queryProductsWithIDs_def
    products_keeps didFailWithError_def shouldAddStorePayment_def answer_keeps P_relaunch intro!: P_intros\<close>)

lemma run_keeps:
  assumes "json_ok j" "P j s" "\<And>can p c. Sdk_purchase can p c \<in> set inputs \<Longrightarrow> allowed (Client_sucess c)"
  shows "\<exists>s'. run j inputs s = Some s' \<and> P j s'"
proof (rule for_each_keeps)
  show "\<exists>s'. handle j i s = Some s' \<and> P j s'" if "i \<in> set inputs" "P j s" for i s
    using that assms(3) by (intro handle_keeps [OF assms(1)]) auto
qed (rule assms(2))

end

interpretation orders: app_invariant orders_kept "\<lambda>_. True"
proof unfold_locales
  fix j and s :: "'c app"
  assume ok: "json_ok j" "orders_kept j s"
  then show "savedProductInfos j s \<noteq> None" using savedProductInfos_stored by (auto simp: orders_kept_def)
  show "\<exists>s'. saveUid j x p ty t tok s = Some s' \<and> orders_kept j s'" for x p ty t tok
    by (rule saveUid_keeps [OF ok])
  show "\<exists>s'. updateSavedProductInfo j t s = Some s' \<and> orders_kept j s'" if "Accepted t \<in> set (trace s)" for t
    by (rule update_keeps [OF ok that])
next
  fix j and s :: "'c app"
  assume "orders_kept j s"
  then show "orders_kept j (relaunch s)"
    by (simp add: orders_kept_def stored_as_def outstanding_def relaunch_def launch_def)
qed (auto simp: app_simps orders_kept_emit)

lemma launch_keeps: "orders_kept j launch"
  by (simp add: orders_kept_def stored_as_def outstanding_def launch_def)

text \<open>As long as the SDK's own entry point is not used, no success block of the program is called.\<close>

definition silent :: "json \<Rightarrow> 'c app \<Rightarrow> bool" where
  "silent j s \<longleftrightarrow> orders_kept j s \<and> (\<forall>c. sucess_block s \<noteq> Some (Client_sucess c)) \<and>
     (\<forall>c t r. Call_sucess c t r \<notin> set (trace s))"

lemma silent_change:
  assumes "silent j s" "orders_kept j s'" "sucess_block s' = sucess_block s"
    "\<And>c t r. Call_sucess c t r \<in> set (trace s') \<Longrightarrow> Call_sucess c t r \<in> set (trace s)"
  shows "silent j s'"
  using assms by (auto simp: silent_def)

interpretation quiet: app_invariant silent "\<lambda>b. \<forall>c. b \<noteq> Client_sucess c"
proof unfold_locales
  fix j and s :: "'c app"
  assume ok: "json_ok j" "silent j s"
  then have kept: "orders_kept j s" by (simp add: silent_def)
  then show "savedProductInfos j s \<noteq> None" by (rule orders.P_infos [OF ok(1)])
  show "\<exists>s'. saveUid j x p ty t tok s = Some s' \<and> silent j s'" for x p ty t tok
    using saveUid_keeps [OF ok(1) kept, of x p ty t tok] ok(2)
    by (fastforce simp: saveUid_def Let_def app_simps intro: silent_change split: option.splits)
  show "\<exists>s'. updateSavedProductInfo j t s = Some s' \<and> silent j s'" if "Accepted t \<in> set (trace s)" for t
    using update_keeps [OF ok(1) kept that] ok(2)
    by (fastforce simp: updateSavedProductInfo_def intro: silent_change split: option.splits if_splits)
next
  fix j and s :: "'c app"
  assume "silent j s"
  then show "silent j (relaunch s)"
    using orders.P_relaunch [of j s] by (simp add: silent_def relaunch_def launch_def)
next
  fix j and s :: "'c app" and e :: "'c event"
  assume "silent j s" "\<And>m. e \<noteq> Saved m" "\<And>c t r. e = Call_sucess c t r \<Longrightarrow> \<forall>c'. Client_sucess c \<noteq> Client_sucess c'"
  then show "silent j (emit e s)" using orders_kept_emit [of j s e] by (auto simp: silent_def app_simps)
qed (auto simp: silent_def app_simps)

section \<open>Draining the list\<close>

lemma mset_remove_first:
  "\<exists>x \<in> set xs. f x = t \<Longrightarrow> mset (map f (remove_first (\<lambda>x. f x = t) xs)) = mset (map f xs) - {#t#}"
  by (induction xs) auto

lemma stored_as_emit [simp]: "stored_as j ms (emit e s) = stored_as j ms s"
  by (simp add: stored_as_def app_simps)

lemma stored_as_requests [simp]: "stored_as j ms (s\<lparr>requests := q\<rparr>) = stored_as j ms s"
  by (simp add: stored_as_def)

definition pay_request :: "'c \<Rightarrow> XMAppleIAPModel \<Rightarrow> 'c net_request" where
  "pay_request c m = Apple_pay_request (uid m) (pid m) (type_of m) (token m) (tid m) (Some c)"

lemma lost_transactions_requests:
  "\<exists>tr. for_each (\<lambda>m s. Some (applePayWithUid (uid m) (pid m) (type_of m) (token m) (tid m) (Some c) s)) ms s =
     Some (s\<lparr>requests := requests s @ map (pay_request c) ms, trace := tr\<rparr>)"
proof (induction ms arbitrary: s)
  case Nil
  show ?case by (rule exI [of _ "trace s"]) simp
next
  case (Cons m ms)
  then show ?case
    using Cons.IH [of "applePayWithUid (uid m) (pid m) (type_of m) (token m) (tid m) (Some c) s"]
    by (auto simp: applePayWithUid_def pay_request_def emit_def)
qed

lemma request_user_requests:
  assumes "requestUserModelWithHandler j can (Buy p ty c) s = Some s'" "stored_as j ms s"
  shows "stored_as j ms s' \<and> (\<exists>post. requests s' = requests s @ post)"
  using assms
  by (auto simp: requestUserModelWithHandler_def run_login_handler_def startPurchaseWithID_def Let_def stored_as_def app_simps
      split: option.splits if_splits)

lemma drain:
  assumes "json_ok j"
  shows "stored_as j ms s \<Longrightarrow> requests s = pre @ map (pay_request c) qs @ post \<Longrightarrow>
    mset (map tid ms) = mset (map tid qs) \<Longrightarrow> (\<forall>q \<in> set qs. tid q \<noteq> None) \<Longrightarrow>
    \<exists>s'. run j (replicate (length qs) (Answer can (length pre) (Dictionary b u))) s = Some s' \<and> stored_as j [] s'"
proof (induction qs arbitrary: ms s)
  case (Cons q qs)
  define s1 where "s1 = emit (Accepted (tid q)) (s\<lparr>requests := pre @ map (pay_request c) qs @ post\<rparr>)"
  obtain t where t: "tid q = Some t" using Cons.prems(4) by auto
  have "stored_as j ms s1" using Cons.prems(1) by (simp add: s1_def)
  from update_stored [OF assms this, of "tid q"] obtain a where
    a: "updateSavedProductInfo j (tid q) s1 = Some (s1\<lparr>iap_product := a\<rparr>)"
      "stored_as j (remove_first (\<lambda>m. tid m = Some t) ms) (s1\<lparr>iap_product := a\<rparr>)" by (auto simp: t)
  have "handle j (Answer can (length pre) (Dictionary b u)) s = updateSavedProductInfo j (tid q) s1"
    using Cons.prems(2) by (simp add: answer_def Let_def pay_request_def [of c q] apple_pay_answer_def s1_def)
  moreover have "tid q \<in># mset (map tid ms)" unfolding Cons.prems(3) by simp
  then have "\<exists>m \<in> set ms. tid m = Some t" by (auto simp: t)
  then have "mset (map tid (remove_first (\<lambda>m. tid m = Some t) ms)) = mset (map tid qs)"
    unfolding mset_remove_first [of ms tid "Some t", OF \<open>\<exists>m \<in> set ms. tid m = Some t\<close>] Cons.prems(3) by (simp add: t)
  then have "\<exists>s'. run j (replicate (length qs) (Answer can (length pre) (Dictionary b u))) (s1\<lparr>iap_product := a\<rparr>) = Some s' \<and>
      stored_as j [] s'"
    using Cons.prems(4) by (intro Cons.IH [OF a(2)]) (simp_all add: s1_def app_simps)
  ultimately show ?case using a(1) by simp
qed simp

lemma infos_stored: "json_ok j \<Longrightarrow> savedProductInfos j s = Some ms \<Longrightarrow> stored_as j ms' s \<Longrightarrow> stored_as j ms s"
  by (simp add: savedProductInfos_stored)

section \<open>Properties\<close>

text \<open>C1. No paid order is lost by the SDK: once an order with a transaction identifier has been saved, it
  is in the list that is read back until the server has accepted a request for that identifier,
  whatever the program, StoreKit and the network do in between, and over new starts of the program.\<close>

theorem saved_until_accepted:
  assumes "json_ok j" "run j inputs launch = Some s"
    "Saved m \<in> set (trace s)" "tid m = Some t" "Accepted (Some t) \<notin> set (trace s)"
  shows "\<exists>ms. savedProductInfos j s = Some ms \<and> m \<in> set ms"
proof -
  have "orders_kept j s" using orders.run_keeps [OF assms(1) launch_keeps, of inputs] assms(2) by auto
  then obtain ms where "stored_as j ms s" "outstanding s \<subseteq> set ms" by (auto simp: orders_kept_def)
  moreover have "m \<in> outstanding s" using assms(3-5) by (simp add: outstanding_def)
  ultimately show ?thesis using savedProductInfos_stored [OF assms(1)] by blast
qed

text \<open>No sequence of calls, of StoreKit's notifications and of network answers makes the purchase
  classes raise an exception.\<close>

theorem purchases_never_raise:
  assumes "json_ok j"
  shows "\<exists>s. run j inputs launch = Some s"
  using orders.run_keeps [OF assms launch_keeps, of inputs] by blast



text \<open>Through \<open>XMApplePay\<close> a program never learns that its purchase succeeded: the success block it
  passes is not called, however the purchase goes.\<close>

lemma apple_pay_success_not_reported:
  assumes "json_ok j" "run j inputs launch = Some s" "\<forall>i \<in> set inputs. \<forall>can p c. i \<noteq> Sdk_purchase can p c"
  shows "Call_sucess c t r \<notin> set (trace s)"
proof -
  have "silent j launch" using launch_keeps by (simp add: silent_def launch_def)
  then have "silent j s"
    using quiet.run_keeps [OF assms(1), of launch inputs] assms(2,3) by fastforce
  then show ?thesis by (simp add: silent_def)
qed

text \<open>A conversion that keeps the promise of \<open>json_ok\<close>, for examples.\<close>

primrec write_chars :: "string \<Rightarrow> string" where
  "write_chars [] = '';''"
| "write_chars (c # cs) = CHR ''.'' # c # write_chars cs"

definition write_string :: "nsstring \<Rightarrow> string" where
  "write_string s = (case s of None \<Rightarrow> ''n'' | Some cs \<Rightarrow> CHR ''s'' # write_chars cs)"

fun read_chars :: "string \<Rightarrow> string \<times> string" where
  "read_chars (m # c # cs) =
     (if m = CHR ''.'' then (case read_chars cs of (a, rest) \<Rightarrow> (c # a, rest)) else ([], c # cs))"
| "read_chars cs = ([], [])"

definition read_string :: "string \<Rightarrow> nsstring \<times> string" where
  "read_string s = (if hd s = CHR ''n'' then (None, tl s) else (case read_chars (tl s) of (a, rest) \<Rightarrow> (Some a, rest)))"

lemma read_write_chars [simp]: "read_chars (write_chars cs @ rest) = (cs, rest)"
  by (induction cs) (cases rest; simp)+

lemma read_write_string [simp]: "read_string (write_string s @ rest) = (s, rest)"
  by (simp add: read_string_def write_string_def split: option.splits)

definition example_json :: json where
  "example_json =
     \<lparr>modelToJSONString = (\<lambda>m. Some ((case type_of m of CMAppleIAPTypeOneTime \<Rightarrow> CHR ''0'' | _ \<Rightarrow> CHR ''1'') #
        write_string (uid m) @ write_string (pid m) @ write_string (tid m) @ write_string (token m) @ [])),
      modelWithJSON = (\<lambda>str.
        let (u, r) = read_string (tl str); (p, r) = read_string r; (t, r) = read_string r; (tok, r) = read_string r
        in Some \<lparr>uid = u, pid = p, type_of = (if hd str = CHR ''0'' then CMAppleIAPTypeOneTime else CMAppleIAPTypeSubscribe),
                 tid = t, token = tok\<rparr>)\<rparr>"

lemma example_json_ok: "json_ok example_json"
  unfolding json_ok_def
proof
  fix m :: XMAppleIAPModel
  have "modelWithJSON example_json (the (modelToJSONString example_json m)) = Some m"
    unfolding example_json_def json.select_convs option.sel append.simps append_assoc list.sel read_write_string
      Let_def prod.case
    by (cases m) (auto split: XMAppleIAPType.splits)
  then show "\<exists>str. modelToJSONString example_json m = Some str \<and> str \<noteq> [] \<and> modelWithJSON example_json str = Some m"
    by (simp add: example_json_def)
qed

text \<open>A renewal that arrives before the user has logged in, and the login.\<close>

definition renewal :: transaction where
  "renewal = \<lparr>transactionIdentifier = Some ''t1'', originalTransaction = Some ''vip'',
     transactionState = Purchased, cancelled = False\<rparr>"

definition example_user :: UserModel where
  "example_user = \<lparr>user_uid = Some ''u'', user_token = None, firstSign = False\<rparr>"

definition example_inputs :: "nat input list" where
  "example_inputs = [Updated_transactions True (Some ''r'') [renewal], Answer True 0 (Dictionary True example_user)]"

definition example_order :: XMAppleIAPModel where
  "example_order = \<lparr>uid = Some ''u'', pid = Some ''vip'', type_of = CMAppleIAPTypeSubscribe, tid = Some ''t1'', token = Some ''r''\<rparr>"

lemma example_run:
  "\<exists>s. run example_json example_inputs launch = Some s \<and>
     trace s = [Post_login, Finish_transaction renewal, Saved example_order,
       Post_pay CMAppleIAPTypeSubscribe (Some ''u'') (Some ''vip'') (Some ''r''), Login_complete 0] \<and>
     userModel s = Some example_user"
proof -
  obtain str where "modelToJSONString example_json example_order = Some str"
    using example_json_ok unfolding json_ok_def by blast
  then show ?thesis
    by (simp add: example_inputs_def launch_def updatedTransaction_def renewal_def parseReceipteWithPaymentTransaction_def
      requestUserModelWithHandler_def answer_def Let_def login_answer_def run_login_handler_def saveUid_def uid_of_def
      example_user_def example_order_def applePayWithUid_def emit_def)
qed

theorem saved_until_accepted_witness:
  "\<exists>s ms. run example_json example_inputs launch = Some s \<and> savedProductInfos example_json s = Some ms \<and> example_order \<in> set ms"
proof -
  obtain s where s: "run example_json example_inputs launch = Some s"
    "trace s = [Post_login, Finish_transaction renewal, Saved example_order,
       Post_pay CMAppleIAPTypeSubscribe (Some ''u'') (Some ''vip'') (Some ''r''), Login_complete 0]"
    using example_run by blast
  have "tid example_order = Some ''t1''" by (simp add: example_order_def)
  from saved_until_accepted [OF example_json_ok s(1) _ this] s show ?thesis by auto
qed

theorem purchases_never_raise_witness: "\<exists>s. run example_json example_inputs launch = Some s"
  by (rule purchases_never_raise [OF example_json_ok])



lemma apple_pay_success_not_reported_example:
  "\<exists>s. run example_json [Apple_pay True None CMAppleIAPTypeOneTime (0 :: nat)] launch = Some s \<and>
     Call_sucess 0 None None \<notin> set (trace s)"
proof -
  obtain s where "run example_json [Apple_pay True None CMAppleIAPTypeOneTime (0 :: nat)] launch = Some s"
    using orders.run_keeps [OF example_json_ok launch_keeps, of "[Apple_pay True None CMAppleIAPTypeOneTime 0]"] by blast
  with apple_pay_success_not_reported [OF example_json_ok this] show ?thesis by auto
qed

end
