(* ===== verification/Speech.thy ===== *)
theory Speech imports ObjC begin

text \<open>
  Speech to text, src/XMSDK_ios/Classes/STT/XMSTTManager.m: the manager with its queue of actions,
  the actions, which collect frames and show them one after the other, and the actuator that runs one
  recognition. Action objects are shared between the program and the manager, so they are in a heap,
  known by number. The speech framework is outside: what it reports is an input. It reports to the
  actuator of the last recognition only, as the manager lets go of the ones before, and it does not
  report any more after the end of a recognition.
\<close>

section \<open>Actions and their frames\<close>

text \<open>The states are bits; an action that has just been made has state 0.\<close>

definition XMSTTStateNone :: nat where "XMSTTStateNone = 1"
definition XMSTTStateDoing :: nat where "XMSTTStateDoing = 2"
definition XMSTTStateSuccess :: nat where "XMSTTStateSuccess = 4"
definition XMSTTStateFailure :: nat where "XMSTTStateFailure = 8"

record XMSTTActionFrameModel =
  frame_state :: nat
  frame_text :: nsstring
  frame_error :: nsstring

record XMSTTAction =
  filePath :: nsstring
  state :: nat
  text_shown :: nsstring
  sequenceFrameModels :: "XMSTTActionFrameModel list option"
  isPlaying :: bool

text \<open>\<open>init\<close> sets \<open>isPlaying\<close>; the array of frames is nil, like every attribute that is not set.\<close>

definition action_init :: "nsstring \<Rightarrow> XMSTTAction" where
  "action_init path =
     \<lparr>filePath = path, state = 0, text_shown = None, sequenceFrameModels = None, isPlaying = False\<rparr>"

text \<open>The boolean tells whether \<open>startPlay\<close> is scheduled on the run loop.\<close>

definition action_startNext :: "XMSTTAction \<Rightarrow> XMSTTAction \<times> bool" where
  "action_startNext a =
     (if (case sequenceFrameModels a of None \<Rightarrow> 0 | Some fs \<Rightarrow> length fs) \<noteq> 0
      then (a\<lparr>isPlaying := True\<rparr>, True) else (a\<lparr>isPlaying := False\<rparr>, False))"

definition addFrameModel :: "nat \<Rightarrow> nsstring \<Rightarrow> nsstring \<Rightarrow> XMSTTAction \<Rightarrow> XMSTTAction \<times> bool" where
  "addFrameModel st msg err a =
     (let model = \<lparr>frame_state = st, frame_text = msg, frame_error = err\<rparr>;
          a = a\<lparr>sequenceFrameModels := map_option (\<lambda>fs. fs @ [model]) (sequenceFrameModels a)\<rparr>
      in if \<not> isPlaying a then action_startNext a else (a, False))"

text \<open>Removing the first element of an empty array raises.\<close>

definition startPlay :: "XMSTTAction body" where
  "startPlay a =
     (case sequenceFrameModels a of
        None \<Rightarrow> Some (a\<lparr>state := 0, text_shown := None\<rparr>)
      | Some [] \<Rightarrow> None
      | Some (f # fs) \<Rightarrow> Some (a\<lparr>sequenceFrameModels := Some fs, state := frame_state f, text_shown := frame_text f\<rparr>))"

section \<open>The manager\<close>

text \<open>\<open>recognized\<close> is the text of the result that was kept; \<open>finished\<close> that the end was reported.\<close>

record actuator_obj =
  wavFilePath :: string
  isCancelled :: bool
  recognized :: nsstring
  finished :: bool

text \<open>\<open>objects\<close> is the heap, \<open>scheduled\<close> the calls of \<open>startPlay\<close> that the run loop has to make, and
  \<open>started\<close> lists the actions whose recognition has been started, for the properties.\<close>

record stt =
  objects :: "nat \<Rightarrow> XMSTTAction"
  actionQueue :: "nat list"
  currentAction :: "nat option"
  actuator :: "actuator_obj option"
  isDoing :: bool
  scheduled :: "nat list"
  started :: "nat list"

definition stt_init :: "(nat \<Rightarrow> XMSTTAction) \<Rightarrow> stt" where
  "stt_init objs = \<lparr>objects = objs, actionQueue = [], currentAction = None, actuator = None,
     isDoing = False, scheduled = [], started = []\<rparr>"

text \<open>Scheduling an action again cancels the call that is scheduled. A message to nil does nothing.\<close>

definition add_frame :: "nat option \<Rightarrow> nat \<Rightarrow> nsstring \<Rightarrow> nsstring \<Rightarrow> stt \<Rightarrow> stt" where
  "add_frame ref st msg err s =
     (case ref of
        None \<Rightarrow> s
      | Some i \<Rightarrow>
          (case addFrameModel st msg err (objects s i) of
             (a, sched) \<Rightarrow> s\<lparr>objects := (objects s)(i := a),
               scheduled := (if sched then filter (\<lambda>k. k \<noteq> i) (scheduled s) @ [i] else scheduled s)\<rparr>))"

text \<open>\<open>fileURLWithPath:\<close> raises for nil.\<close>

definition recognizeLocalAudio :: "nsstring \<Rightarrow> actuator_obj option" where
  "recognizeLocalAudio path =
     (case path of None \<Rightarrow> None
      | Some p \<Rightarrow> Some \<lparr>wavFilePath = p, isCancelled = False, recognized = None, finished = False\<rparr>)"

definition startOne :: "stt body" where
  "startOne s =
     (case currentAction s of
        None \<Rightarrow> None
      | Some i \<Rightarrow>
          (case recognizeLocalAudio (filePath (objects s i)) of
             None \<Rightarrow> None
           | Some ac \<Rightarrow> Some (s\<lparr>actuator := Some ac, started := started s @ [i]\<rparr>)))"

definition startNext :: "stt body" where
  "startNext s =
     (case actionQueue s of
        i # q \<Rightarrow> startOne (s\<lparr>isDoing := True, currentAction := Some i, actionQueue := q\<rparr>)
      | [] \<Rightarrow> Some (s\<lparr>isDoing := False, currentAction := None\<rparr>))"

definition startAll :: "stt body" where
  "startAll s = (if isDoing s then Some s else startNext s)"

text \<open>The frame's text is the Chinese for \<open>converting...\<close>, in UTF-8.\<close>

definition converting :: string where
  "converting = map char_of [232::nat, 189, 172, 230, 141, 162, 228, 184, 173, 46, 46, 46]"

definition addAction :: "nat \<Rightarrow> stt body" where
  "addAction i s =
     startAll (add_frame (Some i) XMSTTStateDoing (Some converting) None (s\<lparr>actionQueue := actionQueue s @ [i]\<rparr>))"

definition stopAll :: "stt \<Rightarrow> stt" where
  "stopAll s = s\<lparr>actionQueue := [], isDoing := False,
     actuator := map_option (\<lambda>ac. ac\<lparr>isCancelled := True\<rparr>) (actuator s)\<rparr>"

section \<open>What the speech framework reports\<close>

definition didHypothesizeTranscription :: "nsstring \<Rightarrow> actuator_obj \<Rightarrow> stt \<Rightarrow> stt" where
  "didHypothesizeTranscription msg ac s =
     (if isCancelled ac then s else add_frame (currentAction s) XMSTTStateDoing msg None s)"

definition didFinishRecognition :: "nsstring \<Rightarrow> actuator_obj \<Rightarrow> stt \<Rightarrow> stt" where
  "didFinishRecognition msg ac s = s\<lparr>actuator := Some (ac\<lparr>recognized := msg\<rparr>)\<rparr>"

definition didFinishSuccessfully :: "bool \<Rightarrow> nsstring \<Rightarrow> actuator_obj \<Rightarrow> stt body" where
  "didFinishSuccessfully successfully err ac s =
     (let s = s\<lparr>actuator := Some (ac\<lparr>finished := True\<rparr>)\<rparr>
      in startNext
           (if successfully then add_frame (currentAction s) XMSTTStateSuccess (recognized ac) None s
            else add_frame (currentAction s) XMSTTStateFailure None err s))"

text \<open>The inputs: calls of the program, reports of the framework on the recognition that runs, and a
  turn of the run loop.\<close>

datatype stt_input =
    Add_action nat
  | Stop_all
  | Hypothesize nsstring
  | Finish_recognition nsstring
  | Finish_task bool nsstring
  | Run_loop

definition on_actuator :: "(actuator_obj \<Rightarrow> stt body) \<Rightarrow> stt body" where
  "on_actuator f s = (case actuator s of None \<Rightarrow> Some s | Some ac \<Rightarrow> if finished ac then Some s else f ac s)"

fun stt_step :: "stt_input \<Rightarrow> stt body" where
  "stt_step (Add_action i) s = addAction i s"
| "stt_step Stop_all s = Some (stopAll s)"
| "stt_step (Hypothesize msg) s = on_actuator (\<lambda>ac s. Some (didHypothesizeTranscription msg ac s)) s"
| "stt_step (Finish_recognition msg) s = on_actuator (\<lambda>ac s. Some (didFinishRecognition msg ac s)) s"
| "stt_step (Finish_task success err) s = on_actuator (didFinishSuccessfully success err) s"
| "stt_step Run_loop s =
     (case scheduled s of
        [] \<Rightarrow> Some s
      | i # rest \<Rightarrow> map_option (\<lambda>a. s\<lparr>objects := (objects s)(i := a), scheduled := rest\<rparr>) (startPlay (objects s i)))"

abbreviation stt_run :: "stt_input list \<Rightarrow> stt body" where
  "stt_run \<equiv> for_each stt_step"

section \<open>The queue\<close>

text \<open>While the manager is busy a recognition runs whose end will be reported; while it is not,
  nothing waits.\<close>

definition stt_ok :: "stt \<Rightarrow> bool" where
  "stt_ok s \<longleftrightarrow>
     (isDoing s \<longrightarrow> currentAction s \<noteq> None \<and> (\<exists>ac. actuator s = Some ac \<and> \<not> finished ac)) \<and>
     (\<not> isDoing s \<longrightarrow> actionQueue s = []) \<and> (\<forall>i. filePath (objects s i) \<noteq> None)"

text \<open>Adding a frame leaves everything alone but the frames.\<close>

lemma addFrameModel_filePath [simp]: "filePath (fst (addFrameModel st msg err a)) = filePath a"
  by (auto simp: addFrameModel_def action_startNext_def Let_def)

lemma add_frame_attributes [simp]:
  "actionQueue (add_frame r st msg err s) = actionQueue s" "currentAction (add_frame r st msg err s) = currentAction s"
  "actuator (add_frame r st msg err s) = actuator s" "isDoing (add_frame r st msg err s) = isDoing s"
  "started (add_frame r st msg err s) = started s"
  by (auto simp: add_frame_def split: option.splits prod.splits)

lemma add_frame_filePath [simp]: "filePath (objects (add_frame r st msg err s) i) = filePath (objects s i)"
proof (cases r)
  case (Some k)
  obtain a b where a: "addFrameModel st msg err (objects s k) = (a, b)" by fastforce
  then have "filePath a = filePath (objects s k)" using addFrameModel_filePath [of st msg err "objects s k"] by simp
  then show ?thesis using Some a by (simp add: add_frame_def)
qed (simp add: add_frame_def)

lemma startNext_ok:
  assumes "\<forall>i. filePath (objects s i) \<noteq> None"
  shows "\<exists>s'. startNext s = Some s' \<and> stt_ok s' \<and> started s' = started s @ take 1 (actionQueue s) \<and>
    actionQueue s' = drop 1 (actionQueue s) \<and> isDoing s' = (actionQueue s \<noteq> []) \<and> objects s' = objects s"
  using assms
  by (cases "actionQueue s") (auto simp: startNext_def startOne_def recognizeLocalAudio_def stt_ok_def split: option.splits)

lemma addAction_ok:
  assumes "stt_ok s"
  shows "\<exists>s'. addAction i s = Some s' \<and> stt_ok s' \<and> started s' @ actionQueue s' = started s @ actionQueue s @ [i]"
proof -
  define s1 where "s1 = add_frame (Some i) XMSTTStateDoing (Some converting) None (s\<lparr>actionQueue := actionQueue s @ [i]\<rparr>)"
  have "\<forall>i. filePath (objects s1 i) \<noteq> None" using assms by (simp add: s1_def stt_ok_def)
  from startNext_ok [OF this] assms show ?thesis
    by (cases "isDoing s") (auto simp: addAction_def s1_def startAll_def stt_ok_def)
qed

lemma finish_ok:
  assumes "stt_ok s"
  shows "\<exists>s'. stt_step (Finish_task success err) s = Some s' \<and> stt_ok s' \<and>
    started s' @ actionQueue s' = started s @ actionQueue s \<and>
    (isDoing s \<longrightarrow> length (actionQueue s') + (if isDoing s' then 1 else 0) = length (actionQueue s)) \<and>
    (\<not> isDoing s \<longrightarrow> \<not> isDoing s')"
proof (cases "\<exists>ac. actuator s = Some ac \<and> \<not> finished ac")
  case False
  then show ?thesis using assms by (auto simp: on_actuator_def stt_ok_def split: option.splits)
next
  case True
  then obtain ac where ac: "actuator s = Some ac" "\<not> finished ac" by blast
  define s1 where "s1 = (let s = s\<lparr>actuator := Some (ac\<lparr>finished := True\<rparr>)\<rparr>
    in if success then add_frame (currentAction s) XMSTTStateSuccess (recognized ac) None s
       else add_frame (currentAction s) XMSTTStateFailure None err s)"
  have "\<forall>i. filePath (objects s1 i) \<noteq> None" "actionQueue s1 = actionQueue s" "started s1 = started s"
    using assms by (simp_all add: s1_def Let_def stt_ok_def)
  moreover have "stt_step (Finish_task success err) s = startNext s1"
    using ac by (simp add: on_actuator_def didFinishSuccessfully_def s1_def Let_def)
  ultimately show ?thesis
    using startNext_ok [of s1] assms by (cases "actionQueue s") (auto simp: stt_ok_def)
qed

section \<open>Frames\<close>

text \<open>An action that has no array and is not playing.\<close>

definition untouched :: "XMSTTAction \<Rightarrow> bool" where
  "untouched a \<longleftrightarrow> sequenceFrameModels a = None \<and> \<not> isPlaying a"

lemma addFrameModel_untouched: "untouched a \<Longrightarrow> addFrameModel st msg err a = (a, False)"
  by (cases a) (auto simp: addFrameModel_def action_startNext_def untouched_def)

lemma add_frame_untouched: "(\<And>i. untouched (objects s i)) \<Longrightarrow> add_frame r st msg err s = s"
  by (auto simp: add_frame_def addFrameModel_untouched split: option.splits)

definition frames_lost :: "(nat \<Rightarrow> XMSTTAction) \<Rightarrow> stt \<Rightarrow> bool" where
  "frames_lost objs s \<longleftrightarrow> objects s = objs \<and> scheduled s = [] \<and> stt_ok s"

lemma frames_lost_step:
  assumes "frames_lost objs s" "\<And>i. untouched (objs i)"
  shows "\<exists>s'. stt_step inp s = Some s' \<and> frames_lost objs s'"
proof -
  have none: "\<And>i. untouched (objects s i)" and ok: "stt_ok s" and lost: "objects s = objs" "scheduled s = []"
    using assms by (auto simp: frames_lost_def)
  have same: "add_frame r st msg err (s\<lparr>actuator := ac\<rparr>) = s\<lparr>actuator := ac\<rparr>"
    "add_frame r st msg err (s\<lparr>actionQueue := q\<rparr>) = s\<lparr>actionQueue := q\<rparr>" "add_frame r st msg err s = s"
    for r st msg err ac q
    using none by (auto intro!: add_frame_untouched)
  have next_lost: "objects s' = objs \<and> scheduled s' = []" if "startNext s1 = Some s'" "objects s1 = objs" "scheduled s1 = []" for s1 s'
    using that by (auto simp: startNext_def startOne_def split: list.splits option.splits)
  show ?thesis
  proof (cases inp)
    case (Add_action k)
    then show ?thesis
      using addAction_ok [OF ok, of k] next_lost lost
      by (auto simp: frames_lost_def addAction_def startAll_def same split: if_splits)
  next
    case (Finish_task b e)
    show ?thesis
    proof (cases "\<exists>ac. actuator s = Some ac \<and> \<not> finished ac")
      case True
      then obtain ac where ac: "actuator s = Some ac" "\<not> finished ac" by blast
      then have "stt_step inp s = startNext (s\<lparr>actuator := Some (ac\<lparr>finished := True\<rparr>)\<rparr>)"
        using Finish_task by (simp add: on_actuator_def didFinishSuccessfully_def Let_def same)
      then show ?thesis
        using finish_ok [OF ok, of b e] next_lost lost Finish_task by (fastforce simp: frames_lost_def)
    next
      case False
      then show ?thesis using Finish_task assms(1) by (auto simp: on_actuator_def split: option.splits)
    qed
  next
    case Run_loop
    then show ?thesis using assms(1) lost by simp
  qed (use ok lost in \<open>auto simp: frames_lost_def on_actuator_def didHypothesizeTranscription_def same didFinishRecognition_def
        stopAll_def stt_ok_def split: option.splits\<close>)
qed

lemma frames_lost_run:
  assumes "\<And>i. objs i = action_init (Some (paths i))"
  shows "\<exists>s. stt_run inputs (stt_init objs) = Some s \<and> frames_lost objs s"
proof (rule for_each_keeps)
  show "frames_lost objs (stt_init objs)"
    by (simp add: frames_lost_def stt_init_def stt_ok_def assms action_init_def)
  show "\<exists>s'. stt_step i s = Some s' \<and> frames_lost objs s'" if "frames_lost objs s" for i s
    by (rule frames_lost_step [OF that]) (simp add: assms action_init_def untouched_def)
qed

section \<open>Properties\<close>

lemma finish_all:
  "stt_ok s \<Longrightarrow> length fs = length (actionQueue s) + (if isDoing s then 1 else 0) \<Longrightarrow>
    \<exists>s'. stt_run (map (\<lambda>(b, e). Finish_task b e) fs) s = Some s' \<and> \<not> isDoing s' \<and> actionQueue s' = [] \<and>
      started s' = started s @ actionQueue s"
proof (induction fs arbitrary: s)
  case Nil
  then show ?case by (simp split: if_splits)
next
  case (Cons f fs)
  obtain b e where f: "f = (b, e)" by fastforce
  have busy: "isDoing s" using Cons.prems by (auto simp: stt_ok_def split: if_splits)
  from finish_ok [OF Cons.prems(1), of b e] busy obtain s1 where
    s1: "stt_step (Finish_task b e) s = Some s1" "stt_ok s1" "started s1 @ actionQueue s1 = started s @ actionQueue s"
      "length (actionQueue s1) + (if isDoing s1 then 1 else 0) = length (actionQueue s)" by blast
  have "length fs = length (actionQueue s1) + (if isDoing s1 then 1 else 0)"
    unfolding s1(4) using Cons.prems(2) busy by simp
  from Cons.IH [OF s1(2) this] s1(1,3) f show ?case by auto
qed

text \<open>C39. Every action that waits for its turn gets it: from whatever the manager has been through, as
  soon as the speech framework has ended as many recognitions as are running or waiting, each
  waiting action has been started, in the order in which they were added, and the manager is idle.\<close>

theorem stt_queue_served:
  assumes "\<And>i. objs i = action_init (Some (paths i))" "stt_run inputs (stt_init objs) = Some s"
    "length fs = length (actionQueue s) + (if isDoing s then 1 else 0)"
  shows "\<exists>s'. stt_run (map (\<lambda>(b, e). Finish_task b e) fs) s = Some s' \<and> \<not> isDoing s' \<and> actionQueue s' = [] \<and>
      started s' = started s @ actionQueue s"
proof (rule finish_all)
  show "stt_ok s" using frames_lost_run [of objs paths inputs, OF assms(1)] assms(2) by (auto simp: frames_lost_def)
qed (rule assms(3))

text \<open>Nothing that the recognition reports reaches the program: whatever is added and whatever the
  speech framework reports, no exception is raised, but the state and the text of every action stay
  what they were when it was made, as the array that should hold its frames is never created.\<close>

lemma stt_results_lost:
  assumes "\<And>i. objs i = action_init (Some (paths i))"
  shows "\<exists>s. stt_run inputs (stt_init objs) = Some s \<and> objects s = objs"
  using frames_lost_run [of objs paths inputs, OF assms] by (auto simp: frames_lost_def)

definition example_actions :: "nat \<Rightarrow> XMSTTAction" where
  "example_actions i = action_init (Some ''a.wav'')"

lemma example_stt:
  "\<exists>s. stt_run [Add_action 0, Add_action 1, Add_action 2] (stt_init example_actions) = Some s \<and>
     actionQueue s = [1, 2] \<and> isDoing s \<and> started s = [0]"
  by (simp add: stt_init_def example_actions_def action_init_def addAction_def add_frame_def addFrameModel_def
      action_startNext_def startAll_def startNext_def startOne_def recognizeLocalAudio_def)

theorem stt_queue_served_witness:
  "\<exists>s s'. stt_run [Add_action 0, Add_action 1, Add_action 2] (stt_init example_actions) = Some s \<and>
     stt_run [Finish_task True None, Finish_task False (Some ''e''), Finish_task True None] s = Some s' \<and> started s' = [0, 1, 2]"
proof -
  obtain s where s: "stt_run [Add_action 0, Add_action 1, Add_action 2] (stt_init example_actions) = Some s"
    "actionQueue s = [1, 2]" "isDoing s" "started s = [0]" using example_stt by blast
  have "\<And>i. example_actions i = action_init (Some ((\<lambda>_. ''a.wav'') i))" by (simp add: example_actions_def)
  from stt_queue_served [OF this s(1), of "[(True, None), (False, Some ''e''), (True, None)]"] s show ?thesis by auto
qed

lemma stt_results_lost_example:
  "\<exists>s. stt_run [Add_action 0, Finish_recognition (Some ''hello''), Finish_task True None, Run_loop] (stt_init example_actions) = Some s \<and>
     text_shown (objects s 0) = None"
  using stt_results_lost [of example_actions "\<lambda>_. ''a.wav''"
      "[Add_action 0, Finish_recognition (Some ''hello''), Finish_task True None, Run_loop]"]
  by (auto simp: example_actions_def action_init_def)

end
