(* ===== verification/Audio.thy ===== *)
theory Audio imports Prelude ObjC begin

text \<open>
  The audio classes in src/XMSDK_ios/Classes/PCM: the player for data in memory (PCMDataPlayer.m),
  the player for a file (PCMFilePlayer.m) and the clocks of the recorder (PCMRecorder.m). The audio
  queue of the system is the list of the buffers that it holds; it gives a buffer back by the callback
  of the player, in any order. Sound itself, the formats and the sessions are not modelled.
\<close>

section \<open>Playing data\<close>

definition MIN_SIZE_PER_FRAME :: nat where "MIN_SIZE_PER_FRAME = 5000"
definition QUEUE_BUFFER_SIZE :: nat where "QUEUE_BUFFER_SIZE = 3"

text \<open>
  \<open>playWithData:\<close> holds the lock while it looks for a free buffer, so at most one call looks; the
  callback does not take the lock and may come between any two turns of its loop. \<open>searching\<close> is the
  loop variable and the data of the call that looks.
\<close>

record data_player =
  audioQueueBufferUsed :: "bool list"
  mAudioData :: "bytes list"
  audioQueue :: "nat list"
  searching :: "(nat \<times> bytes) option"

definition player_init :: data_player where
  "player_init = \<lparr>audioQueueBufferUsed = replicate QUEUE_BUFFER_SIZE False,
     mAudioData = replicate QUEUE_BUFFER_SIZE [], audioQueue = [], searching = None\<rparr>"

definition playWithData :: "bytes \<Rightarrow> data_player body" where
  "playWithData data s = Some (if searching s = None then s\<lparr>searching := Some (0, data)\<rparr> else s)"

text \<open>One turn of the loop. A free buffer is taken, filled and handed over; \<open>None\<close> is the write beyond
  the end of a buffer when there are more data than it can hold.\<close>

definition playWithData_turn :: "data_player body" where
  "playWithData_turn s =
     (case searching s of
        None \<Rightarrow> Some s
      | Some (i, data) \<Rightarrow>
          if \<not> audioQueueBufferUsed s ! i then
            if length data > MIN_SIZE_PER_FRAME then None
            else Some (s\<lparr>audioQueueBufferUsed := (audioQueueBufferUsed s)[i := True],
                   mAudioData := (mAudioData s)[i := data], audioQueue := audioQueue s @ [i], searching := None\<rparr>)
          else Some (s\<lparr>searching := Some (if i + 1 \<ge> QUEUE_BUFFER_SIZE then 0 else i + 1, data)\<rparr>))"

definition resetBufferState :: "nat \<Rightarrow> data_player body" where
  "resetBufferState b s =
     Some (s\<lparr>audioQueueBufferUsed := map (\<lambda>i. if i = b then False else audioQueueBufferUsed s ! i) [0..<QUEUE_BUFFER_SIZE]\<rparr>)"

text \<open>The audio queue gives back the buffer at a position, or there is a turn or a call.\<close>

datatype player_input = Play bytes | Turn | Give_back nat

fun player_step :: "player_input \<Rightarrow> data_player body" where
  "player_step (Play data) s = playWithData data s"
| "player_step Turn s = playWithData_turn s"
| "player_step (Give_back k) s =
     (if k < length (audioQueue s)
      then resetBufferState (audioQueue s ! k) (s\<lparr>audioQueue := take k (audioQueue s) @ drop (Suc k) (audioQueue s)\<rparr>)
      else Some s)"

abbreviation player_run :: "player_input list \<Rightarrow> data_player body" where
  "player_run \<equiv> for_each player_step"

section \<open>Playing a file\<close>

definition EVERY_READ_LENGTH :: nat where "EVERY_READ_LENGTH = 1024"

text \<open>\<open>pcm_file\<close> is what is left of the file, \<open>None\<close> if it could not be opened; \<open>fread\<close> on a null file is
  undefined. \<open>played\<close> lists the contents of the buffers handed over, in order.\<close>

record file_player =
  pcm_file :: "bytes option"
  played :: "bytes list"

definition readPCMAndPlay :: "file_player body" where
  "readPCMAndPlay s =
     (case pcm_file s of
        None \<Rightarrow> None
      | Some f \<Rightarrow> Some \<lparr>pcm_file = Some (drop EVERY_READ_LENGTH f), played = played s @ [take EVERY_READ_LENGTH f]\<rparr>)"

text \<open>\<open>player\<close> fills the four buffers; each callback then reads once more.\<close>

definition file_player_start :: "bytes option \<Rightarrow> file_player option" where
  "file_player_start f = for_each (\<lambda>_. readPCMAndPlay) [0..<(4::nat)] \<lparr>pcm_file = f, played = []\<rparr>"

definition file_player_callback :: "file_player body" where
  "file_player_callback = readPCMAndPlay"

section \<open>The clocks of the recorder\<close>

record recorder =
  recordSecond :: int
  minuteRecord :: int
  playSecond :: int
  minutePlay :: int
  recordTimer :: bool
  playTimer :: bool

definition recordSecondChange :: "recorder \<Rightarrow> recorder" where
  "recordSecondChange r =
     (let r = r\<lparr>recordSecond := recordSecond r + 1\<rparr>
      in if recordSecond r > 59 then r\<lparr>minuteRecord := minuteRecord r + 1, recordSecond := 0\<rparr> else r)"

definition playSecondChange :: "recorder \<Rightarrow> recorder" where
  "playSecondChange r =
     (let r = r\<lparr>playSecond := playSecond r - 1\<rparr>
      in if playSecond r < 0 then
           if minutePlay r \<le> 0 then r\<lparr>playSecond := 0, minutePlay := 0, playTimer := False\<rparr>
           else r\<lparr>minutePlay := minutePlay r - 1, playSecond := 59\<rparr>
         else r)"

text \<open>Starting a recording resets its clock and ticks once, if the system has a recorder that is
  ready; starting to play counts down from the clock of the recording. \<open>found\<close> tells whether the
  recording can be opened.\<close>

definition recordingAction :: "bool \<Rightarrow> recorder \<Rightarrow> recorder" where
  "recordingAction prepared r =
     (if prepared then recordSecondChange (r\<lparr>recordSecond := 0, minuteRecord := 0, recordTimer := True\<rparr>) else r)"

definition stopAction :: "recorder \<Rightarrow> recorder" where
  "stopAction r = r\<lparr>recordTimer := False\<rparr>"

definition playAction :: "bool \<Rightarrow> bool \<Rightarrow> recorder \<Rightarrow> recorder" where
  "playAction found prepared r =
     (if found then
        let r = r\<lparr>playSecond := recordSecond r, minutePlay := minuteRecord r\<rparr>
        in if prepared then playSecondChange (r\<lparr>playTimer := True\<rparr>) else r
      else r)"

definition audioPlayerDidFinishPlaying :: "recorder \<Rightarrow> recorder" where
  "audioPlayerDidFinishPlaying r = r\<lparr>playTimer := False\<rparr>"

section \<open>The buffers\<close>

text \<open>A buffer is marked as used exactly while the audio queue holds it, and it is there once.\<close>

definition player_ok :: "data_player \<Rightarrow> bool" where
  "player_ok s \<longleftrightarrow>
     length (audioQueueBufferUsed s) = QUEUE_BUFFER_SIZE \<and> length (mAudioData s) = QUEUE_BUFFER_SIZE \<and>
     distinct (audioQueue s) \<and> (\<forall>i \<in> set (audioQueue s). i < QUEUE_BUFFER_SIZE) \<and>
     (\<forall>i < QUEUE_BUFFER_SIZE. audioQueueBufferUsed s ! i \<longleftrightarrow> i \<in> set (audioQueue s)) \<and>
     (\<forall>i d. searching s = Some (i, d) \<longrightarrow> i < QUEUE_BUFFER_SIZE)"

lemma player_init_ok: "player_ok player_init"
  by (simp add: player_ok_def player_init_def QUEUE_BUFFER_SIZE_def)

lemma turn_ok:
  assumes "player_ok s" "playWithData_turn s = Some s'"
  shows "player_ok s'"
  using assms
  by (auto simp: player_ok_def playWithData_turn_def nth_list_update QUEUE_BUFFER_SIZE_def split: option.splits if_splits)

lemma set_without_nth:
  assumes "distinct xs" "k < length xs"
  shows "set (take k xs @ drop (Suc k) xs) = set xs - {xs ! k}"
proof -
  have "xs = take k xs @ xs ! k # drop (Suc k) xs" using assms(2) by (rule id_take_nth_drop)
  then have "set xs = insert (xs ! k) (set (take k xs @ drop (Suc k) xs)) \<and> xs ! k \<notin> set (take k xs @ drop (Suc k) xs)"
    using assms(1) by (metis Un_iff distinct.simps(2) distinct_append disjoint_iff list.set_intros(1) list.simps(15) set_append Un_insert_right)
  then show ?thesis by blast
qed

lemma give_back_ok:
  assumes "player_ok s" "player_step (Give_back k) s = Some s'"
  shows "player_ok s'"
proof (cases "k < length (audioQueue s)")
  case True
  have d: "distinct (audioQueue s)" using assms(1) by (simp add: player_ok_def)
  have "distinct (take k (audioQueue s) @ drop (Suc k) (audioQueue s))"
    using d by (simp add: set_take_disj_set_drop_if_distinct)
  then show ?thesis
    using assms True set_without_nth [OF d True]
    by (auto simp: player_ok_def resetBufferState_def simp del: set_append split: if_splits)
next
  case False
  then show ?thesis using assms by simp
qed

lemma player_step_ok: "player_ok s \<Longrightarrow> player_step i s = Some s' \<Longrightarrow> player_ok s'"
proof (cases i)
  case (Play d)
  assume "player_ok s" "player_step i s = Some s'"
  then show ?thesis
    using Play by (auto simp: playWithData_def player_ok_def QUEUE_BUFFER_SIZE_def split: if_splits)
qed (auto intro: turn_ok simp del: player_step.simps(3) simp add: give_back_ok)

lemma player_run_ok: "player_ok s \<Longrightarrow> player_run ins s = Some s' \<Longrightarrow> player_ok s'"
  by (induction ins arbitrary: s) (auto simp: seq_eq_Some simp del: player_step.simps dest: player_step_ok)

section \<open>Properties\<close>


lemma turns_find_free:
  assumes "player_ok s" "searching s = Some (i, d)" "length d \<le> MIN_SIZE_PER_FRAME"
    "b < QUEUE_BUFFER_SIZE" "b \<notin> set (audioQueue s)"
  shows "\<exists>k \<le> QUEUE_BUFFER_SIZE. \<exists>s' j. player_run (replicate k Turn) s = Some s' \<and> searching s' = None \<and>
    audioQueue s' = audioQueue s @ [j] \<and> mAudioData s' ! j = d"
proof -
  have len: "length (audioQueueBufferUsed s) = 3" "length (mAudioData s) = 3" "i < 3"
    and free: "b < 3" "\<not> audioQueueBufferUsed s ! b"
    using assms by (auto simp: player_ok_def QUEUE_BUFFER_SIZE_def)
  define n where "n = (\<lambda>j::nat. if j \<ge> 2 then 0 else j + 1)"
  define R where "R = (\<lambda>k j. \<exists>s' j'. player_run (replicate k Turn) (s\<lparr>searching := Some (j, d)\<rparr>) = Some s' \<and>
    searching s' = None \<and> audioQueue s' = audioQueue s @ [j'] \<and> mAudioData s' ! j' = d)"
  have now: "R 1 j" if "\<not> audioQueueBufferUsed s ! j" "j < 3" for j
    using that assms(3) len by (simp add: R_def playWithData_turn_def)
  have later: "R (Suc k) j" if "audioQueueBufferUsed s ! j" "R k (n j)" for j k
    using that by (simp add: R_def n_def playWithData_turn_def QUEUE_BUFFER_SIZE_def cong: if_cong split: if_splits)
  have "b = i \<or> b = n i \<or> b = n (n i)" "n i < 3" "n (n i) < 3" using free(1) len(3) by (auto simp: n_def)
  then have "R 1 i \<or> R (Suc 1) i \<or> R (Suc (Suc 1)) i" using now later free(2) len(3) by blast
  then obtain k where k: "k \<le> 3" "R k i"
    by (elim disjE) (use that [of 1] that [of "Suc 1"] that [of "Suc (Suc 1)"] in simp_all)
  have "s\<lparr>searching := Some (i, d)\<rparr> = s" using assms(2) by simp
  then show ?thesis using k by (auto simp: R_def QUEUE_BUFFER_SIZE_def)
qed

text \<open>Data always get played: if any buffer is free, the search of \<open>playWithData:\<close> ends within three
  turns, and the data are then at the end of the audio queue.\<close>

theorem player_finds_buffer:
  assumes "player_run inputs player_init = Some s" "searching s = Some (i, d)" "length d \<le> MIN_SIZE_PER_FRAME"
    "b < QUEUE_BUFFER_SIZE" "b \<notin> set (audioQueue s)"
  shows "\<exists>k \<le> QUEUE_BUFFER_SIZE. \<exists>s' j. player_run (replicate k Turn) s = Some s' \<and> searching s' = None \<and>
    audioQueue s' = audioQueue s @ [j] \<and> mAudioData s' ! j = d"
  by (rule turns_find_free [OF player_run_ok [OF player_init_ok assms(1)] assms(2-5)])

text \<open>Data of at most the size of a buffer are the precondition: longer data are written past its end.\<close>

definition small_search :: "data_player \<Rightarrow> bool" where
  "small_search s \<longleftrightarrow> (\<forall>i d. searching s = Some (i, d) \<longrightarrow> length d \<le> MIN_SIZE_PER_FRAME)"

lemma player_in_bounds:
  assumes "\<And>d. Play d \<in> set inputs \<Longrightarrow> length d \<le> MIN_SIZE_PER_FRAME"
  shows "\<exists>s. player_run inputs player_init = Some s \<and> small_search s"
proof (rule for_each_keeps)
  show "small_search player_init" by (simp add: small_search_def player_init_def)
  show "\<exists>s'. player_step i s = Some s' \<and> small_search s'" if "i \<in> set inputs" "small_search s" for i s
    by (cases i) (use that assms in \<open>auto simp: small_search_def playWithData_def playWithData_turn_def resetBufferState_def
      split: option.splits\<close>)
qed

lemma player_overflow:
  "length d > MIN_SIZE_PER_FRAME \<Longrightarrow> player_run [Play d, Turn] player_init = None"
  by (simp add: playWithData_def playWithData_turn_def player_init_def QUEUE_BUFFER_SIZE_def seq_def)

text \<open>The file player plays the file from its start, without gaps.\<close>

lemma file_player_reads:
  "for_each (\<lambda>_. readPCMAndPlay) xs \<lparr>pcm_file = Some f, played = p\<rparr> =
     Some \<lparr>pcm_file = Some (drop (length xs * EVERY_READ_LENGTH) f),
       played = p @ map (\<lambda>i. take EVERY_READ_LENGTH (drop (i * EVERY_READ_LENGTH) f)) [0..<length xs]\<rparr>"
proof (induction xs arbitrary: f p)
  case (Cons x xs)
  have "map (\<lambda>i. take EVERY_READ_LENGTH (drop (i * EVERY_READ_LENGTH) f)) [0..<Suc (length xs)] =
      take EVERY_READ_LENGTH f # map (\<lambda>i. take EVERY_READ_LENGTH (drop (i * EVERY_READ_LENGTH) (drop EVERY_READ_LENGTH f))) [0..<length xs]"
    unfolding upt_conv_Cons [OF zero_less_Suc] map_Suc_upt [symmetric] by (simp add: comp_def add.commute)
  then show ?case using Cons.IH [of "drop EVERY_READ_LENGTH f"] by (simp add: readPCMAndPlay_def add.commute del: upt_Suc)
qed simp

lemma concat_chunks: "concat (map (\<lambda>i. take n (drop (i * n) f)) [0..<k]) = take (k * n) f"
proof (induction k)
  case (Suc k)
  have "take (Suc k * n) f = take (k * n) f @ take n (drop (k * n) f)"
    by (simp add: take_add [symmetric] add.commute)
  then show ?case using Suc by simp
qed simp

lemma file_player_plays_file:
  "\<exists>s. (case file_player_start (Some f) of None \<Rightarrow> None | Some s \<Rightarrow> for_each (\<lambda>_. file_player_callback) xs s) = Some s \<and>
     concat (played s) = take ((4 + length xs) * EVERY_READ_LENGTH) f"
proof -
  have append: "for_each g (as @ bs) s = (case for_each g as s of None \<Rightarrow> None | Some s \<Rightarrow> for_each g bs s)"
    for g :: "nat \<Rightarrow> file_player body" and as bs s
    by (induction as arbitrary: s) (auto simp: seq_def split: option.splits)
  have "(case file_player_start (Some f) of None \<Rightarrow> None | Some s \<Rightarrow> for_each (\<lambda>_. file_player_callback) xs s) =
      for_each (\<lambda>_. readPCMAndPlay) ([0..<4] @ replicate (length xs) 0) \<lparr>pcm_file = Some f, played = []\<rparr>"
  proof -
    have "for_each (\<lambda>_. file_player_callback) xs s = for_each (\<lambda>_::nat. readPCMAndPlay) (replicate (length xs) 0) s" for s
      by (induction xs arbitrary: s) (auto simp: file_player_callback_def seq_def split: option.splits)
    then show ?thesis unfolding file_player_start_def append by (simp cong: option.case_cong)
  qed
  then show ?thesis unfolding file_player_reads by (simp add: concat_chunks)
qed

section \<open>The clocks\<close>

lemma record_clock:
  assumes "r' = (recordSecondChange ^^ k) (recordingAction True r)"
  shows "60 * minuteRecord r' + recordSecond r' = int k + 1 \<and> 0 \<le> recordSecond r' \<and> recordSecond r' < 60 \<and> 0 \<le> minuteRecord r'"
  unfolding assms
  by (induction k) (auto simp: recordingAction_def recordSecondChange_def Let_def)

lemma play_tick:
  assumes "0 \<le> minutePlay r" "0 \<le> playSecond r" "playSecond r < 60" "r' = playSecondChange r"
  shows "0 \<le> minutePlay r' \<and> 0 \<le> playSecond r' \<and> playSecond r' < 60 \<and>
    60 * minutePlay r' + playSecond r' = (if 60 * minutePlay r + playSecond r = 0 then 0 else 60 * minutePlay r + playSecond r - 1) \<and>
    (playTimer r' \<longleftrightarrow> playTimer r \<and> 60 * minutePlay r + playSecond r \<noteq> 0)"
  using assms(1-3) unfolding assms(4) by (auto simp: playSecondChange_def Let_def)

text \<open>After a recording of some length, the clock of the player counts down from it, and its timer is
  stopped by the tick after the one that shows zero, neither earlier nor later.\<close>

theorem play_clock_counts_down:
  assumes "recorded = stopAction ((recordSecondChange ^^ n) (recordingAction True r))" "r' = (playSecondChange ^^ k) (playAction True True recorded)"
  shows "60 * minutePlay r' + playSecond r' = int (n - k) \<and> (playTimer r' \<longleftrightarrow> k \<le> n)"
proof -
  from record_clock [OF refl, of n r] assms(1) have rec: "60 * minuteRecord recorded + recordSecond recorded = int n + 1"
    "0 \<le> recordSecond recorded" "recordSecond recorded < 60" "0 \<le> minuteRecord recorded" by (auto simp: stopAction_def)
  have "0 \<le> minutePlay r' \<and> 0 \<le> playSecond r' \<and> playSecond r' < 60 \<and>
      60 * minutePlay r' + playSecond r' = int (n - k) \<and> (playTimer r' \<longleftrightarrow> k \<le> n)"
    using assms(2)
  proof (induction k arbitrary: r')
    case 0
    have "r' = playSecondChange (recorded\<lparr>playSecond := recordSecond recorded, minutePlay := minuteRecord recorded, playTimer := True\<rparr>)"
      using 0 by (simp add: playAction_def)
    from play_tick [OF _ _ _ this] rec show ?case by simp
  next
    case (Suc k)
    have "r' = playSecondChange ((playSecondChange ^^ k) (playAction True True recorded))" using Suc.prems by simp
    from play_tick [OF _ _ _ this] Suc.IH [OF refl] show ?case by auto
  qed
  then show ?thesis by blast
qed

text \<open>A player whose three buffers are taken, one of which comes back.\<close>

definition example_player_inputs :: "player_input list" where
  "example_player_inputs = [Play [1], Turn, Play [2], Turn, Turn, Play [3], Turn, Turn, Turn, Play [4], Turn, Give_back 1]"

lemma example_player:
  "\<exists>s. player_run example_player_inputs player_init = Some s \<and> audioQueue s = [0, 2] \<and> searching s = Some (1, [4])"
  by (simp add: example_player_inputs_def player_init_def QUEUE_BUFFER_SIZE_def playWithData_def playWithData_turn_def
      MIN_SIZE_PER_FRAME_def resetBufferState_def numeral_2_eq_2 numeral_3_eq_3)


theorem player_finds_buffer_witness:
  "\<exists>s s' k j. player_run example_player_inputs player_init = Some s \<and> player_run (replicate k Turn) s = Some s' \<and>
     audioQueue s' = [0, 2, j] \<and> mAudioData s' ! j = [4]"
proof -
  obtain s where s: "player_run example_player_inputs player_init = Some s" "audioQueue s = [0, 2]" "searching s = Some (1, [4])"
    using example_player by blast
  from player_finds_buffer [OF s(1,3), of 1] s(1,2) show ?thesis
    by (fastforce simp: MIN_SIZE_PER_FRAME_def QUEUE_BUFFER_SIZE_def)
qed

theorem play_clock_counts_down_witness:
  "\<exists>r' :: recorder. 60 * minutePlay r' + playSecond r' = 40 \<and> playTimer r'"
proof -
  have "int (90 - 50) = 40" "(50::nat) \<le> 90" by simp_all
  then show ?thesis
    using play_clock_counts_down [OF refl refl, of 50 90
        "\<lparr>recordSecond = 0, minuteRecord = 0, playSecond = 0, minutePlay = 0, recordTimer = False, playTimer = False\<rparr>"] by metis
qed

end
