(* ===== verification/Ads.thy ===== *)
theory Ads imports ObjC begin

text \<open>
  The advertising adapters of src/XMSDK_ios/Classes: AppLoving (XMAppLoving.m, XMALInterstitialAd.m,
  XMALRewardedAd.m) and Admob (XMAdmob.m, XMAdmobInterstitialAd.m). The interstitial and the rewarded
  ad of AppLovin are managed in the same way, and one definition models both. Whether the ad library
  has an ad ready to show is a parameter; banners and drawing are not modelled.
\<close>

section \<open>AppLovin ads\<close>

text \<open>\<open>loads\<close> counts the calls of \<open>loadAd\<close>; \<open>delays\<close> are the seconds after which the scheduled calls
  will be made; \<open>shown\<close> counts the ads shown.\<close>

record max_ad =
  retryAttempt :: int
  loads :: nat
  delays :: "int list"
  shown :: nat

definition loadMaxAd :: "int \<Rightarrow> max_ad" where
  "loadMaxAd retry = \<lparr>retryAttempt = retry, loads = 1, delays = [], shown = 0\<rparr>"

definition didLoadAd :: "max_ad \<Rightarrow> max_ad" where
  "didLoadAd a = a\<lparr>retryAttempt := 0\<rparr>"

text \<open>\<open>pow(2, n)\<close> as an integer: a negative power is a fraction, of which the integer part is 0.\<close>

definition pow2 :: "int \<Rightarrow> int" where
  "pow2 n = (if n < 0 then 0 else 2 ^ nat n)"

definition didFailToLoadAd :: "max_ad \<Rightarrow> max_ad" where
  "didFailToLoadAd a =
     (let a = a\<lparr>retryAttempt := retryAttempt a + 1\<rparr>;
          delaySec = pow2 (if 6 < retryAttempt a then 6 else retryAttempt a)
      in a\<lparr>delays := delays a @ [delaySec]\<rparr>)"

text \<open>The scheduled block runs.\<close>

definition retry_fires :: "max_ad \<Rightarrow> max_ad" where
  "retry_fires a = (case delays a of [] \<Rightarrow> a | d # ds \<Rightarrow> a\<lparr>delays := ds, loads := loads a + 1\<rparr>)"

definition didHideAd :: "max_ad \<Rightarrow> max_ad" where
  "didHideAd a = a\<lparr>loads := loads a + 1\<rparr>"

definition didFailToDisplayAd :: "max_ad \<Rightarrow> max_ad" where
  "didFailToDisplayAd a = a\<lparr>loads := loads a + 1\<rparr>"

definition canPresent :: "(max_ad \<Rightarrow> bool) \<Rightarrow> max_ad \<Rightarrow> bool" where
  "canPresent isReady a = isReady a"

definition present :: "(max_ad \<Rightarrow> bool) \<Rightarrow> max_ad \<Rightarrow> max_ad" where
  "present isReady a = (if isReady a then a\<lparr>shown := shown a + 1\<rparr> else a)"

section \<open>The managers\<close>

text \<open>A dictionary from unit identifiers to ads, nil until it is created. Setting an object for a nil
  key raises, unless the dictionary itself is nil.\<close>

type_synonym 'a dictionary = "(string \<rightharpoonup> 'a) option"

definition setObject :: "'a \<Rightarrow> nsstring \<Rightarrow> 'a dictionary \<Rightarrow> 'a dictionary option" where
  "setObject x key d =
     (case d of None \<Rightarrow> Some None
      | Some m \<Rightarrow> (case key of None \<Rightarrow> None | Some k \<Rightarrow> Some (Some (m(k \<mapsto> x)))))"

definition objectForKey :: "nsstring \<Rightarrow> 'a dictionary \<Rightarrow> 'a option" where
  "objectForKey key d = (case d of None \<Rightarrow> None | Some m \<Rightarrow> (case key of None \<Rightarrow> None | Some k \<Rightarrow> m k))"

record 'a ad_manager =
  interstitials :: "'a dictionary"
  rewardedAds :: "'a dictionary"

text \<open>\<open>XMAppLoving\<close> has no \<open>init\<close>: its dictionaries stay nil. \<open>XMAdmob\<close> creates them.\<close>

definition XMAppLoving_init :: "max_ad ad_manager" where
  "XMAppLoving_init = \<lparr>interstitials = None, rewardedAds = None\<rparr>"

definition XMAdmob_init :: "'a ad_manager" where
  "XMAdmob_init = \<lparr>interstitials = Some Map.empty, rewardedAds = Some Map.empty\<rparr>"

definition loadInsterstitial :: "'a \<Rightarrow> nsstring \<Rightarrow> 'a ad_manager body" where
  "loadInsterstitial a unitID m = map_option (\<lambda>d. m\<lparr>interstitials := d\<rparr>) (setObject a unitID (interstitials m))"

definition loadRewardedAd :: "'a \<Rightarrow> nsstring \<Rightarrow> 'a ad_manager body" where
  "loadRewardedAd a unitID m = map_option (\<lambda>d. m\<lparr>rewardedAds := d\<rparr>) (setObject a unitID (rewardedAds m))"

text \<open>A message to nil returns NO.\<close>

definition canPresentInsterstitial :: "('a \<Rightarrow> bool) \<Rightarrow> nsstring \<Rightarrow> 'a ad_manager \<Rightarrow> bool" where
  "canPresentInsterstitial can unitID m =
     (case objectForKey unitID (interstitials m) of None \<Rightarrow> False | Some a \<Rightarrow> can a)"

definition canPresentRewardedAds :: "('a \<Rightarrow> bool) \<Rightarrow> nsstring \<Rightarrow> 'a ad_manager \<Rightarrow> bool" where
  "canPresentRewardedAds can unitID m =
     (case objectForKey unitID (rewardedAds m) of None \<Rightarrow> False | Some a \<Rightarrow> can a)"

section \<open>Admob ads\<close>

text \<open>Loading is answered by the completion handler; the ad is nil before and after an error.\<close>

record admob_ad =
  interstitial :: bool

definition loadAdmobAd :: admob_ad where
  "loadAdmobAd = \<lparr>interstitial = False\<rparr>"

definition admob_completion :: "bool \<Rightarrow> admob_ad \<Rightarrow> admob_ad" where
  "admob_completion err a = (if err then a else a\<lparr>interstitial := True\<rparr>)"

definition admob_canPresent :: "bool \<Rightarrow> admob_ad \<Rightarrow> bool" where
  "admob_canPresent res a = (if interstitial a then res else False)"

section \<open>Properties\<close>

lemma retry_attempts: "retryAttempt ((didFailToLoadAd ^^ n) a) = retryAttempt a + int n"
  by (induction n) (auto simp: didFailToLoadAd_def Let_def)

text \<open>Retries back off: after the ad has been loaded once, the delays scheduled by consecutive failures
  are 2, 4, 8, 16, 32 and then always 64 seconds.\<close>

theorem ad_retry_backoff:
  "delays ((didFailToLoadAd ^^ n) (didLoadAd a)) = delays a @ map (\<lambda>i. 2 ^ min 6 (Suc i)) [0..<n]"
proof (induction n)
  case (Suc n)
  define b where "b = (didFailToLoadAd ^^ n) (didLoadAd a)"
  have "retryAttempt b = int n" unfolding b_def retry_attempts by (simp add: didLoadAd_def)
  then have "delays (didFailToLoadAd b) = delays b @ [2 ^ min 6 (Suc n)]"
    by (simp add: didFailToLoadAd_def Let_def pow2_def min_def nat_add_distrib)
  then show ?case using Suc by (simp add: b_def)
qed (simp add: didLoadAd_def)

text \<open>An ad loaded through \<open>XMAppLoving\<close> can never be presented, as it is put into a dictionary that does
  not exist; through \<open>XMAdmob\<close> it can.\<close>

lemma applovin_ads_lost:
  "for_each (\<lambda>(rewarded, a, u). if rewarded then loadRewardedAd a u else loadInsterstitial a u) calls XMAppLoving_init =
     Some XMAppLoving_init \<and> \<not> canPresentInsterstitial can unitID XMAppLoving_init \<and> \<not> canPresentRewardedAds can unitID XMAppLoving_init"
proof -
  have "for_each (\<lambda>(rewarded, a, u). if rewarded then loadRewardedAd a u else loadInsterstitial a u) calls XMAppLoving_init =
      Some XMAppLoving_init"
    by (induction calls) (auto simp: loadRewardedAd_def loadInsterstitial_def setObject_def XMAppLoving_init_def)
  then show ?thesis
    by (simp add: canPresentInsterstitial_def canPresentRewardedAds_def objectForKey_def XMAppLoving_init_def)
qed

lemma admob_ads_kept:
  assumes "loadInsterstitial a (Some u) m = Some m'" "interstitials m \<noteq> None"
  shows "canPresentInsterstitial can (Some u) m' = can a"
  using assms by (auto simp: loadInsterstitial_def setObject_def canPresentInsterstitial_def objectForKey_def)

end
