(* ===== verification/Nanopb.thy ===== *)
theory Nanopb imports Sink begin

text \<open>
  The streams and wire formats of nanopb, the protocol buffer library that Firestore uses:
  src/Example/Pods/nanopb, pb_encode.c and pb_decode.c. An input stream is the memory from its
  state pointer on with the number of bytes that may still be read; an output stream either appends
  to a buffer or, without a callback, only counts. The configuration of the repository is modelled:
  64-bit integers, error messages, buffers and no \<open>PB_BUFFER_ONLY\<close>; \<open>uint_fast8_t\<close> has 8 bits, as on iOS.
  Sizes are natural numbers below 2^64.
\<close>

unbundle bit_operations_syntax

section \<open>Streams\<close>

record pb_istream_t =
  source :: bytes
  bytes_left :: nat
  errmsg :: "string option"

record pb_ostream_t =
  has_callback :: bool
  dest :: bytes
  max_size :: nat
  bytes_written :: nat
  oerrmsg :: "string option"

text \<open>\<open>PB_RETURN_ERROR\<close> keeps an earlier message.\<close>

definition PB_RETURN_ERROR :: "string \<Rightarrow> (pb_istream_t, 'a) routine" where
  "PB_RETURN_ERROR msg = (\<lambda>s. (None, s\<lparr>errmsg := (if errmsg s = None then Some msg else errmsg s)\<rparr>))"

definition PB_RETURN_ERROR_out :: "string \<Rightarrow> (pb_ostream_t, 'a) routine" where
  "PB_RETURN_ERROR_out msg = (\<lambda>s. (None, s\<lparr>oerrmsg := (if oerrmsg s = None then Some msg else oerrmsg s)\<rparr>))"

definition buf_write :: "bytes \<Rightarrow> pb_ostream_t \<Rightarrow> pb_ostream_t" where
  "buf_write buf s = s\<lparr>dest := dest s @ buf\<rparr>"

definition pb_ostream_from_buffer :: "nat \<Rightarrow> pb_ostream_t" where
  "pb_ostream_from_buffer bufsize =
     \<lparr>has_callback = True, dest = [], max_size = bufsize, bytes_written = 0, oerrmsg = None\<rparr>"

definition PB_OSTREAM_SIZING :: pb_ostream_t where
  "PB_OSTREAM_SIZING = \<lparr>has_callback = False, dest = [], max_size = 0, bytes_written = 0, oerrmsg = None\<rparr>"

definition pb_write :: "bytes \<Rightarrow> (pb_ostream_t, unit) routine" where
  "pb_write buf = (\<lambda>s.
     let count = length buf; sum = (bytes_written s + count) mod 2 ^ 64
     in if count > 0 \<and> has_callback s then
          if sum < bytes_written s \<or> sum > max_size s then PB_RETURN_ERROR_out ''stream full'' s
          else (Some (), (buf_write buf s)\<lparr>bytes_written := sum\<rparr>)
        else (Some (), s\<lparr>bytes_written := sum\<rparr>))"

definition buf_read :: "nat \<Rightarrow> pb_istream_t \<Rightarrow> bytes \<times> pb_istream_t" where
  "buf_read count s = (take count (source s), s\<lparr>source := drop count (source s)\<rparr>)"

text \<open>Skipping, with a null buffer, is reading without looking at the bytes.\<close>

definition pb_read :: "nat \<Rightarrow> (pb_istream_t, bytes) routine" where
  "pb_read count = (\<lambda>s.
     if count = 0 then (Some [], s)
     else if bytes_left s < count then PB_RETURN_ERROR ''end-of-stream'' s
     else (case buf_read count s of (buf, s) \<Rightarrow> (Some buf, s\<lparr>bytes_left := bytes_left s - count\<rparr>)))"

definition pb_readbyte :: "(pb_istream_t, u8) routine" where
  "pb_readbyte = (\<lambda>s.
     if bytes_left s = 0 then PB_RETURN_ERROR ''end-of-stream'' s
     else (case buf_read 1 s of (buf, s) \<Rightarrow> (Some (hd buf), s\<lparr>bytes_left := bytes_left s - 1\<rparr>)))"

definition pb_istream_from_buffer :: "bytes \<Rightarrow> nat \<Rightarrow> pb_istream_t" where
  "pb_istream_from_buffer buf bufsize = \<lparr>source = buf, bytes_left = bufsize, errmsg = None\<rparr>"

lemma pb_readbyte_less: "pb_readbyte s = (Some b, s') \<Longrightarrow> bytes_left s' < bytes_left s"
  by (auto simp: pb_readbyte_def PB_RETURN_ERROR_def buf_read_def split: if_splits)

section \<open>Decoding integers\<close>

text \<open>The multibyte case, from the bit position \<open>bitpos\<close> on, with the check that follows the loop.\<close>

function varint32_loop :: "u8 \<Rightarrow> u32 \<Rightarrow> (pb_istream_t, u32) routine" where
  "varint32_loop bitpos result s =
     (case pb_readbyte s of
        (None, s) \<Rightarrow> (None, s)
      | (Some byte, s) \<Rightarrow>
          let sign_extension = (if bitpos < 63 then 0xFF else 0x01 :: u8)
          in if bitpos \<ge> 32 \<and> byte AND 0x7F \<noteq> 0 \<and> (drop_bit 31 result = 0 \<or> byte \<noteq> sign_extension)
             then PB_RETURN_ERROR ''varint overflow'' s
             else
               let result = (if bitpos \<ge> 32 then result else result OR push_bit (unat bitpos) (ucast (byte AND 0x7F)));
                   bitpos = bitpos + 7
               in if byte AND 0x80 \<noteq> 0 then varint32_loop bitpos result s
                  else if bitpos = 35 \<and> byte AND 0x70 \<noteq> 0 then PB_RETURN_ERROR ''varint overflow'' s
                  else (Some result, s))"
  by pat_completeness auto
termination
  by (relation "measure (\<lambda>(bitpos, result, s). bytes_left s)") (auto dest: sym [THEN pb_readbyte_less])

declare varint32_loop.simps [simp del]

text \<open>The boolean is what \<open>*eof\<close> is set to, when it is set.\<close>

definition pb_decode_varint32_eof :: "pb_istream_t \<Rightarrow> u32 option \<times> bool \<times> pb_istream_t" where
  "pb_decode_varint32_eof s =
     (case pb_readbyte s of
        (None, s) \<Rightarrow> (None, bytes_left s = 0, s)
      | (Some byte, s) \<Rightarrow>
          if byte AND 0x80 = 0 then (Some (ucast byte), False, s)
          else (case varint32_loop 7 (ucast (byte AND 0x7F)) s of (r, s) \<Rightarrow> (r, False, s)))"

definition pb_decode_varint32 :: "(pb_istream_t, u32) routine" where
  "pb_decode_varint32 s = (case pb_decode_varint32_eof s of (r, eof, s) \<Rightarrow> (r, s))"

function varint_loop :: "u8 \<Rightarrow> u64 \<Rightarrow> (pb_istream_t, u64) routine" where
  "varint_loop bitpos result s =
     (if bitpos \<ge> 64 then PB_RETURN_ERROR ''varint overflow'' s
      else
        (case pb_readbyte s of
           (None, s) \<Rightarrow> (None, s)
         | (Some byte, s) \<Rightarrow>
             let result = result OR push_bit (unat bitpos) (ucast (byte AND 0x7F)); bitpos = bitpos + 7
             in if byte AND 0x80 \<noteq> 0 then varint_loop bitpos result s else (Some result, s)))"
  by pat_completeness auto
termination
  by (relation "measure (\<lambda>(bitpos, result, s). bytes_left s)") (auto dest: sym [THEN pb_readbyte_less])

declare varint_loop.simps [simp del]

definition pb_decode_varint :: "(pb_istream_t, u64) routine" where
  "pb_decode_varint = varint_loop 0 0"

definition pb_decode_svarint :: "(pb_istream_t, u64) routine" where
  "pb_decode_svarint = andthen pb_decode_varint (\<lambda>value.
     succeed (if value AND 1 \<noteq> 0 then NOT (drop_bit 1 value) else drop_bit 1 value))"

definition pb_decode_fixed32 :: "(pb_istream_t, u32) routine" where
  "pb_decode_fixed32 = andthen (pb_read 4) (\<lambda>b. succeed
     (ucast (b ! 0) OR push_bit 8 (ucast (b ! 1)) OR push_bit 16 (ucast (b ! 2)) OR push_bit 24 (ucast (b ! 3))))"

definition pb_decode_fixed64 :: "(pb_istream_t, u64) routine" where
  "pb_decode_fixed64 = andthen (pb_read 8) (\<lambda>b. succeed
     (ucast (b ! 0) OR push_bit 8 (ucast (b ! 1)) OR push_bit 16 (ucast (b ! 2)) OR push_bit 24 (ucast (b ! 3)) OR
      push_bit 32 (ucast (b ! 4)) OR push_bit 40 (ucast (b ! 5)) OR push_bit 48 (ucast (b ! 6)) OR push_bit 56 (ucast (b ! 7))))"

section \<open>Tags, skipping and substreams\<close>

type_synonym pb_wire_type_t = nat

definition PB_WT_VARINT :: pb_wire_type_t where "PB_WT_VARINT = 0"
definition PB_WT_64BIT :: pb_wire_type_t where "PB_WT_64BIT = 1"
definition PB_WT_STRING :: pb_wire_type_t where "PB_WT_STRING = 2"
definition PB_WT_32BIT :: pb_wire_type_t where "PB_WT_32BIT = 5"

lemma pb_read_less: "pb_read n s = (Some b, s') \<Longrightarrow> n \<noteq> 0 \<Longrightarrow> bytes_left s' < bytes_left s"
  by (auto simp: pb_read_def PB_RETURN_ERROR_def buf_read_def split: if_splits)

function pb_skip_varint :: "(pb_istream_t, unit) routine" where
  "pb_skip_varint s =
     (case pb_read 1 s of
        (None, s) \<Rightarrow> (None, s)
      | (Some byte, s) \<Rightarrow> if hd byte AND 0x80 \<noteq> 0 then pb_skip_varint s else (Some (), s))"
  by pat_completeness auto
termination
  by (relation "measure bytes_left") (auto dest: sym [THEN pb_read_less])

declare pb_skip_varint.simps [simp del]

definition pb_skip_string :: "(pb_istream_t, unit) routine" where
  "pb_skip_string = andthen pb_decode_varint32 (\<lambda>len. andthen (pb_read (unat len)) (\<lambda>_. succeed ()))"

text \<open>The wire type and the tag, with \<open>*eof\<close>.\<close>

definition pb_decode_tag :: "pb_istream_t \<Rightarrow> (pb_wire_type_t \<times> u32) option \<times> bool \<times> pb_istream_t" where
  "pb_decode_tag s =
     (case pb_decode_varint32_eof s of
        (None, eof, s) \<Rightarrow> (None, eof, s)
      | (Some temp, eof, s) \<Rightarrow>
          if temp = 0 then (None, True, s) else (Some (unat (temp AND 7), drop_bit 3 temp), False, s))"

definition pb_skip_field :: "pb_wire_type_t \<Rightarrow> (pb_istream_t, unit) routine" where
  "pb_skip_field wire_type =
     (if wire_type = PB_WT_VARINT then pb_skip_varint
      else if wire_type = PB_WT_64BIT then andthen (pb_read 8) (\<lambda>_. succeed ())
      else if wire_type = PB_WT_STRING then pb_skip_string
      else if wire_type = PB_WT_32BIT then andthen (pb_read 4) (\<lambda>_. succeed ())
      else PB_RETURN_ERROR ''invalid wire_type'')"

text \<open>\<open>read_raw_value\<close> stores at most \<open>max_size\<close> bytes.\<close>

primrec read_raw_varint :: "nat \<Rightarrow> (pb_istream_t, bytes) routine" where
  "read_raw_varint 0 = failure"
| "read_raw_varint (Suc k) =
     andthen (pb_read 1) (\<lambda>b.
       if hd b AND 0x80 \<noteq> 0 then andthen (read_raw_varint k) (\<lambda>bs. succeed (hd b # bs)) else succeed [hd b])"

definition read_raw_value :: "pb_wire_type_t \<Rightarrow> nat \<Rightarrow> (pb_istream_t, bytes) routine" where
  "read_raw_value wire_type buf_size =
     (if wire_type = PB_WT_VARINT then read_raw_varint buf_size
      else if wire_type = PB_WT_64BIT then pb_read 8
      else if wire_type = PB_WT_32BIT then pb_read 4
      else PB_RETURN_ERROR ''invalid wire_type'')"

definition pb_make_string_substream :: "(pb_istream_t, pb_istream_t) routine" where
  "pb_make_string_substream = andthen pb_decode_varint32 (\<lambda>size s.
     if bytes_left s < unat size then PB_RETURN_ERROR ''parent stream too short'' s
     else (Some (s\<lparr>bytes_left := unat size\<rparr>), s\<lparr>bytes_left := bytes_left s - unat size\<rparr>))"

definition pb_close_string_substream :: "pb_istream_t \<Rightarrow> (pb_istream_t, unit) routine" where
  "pb_close_string_substream sub = (\<lambda>s.
     case (if bytes_left sub \<noteq> 0 then pb_read (bytes_left sub) sub else (Some [], sub)) of
       (None, sub) \<Rightarrow> (None, s)
     | (Some _, sub) \<Rightarrow> (Some (), s\<lparr>source := source sub, errmsg := errmsg sub\<rparr>))"

section \<open>Encoding\<close>

text \<open>The bytes that the loop of \<open>pb_encode_varint\<close> puts into its buffer of ten.\<close>

function encode_varint_loop :: "u64 \<Rightarrow> bytes" where
  "encode_varint_loop value =
     (if value \<noteq> 0 then (ucast (value AND 0x7F) OR 0x80) # encode_varint_loop (drop_bit 7 value) else [])"
  by pat_completeness auto
termination
proof (relation "measure unat")
  fix v :: u64
  assume "v \<noteq> 0"
  then have "unat v \<noteq> 0" by (simp add: unat_eq_zero)
  then show "(drop_bit 7 v, v) \<in> measure unat" by (simp add: unat_drop_bit)
qed simp

declare encode_varint_loop.simps [simp del]

definition pb_encode_varint :: "u64 \<Rightarrow> (pb_ostream_t, unit) routine" where
  "pb_encode_varint value =
     (if value \<le> 0x7F then pb_write [ucast value]
      else let buffer = encode_varint_loop value; i = length buffer
           in pb_write (buffer[i - 1 := buffer ! (i - 1) AND 0x7F]))"

definition pb_encode_svarint :: "u64 \<Rightarrow> (pb_ostream_t, unit) routine" where
  "pb_encode_svarint value =
     pb_encode_varint (if sint value < 0 then NOT (push_bit 1 value) else push_bit 1 value)"

definition pb_encode_fixed32 :: "u32 \<Rightarrow> (pb_ostream_t, unit) routine" where
  "pb_encode_fixed32 val = pb_write
     [ucast (val AND 0xFF), ucast (drop_bit 8 val AND 0xFF), ucast (drop_bit 16 val AND 0xFF), ucast (drop_bit 24 val AND 0xFF)]"

definition pb_encode_fixed64 :: "u64 \<Rightarrow> (pb_ostream_t, unit) routine" where
  "pb_encode_fixed64 val = pb_write
     [ucast (val AND 0xFF), ucast (drop_bit 8 val AND 0xFF), ucast (drop_bit 16 val AND 0xFF), ucast (drop_bit 24 val AND 0xFF),
      ucast (drop_bit 32 val AND 0xFF), ucast (drop_bit 40 val AND 0xFF), ucast (drop_bit 48 val AND 0xFF), ucast (drop_bit 56 val AND 0xFF)]"

definition pb_encode_tag :: "pb_wire_type_t \<Rightarrow> u32 \<Rightarrow> (pb_ostream_t, unit) routine" where
  "pb_encode_tag wiretype field_number =
     pb_encode_varint (push_bit 3 (ucast field_number) OR of_nat wiretype)"

definition pb_encode_string :: "bytes \<Rightarrow> (pb_ostream_t, unit) routine" where
  "pb_encode_string buffer =
     andthen (pb_encode_varint (of_nat (length buffer))) (\<lambda>_. pb_write buffer)"

text \<open>\<open>pb_encode_submessage\<close> for a message whose fields are written by \<open>encode\<close>. \<open>pb_write\<close> with a null
  buffer only counts.\<close>

definition pb_encode_submessage :: "(pb_ostream_t, unit) routine \<Rightarrow> (pb_ostream_t, unit) routine" where
  "pb_encode_submessage encode = (\<lambda>s.
     case encode PB_OSTREAM_SIZING of
       (None, sub) \<Rightarrow> (None, s\<lparr>oerrmsg := oerrmsg sub\<rparr>)
     | (Some _, sub) \<Rightarrow>
         let size = bytes_written sub in
         (case pb_encode_varint (of_nat size) s of
            (None, s) \<Rightarrow> (None, s)
          | (Some _, s) \<Rightarrow>
              if \<not> has_callback s then (Some (), s\<lparr>bytes_written := (bytes_written s + size) mod 2 ^ 64\<rparr>)
              else if (bytes_written s + size) mod 2 ^ 64 > max_size s then PB_RETURN_ERROR_out ''stream full'' s
              else
                (case encode (s\<lparr>max_size := size, bytes_written := 0, oerrmsg := None\<rparr>) of
                   (status, sub) \<Rightarrow>
                     let s = s\<lparr>bytes_written := (bytes_written s + bytes_written sub) mod 2 ^ 64, dest := dest sub, oerrmsg := oerrmsg sub\<rparr>
                     in if bytes_written sub \<noteq> size then PB_RETURN_ERROR_out ''submsg size changed'' s else (status, s))))"

definition pb_encode_delimited :: "(pb_ostream_t, unit) routine \<Rightarrow> (pb_ostream_t, unit) routine" where
  "pb_encode_delimited encode = pb_encode_submessage encode"

definition pb_encode_nullterminated :: "(pb_ostream_t, unit) routine \<Rightarrow> (pb_ostream_t, unit) routine" where
  "pb_encode_nullterminated encode = andthen encode (\<lambda>_. pb_write [0])"

definition pb_get_encoded_size :: "(pb_ostream_t, unit) routine \<Rightarrow> nat option" where
  "pb_get_encoded_size encode =
     (case encode PB_OSTREAM_SIZING of (None, _) \<Rightarrow> None | (Some _, s) \<Rightarrow> Some (bytes_written s))"

section \<open>Base-128 numbers, low digit first\<close>

fun leb128 :: "nat \<Rightarrow> bytes" where
  "leb128 n = (if n < 128 then [of_nat n] else of_nat (n mod 128 + 128) # leb128 (n div 128))"

declare leb128.simps [simp del]

lemma leb128_not_Nil [simp]: "leb128 n \<noteq> []"
  by (subst leb128.simps) simp

lemma length_leb128: "n < 128 ^ Suc k \<Longrightarrow> length (leb128 n) \<le> Suc k"
proof (induction k arbitrary: n)
  case 0
  then show ?case by (subst leb128.simps) simp
next
  case (Suc k)
  have "n div 128 < 128 ^ Suc k" using Suc.prems by (simp add: less_mult_imp_div_less)
  then show ?case using Suc.IH [of "n div 128"] by (subst leb128.simps) simp
qed

lemma length_leb128_u64: "length (leb128 (unat (v :: u64))) \<le> 10"
  using length_leb128 [of "unat v" 9] unat_u64_less [of v] by simp

lemma varint_byte: "unat (ucast (v AND 0x7F :: u64) OR 0x80 :: u8) = unat v mod 128 + 128"
proof -
  have "unat (v AND 0x7F) = unat v mod 128" using unat_and_eq_mod [of "0x7F" 7 v] by (simp add: mask_eq_exp_minus_1)
  then have "unat (ucast (v AND 0x7F) :: u8) = unat v mod 128" by (simp add: unsigned_ucast_eq take_bit_eq_mod mod_mod_cancel)
  then show ?thesis using u8_or_80 [of "ucast (v AND 0x7F)"] by simp
qed

lemma varint_byte_or_masked: "unat ((ucast (v AND 0x7F :: u64) OR 0x80 :: u8) AND 0x7F) = unat v mod 128"
  unfolding u8_and_7f varint_byte by simp

lemma encode_varint_loop_leb128:
  assumes "v \<noteq> 0"
  shows "encode_varint_loop v \<noteq> [] \<and>
    (encode_varint_loop v)[length (encode_varint_loop v) - 1 := encode_varint_loop v ! (length (encode_varint_loop v) - 1) AND 0x7F] = leb128 (unat v)"
  using assms
proof (induction v rule: encode_varint_loop.induct)
  case (1 v)
  have step: "encode_varint_loop v = (ucast (v AND 0x7F) OR 0x80) # encode_varint_loop (drop_bit 7 v)"
    using 1(2) by (subst encode_varint_loop.simps) simp
  show ?case
  proof (cases "drop_bit 7 v = 0")
    case True
    then have "unat v < 128" using drop_bit_eq_0_iff [of 7 v] by simp
    moreover have "encode_varint_loop (drop_bit 7 v) = []" using True by (subst encode_varint_loop.simps) simp
    moreover have "(ucast (v AND 0x7F) OR 0x80 :: u8) AND 0x7F = of_nat (unat v mod 128)"
      by (simp only: u8_eq_iff varint_byte_or_masked unat_of_nat_u8) simp
    ultimately show ?thesis unfolding step by (subst leb128.simps) (simp del: of_nat_unat)
  next
    case False
    then have ge: "\<not> unat v < 128" using drop_bit_eq_0_iff [of 7 v] by simp
    have "(ucast (v AND 0x7F) OR 0x80 :: u8) = of_nat (unat v mod 128 + 128)"
      by (simp only: u8_eq_iff varint_byte unat_of_nat_u8) simp
    moreover from 1(1) [OF 1(2) False]
    have "encode_varint_loop (drop_bit 7 v) \<noteq> []"
      "(encode_varint_loop (drop_bit 7 v))[length (encode_varint_loop (drop_bit 7 v)) - 1 :=
         encode_varint_loop (drop_bit 7 v) ! (length (encode_varint_loop (drop_bit 7 v)) - 1) AND 0x7F] = leb128 (unat v div 128)"
      by (simp_all add: unat_drop_bit)
    ultimately show ?thesis
      unfolding step leb128.simps [of "unat v"] using ge
      by (cases "encode_varint_loop (drop_bit 7 v)") (simp_all del: of_nat_add)
  qed
qed

lemma pb_encode_varint_leb128: "pb_encode_varint v = pb_write (leb128 (unat v))"
proof (cases "v \<le> 0x7F")
  case True
  then have "unat v < 128" by (simp add: word_le_nat_alt)
  moreover have "(ucast v :: u8) = of_nat (unat v)" by simp
  ultimately show ?thesis using True unfolding pb_encode_varint_def by (subst leb128.simps) (simp del: of_nat_unat)
next
  case False
  then have "v \<noteq> 0" by auto
  then show ?thesis using False encode_varint_loop_leb128 [OF \<open>v \<noteq> 0\<close>] by (simp add: pb_encode_varint_def Let_def)
qed

text \<open>The buffer of ten bytes is large enough.\<close>

lemma encode_varint_buffer: "v \<noteq> 0 \<Longrightarrow> length (encode_varint_loop v) \<le> 10"
  using encode_varint_loop_leb128 [of v] length_leb128_u64 [of v] by (metis length_list_update)

section \<open>What the writers write\<close>

text \<open>A writer writes certain bytes: without a callback it counts them, with enough room it stores
  them, and otherwise it fails.\<close>

definition writes :: "(pb_ostream_t, unit) routine \<Rightarrow> bytes \<Rightarrow> bool" where
  "writes w bs \<longleftrightarrow> length bs < 2 ^ 64 \<and>
     (\<forall>s. \<not> has_callback s \<longrightarrow> bytes_written s + length bs < 2 ^ 64 \<longrightarrow>
        w s = (Some (), s\<lparr>bytes_written := bytes_written s + length bs\<rparr>)) \<and>
     (\<forall>s. has_callback s \<longrightarrow> oerrmsg s = None \<longrightarrow> bytes_written s \<le> max_size s \<longrightarrow> max_size s < 2 ^ 63 \<longrightarrow>
        (if bytes_written s + length bs \<le> max_size s
         then w s = (Some (), s\<lparr>dest := dest s @ bs, bytes_written := bytes_written s + length bs\<rparr>)
         else fst (w s) = None))"

lemma writesI:
  assumes "length bs < 2 ^ 64"
    "\<And>s. \<not> has_callback s \<Longrightarrow> bytes_written s + length bs < 2 ^ 64 \<Longrightarrow>
       w s = (Some (), s\<lparr>bytes_written := bytes_written s + length bs\<rparr>)"
    "\<And>s. has_callback s \<Longrightarrow> oerrmsg s = None \<Longrightarrow> max_size s < 2 ^ 63 \<Longrightarrow> bytes_written s + length bs \<le> max_size s \<Longrightarrow>
       w s = (Some (), s\<lparr>dest := dest s @ bs, bytes_written := bytes_written s + length bs\<rparr>)"
    "\<And>s. has_callback s \<Longrightarrow> oerrmsg s = None \<Longrightarrow> bytes_written s \<le> max_size s \<Longrightarrow> max_size s < 2 ^ 63 \<Longrightarrow> \<not> bytes_written s + length bs \<le> max_size s \<Longrightarrow>
       fst (w s) = None"
  shows "writes w bs"
  using assms by (simp add: writes_def)

lemma writes_count: "writes w bs \<Longrightarrow> \<not> has_callback s \<Longrightarrow> bytes_written s + length bs < 2 ^ 64 \<Longrightarrow>
    w s = (Some (), s\<lparr>bytes_written := bytes_written s + length bs\<rparr>)"
  by (simp add: writes_def)

lemma writes_store: "writes w bs \<Longrightarrow> has_callback s \<Longrightarrow> oerrmsg s = None \<Longrightarrow> max_size s < 2 ^ 63 \<Longrightarrow> bytes_written s + length bs \<le> max_size s \<Longrightarrow>
    w s = (Some (), s\<lparr>dest := dest s @ bs, bytes_written := bytes_written s + length bs\<rparr>)"
  by (simp add: writes_def)

lemma writes_full: "writes w bs \<Longrightarrow> has_callback s \<Longrightarrow> oerrmsg s = None \<Longrightarrow> bytes_written s \<le> max_size s \<Longrightarrow> max_size s < 2 ^ 63 \<Longrightarrow>
    \<not> bytes_written s + length bs \<le> max_size s \<Longrightarrow> fst (w s) = None"
  by (simp add: writes_def)

lemma writes_length: "writes w bs \<Longrightarrow> length bs < 2 ^ 64"
  by (simp add: writes_def)

lemma write_mod:
  fixes a c m :: nat
  assumes "a \<le> m" "m < 2 ^ 63" "c < 2 ^ 64"
  shows "((a + c) mod 2 ^ 64 < a \<or> (a + c) mod 2 ^ 64 > m) \<longleftrightarrow> \<not> a + c \<le> m"
proof (cases "a + c < 2 ^ 64")
  case False
  then have "(a + c) mod 2 ^ 64 = a + c - 2 ^ 64" using assms by (simp add: le_mod_geq)
  then have "(a + c) mod 2 ^ 64 < a" using False assms by linarith
  moreover have "\<not> a + c \<le> m" using False assms(2) by (simp add: not_le)
  ultimately show ?thesis by blast
qed (use assms in auto)

lemma pb_write_writes: "length bs < 2 ^ 64 \<Longrightarrow> writes (pb_write bs) bs"
proof (rule writesI)
  fix s :: pb_ostream_t assume "length bs < 2 ^ 64" "has_callback s" "oerrmsg s = None" "max_size s < 2 ^ 63" "bytes_written s + length bs \<le> max_size s"
  then show "pb_write bs s = (Some (), s\<lparr>dest := dest s @ bs, bytes_written := bytes_written s + length bs\<rparr>)"
    by (auto simp: pb_write_def Let_def buf_write_def)
next
  fix s :: pb_ostream_t assume *: "length bs < 2 ^ 64" "has_callback s" "oerrmsg s = None" "bytes_written s \<le> max_size s" "max_size s < 2 ^ 63"
    "\<not> bytes_written s + length bs \<le> max_size s"
  then have "length bs > 0" by auto
  with write_mod [OF *(4,5,1)] * show "fst (pb_write bs s) = None"
    by (auto simp: pb_write_def Let_def PB_RETURN_ERROR_out_def)
qed (auto simp: pb_write_def Let_def)

lemma writes_andthen:
  assumes "writes v as" "writes w bs" "length as + length bs < 2 ^ 64"
  shows "writes (andthen v (\<lambda>_. w)) (as @ bs)"
proof (rule writesI)
  fix s :: pb_ostream_t assume s: "has_callback s" "oerrmsg s = None" "bytes_written s \<le> max_size s" "max_size s < 2 ^ 63" "\<not> bytes_written s + length (as @ bs) \<le> max_size s"
  show "fst (andthen v (\<lambda>_. w) s) = None"
  proof (cases "bytes_written s + length as \<le> max_size s")
    case True
    from writes_store [OF assms(1) s(1,2,4) True] writes_full [OF assms(2), of "s\<lparr>dest := dest s @ as, bytes_written := bytes_written s + length as\<rparr>"]
    show ?thesis using s True by (simp add: andthen_apply)
  next
    case False
    from writes_full [OF assms(1) s(1-4) False] show ?thesis by (auto simp: andthen_apply split: prod.splits option.splits)
  qed
qed (use assms in \<open>simp_all add: andthen_apply writes_count writes_store\<close>)

lemma pb_encode_varint_writes: "writes (pb_encode_varint v) (leb128 (unat v))"
  unfolding pb_encode_varint_leb128
  by (rule pb_write_writes) (rule order.strict_trans1 [OF length_leb128_u64], simp)

lemma pb_encode_string_writes:
  assumes "length bs < 2 ^ 63"
  shows "writes (pb_encode_string bs) (leb128 (length bs) @ bs)"
proof -
  have v: "unat (of_nat (length bs) :: u64) = length bs"
    using assms by (simp add: unat_of_nat)
  have "writes (pb_encode_string bs) (leb128 (unat (of_nat (length bs) :: u64)) @ bs)"
    unfolding pb_encode_string_def
    using assms length_leb128_u64 [of "of_nat (length bs)"]
    by (intro writes_andthen pb_encode_varint_writes pb_write_writes) auto
  then show ?thesis unfolding v .
qed

text \<open>Encoding a submessage first counts its bytes, then writes the count and the bytes.\<close>

lemma pb_encode_submessage_writes:
  assumes "writes w bs" "length bs < 2 ^ 63"
  shows "writes (pb_encode_submessage w) (leb128 (length bs) @ bs)"
proof -
  have v: "unat (of_nat (length bs) :: u64) = length bs" using assms(2) by (simp add: unat_of_nat)
  note len = length_leb128_u64 [of "of_nat (length bs)", unfolded v]
  note var = pb_encode_varint_writes [of "of_nat (length bs)", unfolded v]
  have sizing: "w PB_OSTREAM_SIZING = (Some (), PB_OSTREAM_SIZING\<lparr>bytes_written := length bs\<rparr>)"
    using writes_count [OF assms(1), of PB_OSTREAM_SIZING] assms(2) by (simp add: PB_OSTREAM_SIZING_def)
  show ?thesis
  proof (rule writesI)
    show "length (leb128 (length bs) @ bs) < 2 ^ 64" using assms(2) len by simp
  next
    fix s :: pb_ostream_t assume s: "\<not> has_callback s" "bytes_written s + length (leb128 (length bs) @ bs) < 2 ^ 64"
    then show "pb_encode_submessage w s = (Some (), s\<lparr>bytes_written := bytes_written s + length (leb128 (length bs) @ bs)\<rparr>)"
      using writes_count [OF var, of s] by (simp add: pb_encode_submessage_def sizing Let_def)
  next
    fix s :: pb_ostream_t assume s: "has_callback s" "oerrmsg s = None" "max_size s < 2 ^ 63" "bytes_written s + length (leb128 (length bs) @ bs) \<le> max_size s"
    then show "pb_encode_submessage w s =
        (Some (), s\<lparr>dest := dest s @ leb128 (length bs) @ bs, bytes_written := bytes_written s + length (leb128 (length bs) @ bs)\<rparr>)"
      using writes_store [OF var, of s] assms(2)
        writes_store [OF assms(1), of "s\<lparr>dest := dest s @ leb128 (length bs), max_size := length bs, bytes_written := 0, oerrmsg := None\<rparr>"]
      by (cases s) (simp add: pb_encode_submessage_def sizing Let_def)
  next
    fix s :: pb_ostream_t assume s: "has_callback s" "oerrmsg s = None" "bytes_written s \<le> max_size s" "max_size s < 2 ^ 63"
      "\<not> bytes_written s + length (leb128 (length bs) @ bs) \<le> max_size s"
    show "fst (pb_encode_submessage w s) = None"
    proof (cases "bytes_written s + length (leb128 (length bs)) \<le> max_size s")
      case False
      from writes_full [OF var s(1-4) False] show ?thesis
        by (auto simp: pb_encode_submessage_def sizing Let_def split: prod.splits option.splits)
    next
      case True
      show ?thesis
        using writes_store [OF var s(1,2,4) True] s True assms(2) len
        by (simp add: pb_encode_submessage_def sizing Let_def PB_RETURN_ERROR_out_def)
    qed
  qed
qed

section \<open>What the readers read\<close>

definition istream_ok :: "pb_istream_t \<Rightarrow> bool" where
  "istream_ok s \<longleftrightarrow> bytes_left s \<le> length (source s)"

definition advance :: "nat \<Rightarrow> pb_istream_t \<Rightarrow> pb_istream_t" where
  "advance k s = s\<lparr>source := drop k (source s), bytes_left := bytes_left s - k\<rparr>"

lemma advance_simps [simp]:
  "source (advance k s) = drop k (source s)" "bytes_left (advance k s) = bytes_left s - k" "errmsg (advance k s) = errmsg s"
  "advance k (advance m s) = advance (m + k) s"
  by (simp_all add: advance_def add.commute)

lemma advance_0 [simp]: "advance 0 s = s"
  by (simp add: advance_def)

lemma istream_ok_advance [simp]: "istream_ok s \<Longrightarrow> istream_ok (advance k s)"
  by (simp add: istream_ok_def)

lemma pb_read_advance: "n \<le> bytes_left s \<Longrightarrow> pb_read n s = (Some (take n (source s)), advance n s)"
  by (simp add: pb_read_def buf_read_def advance_def)

lemma pb_readbyte_advance: "bytes_left s \<noteq> 0 \<Longrightarrow> source s = b # bs \<Longrightarrow> pb_readbyte s = (Some b, advance 1 s)"
  by (simp add: pb_readbyte_def buf_read_def advance_def)

lemma pb_readbyte_end: "bytes_left s = 0 \<Longrightarrow> \<exists>s'. pb_readbyte s = (None, s')"
  by (simp add: pb_readbyte_def PB_RETURN_ERROR_def)

primrec leb_val :: "bytes \<Rightarrow> nat" where
  "leb_val [] = 0"
| "leb_val (b # bs) = unat b mod 128 + 128 * leb_val bs"

text \<open>The bytes of one number: all but the last have the high bit.\<close>

primrec varint_group :: "bytes \<Rightarrow> bool" where
  "varint_group [] = False"
| "varint_group (b # bs) = (if unat b < 128 then bs = [] else varint_group bs)"

lemma leb128_group: "varint_group (leb128 n) \<and> leb_val (leb128 n) = n"
proof (induction n rule: leb128.induct)
  case (1 n)
  show ?case
  proof (cases "n < 128")
    case True
    then show ?thesis by (subst (1 2) leb128.simps) (simp del: of_nat_add)
  next
    case False
    have "unat (of_nat (n mod 128 + 128) :: u8) = n mod 128 + 128"
      by (simp only: unat_of_nat_u8) simp
    then show ?thesis using 1 [OF False] False by (subst (1 2) leb128.simps) (simp del: of_nat_add)
  qed
qed

lemma or_push_add:
  fixes res :: "'a::len word"
  assumes "unat res < 2 ^ n" "8 \<le> LENGTH('a)"
  shows "res OR push_bit n (ucast (b :: u8)) = res + of_nat (2 ^ n * unat b)"
proof -
  have "push_bit n (ucast b) AND res = 0" by (rule push_bit_and_small [OF assms(1)])
  then have "res OR push_bit n (ucast b) = push_bit n (ucast b) + res"
    unfolding or.commute [of res] by (rule word_or_disjoint_add)
  moreover have "push_bit n (ucast b :: 'a word) = of_nat (2 ^ n * unat b)"
    unfolding push_bit_eq_mult by (simp add: mult.commute)
  ultimately show ?thesis by simp
qed

lemma unat_add_of_nat_less:
  fixes res :: "'a::len word"
  assumes "unat res < 2 ^ n" "unat (c :: u8) < 128" "n + 7 \<le> LENGTH('a)"
  shows "unat (res + of_nat (2 ^ n * unat c)) < 2 ^ (n + 7) \<and> unat (res + of_nat (2 ^ n * unat c)) = unat res + 2 ^ n * unat c"
proof -
  have "unat res + 2 ^ n * unat c < 2 ^ n * (unat c + 1)" using assms(1) by simp
  also have "\<dots> \<le> 2 ^ n * 128" using assms(2) by (intro mult_le_mono2) simp
  finally have lt: "unat res + 2 ^ n * unat c < 2 ^ (n + 7)" by (simp add: power_add)
  also have "\<dots> \<le> 2 ^ LENGTH('a)" using assms(3) by (rule power_increasing) simp
  finally have "unat (res + of_nat (2 ^ n * unat c)) = unat res + 2 ^ n * unat c"
    by (simp add: unat_word_ariths unat_of_nat mod_simps del: of_nat_mult)
  with lt show ?thesis by simp
qed

lemma bitpos_u8: "k \<le> 10 \<Longrightarrow> unat (of_nat (7 * k) :: u8) = 7 * k"
  by (simp add: unat_of_nat del: of_nat_mult)

lemma bitpos_add: "(of_nat (7 * k) :: u8) + 7 = of_nat (7 * Suc k)"
  by (simp add: algebra_simps)

lemma bitpos_ge: "k \<le> 10 \<Longrightarrow> (of_nat (7 * k) :: u8) \<ge> 64 \<longleftrightarrow> k = 10"
  using bitpos_u8 [of k] by (auto simp: word_le_nat_alt)

lemma varint_loop_step:
  assumes "k < 10" "unat res < 2 ^ (7 * k)" "bytes_left s \<noteq> 0" "source s = b # bs"
  defines "res' \<equiv> res + of_nat (2 ^ (7 * k) * (unat b mod 128)) :: u64"
  shows "varint_loop (of_nat (7 * k)) res s =
    (if unat b < 128 then (Some res', advance 1 s) else varint_loop (of_nat (7 * Suc k)) res' (advance 1 s))"
proof -
  have pos: "unat (of_nat (7 * k) :: u8) = 7 * k" "\<not> (of_nat (7 * k) :: u8) \<ge> 64"
    using bitpos_u8 [of k] bitpos_ge [of k] assms(1) by auto
  have res': "res OR push_bit (7 * k) (ucast (b AND 0x7F)) = res'"
    using or_push_add [OF assms(2), of "b AND 0x7F"] by (simp add: res'_def)
  show ?thesis
    unfolding varint_loop.simps [of "of_nat (7 * k)"] Let_def pb_readbyte_advance [OF assms(3,4)] pos(1) bitpos_add
    using pos(2) res' by (simp add: u8_and_80 del: of_nat_mult)
qed

text \<open>From position \<open>k\<close> on, with \<open>res\<close> read so far, a number follows; \<open>v\<close> is its value and \<open>s'\<close> what is
  left.\<close>

definition varint_parse :: "nat \<Rightarrow> u64 \<Rightarrow> pb_istream_t \<Rightarrow> u64 \<Rightarrow> pb_istream_t \<Rightarrow> bool" where
  "varint_parse k res s v s' \<longleftrightarrow>
     (\<exists>bs. varint_group bs \<and> length bs + k \<le> 10 \<and> length bs \<le> bytes_left s \<and> take (length bs) (source s) = bs \<and>
        v = res + of_nat (2 ^ (7 * k) * leb_val bs) \<and> s' = advance (length bs) s)"

lemma varint_parse_none: "k = 10 \<or> bytes_left s = 0 \<Longrightarrow> \<not> varint_parse k res s v s'"
proof
  assume "k = 10 \<or> bytes_left s = 0" "varint_parse k res s v s'"
  then obtain bs where "varint_group bs" "bs = []" by (auto simp: varint_parse_def)
  then show False by simp
qed

lemma varint_parse_last:
  assumes "k < 10" "bytes_left s \<noteq> 0" "source s = b # src" "unat b < 128"
  shows "varint_parse k res s v s' \<longleftrightarrow> v = res + of_nat (2 ^ (7 * k) * (unat b mod 128)) \<and> s' = advance 1 s"
proof
  assume "varint_parse k res s v s'"
  then obtain bs where bs: "varint_group bs" "take (length bs) (source s) = bs"
    "v = res + of_nat (2 ^ (7 * k) * leb_val bs)" "s' = advance (length bs) s" by (auto simp: varint_parse_def)
  have "bs = [b]" using bs(1,2) assms(3,4) by (cases bs) (auto split: if_splits)
  then show "v = res + of_nat (2 ^ (7 * k) * (unat b mod 128)) \<and> s' = advance 1 s" using bs by simp
next
  assume "v = res + of_nat (2 ^ (7 * k) * (unat b mod 128)) \<and> s' = advance 1 s"
  then show "varint_parse k res s v s'"
    unfolding varint_parse_def using assms by (intro exI [of _ "[b]"]) simp
qed

lemma varint_parse_more:
  assumes "k < 10" "bytes_left s \<noteq> 0" "source s = b # src" "\<not> unat b < 128"
  shows "varint_parse k res s v s' \<longleftrightarrow>
    varint_parse (Suc k) (res + of_nat (2 ^ (7 * k) * (unat b mod 128))) (advance 1 s) v s'"
proof -
  have add: "res + of_nat (2 ^ (7 * k) * (unat b mod 128)) + of_nat (2 ^ (7 * Suc k) * leb_val bs) =
      res + of_nat (2 ^ (7 * k) * leb_val (b # bs))" for bs
    by (simp add: algebra_simps power_add)
  show ?thesis
  proof
    assume "varint_parse k res s v s'"
    then obtain bs where *: "varint_group bs" "length bs + k \<le> 10" "length bs \<le> bytes_left s" "take (length bs) (source s) = bs"
      "v = res + of_nat (2 ^ (7 * k) * leb_val bs)" "s' = advance (length bs) s" by (auto simp: varint_parse_def)
    then obtain bs' where "bs = b # bs'" using assms(3) by (cases bs) auto
    then show "varint_parse (Suc k) (res + of_nat (2 ^ (7 * k) * (unat b mod 128))) (advance 1 s) v s'"
      unfolding varint_parse_def add using * assms by (intro exI [of _ bs']) (auto simp del: leb_val.simps)
  next
    assume "varint_parse (Suc k) (res + of_nat (2 ^ (7 * k) * (unat b mod 128))) (advance 1 s) v s'"
    then obtain bs where "varint_group bs" "length bs + Suc k \<le> 10" "length bs \<le> bytes_left (advance 1 s)"
      "take (length bs) (source (advance 1 s)) = bs" "v = res + of_nat (2 ^ (7 * k) * leb_val (b # bs))"
      "s' = advance (length bs) (advance 1 s)"
      unfolding varint_parse_def add by blast
    then show "varint_parse k res s v s'"
      unfolding varint_parse_def using assms by (intro exI [of _ "b # bs"]) (auto simp del: leb_val.simps)
  qed
qed

lemma varint_loop_exact:
  "k \<le> 10 \<Longrightarrow> (k < 10 \<Longrightarrow> unat res < 2 ^ (7 * k)) \<Longrightarrow> istream_ok s \<Longrightarrow>
   varint_loop (of_nat (7 * k)) res s = (Some v, s') \<longleftrightarrow> varint_parse k res s v s'"
proof (induction "10 - k" arbitrary: k res s)
  case 0
  then have "k = 10" by simp
  then have "fst (varint_loop (of_nat (7 * k)) res s) = None"
    using bitpos_ge [of k] by (subst varint_loop.simps) (simp add: PB_RETURN_ERROR_def)
  then show ?case using varint_parse_none \<open>k = 10\<close> by (metis fst_conv option.distinct(1))
next
  case (Suc j)
  have k: "k < 10" "unat res < 2 ^ (7 * k)" using Suc.hyps(2) Suc.prems(2) by auto
  show ?case
  proof (cases "bytes_left s = 0")
    case True
    then obtain s1 where "pb_readbyte s = (None, s1)" using pb_readbyte_end by blast
    then have "varint_loop (of_nat (7 * k)) res s = (None, s1)"
      using bitpos_ge [of k] k by (subst varint_loop.simps) auto
    then show ?thesis using varint_parse_none True by (metis Pair_inject option.distinct(1))
  next
    case left: False
    then obtain b src where src: "source s = b # src" using Suc.prems(3) by (cases "source s") (auto simp: istream_ok_def)
    define res' where "res' = res + of_nat (2 ^ (7 * k) * (unat b mod 128))"
    note step = varint_loop_step [OF k left src, folded res'_def]
    have small: "Suc k < 10 \<Longrightarrow> unat res' < 2 ^ (7 * Suc k)"
      using unat_add_of_nat_less [OF k(2), of "b AND 0x7F"] by (simp add: res'_def add.commute del: of_nat_mult)
    have IH: "varint_loop (of_nat (7 * Suc k)) res' (advance 1 s) = (Some v, s') \<longleftrightarrow> varint_parse (Suc k) res' (advance 1 s) v s'"
      using Suc.hyps k small Suc.prems(3) by (intro Suc.hyps(1)) auto
    show ?thesis
    proof (cases "unat b < 128")
      case True
      show ?thesis unfolding step varint_parse_last [OF k(1) left src True] using True by (auto simp: res'_def)
    next
      case False
      show ?thesis unfolding step varint_parse_more [OF k(1) left src False] using False IH by (simp add: res'_def del: of_nat_mult)
    qed
  qed
qed

text \<open>A reader reads certain bytes as a value: where they come next, it returns the value and moves on.\<close>

definition reads :: "(pb_istream_t, 'a) routine \<Rightarrow> bytes \<Rightarrow> 'a \<Rightarrow> bool" where
  "reads r bs v \<longleftrightarrow> (\<forall>s rest. istream_ok s \<longrightarrow> source s = bs @ rest \<longrightarrow> length bs \<le> bytes_left s \<longrightarrow>
     r s = (Some v, advance (length bs) s))"

lemma reads_andthen:
  assumes "reads r as a" "reads (f a) bs b"
  shows "reads (andthen r f) (as @ bs) b"
  unfolding reads_def
proof (intro allI impI)
  fix s rest assume s: "istream_ok s" "source s = (as @ bs) @ rest" "length (as @ bs) \<le> bytes_left s"
  then have "r s = (Some a, advance (length as) s)" using assms(1) by (simp add: reads_def)
  moreover have "f a (advance (length as) s) = (Some b, advance (length bs) (advance (length as) s))"
    using assms(2) s by (simp add: reads_def)
  ultimately show "andthen r f s = (Some b, advance (length (as @ bs)) s)" by (simp add: andthen_apply)
qed

lemma reads_succeed: "reads r bs a \<Longrightarrow> reads (andthen r (\<lambda>a. succeed (f a))) bs (f a)"
  by (simp add: reads_def andthen_apply succeed_def)

lemma pb_read_reads: "reads (pb_read (length bs)) bs bs"
  by (simp add: reads_def pb_read_advance)

lemma pb_decode_varint_reads: "reads pb_decode_varint (leb128 (unat v)) v"
  unfolding reads_def
proof (intro allI impI)
  fix s rest assume s: "istream_ok s" "source s = leb128 (unat v) @ rest" "length (leb128 (unat v)) \<le> bytes_left s"
  have "varint_parse 0 0 s v (advance (length (leb128 (unat v))) s)"
    unfolding varint_parse_def using s leb128_group [of "unat v"] length_leb128_u64 [of v]
    by (intro exI [of _ "leb128 (unat v)"]) simp
  then show "pb_decode_varint s = (Some v, advance (length (leb128 (unat v))) s)"
    using varint_loop_exact [of 0 0 s v "advance (length (leb128 (unat v))) s"] s(1) by (simp add: pb_decode_varint_def)
qed

lemma zigzag: "(if (if sint v < 0 then NOT (push_bit 1 v) else push_bit 1 v) AND 1 \<noteq> 0
    then NOT (drop_bit 1 (if sint v < 0 then NOT (push_bit 1 v) else push_bit 1 v))
    else drop_bit 1 (if sint v < 0 then NOT (push_bit 1 v) else push_bit 1 v)) = (v :: u64)"
proof -
  have sign: "sint v < 0 \<longleftrightarrow> bit v 63" using bit_last_iff [of v] by simp
  have "\<not> bit (push_bit 1 v) 0" unfolding bit_push_bit_iff by simp
  then have "even (push_bit 1 v)" unfolding bit_0 by blast
  then have odd: "NOT (push_bit 1 v) AND 1 = 1" and even: "push_bit 1 v AND 1 = 0"
    by (simp_all only: and_one_eq mod2_eq_if even_not_iff not_not if_True if_False simp_thms)
  have split: "n < LENGTH(64) \<Longrightarrow> n < 63 \<or> n = 63" for n by simp linarith
  have "NOT (drop_bit 1 (NOT (push_bit 1 v))) = v" if "bit v 63"
    by (rule bit_word_eqI) (use that split in \<open>fastforce simp: bit_simps simp del: One_nat_def\<close>)
  moreover have "drop_bit 1 (push_bit 1 v) = v" if "\<not> bit v 63"
    by (rule bit_word_eqI) (use that split in \<open>fastforce simp: bit_simps simp del: One_nat_def\<close>)
  ultimately show ?thesis using sign odd even by simp
qed

lemma pb_decode_svarint_reads:
  "reads pb_decode_svarint (leb128 (unat (if sint v < 0 then NOT (push_bit 1 v) else push_bit 1 v))) v"
  using reads_succeed [OF pb_decode_varint_reads [of "if sint v < 0 then NOT (push_bit 1 v) else push_bit 1 v"],
      of "\<lambda>value. if value AND 1 \<noteq> 0 then NOT (drop_bit 1 value) else drop_bit 1 value", unfolded zigzag]
  unfolding pb_decode_svarint_def .

lemma byte_of_u32: "ucast (ucast (drop_bit n v AND 0xFF :: u32) :: u8) = take_bit 8 (drop_bit n v)"
proof -
  have "(0xFF :: u32) = mask 8" by (simp add: mask_eq_exp_minus_1)
  then show ?thesis by (auto simp: take_bit_eq_mask [symmetric] bit_eq_iff bit_simps) 
qed

lemma byte_of_u64: "ucast (ucast (drop_bit n v AND 0xFF :: u64) :: u8) = take_bit 8 (drop_bit n v)"
proof -
  have "(0xFF :: u64) = mask 8" by (simp add: mask_eq_exp_minus_1)
  then show ?thesis by (auto simp: take_bit_eq_mask [symmetric] bit_eq_iff bit_simps)
qed

lemma bytes_of_u32:
  "take_bit 8 v OR push_bit 8 (take_bit 8 (drop_bit 8 v)) OR push_bit 16 (take_bit 8 (drop_bit 16 v)) OR
     push_bit 24 (take_bit 8 (drop_bit 24 v)) = (v :: u32)"
proof (rule bit_word_eqI)
  fix i assume "i < LENGTH(32)"
  then consider "i < 8" | "8 \<le> i" "i < 16" | "16 \<le> i" "i < 24" | "24 \<le> i" "i < 32" by fastforce
  then show "bit (take_bit 8 v OR push_bit 8 (take_bit 8 (drop_bit 8 v)) OR push_bit 16 (take_bit 8 (drop_bit 16 v)) OR
     push_bit 24 (take_bit 8 (drop_bit 24 v))) i = bit v i"
    by cases (auto simp: bit_simps less_diff_conv2)
qed

lemma bytes_of_u64:
  "take_bit 8 v OR push_bit 8 (take_bit 8 (drop_bit 8 v)) OR push_bit 16 (take_bit 8 (drop_bit 16 v)) OR
     push_bit 24 (take_bit 8 (drop_bit 24 v)) OR push_bit 32 (take_bit 8 (drop_bit 32 v)) OR
     push_bit 40 (take_bit 8 (drop_bit 40 v)) OR push_bit 48 (take_bit 8 (drop_bit 48 v)) OR
     push_bit 56 (take_bit 8 (drop_bit 56 v)) = (v :: u64)"
proof (rule bit_word_eqI)
  fix i assume "i < LENGTH(64)"
  then consider "i < 8" | "8 \<le> i" "i < 16" | "16 \<le> i" "i < 24" | "24 \<le> i" "i < 32"
    | "32 \<le> i" "i < 40" | "40 \<le> i" "i < 48" | "48 \<le> i" "i < 56" | "56 \<le> i" "i < 64" by fastforce
  then show "bit (take_bit 8 v OR push_bit 8 (take_bit 8 (drop_bit 8 v)) OR push_bit 16 (take_bit 8 (drop_bit 16 v)) OR
     push_bit 24 (take_bit 8 (drop_bit 24 v)) OR push_bit 32 (take_bit 8 (drop_bit 32 v)) OR
     push_bit 40 (take_bit 8 (drop_bit 40 v)) OR push_bit 48 (take_bit 8 (drop_bit 48 v)) OR
     push_bit 56 (take_bit 8 (drop_bit 56 v))) i = bit v i"
    by cases (auto simp: bit_simps less_diff_conv2)
qed

definition le_bytes32 :: "u32 \<Rightarrow> bytes" where
  "le_bytes32 val = map (\<lambda>n. ucast (drop_bit n val AND 0xFF)) [0, 8, 16, 24]"

definition le_bytes64 :: "u64 \<Rightarrow> bytes" where
  "le_bytes64 val = map (\<lambda>n. ucast (drop_bit n val AND 0xFF)) [0, 8, 16, 24, 32, 40, 48, 56]"

lemma pb_encode_fixed_writes: "writes (pb_encode_fixed32 v) (le_bytes32 v)" "writes (pb_encode_fixed64 w) (le_bytes64 w)"
  using pb_write_writes [of "le_bytes32 v"] pb_write_writes [of "le_bytes64 w"]
  by (simp_all add: pb_encode_fixed32_def pb_encode_fixed64_def le_bytes32_def le_bytes64_def)

lemma pb_decode_fixed32_reads: "reads pb_decode_fixed32 (le_bytes32 v) v"
proof -
  have len: "length (le_bytes32 v) = 4" by (simp add: le_bytes32_def)
  define f :: "bytes \<Rightarrow> u32" where
    "f = (\<lambda>b. ucast (b ! 0) OR push_bit 8 (ucast (b ! 1)) OR push_bit 16 (ucast (b ! 2)) OR push_bit 24 (ucast (b ! 3)))"
  have "f (le_bytes32 v) = v"
    unfolding f_def le_bytes32_def using bytes_of_u32 [of v] byte_of_u32 [of _ v]
    by (simp add: byte_of_u32 [of 0 v, simplified] numeral_2_eq_2 numeral_3_eq_3)
  with reads_succeed [OF pb_read_reads [of "le_bytes32 v", unfolded len], of f] show ?thesis
    by (simp add: pb_decode_fixed32_def f_def)
qed

lemma pb_decode_fixed64_reads: "reads pb_decode_fixed64 (le_bytes64 v) v"
proof -
  have len: "length (le_bytes64 v) = 8" by (simp add: le_bytes64_def)
  define f :: "bytes \<Rightarrow> u64" where
    "f = (\<lambda>b. ucast (b ! 0) OR push_bit 8 (ucast (b ! 1)) OR push_bit 16 (ucast (b ! 2)) OR push_bit 24 (ucast (b ! 3)) OR
      push_bit 32 (ucast (b ! 4)) OR push_bit 40 (ucast (b ! 5)) OR push_bit 48 (ucast (b ! 6)) OR push_bit 56 (ucast (b ! 7)))"
  have "f (le_bytes64 v) = v"
    unfolding f_def le_bytes64_def using bytes_of_u64 [of v] byte_of_u64 [of _ v]
    by (simp add: byte_of_u64 [of 0 v, simplified] eval_nat_numeral)
  with reads_succeed [OF pb_read_reads [of "le_bytes64 v", unfolded len], of f] show ?thesis
    by (simp add: pb_decode_fixed64_def f_def)
qed

section \<open>Reading tags and lengths\<close>

lemma varint32_loop_step:
  assumes "k \<le> 4" "unat res < 2 ^ (7 * k)" "bytes_left s \<noteq> 0" "source s = b # bs"
  defines "res' \<equiv> res + of_nat (2 ^ (7 * k) * (unat b mod 128)) :: u32"
  shows "varint32_loop (of_nat (7 * k)) res s =
    (if unat b < 128
     then if k = 4 \<and> b AND 0x70 \<noteq> 0 then PB_RETURN_ERROR ''varint overflow'' (advance 1 s) else (Some res', advance 1 s)
     else varint32_loop (of_nat (7 * Suc k)) res' (advance 1 s))"
proof -
  have pos: "unat (of_nat (7 * k) :: u8) = 7 * k" "\<not> (of_nat (7 * k) :: u8) \<ge> 32"
    using bitpos_u8 [of k] assms(1) by (auto simp: word_le_nat_alt)
  have "(of_nat (7 * Suc k) :: u8) = 35 \<longleftrightarrow> k = 4"
    using bitpos_u8 [of "Suc k"] assms(1) by (auto simp: u8_eq_iff)
  moreover have "res OR push_bit (7 * k) (ucast (b AND 0x7F)) = res'"
    using or_push_add [OF assms(2), of "b AND 0x7F"] by (simp add: res'_def)
  ultimately show ?thesis
    unfolding varint32_loop.simps [of "of_nat (7 * k)"] Let_def pb_readbyte_advance [OF assms(3,4)] pos(1) bitpos_add
    using pos(2) by (simp add: u8_and_80 del: of_nat_mult)
qed

lemma u8_and_70: "unat b < 16 \<Longrightarrow> b AND 0x70 = (0 :: u8)"
  using push_bit_and_small [of b 4 7] by (simp add: and.commute)

text \<open>From position \<open>k\<close> on, \<open>bs\<close> fits into what is left of 32 bits.\<close>

lemma varint32_loop_reads:
  "varint_group bs \<Longrightarrow> k \<le> 4 \<Longrightarrow> 2 ^ (7 * k) * leb_val bs < 2 ^ 32 \<Longrightarrow> length bs + k \<le> 5 \<Longrightarrow> unat res < 2 ^ (7 * k) \<Longrightarrow>
   istream_ok s \<Longrightarrow> source s = bs @ rest \<Longrightarrow> length bs \<le> bytes_left s \<Longrightarrow>
   varint32_loop (of_nat (7 * k)) res s = (Some (res + of_nat (2 ^ (7 * k) * leb_val bs)), advance (length bs) s)"
proof (induction bs arbitrary: k res s)
  case Nil
  then show ?case by simp
next
  case (Cons b bs)
  define res' where "res' = res + of_nat (2 ^ (7 * k) * (unat b mod 128))"
  have left: "bytes_left s \<noteq> 0" "source s = b # (bs @ rest)" using Cons.prems(7,8) by auto
  note step = varint32_loop_step [OF Cons.prems(2,5) left, folded res'_def]
  show ?case
  proof (cases "unat b < 128")
    case True
    then have "bs = []" using Cons.prems(1) by simp
    moreover have "k = 4 \<Longrightarrow> b AND 0x70 = 0"
      using Cons.prems(3) True \<open>bs = []\<close> by (intro u8_and_70) simp
    ultimately show ?thesis unfolding step using True by (auto simp: res'_def)
  next
    case False
    then have group: "varint_group bs" "bs \<noteq> []" using Cons.prems(1) by auto
    then have k: "k < 4" using Cons.prems(4) by (cases bs) auto
    have small: "unat res' < 2 ^ (7 * Suc k)"
      using unat_add_of_nat_less [OF Cons.prems(5), of "b AND 0x7F"] k by (simp add: res'_def add.commute del: of_nat_mult)
    have "2 ^ (7 * Suc k) * leb_val bs \<le> 2 ^ (7 * k) * leb_val (b # bs)" by (simp add: power_add algebra_simps)
    then have fits: "2 ^ (7 * Suc k) * leb_val bs < 2 ^ 32" using Cons.prems(3) by (rule le_less_trans)
    have "varint32_loop (of_nat (7 * Suc k)) res' (advance 1 s) =
        (Some (res' + of_nat (2 ^ (7 * Suc k) * leb_val bs)), advance (length bs) (advance 1 s))"
      using Cons.prems k by (intro Cons.IH [OF group(1) _ fits _ small]) auto
    then show ?thesis unfolding step using False by (simp add: res'_def power_add algebra_simps)
  qed
qed

lemma pb_decode_varint32_eof_leb128:
  assumes "m < 2 ^ 32" "istream_ok s" "source s = leb128 m @ rest" "length (leb128 m) \<le> bytes_left s"
  shows "pb_decode_varint32_eof s = (Some (of_nat m), False, advance (length (leb128 m)) s)"
proof -
  obtain b bs where bs: "leb128 m = b # bs" by (cases "leb128 m") simp_all
  note group = leb128_group [of m, unfolded bs]
  have left: "bytes_left s \<noteq> 0" "source s = b # (bs @ rest)" using assms(3,4) bs by auto
  show ?thesis
  proof (cases "unat b < 128")
    case True
    then have "bs = []" "m = unat b" using group by auto
    then show ?thesis unfolding pb_decode_varint32_eof_def pb_readbyte_advance [OF left] bs using True by (simp add: u8_and_80)
  next
    case False
    then have g: "varint_group bs" "m = unat b mod 128 + 128 * leb_val bs" using group by auto
    have more: "length bs \<le> bytes_left (advance 1 s)" using assms(4) bs by simp
    have "length bs + 1 \<le> 5" using length_leb128 [of m 4] assms(1) bs by simp
    moreover have "unat (ucast (b AND 0x7F) :: u32) < 2 ^ (7 * 1)" by (simp add: unsigned_ucast_eq take_bit_eq_mod)
    ultimately have "varint32_loop (of_nat (7 * 1)) (ucast (b AND 0x7F)) (advance 1 s) =
        (Some (ucast (b AND 0x7F) + of_nat (2 ^ (7 * 1) * leb_val bs)), advance (length bs) (advance 1 s))"
      using assms(1,2) g left(2) more by (intro varint32_loop_reads [where rest = rest]) simp_all
    moreover have "(ucast (b AND 0x7F) :: u32) = of_nat (unat b mod 128)"
      unfolding u8_and_7f [symmetric] by (simp only: of_nat_unat)
    ultimately show ?thesis
      unfolding pb_decode_varint32_eof_def pb_readbyte_advance [OF left] bs using False by (simp add: u8_and_80 g(2))
  qed
qed

lemma pb_decode_varint32_reads: "m < 2 ^ 32 \<Longrightarrow> reads pb_decode_varint32 (leb128 m) (of_nat m)"
  by (simp add: reads_def pb_decode_varint32_def pb_decode_varint32_eof_leb128)

section \<open>Fields on the wire\<close>

text \<open>The bytes after a tag: what \<open>pb_skip_field\<close> has to skip for each wire type.\<close>

definition wire_value :: "pb_wire_type_t \<Rightarrow> bytes \<Rightarrow> bool" where
  "wire_value wt bs \<longleftrightarrow>
     wt = PB_WT_VARINT \<and> varint_group bs \<or>
     wt = PB_WT_64BIT \<and> length bs = 8 \<or>
     wt = PB_WT_STRING \<and> (\<exists>p. length p < 2 ^ 32 \<and> bs = leb128 (length p) @ p) \<or>
     wt = PB_WT_32BIT \<and> length bs = 4"

lemmas PB_WT_defs = PB_WT_VARINT_def PB_WT_64BIT_def PB_WT_STRING_def PB_WT_32BIT_def

definition wire_tag :: "pb_wire_type_t \<Rightarrow> u32 \<Rightarrow> bytes" where
  "wire_tag wt num = leb128 (8 * unat num + wt)"

lemma pb_encode_tag_leb128:
  assumes "wt < 8"
  shows "pb_encode_tag wt num = pb_write (wire_tag wt num)"
proof -
  have small: "unat (of_nat wt :: u64) = wt" using assms by (simp add: unat_of_nat)
  then have "unat (of_nat wt :: u64) < 2 ^ 3" using assms by simp
  then have "push_bit 3 (ucast num) AND (of_nat wt :: u64) = 0" by (rule push_bit_and_small)
  then have "push_bit 3 (ucast num) OR of_nat wt = push_bit 3 (ucast num) + (of_nat wt :: u64)" by (rule word_or_disjoint_add)
  also have "\<dots> = of_nat (8 * unat num + wt)" by (simp add: push_bit_eq_mult)
  finally have "unat (push_bit 3 (ucast num) OR of_nat wt :: u64) = (8 * unat num + wt) mod 2 ^ 64"
    by (simp only: unat_of_nat) simp
  moreover have "8 * unat num + wt < 2 ^ 64" using unat_u32_less [of num] assms by simp
  ultimately show ?thesis by (simp add: pb_encode_tag_def pb_encode_varint_leb128 wire_tag_def)
qed

text \<open>The decoder keeps a tag in 32 bits: three for the wire type and 29 for the number.\<close>

lemma pb_decode_tag_wire_tag:
  assumes "wt < 8" "num \<noteq> 0" "num < 2 ^ 29"
    and s: "istream_ok s" "source s = wire_tag wt num @ rest" "length (wire_tag wt num) \<le> bytes_left s"
  shows "pb_decode_tag s = (Some (wt, num), False, advance (length (wire_tag wt num)) s)"
proof -
  have num: "unat num < 2 ^ 29" using assms(3) by (simp add: word_less_nat_alt)
  then have lt: "8 * unat num + wt < 2 ^ 32" using assms(1) by simp
  define temp where "temp = (of_nat (8 * unat num + wt) :: u32)"
  have temp: "unat temp = 8 * unat num + wt" unfolding temp_def using lt by (simp only: unat_of_nat) simp
  have "temp \<noteq> 0" using temp assms(2) by (metis add_is_0 mult_is_0 unat_eq_zero unat_0 zero_neq_numeral)
  moreover have "unat (temp AND 7) = wt"
    using unat_and_eq_mod [of 7 3 temp] temp assms(1) by (simp add: mask_eq_exp_minus_1)
  moreover have "drop_bit 3 temp = num"
    using assms(1) by (simp add: word_unat_eq_iff unat_drop_bit temp)
  ultimately show ?thesis
    using pb_decode_varint32_eof_leb128 [OF lt s(1), of rest] s(2,3)
    by (simp add: pb_decode_tag_def wire_tag_def temp_def [symmetric] del: of_nat_add of_nat_mult)
qed

lemma pb_skip_varint_reads: "varint_group bs \<Longrightarrow> reads pb_skip_varint bs ()"
proof (induction bs)
  case Nil
  then show ?case by simp
next
  case (Cons b bs)
  have "pb_skip_varint s = (Some (), advance (length (b # bs)) s)"
    if s: "istream_ok s" "source s = (b # bs) @ rest" "length (b # bs) \<le> bytes_left s" for s rest
  proof -
    have "pb_read 1 s = (Some [b], advance 1 s)" using s pb_read_advance [of 1 s] by simp
    moreover have "\<not> unat b < 128 \<Longrightarrow> pb_skip_varint (advance 1 s) = (Some (), advance (length bs) (advance 1 s))"
      using Cons s by (auto simp: reads_def)
    ultimately show ?thesis using Cons.prems by (subst pb_skip_varint.simps) (auto simp: u8_and_80)
  qed
  then show ?case by (simp only: reads_def) blast
qed

lemma pb_skip_field_reads: "wire_value wt bs \<Longrightarrow> reads (pb_skip_field wt) bs ()"
proof -
  assume "wire_value wt bs"
  then consider "wt = PB_WT_VARINT" "varint_group bs" | "wt = PB_WT_64BIT" "length bs = 8"
    | p where "wt = PB_WT_STRING" "bs = leb128 (length p) @ p" "length p < 2 ^ 32" | "wt = PB_WT_32BIT" "length bs = 4"
    by (auto simp: wire_value_def)
  then show ?thesis
  proof cases
    case 1
    then show ?thesis by (simp add: pb_skip_field_def pb_skip_varint_reads)
  next
    case 2
    with reads_succeed [OF pb_read_reads [of bs], of "\<lambda>_. ()"] show ?thesis by (simp add: pb_skip_field_def PB_WT_defs)
  next
    case 3
    then have "unat (of_nat (length p) :: u32) = length p" by (simp add: unat_of_nat)
    then have "reads (andthen (pb_read (unat (of_nat (length p) :: u32))) (\<lambda>_. succeed ())) p ()"
      using reads_succeed [OF pb_read_reads [of p], of "\<lambda>_. ()"] by simp
    with 3 have "reads pb_skip_string bs ()"
      unfolding pb_skip_string_def 3(2) by (intro reads_andthen [OF pb_decode_varint32_reads])
    with 3 show ?thesis by (simp add: pb_skip_field_def PB_WT_defs)
  next
    case 4
    with reads_succeed [OF pb_read_reads [of bs], of "\<lambda>_. ()"] show ?thesis by (simp add: pb_skip_field_def PB_WT_defs)
  qed
qed

text \<open>A substream is the payload, and closing it leaves the stream behind it, whatever of the payload
  was read.\<close>

lemma pb_make_string_substream_payload:
  assumes "length p < 2 ^ 32" "istream_ok s" "source s = leb128 (length p) @ p @ rest" "length (leb128 (length p) @ p) \<le> bytes_left s"
  shows "\<exists>sub s'. pb_make_string_substream s = (Some sub, s') \<and> istream_ok sub \<and>
      take (bytes_left sub) (source sub) = p \<and> errmsg sub = errmsg s \<and> bytes_left s' = bytes_left s - length (leb128 (length p) @ p) \<and>
      (k \<le> length p \<longrightarrow> pb_close_string_substream (advance k sub) s' = (Some (), advance (length (leb128 (length p) @ p)) s))"
proof -
  let ?l = "length (leb128 (length p))"
  have n: "unat (of_nat (length p) :: u32) = length p" using assms(1) by (simp add: unat_of_nat)
  have "pb_decode_varint32 s = (Some (of_nat (length p)), advance ?l s)"
    using pb_decode_varint32_reads [OF assms(1)] assms(2-4) by (simp add: reads_def)
  then have make: "pb_make_string_substream s = (Some ((advance ?l s)\<lparr>bytes_left := length p\<rparr>), (advance ?l s)\<lparr>bytes_left := bytes_left s - ?l - length p\<rparr>)"
    using assms(4) n by (auto simp: pb_make_string_substream_def andthen_apply)
  have "pb_close_string_substream (advance k ((advance ?l s)\<lparr>bytes_left := length p\<rparr>)) ((advance ?l s)\<lparr>bytes_left := bytes_left s - ?l - length p\<rparr>)
      = (Some (), advance (?l + length p) s)" if "k \<le> length p"
    using that assms(3) pb_read_advance [of "length p - k" "advance k ((advance ?l s)\<lparr>bytes_left := length p\<rparr>)"]
    by (auto simp: pb_close_string_substream_def advance_def)
  then show ?thesis using make assms by (auto simp: istream_ok_def)
qed

text \<open>\<open>read_raw_value\<close> returns the bytes of the value, if a varint has at most the ten that the buffer holds.\<close>

lemma read_raw_varint_reads: "varint_group bs \<Longrightarrow> length bs \<le> n \<Longrightarrow> reads (read_raw_varint n) bs bs"
proof (induction bs arbitrary: n)
  case Nil
  then show ?case by simp
next
  case (Cons b bs)
  then obtain k where n: "n = Suc k" by (cases n) auto
  have one: "reads (pb_read 1) [b] [b]" using pb_read_reads [of "[b]"] by simp
  have "reads (if b AND 0x80 \<noteq> 0 then andthen (read_raw_varint k) (\<lambda>bs. succeed (b # bs)) else succeed [b]) bs (b # bs)"
  proof (cases "unat b < 128")
    case True
    then show ?thesis using Cons.prems by (simp add: u8_and_80 reads_def succeed_def)
  next
    case False
    then have "reads (read_raw_varint k) bs bs" using Cons n by simp
    then show ?thesis using False reads_succeed [of "read_raw_varint k" bs bs "(#) b"] by (simp add: u8_and_80)
  qed
  then have "reads (if hd [b] AND 0x80 \<noteq> 0 then andthen (read_raw_varint k) (\<lambda>bs. succeed (hd [b] # bs)) else succeed [hd [b]]) bs (b # bs)"
    by (simp split: if_splits)
  from reads_andthen [of "pb_read 1" "[b]" "[b]" "\<lambda>b. if hd b AND 0x80 \<noteq> 0 then andthen (read_raw_varint k) (\<lambda>bs. succeed (hd b # bs)) else succeed [hd b]", OF one this]
  show ?case by (simp add: n)
qed

section \<open>Readers stay inside their stream\<close>

text \<open>What is left of a stream is a part of what it was.\<close>

definition within :: "pb_istream_t \<Rightarrow> pb_istream_t \<Rightarrow> bool" where
  "within s s' \<longleftrightarrow> (\<exists>k. source s' = drop k (source s) \<and> k + bytes_left s' \<le> bytes_left s)"

lemma within_refl [simp]: "within s s"
  unfolding within_def by (rule exI [of _ 0]) simp

lemma within_trans [trans]:
  assumes "within a b" "within b c"
  shows "within a c"
proof -
  obtain k m where "source b = drop k (source a)" "k + bytes_left b \<le> bytes_left a"
    "source c = drop m (source b)" "m + bytes_left c \<le> bytes_left b"
    using assms by (auto simp: within_def)
  then show ?thesis unfolding within_def by (intro exI [of _ "m + k"]) simp
qed

lemma within_ok: "within s s' \<Longrightarrow> istream_ok s \<Longrightarrow> istream_ok s'"
  by (auto simp: within_def istream_ok_def)

lemma within_errmsg [simp]: "within s (s'\<lparr>errmsg := e\<rparr>) = within s s'"
  by (simp add: within_def)

definition keeps_within :: "(pb_istream_t, 'a) routine \<Rightarrow> bool" where
  "keeps_within r \<longleftrightarrow> (\<forall>s. within s (snd (r s)))"

lemma keeps_withinD: "keeps_within r \<Longrightarrow> r s = (x, s') \<Longrightarrow> within s s'"
  unfolding keeps_within_def by (metis snd_conv)

lemma keeps_within_error [simp]: "keeps_within (PB_RETURN_ERROR msg)"
  by (simp add: keeps_within_def PB_RETURN_ERROR_def)

lemma keeps_within_succeed [simp]: "keeps_within (succeed x)" "keeps_within failure"
  by (simp_all add: keeps_within_def succeed_def failure_def)

lemma keeps_within_andthen: "keeps_within r \<Longrightarrow> (\<And>x. keeps_within (f x)) \<Longrightarrow> keeps_within (andthen r f)"
  unfolding keeps_within_def andthen_def
  by (auto split: prod.splits option.splits) (metis snd_conv within_trans)+

lemma within_read: "n \<le> bytes_left s \<Longrightarrow> within s (s\<lparr>source := drop n (source s), bytes_left := bytes_left s - n\<rparr>)"
  unfolding within_def by (rule exI [of _ n]) simp

lemma keeps_within_pb_read: "keeps_within (pb_read n)"
  by (simp add: keeps_within_def pb_read_def PB_RETURN_ERROR_def buf_read_def within_read)

lemma keeps_within_pb_readbyte: "keeps_within pb_readbyte"
  using within_read [of 1] by (simp add: keeps_within_def pb_readbyte_def PB_RETURN_ERROR_def buf_read_def)

lemmas within_error = keeps_within_error [unfolded keeps_within_def, rule_format]
lemmas within_byte = keeps_withinD [OF keeps_within_pb_readbyte]

lemma keeps_within_varint32_loop: "within s (snd (varint32_loop bitpos result s))"
proof (induction bitpos result s rule: varint32_loop.induct)
  case (1 bitpos result s)
  show ?case
  proof (cases "pb_readbyte s")
    case (Pair r s1)
    from within_byte [OF Pair] have s1: "within s s1" .
    show ?thesis
      by (subst varint32_loop.simps)
        (use Pair s1 1 [OF Pair [symmetric]] in \<open>auto simp: Let_def intro: within_trans within_error split: option.splits\<close>)
  qed
qed

lemma within_varint_loop: "within s (snd (varint_loop bitpos result s))"
proof (induction bitpos result s rule: varint_loop.induct)
  case (1 bitpos result s)
  show ?case
  proof (cases "pb_readbyte s")
    case (Pair r s1)
    from within_byte [OF Pair] have s1: "within s s1" .
    show ?thesis
      by (subst varint_loop.simps)
        (use Pair s1 1 [OF _ Pair [symmetric]] in \<open>auto simp: Let_def intro: within_trans within_error split: option.splits\<close>)
  qed
qed

lemma within_skip_varint: "within s (snd (pb_skip_varint s))"
proof (induction s rule: pb_skip_varint.induct)
  case (1 s)
  show ?case
  proof (cases "pb_read 1 s")
    case (Pair r s1)
    from keeps_withinD [OF keeps_within_pb_read Pair] have s1: "within s s1" .
    show ?thesis
      by (subst pb_skip_varint.simps)
        (use Pair s1 1 [OF Pair [symmetric]] in \<open>auto intro: within_trans split: option.splits\<close>)
  qed
qed

lemma within_varint32_eof: "pb_decode_varint32_eof s = (r, eof, s') \<Longrightarrow> within s s'"
proof (cases "pb_readbyte s")
  case (Pair b s1)
  from within_byte [OF Pair] have s1: "within s s1" .
  assume "pb_decode_varint32_eof s = (r, eof, s')"
  then show ?thesis
    using Pair s1 keeps_within_varint32_loop [of s1 7 "ucast (the b AND 0x7F)"]
    by (auto simp: pb_decode_varint32_eof_def intro: within_trans split: option.splits if_splits prod.splits)
qed

lemma within_tag: "pb_decode_tag s = (r, eof, s') \<Longrightarrow> within s s'"
  by (auto simp: pb_decode_tag_def dest: within_varint32_eof split: option.splits if_splits prod.splits)

lemma keeps_within_decode:
  "keeps_within pb_decode_varint" "keeps_within pb_decode_varint32" "keeps_within pb_skip_varint"
  using within_varint_loop within_skip_varint within_varint32_eof
  by (auto simp: keeps_within_def pb_decode_varint_def pb_decode_varint32_def split: prod.splits)

lemma keeps_within_raw: "keeps_within (read_raw_varint n)" "keeps_within (read_raw_value wt n)"
proof -
  show *: "keeps_within (read_raw_varint n)" for n
    by (induction n) (simp_all add: keeps_within_andthen keeps_within_pb_read split: if_splits)
  show "keeps_within (read_raw_value wt n)" by (simp add: read_raw_value_def * keeps_within_pb_read)
qed

lemma keeps_within_fields:
  "keeps_within pb_decode_svarint" "keeps_within pb_decode_fixed32" "keeps_within pb_decode_fixed64"
  "keeps_within pb_skip_string" "keeps_within (pb_skip_field wt)"
  by (auto simp: pb_decode_svarint_def pb_decode_fixed32_def pb_decode_fixed64_def pb_skip_string_def pb_skip_field_def
      intro!: keeps_within_andthen keeps_within_decode keeps_within_pb_read)

text \<open>The readers, and what can be done with a substream between making and closing it.\<close>

inductive pb_reach :: "pb_istream_t \<Rightarrow> pb_istream_t \<Rightarrow> bool" where
  refl: "pb_reach s s"
| read: "pb_reach s s1 \<Longrightarrow> pb_read n s1 = (r, s') \<Longrightarrow> pb_reach s s'"
| varint: "pb_reach s s1 \<Longrightarrow> pb_decode_varint s1 = (r, s') \<Longrightarrow> pb_reach s s'"
| varint32: "pb_reach s s1 \<Longrightarrow> pb_decode_varint32 s1 = (r, s') \<Longrightarrow> pb_reach s s'"
| svarint: "pb_reach s s1 \<Longrightarrow> pb_decode_svarint s1 = (r, s') \<Longrightarrow> pb_reach s s'"
| fixed32: "pb_reach s s1 \<Longrightarrow> pb_decode_fixed32 s1 = (r, s') \<Longrightarrow> pb_reach s s'"
| fixed64: "pb_reach s s1 \<Longrightarrow> pb_decode_fixed64 s1 = (r, s') \<Longrightarrow> pb_reach s s'"
| tag: "pb_reach s s1 \<Longrightarrow> pb_decode_tag s1 = (r, eof, s') \<Longrightarrow> pb_reach s s'"
| skip: "pb_reach s s1 \<Longrightarrow> pb_skip_field wt s1 = (r, s') \<Longrightarrow> pb_reach s s'"
| raw: "pb_reach s s1 \<Longrightarrow> read_raw_value wt n s1 = (r, s') \<Longrightarrow> pb_reach s s'"
| make: "pb_reach s s1 \<Longrightarrow> pb_make_string_substream s1 = (r, s') \<Longrightarrow> pb_reach s s'"
| inside: "pb_reach s s1 \<Longrightarrow> pb_make_string_substream s1 = (Some sub, s2) \<Longrightarrow> pb_reach sub sub' \<Longrightarrow> pb_reach s sub'"
| close: "pb_reach s s1 \<Longrightarrow> pb_make_string_substream s1 = (Some sub, s2) \<Longrightarrow> pb_reach sub sub' \<Longrightarrow>
    pb_close_string_substream sub' s2 = (r, s') \<Longrightarrow> pb_reach s s'"

lemma within_shrink: "within s (s'\<lparr>bytes_left := n\<rparr>)" if "within s s'" "n \<le> bytes_left s'"
proof -
  from that(1) obtain k where "source s' = drop k (source s)" "k + bytes_left s' \<le> bytes_left s" by (auto simp: within_def)
  with that(2) show ?thesis unfolding within_def by (intro exI [of _ k]) simp
qed

lemma within_make:
  assumes "pb_make_string_substream s = (r, s')"
  shows "within s s' \<and> (\<forall>sub. r = Some sub \<longrightarrow> within s sub \<and> (\<exists>t. within s t \<and> bytes_left sub \<le> bytes_left t \<and>
    sub = t\<lparr>bytes_left := bytes_left sub\<rparr> \<and> s' = t\<lparr>bytes_left := bytes_left t - bytes_left sub\<rparr>))"
proof (cases "pb_decode_varint32 s")
  case (Pair v t)
  have t: "within s t" using keeps_withinD [OF keeps_within_decode(2) Pair] .
  show ?thesis
  proof (cases v)
    case None
    then show ?thesis using assms Pair t by (auto simp: pb_make_string_substream_def andthen_apply)
  next
    case (Some size)
    show ?thesis
    proof (cases "bytes_left t < unat size")
      case True
      then have "r = None" "s' = snd (PB_RETURN_ERROR ''parent stream too short'' t)"
        using assms Pair Some by (auto simp: pb_make_string_substream_def andthen_apply PB_RETURN_ERROR_def)
      then show ?thesis using t within_error [of t] by (auto intro: within_trans)
    next
      case False
      then have "r = Some (t\<lparr>bytes_left := unat size\<rparr>)" "s' = t\<lparr>bytes_left := bytes_left t - unat size\<rparr>"
        using assms Pair Some by (auto simp: pb_make_string_substream_def andthen_apply)
      then show ?thesis using t False by (auto intro: within_shrink intro!: exI [of _ t])
    qed
  qed
qed

lemma within_close:
  assumes "istream_ok t" "len \<le> bytes_left t" "within (t\<lparr>bytes_left := len\<rparr>) sub"
    "pb_close_string_substream sub (t\<lparr>bytes_left := bytes_left t - len\<rparr>) = (r, s')"
  shows "within t s'"
proof -
  obtain k where k: "source sub = drop k (source t)" "k + bytes_left sub \<le> len"
    using assms(3) by (auto simp: within_def)
  have "pb_read (bytes_left sub) sub = (Some (take (bytes_left sub) (source sub)), advance (bytes_left sub) sub)"
    by (rule pb_read_advance) simp
  then have "source s' = drop (bytes_left sub + k) (source t)" "bytes_left s' = bytes_left t - len"
    using assms(4) k(1) by (auto simp: pb_close_string_substream_def split: if_splits)
  then show ?thesis unfolding within_def using k(2) assms(2) by (intro exI [of _ "bytes_left sub + k"]) simp
qed

lemma pb_reach_within: "pb_reach s s' \<Longrightarrow> istream_ok s \<Longrightarrow> within s s'"
proof (induction rule: pb_reach.induct)
  case (inside s s1 sub s2 sub')
  have s1: "within s s1" using inside by blast
  moreover have "within s1 sub" using within_make [OF inside.hyps(2)] by blast
  ultimately have sub: "within s sub" by (rule within_trans)
  with inside.IH(2) inside.prems show ?case by (blast intro: within_ok within_trans)
next
  case (close s s1 sub s2 sub' r s')
  have s1: "within s s1" using close by blast
  from within_make [OF close.hyps(2)] obtain t where t: "within s1 t" "bytes_left sub \<le> bytes_left t"
    "sub = t\<lparr>bytes_left := bytes_left sub\<rparr>" "s2 = t\<lparr>bytes_left := bytes_left t - bytes_left sub\<rparr>" by blast
  have st: "within s t" using s1 t(1) by (rule within_trans)
  then have ok: "istream_ok t" using close.prems by (rule within_ok)
  then have "istream_ok sub" by (subst t(3)) (use t(2) in \<open>simp add: istream_ok_def\<close>)
  then have "within (t\<lparr>bytes_left := bytes_left sub\<rparr>) sub'" using close.IH(2) t(3) by simp
  from within_close [OF ok t(2) this] close.hyps(4) t(4) have "within t s'" by simp
  with st show ?case by (rule within_trans)
next
  case (make s s1 r s')
  then show ?case using within_make by (blast intro: within_trans)
next
  case (tag s s1 r eof s')
  then show ?case using within_tag by (blast intro: within_trans)
qed (auto intro: within_trans keeps_withinD keeps_within_pb_read keeps_within_decode keeps_within_fields keeps_within_raw)

section \<open>Messages field by field\<close>

text \<open>The fields of a message as they are on the wire. An encoder writes each with its tag; a decoder
  reads tags until the stream ends, as the loop of \<open>pb_decode_noinit\<close> does, and takes the way to read a
  value from its wire type.\<close>

datatype wire_field = Varint u64 | Fixed64 u64 | Bytes bytes | Fixed32 u32

fun wire_type :: "wire_field \<Rightarrow> pb_wire_type_t" where
  "wire_type (Varint _) = PB_WT_VARINT"
| "wire_type (Fixed64 _) = PB_WT_64BIT"
| "wire_type (Bytes _) = PB_WT_STRING"
| "wire_type (Fixed32 _) = PB_WT_32BIT"

fun encode_wire :: "wire_field \<Rightarrow> (pb_ostream_t, unit) routine" where
  "encode_wire (Varint v) = pb_encode_varint v"
| "encode_wire (Fixed64 v) = pb_encode_fixed64 v"
| "encode_wire (Bytes p) = pb_encode_string p"
| "encode_wire (Fixed32 v) = pb_encode_fixed32 v"

primrec encode_wires :: "(u32 \<times> wire_field) list \<Rightarrow> (pb_ostream_t, unit) routine" where
  "encode_wires [] = succeed ()"
| "encode_wires (x # xs) =
     andthen (andthen (pb_encode_tag (wire_type (snd x)) (fst x)) (\<lambda>_. encode_wire (snd x))) (\<lambda>_. encode_wires xs)"

definition decode_wire :: "pb_wire_type_t \<Rightarrow> (pb_istream_t, wire_field) routine" where
  "decode_wire wt =
     (if wt = PB_WT_VARINT then andthen pb_decode_varint (\<lambda>v. succeed (Varint v))
      else if wt = PB_WT_64BIT then andthen pb_decode_fixed64 (\<lambda>v. succeed (Fixed64 v))
      else if wt = PB_WT_STRING then andthen (andthen pb_decode_varint32 (\<lambda>n. pb_read (unat n))) (\<lambda>p. succeed (Bytes p))
      else if wt = PB_WT_32BIT then andthen pb_decode_fixed32 (\<lambda>v. succeed (Fixed32 v))
      else PB_RETURN_ERROR ''invalid wire_type'')"

lemma keeps_within_wire: "keeps_within (decode_wire wt)"
  unfolding decode_wire_def by (auto intro!: keeps_within_andthen keeps_within_decode keeps_within_fields keeps_within_pb_read)

lemma within_less: "within s s' \<Longrightarrow> bytes_left s' \<le> bytes_left s"
  by (auto simp: within_def)

lemma pb_decode_tag_less: "pb_decode_tag s = (Some x, eof, s') \<Longrightarrow> bytes_left s' < bytes_left s"
proof (cases "pb_readbyte s")
  case (Pair b s1)
  assume "pb_decode_tag s = (Some x, eof, s')"
  then show ?thesis
    using Pair pb_readbyte_less [of s _ s1] within_less [OF keeps_within_varint32_loop [of s1 7 "ucast (the b AND 0x7F)"]]
    by (auto simp: pb_decode_tag_def pb_decode_varint32_eof_def split: option.splits if_splits prod.splits)
qed

function decode_wires :: "(pb_istream_t, (u32 \<times> wire_field) list) routine" where
  "decode_wires s =
     (if bytes_left s = 0 then (Some [], s)
      else (case pb_decode_tag s of
          (None, eof, s) \<Rightarrow> (if eof then Some [] else None, s)
        | (Some (wt, num), _, s) \<Rightarrow>
            (case decode_wire wt s of
               (None, s) \<Rightarrow> (None, s)
             | (Some f, s) \<Rightarrow> (case decode_wires s of (None, s) \<Rightarrow> (None, s) | (Some fs, s) \<Rightarrow> (Some ((num, f) # fs), s)))))"
  by pat_completeness auto
termination
proof (relation "measure bytes_left", simp)
  fix s :: pb_istream_t and r1 r2 t wt num s1 d s2 and f :: wire_field
  assume "(r1, r2) = pb_decode_tag s" "r1 = Some t" "(d, s1) = r2" "(wt, num) = t"
  then have "bytes_left s1 < bytes_left s" by (metis pb_decode_tag_less)
  moreover fix r3 assume "(r3, s2) = decode_wire wt s1"
  then have "bytes_left s2 \<le> bytes_left s1" using keeps_withinD [OF keeps_within_wire] within_less by metis
  ultimately show "(s2, s) \<in> measure bytes_left" by simp
qed

declare decode_wires.simps [simp del]

fun wire_ok :: "u32 \<times> wire_field \<Rightarrow> bool" where
  "wire_ok (n, f) \<longleftrightarrow> n \<noteq> 0 \<and> n < 2 ^ 29 \<and> (case f of Bytes p \<Rightarrow> length p < 2 ^ 32 | _ \<Rightarrow> True)"

fun wire_bytes :: "wire_field \<Rightarrow> bytes" where
  "wire_bytes (Varint v) = leb128 (unat v)"
| "wire_bytes (Fixed64 v) = le_bytes64 v"
| "wire_bytes (Bytes p) = leb128 (length p) @ p"
| "wire_bytes (Fixed32 v) = le_bytes32 v"

fun field_bytes :: "u32 \<times> wire_field \<Rightarrow> bytes" where
  "field_bytes (n, f) = wire_tag (wire_type f) n @ wire_bytes f"

lemma wire_type_less [simp]: "wire_type f < 8"
  by (cases f) (simp_all add: PB_WT_defs)

lemma encode_wire_writes: "wire_ok (n, f) \<Longrightarrow> writes (encode_wire f) (wire_bytes f)"
  by (cases f) (simp_all add: pb_encode_varint_writes pb_encode_string_writes pb_encode_fixed_writes)

lemma decode_wire_reads:
  assumes "wire_ok (n, f)"
  shows "reads (decode_wire (wire_type f)) (wire_bytes f) f"
proof (cases f)
  case (Bytes p)
  then have p: "length p < 2 ^ 32" using assms by simp
  then have "unat (of_nat (length p) :: u32) = length p" by (simp add: unat_of_nat)
  then have "reads (pb_read (unat (of_nat (length p) :: u32))) p p" using pb_read_reads [of p] by simp
  then have "reads (andthen pb_decode_varint32 (\<lambda>n. pb_read (unat n))) (leb128 (length p) @ p) p"
    by (intro reads_andthen [OF pb_decode_varint32_reads [OF p]])
  from reads_succeed [OF this, of Bytes] Bytes show ?thesis by (simp add: decode_wire_def PB_WT_defs)
qed (simp_all add: decode_wire_def PB_WT_defs reads_succeed pb_decode_varint_reads pb_decode_fixed32_reads pb_decode_fixed64_reads)

lemma wire_bytes_value: "wire_ok (n, f) \<Longrightarrow> wire_value (wire_type f) (wire_bytes f)"
  by (cases f) (auto simp: wire_value_def leb128_group le_bytes32_def le_bytes64_def)

lemma wire_tag_length: "length (wire_tag (wire_type f) n) \<le> 10"
proof -
  have "8 * unat n + wire_type f < 8 * 2 ^ 32 + 8" using unat_u32_less [of n] wire_type_less [of f] by linarith
  then have "8 * unat n + wire_type f < 128 ^ Suc 9" by simp
  then show ?thesis unfolding wire_tag_def by (rule length_leb128 [where k = 9, THEN order.trans]) simp
qed

lemma encode_field_writes:
  assumes "wire_ok (n, f)"
  shows "writes (andthen (pb_encode_tag (wire_type f) n) (\<lambda>_. encode_wire f)) (field_bytes (n, f))"
proof -
  have "length (wire_bytes f) < 2 ^ 64 - 10"
  proof (cases f)
    case (Bytes p)
    have "length (leb128 (length p)) \<le> 10" using assms Bytes by (intro length_leb128 [where k = 9, THEN order.trans]) auto
    then show ?thesis using assms Bytes by simp
  qed (auto simp: le_bytes32_def le_bytes64_def intro: order.strict_trans1 [OF length_leb128_u64])
  moreover have "writes (pb_encode_tag (wire_type f) n) (wire_tag (wire_type f) n)"
    unfolding pb_encode_tag_leb128 [OF wire_type_less] using wire_tag_length [of f n] by (intro pb_write_writes) simp
  ultimately show ?thesis
    using wire_tag_length [of f n] encode_wire_writes [OF assms] by (simp add: writes_andthen)
qed

lemma encode_wires_writes:
  "list_all wire_ok fs \<Longrightarrow> length (concat (map field_bytes fs)) < 2 ^ 64 \<Longrightarrow> writes (encode_wires fs) (concat (map field_bytes fs))"
proof (induction fs)
  case Nil
  then show ?case by (simp add: writes_def succeed_def)
next
  case (Cons x fs)
  then show ?case by (cases x) (simp del: field_bytes.simps add: writes_andthen encode_field_writes)
qed

lemma field_bytes_not_Nil: "field_bytes x \<noteq> []"
  by (cases x) (simp add: wire_tag_def)

lemma decode_wires_reads:
  "list_all wire_ok fs \<Longrightarrow> istream_ok s \<Longrightarrow> bytes_left s = length (concat (map field_bytes fs)) \<Longrightarrow>
   take (bytes_left s) (source s) = concat (map field_bytes fs) \<Longrightarrow> decode_wires s = (Some fs, advance (bytes_left s) s)"
proof (induction fs arbitrary: s)
  case Nil
  then show ?case by (subst decode_wires.simps) simp
next
  case (Cons x fs)
  obtain n f where x: "x = (n, f)" by (cases x)
  let ?t = "wire_tag (wire_type f) n" and ?v = "wire_bytes f" and ?r = "concat (map field_bytes fs)"
  define s1 where "s1 = advance (length ?t) s"
  define s2 where "s2 = advance (length ?v) s1"
  have n: "wire_ok (n, f)" "n \<noteq> 0" "n < 2 ^ 29" "list_all wire_ok fs" using Cons.prems(1) x by auto
  have left: "bytes_left s = length ?t + length ?v + length ?r" using Cons.prems(3) x by simp
  have src: "source s = ?t @ ?v @ ?r @ drop (bytes_left s) (source s)"
    using append_take_drop_id [of "bytes_left s" "source s"] Cons.prems(4) x by simp
  have tag: "pb_decode_tag s = (Some (wire_type f, n), False, s1)"
    unfolding s1_def by (rule pb_decode_tag_wire_tag [OF wire_type_less n(2,3) Cons.prems(2) src]) (simp add: left)
  have s1: "istream_ok s1" "source s1 = ?v @ ?r @ drop (bytes_left s) (source s)" "bytes_left s1 = length ?v + length ?r"
    using Cons.prems(2) left by (simp_all add: s1_def, subst src, simp)
  then have wire: "decode_wire (wire_type f) s1 = (Some f, s2)"
    using decode_wire_reads [OF n(1)] by (simp add: reads_def s2_def)
  have "decode_wires s2 = (Some fs, advance (bytes_left s2) s2)"
    using s1 by (intro Cons.IH n(4)) (simp_all add: s2_def)
  moreover have "advance (bytes_left s2) s2 = advance (bytes_left s) s" using left s1(3) by (simp add: s2_def s1_def)
  moreover have "bytes_left s \<noteq> 0" using left by (simp add: wire_tag_def)
  ultimately show ?case by (subst decode_wires.simps) (simp add: tag wire x)
qed

section \<open>The stream as a sink\<close>

interpretation pb: byte_sink "\<lambda>b. pb_write [b]" dest has_callback
    "\<lambda>s n. bytes_written s + n \<le> max_size s \<and> max_size s < 2 ^ 64"
proof unfold_locales
  fix s :: pb_ostream_t and b s'
  assume "has_callback s" "pb_write [b] s = (Some (), s')"
  then show "dest s' = dest s @ [b] \<and> has_callback s'"
    by (auto simp: pb_write_def Let_def buf_write_def PB_RETURN_ERROR_out_def split: if_splits)
next
  fix s :: pb_ostream_t and b and n :: nat
  assume "has_callback s" "bytes_written s + Suc n \<le> max_size s \<and> max_size s < 2 ^ 64"
  then show "\<exists>s'. pb_write [b] s = (Some (), s') \<and> bytes_written s' + n \<le> max_size s' \<and> max_size s' < 2 ^ 64"
    by (simp add: pb_write_def Let_def buf_write_def)
qed

text \<open>Bytes written one by one arrive as if they were written at once.\<close>

lemma pb_write_bytewise:
  assumes "has_callback s" "bytes_written s + length bs \<le> max_size s" "max_size s < 2 ^ 64"
  shows "\<exists>s'. put_all (\<lambda>b. pb_write [b]) bs s = (Some (), s') \<and> dest s' = dest (snd (pb_write bs s))"
proof -
  from pb.put_all_room [of s bs 0] assms obtain s' where s': "put_all (\<lambda>b. pb_write [b]) bs s = (Some (), s')" by auto
  moreover have "dest (snd (pb_write bs s)) = dest s @ bs" using assms by (auto simp: pb_write_def Let_def buf_write_def)
  ultimately show ?thesis using pb.put_all_contents [OF assms(1) s'] by simp
qed

section \<open>Properties\<close>

text \<open>C26. \<open>pb_decode_varint\<close> accepts exactly the numbers of one to ten bytes that lie within the stream, moves
  to the byte after the number, and returns the base-128 value, low digit first, modulo 2^64. So it rejects a
  number that the stream cuts off, and one of eleven bytes or more.\<close>

theorem varint_exact:
  assumes "istream_ok s"
  shows "pb_decode_varint s = (Some v, s') \<longleftrightarrow>
    (\<exists>bs. varint_group bs \<and> length bs \<le> 10 \<and> length bs \<le> bytes_left s \<and> take (length bs) (source s) = bs \<and>
       v = of_nat (leb_val bs) \<and> s' = advance (length bs) s)"
  using varint_loop_exact [of 0 0 s v s'] assms by (simp add: pb_decode_varint_def varint_parse_def)

theorem varint_exact_witness:
  "fst (pb_decode_varint (pb_istream_from_buffer [0xAC, 0x02, 0x7F] 3)) = Some 300"
proof -
  let ?s = "pb_istream_from_buffer [0xAC, 0x02, 0x7F] 3"
  have ok: "istream_ok ?s" by (simp add: istream_ok_def pb_istream_from_buffer_def)
  have "varint_group [0xAC, 0x02] \<and> length [0xAC, 0x02 :: u8] \<le> 10 \<and> length [0xAC, 0x02 :: u8] \<le> bytes_left ?s \<and>
      take (length [0xAC, 0x02 :: u8]) (source ?s) = [0xAC, 0x02] \<and> 300 = (of_nat (leb_val [0xAC, 0x02]) :: u64) \<and>
      advance 2 ?s = advance (length [0xAC, 0x02 :: u8]) ?s"
  proof (intro conjI)
    show "varint_group [0xAC, 0x02]" by simp
    show "300 = (of_nat (leb_val [0xAC, 0x02]) :: u64)" by simp
    show "advance 2 ?s = advance (length [0xAC, 0x02 :: u8]) ?s" by (rule arg_cong [of _ _ "\<lambda>n. advance n ?s"]) simp
  qed (simp_all add: pb_istream_from_buffer_def)
  from iffD2 [OF varint_exact [OF ok], OF exI, OF this] have "pb_decode_varint ?s = (Some 300, advance 2 ?s)" .
  then show ?thesis by simp
qed

text \<open>C24. Whatever bytes the network delivers, and whatever sequence of readers is run on a stream over them,
  including readers inside nested substreams: what remains to be read is always a part of the memory the
  stream had at the start, so nothing outside that memory is ever read.\<close>

theorem readers_stay_inside:
  assumes "pb_reach s s'" "istream_ok s"
  shows "\<exists>k. source s' = drop k (source s) \<and> k + bytes_left s' \<le> bytes_left s \<and> istream_ok s'"
  using pb_reach_within [OF assms] within_ok [OF _ assms(2)] by (auto simp: within_def)

theorem readers_stay_inside_witness:
  "istream_ok (snd (pb_decode_varint32 (snd (pb_skip_field PB_WT_64BIT (pb_istream_from_buffer [1, 2, 3, 4, 5, 6, 7, 8, 9] 9)))))"
proof -
  let ?s = "pb_istream_from_buffer [1, 2, 3, 4, 5, 6, 7, 8, 9] 9"
  have "pb_reach ?s (snd (pb_skip_field PB_WT_64BIT ?s))"
    by (rule pb_reach.skip [OF pb_reach.refl, of _ _ "fst (pb_skip_field PB_WT_64BIT ?s)"]) simp
  then have "pb_reach ?s (snd (pb_decode_varint32 (snd (pb_skip_field PB_WT_64BIT ?s))))"
    by (rule pb_reach.varint32 [where r = "fst (pb_decode_varint32 (snd (pb_skip_field PB_WT_64BIT ?s)))"]) simp
  from readers_stay_inside [OF this] show ?thesis by (auto simp: istream_ok_def pb_istream_from_buffer_def)
qed

text \<open>C23. What the encoders write the decoders read. A message whose fields have numbers below 2^29, encoded
  into a buffer, is read back field by field, with nothing left, from the bytes that were stored; and
  encoding succeeds in every buffer that is large enough.\<close>

theorem wire_roundtrip:
  assumes "list_all wire_ok fs" "length (concat (map field_bytes fs)) \<le> n" "n < 2 ^ 63"
  shows "\<exists>os. encode_wires fs (pb_ostream_from_buffer n) = (Some (), os) \<and>
    fst (decode_wires (pb_istream_from_buffer (dest os) (bytes_written os))) = Some fs"
proof -
  let ?bs = "concat (map field_bytes fs)"
  have "writes (encode_wires fs) ?bs" by (rule encode_wires_writes [OF assms(1)]) (use assms(2,3) in simp)
  then have "encode_wires fs (pb_ostream_from_buffer n) =
      (Some (), (pb_ostream_from_buffer n)\<lparr>dest := ?bs, bytes_written := length ?bs\<rparr>)"
    using writes_store [of "encode_wires fs" ?bs "pb_ostream_from_buffer n"] assms(2,3) by (simp add: pb_ostream_from_buffer_def)
  then show ?thesis
    using decode_wires_reads [OF assms(1), of "pb_istream_from_buffer ?bs (length ?bs)"]
    by (simp add: istream_ok_def pb_istream_from_buffer_def)
qed

theorem wire_roundtrip_witness:
  "\<exists>os. encode_wires [(1, Varint 150), (2, Bytes [0x74])] (pb_ostream_from_buffer 30) = (Some (), os) \<and>
    fst (decode_wires (pb_istream_from_buffer (dest os) (bytes_written os))) = Some [(1, Varint 150), (2, Bytes [0x74])]"
proof (rule wire_roundtrip)
  show "list_all wire_ok [(1, Varint 150), (2, Bytes [0x74])]" by simp
  show "length (concat (map field_bytes [(1, Varint 150), (2, Bytes [0x74])])) \<le> 30"
    by (simp add: wire_tag_def PB_WT_defs leb128.simps)
qed simp

text \<open>A decoder that does not know a field skips exactly the bytes that belong to its value.\<close>

lemma unknown_fields_skipped:
  assumes "wire_value wt bs" "istream_ok s" "source s = bs @ rest" "length bs \<le> bytes_left s"
  shows "pb_skip_field wt s = (Some (), advance (length bs) s)"
  using pb_skip_field_reads [OF assms(1)] assms(2-4) by (simp add: reads_def)

lemma unknown_fields_skipped_example:
  "pb_skip_field PB_WT_STRING (pb_istream_from_buffer [2, 7, 8, 9] 4) =
     (Some (), advance 3 (pb_istream_from_buffer [2, 7, 8, 9] 4))"
proof -
  have "wire_value PB_WT_STRING [2, 7, 8]"
    unfolding wire_value_def by (rule disjI2, rule disjI2, rule disjI1, intro conjI exI [of _ "[7, 8]"]) (simp_all add: leb128.simps)
  from unknown_fields_skipped [OF this, of "pb_istream_from_buffer [2, 7, 8, 9] 4" "[9]"] show ?thesis
    by (simp add: istream_ok_def pb_istream_from_buffer_def)
qed

text \<open>The loop of \<open>pb_decode_varint32_eof\<close> has no bound, and its bit position has eight bits: after 37 bytes
  0x80, which a decoder of varints has to reject, it reads a small number.\<close>

lemma varint32_wraps: "fst (pb_decode_varint32 (pb_istream_from_buffer (replicate 37 0x80 @ [1]) 38)) = Some 8"
  by code_simp

end
