(* ===== verification/Pb_Fields.thy ===== *)
theory Pb_Fields imports Nanopb begin

text \<open>
  Message descriptors of nanopb and the iterator over them: pb.h, pb_common.h and pb_common.c. A descriptor
  is the array of fields that the generator emits, without the terminator \<open>PB_LAST_FIELD\<close>. A structure lies in
  a memory of bytes, and pointers into it are integers, as an offset to a \<open>has_\<close> or count member may be negative;
  reading or writing outside of the memory is \<open>None\<close>. The configuration is that of the repository, with 32-bit
  \<open>pb_size_t\<close>, on the little-endian 64-bit processors of iOS.
\<close>

section \<open>Descriptors\<close>

datatype pb_field_t =
  Field (tag: u32) (ftype: u8) (data_offset: u32) (size_offset: int) (data_size: u32) (array_size: u32) (ptr: field_ptr)
and field_ptr = NULL | Submsg "pb_field_t list" | Default bytes

lemma size_submsg [termination_simp]: "ptr f = Submsg fs \<Longrightarrow> size_list size fs < size f"
  by (cases f) simp

definition PB_LAST_FIELD :: pb_field_t where "PB_LAST_FIELD = Field 0 0 0 0 0 0 NULL"

definition PB_SIZE_MAX :: u32 where "PB_SIZE_MAX = -1"
definition PB_MAX_REQUIRED_FIELDS :: nat where "PB_MAX_REQUIRED_FIELDS = 64"

definition PB_LTYPE_BOOL :: u8 where "PB_LTYPE_BOOL = 0x00"
definition PB_LTYPE_VARINT :: u8 where "PB_LTYPE_VARINT = 0x01"
definition PB_LTYPE_UVARINT :: u8 where "PB_LTYPE_UVARINT = 0x02"
definition PB_LTYPE_SVARINT :: u8 where "PB_LTYPE_SVARINT = 0x03"
definition PB_LTYPE_FIXED32 :: u8 where "PB_LTYPE_FIXED32 = 0x04"
definition PB_LTYPE_FIXED64 :: u8 where "PB_LTYPE_FIXED64 = 0x05"
definition PB_LTYPE_LAST_PACKABLE :: u8 where "PB_LTYPE_LAST_PACKABLE = 0x05"
definition PB_LTYPE_BYTES :: u8 where "PB_LTYPE_BYTES = 0x06"
definition PB_LTYPE_STRING :: u8 where "PB_LTYPE_STRING = 0x07"
definition PB_LTYPE_SUBMESSAGE :: u8 where "PB_LTYPE_SUBMESSAGE = 0x08"
definition PB_LTYPE_EXTENSION :: u8 where "PB_LTYPE_EXTENSION = 0x09"
definition PB_LTYPE_FIXED_LENGTH_BYTES :: u8 where "PB_LTYPE_FIXED_LENGTH_BYTES = 0x0A"
definition PB_HTYPE_REQUIRED :: u8 where "PB_HTYPE_REQUIRED = 0x00"
definition PB_HTYPE_OPTIONAL :: u8 where "PB_HTYPE_OPTIONAL = 0x10"
definition PB_HTYPE_REPEATED :: u8 where "PB_HTYPE_REPEATED = 0x20"
definition PB_HTYPE_ONEOF :: u8 where "PB_HTYPE_ONEOF = 0x30"
definition PB_ATYPE_STATIC :: u8 where "PB_ATYPE_STATIC = 0x00"
definition PB_ATYPE_CALLBACK :: u8 where "PB_ATYPE_CALLBACK = 0x40"
definition PB_ATYPE_POINTER :: u8 where "PB_ATYPE_POINTER = 0x80"

definition PB_ATYPE :: "u8 \<Rightarrow> u8" where "PB_ATYPE x = x AND 0xC0"
definition PB_HTYPE :: "u8 \<Rightarrow> u8" where "PB_HTYPE x = x AND 0x30"
definition PB_LTYPE :: "u8 \<Rightarrow> u8" where "PB_LTYPE x = x AND 0x0F"

lemmas pb_types =
  PB_LTYPE_BOOL_def PB_LTYPE_VARINT_def PB_LTYPE_UVARINT_def PB_LTYPE_SVARINT_def PB_LTYPE_FIXED32_def PB_LTYPE_FIXED64_def
  PB_LTYPE_LAST_PACKABLE_def PB_LTYPE_BYTES_def PB_LTYPE_STRING_def PB_LTYPE_SUBMESSAGE_def PB_LTYPE_EXTENSION_def
  PB_LTYPE_FIXED_LENGTH_BYTES_def PB_HTYPE_REQUIRED_def PB_HTYPE_OPTIONAL_def PB_HTYPE_REPEATED_def PB_HTYPE_ONEOF_def
  PB_ATYPE_STATIC_def PB_ATYPE_CALLBACK_def PB_ATYPE_POINTER_def

section \<open>The iterator\<close>

text \<open>The decoder lets \<open>pSize\<close> point to a local variable, the count of a fixed-size array.\<close>

datatype size_ptr = Member int | Fixed_count

record pb_field_iter_t =
  start :: "pb_field_t list"
  pos :: nat
  required_field_index :: nat
  dest_struct :: int
  pData :: int
  pSize :: size_ptr

definition field_at :: "pb_field_t list \<Rightarrow> nat \<Rightarrow> pb_field_t" where
  "field_at fs i = (if i < length fs then fs ! i else PB_LAST_FIELD)"

definition pos_field :: "pb_field_iter_t \<Rightarrow> pb_field_t" where
  "pos_field it = field_at (start it) (pos it)"

text \<open>The structure is not a null pointer; both results of \<open>pb_field_iter_begin\<close> are used by its callers.\<close>

definition pb_field_iter_begin :: "pb_field_t list \<Rightarrow> int \<Rightarrow> bool \<times> pb_field_iter_t" where
  "pb_field_iter_begin fs dst =
     (let f = field_at fs 0; p = dst + int (unat (data_offset f))
      in (tag f \<noteq> 0, \<lparr>start = fs, pos = 0, required_field_index = 0, dest_struct = dst, pData = p, pSize = Member (p + size_offset f)\<rparr>))"

definition prev_field_size :: "pb_field_t \<Rightarrow> int" where
  "prev_field_size prev =
     (if PB_ATYPE (ftype prev) = PB_ATYPE_STATIC \<and> PB_HTYPE (ftype prev) = PB_HTYPE_REPEATED
      then int (unat (data_size prev)) * int (unat (array_size prev)) mod 2 ^ 64
      else if PB_ATYPE (ftype prev) = PB_ATYPE_POINTER then 8
      else int (unat (data_size prev)))"

definition pb_field_iter_next :: "pb_field_iter_t \<Rightarrow> bool \<times> pb_field_iter_t" where
  "pb_field_iter_next it =
     (let prev = pos_field it
      in if tag prev = 0 then (False, it)
         else
           let f = field_at (start it) (pos it + 1)
           in if tag f = 0 then (False, snd (pb_field_iter_begin (start it) (dest_struct it)))
              else if PB_HTYPE (ftype prev) = PB_HTYPE_ONEOF \<and> PB_HTYPE (ftype f) = PB_HTYPE_ONEOF \<and> data_offset f = PB_SIZE_MAX
              then (True, it\<lparr>pos := pos it + 1\<rparr>)
              else
                let p = pData it + prev_field_size prev + int (unat (data_offset f))
                in (True, it\<lparr>pos := pos it + 1,
                      required_field_index := (if PB_HTYPE (ftype prev) = PB_HTYPE_REQUIRED then required_field_index it + 1 else required_field_index it),
                      pData := p, pSize := Member (p + size_offset f)\<rparr>))"

text \<open>\<open>None\<close> if the loop does not end, which it does if it starts at a field or in an empty descriptor.\<close>

partial_function (option) iter_find_loop :: "nat \<Rightarrow> (pb_field_t \<Rightarrow> bool) \<Rightarrow> pb_field_iter_t \<Rightarrow> (bool \<times> pb_field_iter_t) option" where
  "iter_find_loop first P it =
     (if P (pos_field it) then Some (True, it)
      else
        let it = snd (pb_field_iter_next it)
        in if pos it \<noteq> first then iter_find_loop first P it else Some (False, it))"

declare iter_find_loop.simps [code]

definition pb_field_iter_find :: "pb_field_iter_t \<Rightarrow> u32 \<Rightarrow> (bool \<times> pb_field_iter_t) option" where
  "pb_field_iter_find it t =
     iter_find_loop (pos it) (\<lambda>f. tag f = t \<and> PB_LTYPE (ftype f) \<noteq> PB_LTYPE_EXTENSION) it"

definition find_extension_field :: "pb_field_iter_t \<Rightarrow> (bool \<times> pb_field_iter_t) option" where
  "find_extension_field it = iter_find_loop (pos it) (\<lambda>f. PB_LTYPE (ftype f) = PB_LTYPE_EXTENSION) it"

text \<open>The loops \<open>do \<dots> while (pb_field_iter_next(&iter))\<close>.\<close>

lemma iter_next_pos:
  "pb_field_iter_next it = (True, it') \<Longrightarrow> pos it' = pos it + 1 \<and> start it' = start it \<and> pos it' < length (start it)"
  by (auto simp: pb_field_iter_next_def Let_def field_at_def PB_LAST_FIELD_def split: if_splits)

function for_fields :: "(pb_field_iter_t \<Rightarrow> 'a \<Rightarrow> 'a option) \<Rightarrow> pb_field_iter_t \<Rightarrow> 'a \<Rightarrow> 'a option" where
  "for_fields f it a =
     Option.bind (f it a) (\<lambda>a. case pb_field_iter_next it of (again, it') \<Rightarrow> if again then for_fields f it' a else Some a)"
  by pat_completeness auto
termination
  by (relation "measure (\<lambda>(f, it, a). length (start it) - pos it)") (auto dest: sym [THEN iter_next_pos])

declare for_fields.simps [simp del]

text \<open>The equation for evaluation, which unfolds the loop only after its first step.\<close>

lemma for_fields_code [code]:
  "for_fields f it a =
     (case f it a of
        None \<Rightarrow> None
      | Some a \<Rightarrow> (case pb_field_iter_next it of (again, it') \<Rightarrow> if again then for_fields f it' a else Some a))"
  by (subst for_fields.simps) (simp split: option.split)

section \<open>Memory\<close>

definition load :: "bytes \<Rightarrow> int \<Rightarrow> nat \<Rightarrow> bytes option" where
  "load m p n = (if 0 \<le> p \<and> p + int n \<le> int (length m) then Some (take n (drop (nat p) m)) else None)"

definition store :: "bytes \<Rightarrow> int \<Rightarrow> bytes \<Rightarrow> bytes option" where
  "store m p bs =
     (if 0 \<le> p \<and> p + int (length bs) \<le> int (length m)
      then Some (take (nat p) m @ bs @ drop (nat p + length bs) m) else None)"

text \<open>Little-endian integers of a number of bytes.\<close>

definition le_store :: "nat \<Rightarrow> 'a::len word \<Rightarrow> bytes" where
  "le_store n v = map (\<lambda>i. ucast (drop_bit (8 * i) v)) [0..<n]"

definition le_load :: "bytes \<Rightarrow> 'a::len word" where
  "le_load bs = foldr (\<lambda>b v. push_bit 8 v OR ucast b) bs 0"

section \<open>Where the fields are\<close>

text \<open>The iterator at the field with index \<open>i\<close>, after as many steps from the beginning.\<close>

definition place :: "pb_field_t list \<Rightarrow> int \<Rightarrow> nat \<Rightarrow> pb_field_iter_t" where
  "place fs dst i = ((\<lambda>it. snd (pb_field_iter_next it)) ^^ i) (snd (pb_field_iter_begin fs dst))"

definition tags_ok :: "pb_field_t list \<Rightarrow> bool" where
  "tags_ok fs \<longleftrightarrow> list_all (\<lambda>f. tag f \<noteq> 0) fs"

lemma field_at_nth [simp]: "i < length fs \<Longrightarrow> field_at fs i = fs ! i"
  by (simp add: field_at_def)

lemma tag_nth: "tags_ok fs \<Longrightarrow> i < length fs \<Longrightarrow> tag (fs ! i) \<noteq> 0"
  by (simp add: tags_ok_def list_all_length)

lemma field_at_end: "\<not> i < length fs \<Longrightarrow> field_at fs i = PB_LAST_FIELD" "tag PB_LAST_FIELD = 0"
  by (simp_all add: field_at_def PB_LAST_FIELD_def)

lemma place_0: "place fs dst 0 = snd (pb_field_iter_begin fs dst)"
  by (simp add: place_def)

lemma place_Suc: "place fs dst (Suc i) = snd (pb_field_iter_next (place fs dst i))"
  by (simp add: place_def)

lemma place_code [code]:
  "place fs dst i = (case i of 0 \<Rightarrow> snd (pb_field_iter_begin fs dst) | Suc j \<Rightarrow> snd (pb_field_iter_next (place fs dst j)))"
  by (cases i) (simp_all add: place_0 place_Suc)

lemma place_begin [simp]: "pos (place fs dst 0) = 0" "start (place fs dst 0) = fs" "dest_struct (place fs dst 0) = dst"
  by (simp_all add: place_0 pb_field_iter_begin_def Let_def)

lemma place_simps:
  assumes "tags_ok fs"
  shows "i < max 1 (length fs) \<Longrightarrow> pos (place fs dst i) = i \<and> start (place fs dst i) = fs \<and> dest_struct (place fs dst i) = dst"
proof (induction i)
  case (Suc i)
  then have i: "Suc i < length fs" "pos (place fs dst i) = i" "start (place fs dst i) = fs" "dest_struct (place fs dst i) = dst" by auto
  then have "tag (pos_field (place fs dst i)) \<noteq> 0" "tag (field_at fs (Suc i)) \<noteq> 0"
    using tag_nth [OF assms] by (simp_all add: pos_field_def)
  then show ?case using i by (simp add: place_Suc pb_field_iter_next_def Let_def)
qed simp

lemma pos_field_place: "tags_ok fs \<Longrightarrow> i < length fs \<Longrightarrow> pos_field (place fs dst i) = fs ! i"
  using place_simps [of fs i dst] by (simp add: pos_field_def)

lemma next_place:
  assumes "tags_ok fs" "i < max 1 (length fs)"
  shows "pb_field_iter_next (place fs dst i) = (Suc i < length fs, place fs dst (if Suc i < length fs then Suc i else 0))"
proof (cases "fs = []")
  case True
  then have "i = 0" using assms(2) by simp
  then show ?thesis using True by (simp add: pb_field_iter_next_def Let_def pos_field_def field_at_def PB_LAST_FIELD_def)
next
  case False
  then have "i < length fs" using assms(2) by (cases fs) auto
  then have i: "i < length fs" "pos (place fs dst i) = i" "start (place fs dst i) = fs" "dest_struct (place fs dst i) = dst"
    using assms place_simps [OF assms(1), of i dst] by auto
  have t: "tag (pos_field (place fs dst i)) \<noteq> 0" using i tag_nth [OF assms(1)] by (simp add: pos_field_def)
  show ?thesis
  proof (cases "Suc i < length fs")
    case True
    then have "tag (field_at fs (Suc i)) \<noteq> 0" using tag_nth [OF assms(1)] by simp
    then have "fst (pb_field_iter_next (place fs dst i))" using t i by (simp add: pb_field_iter_next_def Let_def)
    then show ?thesis using True by (simp add: place_Suc prod_eq_iff)
  next
    case end_: False
    then have "tag (field_at fs (Suc i)) = 0" using field_at_end by simp
    then show ?thesis using t i end_ by (simp add: pb_field_iter_next_def Let_def place_0)
  qed
qed

text \<open>Moving the structure moves every place.\<close>

definition moved :: "int \<Rightarrow> pb_field_iter_t \<Rightarrow> pb_field_iter_t" where
  "moved d it = it\<lparr>dest_struct := dest_struct it + d, pData := pData it + d,
     pSize := (case pSize it of Member p \<Rightarrow> Member (p + d) | Fixed_count \<Rightarrow> Fixed_count)\<rparr>"

lemma moved_begin: "pb_field_iter_begin fs (dst + d) = map_prod id (moved d) (pb_field_iter_begin fs dst)"
  by (simp add: pb_field_iter_begin_def Let_def moved_def)

lemma moved_next: "pb_field_iter_next (moved d it) = map_prod id (moved d) (pb_field_iter_next it)"
proof -
  have "pos_field (moved d it) = pos_field it" "start (moved d it) = start it" "pos (moved d it) = pos it"
    "dest_struct (moved d it) = dest_struct it + d" "pData (moved d it) = pData it + d" "required_field_index (moved d it) = required_field_index it"
    by (simp_all add: moved_def pos_field_def)
  then show ?thesis
    by (cases it) (auto simp: pb_field_iter_next_def Let_def moved_begin moved_def)
qed

lemma place_moved: "place fs (dst + d) i = moved d (place fs dst i)"
  by (induction i) (simp_all add: place_0 place_Suc moved_begin moved_next)

lemma place_offset:
  "pData (place fs dst i) = dst + pData (place fs 0 i)"
  "pSize (place fs dst i) = (case pSize (place fs 0 i) of Member p \<Rightarrow> Member (dst + p) | Fixed_count \<Rightarrow> Fixed_count)"
  using place_moved [of fs 0 dst i] by (simp_all add: moved_def add.commute split: size_ptr.split)

text \<open>Iterating over all fields, and searching for one.\<close>

lemma for_fields_place:
  assumes "tags_ok fs" "i < length fs" "\<And>j. j < length fs \<Longrightarrow> \<forall>a. P a \<longrightarrow> (\<exists>b. g (place fs dst j) a = Some b \<and> P b)" "P a"
  shows "\<exists>b. for_fields g (place fs dst i) a = Some b \<and> P b"
  using assms(2,4)
proof (induction "length fs - i" arbitrary: i a)
  case (Suc n)
  then obtain b where b: "g (place fs dst i) a = Some b" "P b" using assms(3) by blast
  show ?case
  proof (cases "Suc i < length fs")
    case True
    have "\<exists>c. for_fields g (place fs dst (Suc i)) b = Some c \<and> P c" using Suc.hyps(2) True b(2) by (intro Suc.hyps(1)) auto
    then show ?thesis using b next_place [OF assms(1), of i dst] Suc.prems True by (subst for_fields.simps) simp
  next
    case False
    then show ?thesis using b next_place [OF assms(1), of i dst] Suc.prems by (subst for_fields.simps) simp
  qed
qed simp

text \<open>The iterator of the decoder is at a field, with its \<open>pSize\<close> changed if the field is a fixed-size array.\<close>

definition at_field :: "pb_field_t list \<Rightarrow> int \<Rightarrow> nat \<Rightarrow> pb_field_iter_t \<Rightarrow> bool" where
  "at_field fs dst i it \<longleftrightarrow> i < max 1 (length fs) \<and>
     (it = place fs dst i \<or> i < length fs \<and> PB_HTYPE (ftype (fs ! i)) = PB_HTYPE_REPEATED \<and> it = (place fs dst i)\<lparr>pSize := Fixed_count\<rparr>)"

lemma at_field_place: "i < max 1 (length fs) \<Longrightarrow> at_field fs dst i (place fs dst i)"
  by (simp add: at_field_def)

lemma pos_field_at: "tags_ok fs \<Longrightarrow> at_field fs dst i it \<Longrightarrow> pos_field it = field_at fs i \<and> pos it = i \<and> start it = fs"
  using place_simps [of fs i dst] by (auto simp: at_field_def pos_field_def)

lemma next_at_field:
  assumes "tags_ok fs" "at_field fs dst i it"
  shows "pb_field_iter_next it = (Suc i < length fs, place fs dst (if Suc i < length fs then Suc i else 0))"
proof (cases "it = place fs dst i")
  case True
  then show ?thesis using next_place [OF assms(1)] assms(2) by (simp add: at_field_def)
next
  case False
  then have i: "i < length fs" "PB_HTYPE (ftype (fs ! i)) = PB_HTYPE_REPEATED" "it = (place fs dst i)\<lparr>pSize := Fixed_count\<rparr>"
    using assms(2) by (auto simp: at_field_def)
  have "pos_field it = fs ! i" using pos_field_at [OF assms] i(1) by simp
  moreover have "pos_field (place fs dst i) = fs ! i" using pos_field_place [OF assms(1) i(1)] .
  ultimately have "pb_field_iter_next it = pb_field_iter_next (place fs dst i)"
    using i(2,3) tag_nth [OF assms(1) i(1)] by (simp add: pb_field_iter_next_def Let_def pb_types)
  then show ?thesis using next_place [OF assms(1)] i(1) by simp
qed

text \<open>The fields that a search from \<open>i\<close> back to \<open>first\<close> visits.\<close>

definition ahead :: "nat \<Rightarrow> nat \<Rightarrow> nat \<Rightarrow> nat set" where
  "ahead n first i = (if i < first then {i..<first} else {i..<n} \<union> {..<first})"

lemma iter_find_loop_at:
  assumes "tags_ok fs" "first < max 1 (length fs)" "at_field fs dst i it"
  shows "\<exists>b it' j. iter_find_loop first P it = Some (b, it') \<and> at_field fs dst j it' \<and> (it' = it \<or> it' = place fs dst j) \<and> (b \<longrightarrow> P (field_at fs j)) \<and>
    (\<not> b \<longrightarrow> (\<forall>j\<in>ahead (max 1 (length fs)) first i. \<not> P (field_at fs j)))"
  using assms(3)
proof (induction "if i < first then first - i else max 1 (length fs) + first - i" arbitrary: i it rule: less_induct)
  case less
  let ?n = "max 1 (length fs)"
  have f: "pos_field it = field_at fs i" using pos_field_at [OF assms(1) less.prems] by simp
  have i: "i < ?n" using less.prems by (simp add: at_field_def)
  let ?j = "if Suc i < length fs then Suc i else 0"
  have nx: "snd (pb_field_iter_next it) = place fs dst ?j" using next_at_field [OF assms(1) less.prems] by simp
  have j: "?j < ?n" by (cases "Suc i < length fs") (auto simp: max_def)
  have pj: "pos (place fs dst ?j) = ?j" using place_simps [OF assms(1) j] by simp
  show ?case
  proof (cases "P (field_at fs i)")
    case True
    then show ?thesis using f less.prems by (subst iter_find_loop.simps) auto
  next
    case no: False
    show ?thesis
    proof (cases "?j = first")
      case True
      have "iter_find_loop first P it = Some (False, place fs dst ?j)"
        using f no nx pj True by (subst iter_find_loop.simps) (simp add: Let_def)
      moreover have "ahead ?n first i \<subseteq> {i}" using True i by (auto simp: ahead_def split: if_splits)
      ultimately show ?thesis using no at_field_place [OF j] by blast
    next
      case False
      have step: "iter_find_loop first P it = iter_find_loop first P (place fs dst ?j)"
        using f no nx pj False by (subst iter_find_loop.simps) (simp add: Let_def)
      have "(if ?j < first then first - ?j else ?n + first - ?j) < (if i < first then first - i else ?n + first - i)"
        using False i assms(2) by (auto split: if_splits)
      from less.hyps [OF this at_field_place [OF j]] obtain b it' k where
        r: "iter_find_loop first P (place fs dst ?j) = Some (b, it')" "at_field fs dst k it'" "it' = place fs dst ?j \<or> it' = place fs dst k" "b \<longrightarrow> P (field_at fs k)"
          "\<not> b \<longrightarrow> (\<forall>j\<in>ahead ?n first ?j. \<not> P (field_at fs j))" by blast
      have "ahead ?n first i \<subseteq> insert i (ahead ?n first ?j)" using False i by (auto simp: ahead_def split: if_splits)
      moreover have "it' = place fs dst k"
        using r(3) pj pos_field_at [OF assms(1) r(2)] by metis
      ultimately show ?thesis using r no step by auto
    qed
  qed
qed

lemma pb_field_iter_find_at:
  assumes "tags_ok fs" "at_field fs dst i it"
  shows "\<exists>b it' j. pb_field_iter_find it t = Some (b, it') \<and> at_field fs dst j it' \<and> (it' = it \<or> it' = place fs dst j) \<and>
    (b \<longrightarrow> tag (field_at fs j) = t \<and> PB_LTYPE (ftype (field_at fs j)) \<noteq> PB_LTYPE_EXTENSION) \<and>
    (\<not> b \<longrightarrow> (\<forall>j<max 1 (length fs). \<not> (tag (field_at fs j) = t \<and> PB_LTYPE (ftype (field_at fs j)) \<noteq> PB_LTYPE_EXTENSION)))"
proof -
  have i: "pos it = i" "i < max 1 (length fs)" using pos_field_at [OF assms] assms(2) by (auto simp: at_field_def)
  have "ahead (max 1 (length fs)) i i = {..<max 1 (length fs)}" using i(2) by (auto simp: ahead_def)
  then show ?thesis
    using iter_find_loop_at [OF assms(1) i(2) assms(2), of "\<lambda>f. tag f = t \<and> PB_LTYPE (ftype f) \<noteq> PB_LTYPE_EXTENSION"]
    unfolding pb_field_iter_find_def i(1) by fastforce
qed

lemma find_extension_field_at:
  assumes "tags_ok fs" "at_field fs dst i it"
  shows "\<exists>b it' j. find_extension_field it = Some (b, it') \<and> at_field fs dst j it' \<and> (b \<longrightarrow> PB_LTYPE (ftype (field_at fs j)) = PB_LTYPE_EXTENSION)"
proof -
  have i: "pos it = i" "i < max 1 (length fs)" using pos_field_at [OF assms] assms(2) by (auto simp: at_field_def)
  show ?thesis
    using iter_find_loop_at [OF assms(1) i(2) assms(2), of "\<lambda>f. PB_LTYPE (ftype f) = PB_LTYPE_EXTENSION"]
    unfolding find_extension_field_def i(1) by fastforce
qed

section \<open>Memory accesses\<close>

definition same_outside :: "int \<Rightarrow> int \<Rightarrow> bytes \<Rightarrow> bytes \<Rightarrow> bool" where
  "same_outside lo hi m m' \<longleftrightarrow> length m' = length m \<and> (\<forall>i<length m. int i < lo \<or> hi \<le> int i \<longrightarrow> m' ! i = m ! i)"

lemma same_outside_refl [simp]: "same_outside lo hi m m"
  by (simp add: same_outside_def)

lemma same_outside_trans: "same_outside lo hi a b \<Longrightarrow> same_outside lo hi b c \<Longrightarrow> same_outside lo hi a c"
  by (simp add: same_outside_def)

lemma same_outside_mono: "same_outside lo hi m m' \<Longrightarrow> lo' \<le> lo \<Longrightarrow> hi \<le> hi' \<Longrightarrow> same_outside lo' hi' m m'"
  by (auto simp: same_outside_def)

lemma load_Some: "0 \<le> p \<Longrightarrow> p + int n \<le> int (length m) \<Longrightarrow> \<exists>bs. load m p n = Some bs \<and> length bs = n"
  by (simp add: load_def)

lemma store_Some:
  assumes "0 \<le> lo" "hi \<le> int (length m)" "lo \<le> p" "p + int (length bs) \<le> hi"
  shows "\<exists>m'. store m p bs = Some m' \<and> same_outside lo hi m m'"
proof -
  let ?m = "take (nat p) m @ bs @ drop (nat p + length bs) m"
  have p: "nat p + length bs \<le> length m" "0 \<le> p" using assms by auto
  have "?m ! i = m ! i" if "i < length m" "int i < lo \<or> hi \<le> int i" for i
  proof (cases "i < nat p")
    case True
    then show ?thesis using p by (simp add: nth_append)
  next
    case False
    then have "nat p + length bs \<le> i" using that(2) assms by auto
    then have "\<not> i - nat p < length bs" by linarith
    then show ?thesis using p that(1) \<open>nat p + length bs \<le> i\<close> by (simp add: nth_append)
  qed
  then have "same_outside lo hi m ?m" using p by (auto simp: same_outside_def)
  then show ?thesis using assms by (auto simp: store_def)
qed

lemma length_le_store [simp]: "length (le_store n v) = n"
  by (simp add: le_store_def)

section \<open>Descriptors that fit a structure\<close>

text \<open>What the generator guarantees of a descriptor for a structure of \<open>n\<close> bytes: every member lies within the structure,
  with its \<open>has_\<close> or count member, and has the size its type needs. A fixed-size array must have four bytes, as
  \<open>pb_field_set_to_default\<close> sets a count at its address. The structure of an empty message has a dummy member.\<close>

definition within_struct :: "int \<Rightarrow> int \<Rightarrow> int \<Rightarrow> bool" where
  "within_struct n p k \<longleftrightarrow> 0 \<le> p \<and> p + k \<le> n"

definition items_of :: "pb_field_t \<Rightarrow> nat" where
  "items_of f = (if PB_HTYPE (ftype f) = PB_HTYPE_REPEATED then unat (array_size f) else 1)"

definition field_fits :: "bool \<Rightarrow> int \<Rightarrow> pb_field_t \<Rightarrow> int \<Rightarrow> size_ptr \<Rightarrow> bool" where
  "field_fits sub_ok n f p sp \<longleftrightarrow>
     (let ty = ftype f; lt = PB_LTYPE ty; ht = PB_HTYPE ty; k = unat (data_size f)
      in PB_ATYPE ty \<in> {PB_ATYPE_STATIC, PB_ATYPE_CALLBACK} \<and> lt \<noteq> PB_LTYPE_EXTENSION \<and>
         lt \<le> PB_LTYPE_FIXED_LENGTH_BYTES \<and>
         (case sp of
            Fixed_count \<Rightarrow> False
          | Member q \<Rightarrow>
              (ht = PB_HTYPE_ONEOF \<longrightarrow> within_struct n q 4) \<and>
              (ht = PB_HTYPE_REPEATED \<longrightarrow> within_struct n q 4) \<and>
              (ht = PB_HTYPE_OPTIONAL \<longrightarrow> q = p \<or> within_struct n q 1)) \<and>
         (if PB_ATYPE ty = PB_ATYPE_CALLBACK then within_struct n p 16
          else within_struct n p (int (k * items_of f)) \<and>
            (lt = PB_LTYPE_BOOL \<longrightarrow> 1 \<le> k) \<and> (lt = PB_LTYPE_FIXED32 \<longrightarrow> 4 \<le> k) \<and> (lt = PB_LTYPE_FIXED64 \<longrightarrow> 8 \<le> k) \<and>
            (if lt = PB_LTYPE_SUBMESSAGE then sub_ok
             else case ptr f of NULL \<Rightarrow> True | Default bs \<Rightarrow> k \<le> length bs | Submsg _ \<Rightarrow> False)))"

lemma field_fits_cong [fundef_cong]:
  assumes "n = n'" "f = f'" "p = p'" "sp = sp'" "PB_LTYPE (ftype f') = PB_LTYPE_SUBMESSAGE \<Longrightarrow> b = b'"
  shows "field_fits b n f p sp = field_fits b' n' f' p' sp'"
  using assms by (auto simp: field_fits_def Let_def)

function fields_ok :: "pb_field_t list \<Rightarrow> int \<Rightarrow> bool" where
  "fields_ok fs n \<longleftrightarrow> tags_ok fs \<and> (fs = [] \<longrightarrow> 1 \<le> n) \<and>
     (\<forall>i\<in>set [0..<length fs].
        field_fits (case ptr (fs ! i) of Submsg sub \<Rightarrow> fields_ok sub (int (unat (data_size (fs ! i)))) | _ \<Rightarrow> False)
          n (fs ! i) (pData (place fs 0 i)) (pSize (place fs 0 i)))"
  by pat_completeness auto
termination
proof (relation "measure (\<lambda>(fs, n). size_list size fs)")
  fix fs :: "pb_field_t list" and n :: int and i sub
  assume "i \<in> set [0..<length fs]" "ptr (fs ! i) = Submsg sub"
  then show "((sub, int (unat (data_size (fs ! i)))), (fs, n)) \<in> measure (\<lambda>(fs, n). size_list size fs)"
    using size_submsg [of "fs ! i" sub] size_list_estimation [of "fs ! i" fs "size (fs ! i) - 1" size] by simp
qed simp

declare fields_ok.simps [simp del]

lemma fields_okD:
  assumes "fields_ok fs n"
  shows "tags_ok fs" "fs = [] \<Longrightarrow> 1 \<le> n"
    "i < length fs \<Longrightarrow> field_fits (case ptr (fs ! i) of Submsg sub \<Rightarrow> fields_ok sub (int (unat (data_size (fs ! i)))) | _ \<Rightarrow> False)
       n (fs ! i) (pData (place fs 0 i)) (pSize (place fs 0 i))"
  using assms by (subst (asm) fields_ok.simps, simp)+

text \<open>The facts that the proofs use, for a structure at \<open>dst\<close>.\<close>

lemma fields_ok_field:
  fixes dst :: int
  assumes "fields_ok fs n" "i < length fs"
  defines "it \<equiv> place fs dst i" and "f \<equiv> fs ! i"
  shows "PB_ATYPE (ftype f) = PB_ATYPE_STATIC \<or> PB_ATYPE (ftype f) = PB_ATYPE_CALLBACK"
    "PB_LTYPE (ftype f) \<noteq> PB_LTYPE_EXTENSION" "PB_LTYPE (ftype f) \<le> PB_LTYPE_FIXED_LENGTH_BYTES"
    "\<exists>q. pSize it = Member q"
    "pSize it = Member q \<Longrightarrow> PB_HTYPE (ftype f) = PB_HTYPE_ONEOF \<or> PB_HTYPE (ftype f) = PB_HTYPE_REPEATED \<Longrightarrow> dst \<le> q \<and> q + 4 \<le> dst + n"
    "pSize it = Member q \<Longrightarrow> PB_HTYPE (ftype f) = PB_HTYPE_OPTIONAL \<Longrightarrow> q \<noteq> pData it \<Longrightarrow> dst \<le> q \<and> q + 1 \<le> dst + n"
    "PB_ATYPE (ftype f) = PB_ATYPE_CALLBACK \<Longrightarrow> dst \<le> pData it \<and> pData it + 16 \<le> dst + n"
    "PB_ATYPE (ftype f) = PB_ATYPE_STATIC \<Longrightarrow> dst \<le> pData it \<and> pData it + int (unat (data_size f) * items_of f) \<le> dst + n"
    "PB_ATYPE (ftype f) = PB_ATYPE_STATIC \<Longrightarrow> PB_LTYPE (ftype f) = PB_LTYPE_BOOL \<Longrightarrow> 1 \<le> unat (data_size f)"
    "PB_ATYPE (ftype f) = PB_ATYPE_STATIC \<Longrightarrow> PB_LTYPE (ftype f) = PB_LTYPE_FIXED32 \<Longrightarrow> 4 \<le> unat (data_size f)"
    "PB_ATYPE (ftype f) = PB_ATYPE_STATIC \<Longrightarrow> PB_LTYPE (ftype f) = PB_LTYPE_FIXED64 \<Longrightarrow> 8 \<le> unat (data_size f)"
    "PB_ATYPE (ftype f) = PB_ATYPE_STATIC \<Longrightarrow> PB_LTYPE (ftype f) = PB_LTYPE_SUBMESSAGE \<Longrightarrow>
       \<exists>sub. ptr f = Submsg sub \<and> fields_ok sub (int (unat (data_size f)))"
    "PB_ATYPE (ftype f) = PB_ATYPE_STATIC \<Longrightarrow> PB_LTYPE (ftype f) \<noteq> PB_LTYPE_SUBMESSAGE \<Longrightarrow>
       ptr f = NULL \<or> (\<exists>bs. ptr f = Default bs \<and> unat (data_size f) \<le> length bs)"
proof -
  note fits = fields_okD(3) [OF assms(1,2), unfolded field_fits_def Let_def within_struct_def]
  note off = place_offset [of fs dst i]
  have ac: "PB_ATYPE_CALLBACK \<noteq> PB_ATYPE_STATIC" by (simp add: pb_types)
  show "PB_ATYPE (ftype f) = PB_ATYPE_STATIC \<or> PB_ATYPE (ftype f) = PB_ATYPE_CALLBACK"
    "PB_LTYPE (ftype f) \<noteq> PB_LTYPE_EXTENSION" "PB_LTYPE (ftype f) \<le> PB_LTYPE_FIXED_LENGTH_BYTES"
    using fits unfolding f_def by blast+
  show "\<exists>q. pSize it = Member q" using fits off(2) unfolding it_def by (auto split: size_ptr.splits)
  show "pSize it = Member q \<Longrightarrow> PB_HTYPE (ftype f) = PB_HTYPE_ONEOF \<or> PB_HTYPE (ftype f) = PB_HTYPE_REPEATED \<Longrightarrow> dst \<le> q \<and> q + 4 \<le> dst + n"
    using fits off unfolding it_def f_def by (auto split: size_ptr.splits)
  show "pSize it = Member q \<Longrightarrow> PB_HTYPE (ftype f) = PB_HTYPE_OPTIONAL \<Longrightarrow> q \<noteq> pData it \<Longrightarrow> dst \<le> q \<and> q + 1 \<le> dst + n"
    using fits off unfolding it_def f_def by (auto split: size_ptr.splits)
  show "PB_ATYPE (ftype f) = PB_ATYPE_CALLBACK \<Longrightarrow> dst \<le> pData it \<and> pData it + 16 \<le> dst + n"
    using fits off(1) unfolding it_def f_def by auto
  show "PB_ATYPE (ftype f) = PB_ATYPE_STATIC \<Longrightarrow> dst \<le> pData it \<and> pData it + int (unat (data_size f) * items_of f) \<le> dst + n"
    using fits off(1) ac unfolding it_def f_def by (auto simp: algebra_simps)
  show "PB_ATYPE (ftype f) = PB_ATYPE_STATIC \<Longrightarrow> PB_LTYPE (ftype f) = PB_LTYPE_BOOL \<Longrightarrow> 1 \<le> unat (data_size f)"
    "PB_ATYPE (ftype f) = PB_ATYPE_STATIC \<Longrightarrow> PB_LTYPE (ftype f) = PB_LTYPE_FIXED32 \<Longrightarrow> 4 \<le> unat (data_size f)"
    "PB_ATYPE (ftype f) = PB_ATYPE_STATIC \<Longrightarrow> PB_LTYPE (ftype f) = PB_LTYPE_FIXED64 \<Longrightarrow> 8 \<le> unat (data_size f)"
    using fits ac unfolding f_def by presburger+
  show "PB_ATYPE (ftype f) = PB_ATYPE_STATIC \<Longrightarrow> PB_LTYPE (ftype f) = PB_LTYPE_SUBMESSAGE \<Longrightarrow>
       \<exists>sub. ptr f = Submsg sub \<and> fields_ok sub (int (unat (data_size f)))"
    using fits ac unfolding f_def by (auto split: field_ptr.splits)
  show "PB_ATYPE (ftype f) = PB_ATYPE_STATIC \<Longrightarrow> PB_LTYPE (ftype f) \<noteq> PB_LTYPE_SUBMESSAGE \<Longrightarrow>
       ptr f = NULL \<or> (\<exists>bs. ptr f = Default bs \<and> unat (data_size f) \<le> length bs)"
    using fits ac unfolding f_def by (auto split: field_ptr.splits)
qed

section \<open>Finding a field\<close>

text \<open>C25. From wherever the iterator is, \<open>pb_field_iter_find\<close> returns and finds a field if and only if the descriptor has a field with
  this number that is not an extension range. It is then at such a field, with the address that counting the members from the start of
  the structure gives.\<close>

theorem field_found_anywhere:
  assumes "tags_ok fs" "i < length fs"
  shows "\<exists>b it. pb_field_iter_find (place fs dst i) t = Some (b, it) \<and> it = place fs dst (pos it) \<and>
    (b \<longleftrightarrow> (\<exists>j<length fs. tag (fs ! j) = t \<and> PB_LTYPE (ftype (fs ! j)) \<noteq> PB_LTYPE_EXTENSION)) \<and>
    (b \<longrightarrow> pos it < length fs \<and> tag (fs ! pos it) = t \<and> PB_LTYPE (ftype (fs ! pos it)) \<noteq> PB_LTYPE_EXTENSION)"
proof -
  have len: "max 1 (length fs) = length fs" using assms(2) by simp
  have at: "at_field fs dst i (place fs dst i)" using assms(2) by (intro at_field_place) simp
  obtain b it j where r: "pb_field_iter_find (place fs dst i) t = Some (b, it)" "at_field fs dst j it"
      "it = place fs dst i \<or> it = place fs dst j"
      "b \<longrightarrow> tag (field_at fs j) = t \<and> PB_LTYPE (ftype (field_at fs j)) \<noteq> PB_LTYPE_EXTENSION"
      "\<not> b \<longrightarrow> (\<forall>j<length fs. \<not> (tag (field_at fs j) = t \<and> PB_LTYPE (ftype (field_at fs j)) \<noteq> PB_LTYPE_EXTENSION))"
    using pb_field_iter_find_at [OF assms(1) at, of t] unfolding len by blast
  have j: "j < length fs" "pos it = j" using r(2) [unfolded at_field_def len] pos_field_at [OF assms(1) r(2)] by blast+
  then have "it = place fs dst (pos it)" using r(3) pos_field_at [OF assms(1) at] by auto
  then show ?thesis using r(1,4,5) j by auto
qed

lemma field_found_anywhere_witness:
  "\<exists>b it. pb_field_iter_find (place [Field 1 0x02 0 0 4 0 NULL, Field 7 0x02 4 0 4 0 NULL] 100 1) 1 = Some (b, it) \<and> b \<and> pData it = 100"
proof -
  let ?fs = "[Field 1 0x02 0 0 4 0 NULL, Field 7 0x02 4 0 4 0 NULL]"
  obtain b it where r: "pb_field_iter_find (place ?fs 100 1) 1 = Some (b, it)" "it = place ?fs 100 (pos it)"
      "b \<longleftrightarrow> (\<exists>j<length ?fs. tag (?fs ! j) = 1 \<and> PB_LTYPE (ftype (?fs ! j)) \<noteq> PB_LTYPE_EXTENSION)"
      "b \<longrightarrow> pos it < length ?fs \<and> tag (?fs ! pos it) = 1"
    using field_found_anywhere [of ?fs 1 100 1] by (auto simp: tags_ok_def)
  have "b" using r(3) by (auto simp: PB_LTYPE_def pb_types intro: exI [of _ 0])
  moreover have "pos it = 0" using r(4) \<open>b\<close> by (cases "pos it") (auto simp: less_Suc_eq)
  ultimately show ?thesis using r(1,2) by (auto simp: place_0 pb_field_iter_begin_def Let_def)
qed

end
