(* ===== verification/Pb_Decode.thy ===== *)
theory Pb_Decode imports Pb_Fields begin

text \<open>
  Decoding into structures: the decoders of fields and messages in pb_decode.c of nanopb. A decoder maps the
  memory, the stream and the local count of a fixed-size array to a status and their new values; it is \<open>None\<close>
  where the code would access memory outside, or never return. Static fields, with submessages, arrays and
  unions, and fields with callbacks are modelled; pointer fields, which need a heap, and lists of
  extensions that are not empty are outside the model and \<open>None\<close>. The callbacks belong to the program and are a parameter.
\<close>

section \<open>Decoders\<close>

record dstate =
  memory :: bytes
  stream :: pb_istream_t
  fixed_count_size :: u32

type_synonym pb_decoder = "dstate \<Rightarrow> (bool \<times> dstate) option"

text \<open>A callback gets its function pointer, the field and its argument, and may change the argument.\<close>

type_synonym callbacks = "u64 \<Rightarrow> pb_field_t \<Rightarrow> u64 \<Rightarrow> pb_istream_t \<Rightarrow> bool \<times> u64 \<times> pb_istream_t"

named_theorems decoder_simps \<open>unfolding equations of the decoder combinators\<close>

definition returns :: "bool \<Rightarrow> pb_decoder" where
  [decoder_simps]: "returns b = (\<lambda>st. Some (b, st))"

definition on_stream :: "(pb_istream_t, 'a) routine \<Rightarrow> ('a \<Rightarrow> pb_decoder) \<Rightarrow> pb_decoder" where
  "on_stream r f = (\<lambda>st. case r (stream st) of
     (None, s) \<Rightarrow> Some (False, st\<lparr>stream := s\<rparr>)
   | (Some a, s) \<Rightarrow> f a (st\<lparr>stream := s\<rparr>))"

definition return_error :: "string \<Rightarrow> pb_decoder" where
  "return_error msg = on_stream (PB_RETURN_ERROR msg :: (pb_istream_t, unit) routine) (\<lambda>_. returns True)"

definition storing :: "int \<Rightarrow> bytes \<Rightarrow> pb_decoder \<Rightarrow> pb_decoder" where
  "storing p bs f = (\<lambda>st. Option.bind (store (memory st) p bs) (\<lambda>m. f (st\<lparr>memory := m\<rparr>)))"

definition loading :: "int \<Rightarrow> nat \<Rightarrow> (bytes \<Rightarrow> pb_decoder) \<Rightarrow> pb_decoder" where
  "loading p n f = (\<lambda>st. Option.bind (load (memory st) p n) (\<lambda>bs. f bs st))"

text \<open>The count of an array is a member of the structure or the local variable.\<close>

definition get_count :: "size_ptr \<Rightarrow> dstate \<Rightarrow> u32 option" where
  "get_count p st = (case p of Member q \<Rightarrow> map_option le_load (load (memory st) q 4) | Fixed_count \<Rightarrow> Some (fixed_count_size st))"

definition load_count :: "size_ptr \<Rightarrow> (u32 \<Rightarrow> pb_decoder) \<Rightarrow> pb_decoder" where
  "load_count p f = (\<lambda>st. Option.bind (get_count p st) (\<lambda>n. f n st))"

definition store_count :: "size_ptr \<Rightarrow> u32 \<Rightarrow> pb_decoder \<Rightarrow> pb_decoder" where
  "store_count p n f = (case p of Member q \<Rightarrow> storing q (le_store 4 n) f | Fixed_count \<Rightarrow> (\<lambda>st. f (st\<lparr>fixed_count_size := n\<rparr>)))"

section \<open>Default values\<close>

text \<open>Structures are recursive through their submessages, so the routines on messages are iterated to a depth, and
  the depth of the descriptor is enough. \<open>sub\<close> is the routine for submessages. The list of extensions must be empty.\<close>

definition no_extensions :: "pb_field_iter_t \<Rightarrow> bytes \<Rightarrow> bytes option" where
  "no_extensions it m =
     Option.bind (load m (pData it) 8) (\<lambda>extension. if le_load extension = (0 :: u64) then Some m else None)"

definition pb_field_set_to_default ::
  "(pb_field_t list \<Rightarrow> int \<Rightarrow> bytes \<Rightarrow> bytes option) \<Rightarrow> pb_field_iter_t \<Rightarrow> bytes \<Rightarrow> bytes option" where
  "pb_field_set_to_default sub it m =
     (let f = pos_field it; ty = ftype f
      in if PB_LTYPE ty = PB_LTYPE_EXTENSION then no_extensions it m
         else if PB_ATYPE ty = PB_ATYPE_STATIC then
           Option.bind
             (if PB_HTYPE ty = PB_HTYPE_OPTIONAL \<and> pSize it \<noteq> Member (pData it)
              then (case pSize it of Member p \<Rightarrow> store m p [0] | Fixed_count \<Rightarrow> None)
              else if PB_HTYPE ty = PB_HTYPE_REPEATED \<or> PB_HTYPE ty = PB_HTYPE_ONEOF
              then (case pSize it of Member p \<Rightarrow> store m p (le_store 4 (0 :: u32)) | Fixed_count \<Rightarrow> None)
              else Some m)
             (\<lambda>m. if PB_HTYPE ty = PB_HTYPE_REPEATED \<or> PB_HTYPE ty = PB_HTYPE_ONEOF then Some m
                  else if PB_LTYPE ty = PB_LTYPE_SUBMESSAGE
                  then (case ptr f of Submsg fs \<Rightarrow> sub fs (pData it) m | _ \<Rightarrow> None)
                  else (case ptr f of
                          NULL \<Rightarrow> store m (pData it) (replicate (unat (data_size f)) 0)
                        | Default bs \<Rightarrow> Option.bind (load bs 0 (unat (data_size f))) (store m (pData it))
                        | Submsg _ \<Rightarrow> None))
         else if PB_ATYPE ty = PB_ATYPE_POINTER then None
         else Some m)"

definition set_to_defaults ::
  "(pb_field_t list \<Rightarrow> int \<Rightarrow> bytes \<Rightarrow> bytes option) \<Rightarrow> pb_field_t list \<Rightarrow> int \<Rightarrow> bytes \<Rightarrow> bytes option" where
  "set_to_defaults sub fs dst m =
     (case pb_field_iter_begin fs dst of (some, it) \<Rightarrow>
        if \<not> some then Some m else for_fields (pb_field_set_to_default sub) it m)"

primrec pb_message_set_to_defaults :: "nat \<Rightarrow> pb_field_t list \<Rightarrow> int \<Rightarrow> bytes \<Rightarrow> bytes option" where
  "pb_message_set_to_defaults 0 = (\<lambda>fs dst m. None)"
| "pb_message_set_to_defaults (Suc k) = set_to_defaults (pb_message_set_to_defaults k)"

section \<open>Releasing\<close>

text \<open>Without pointers there is nothing to free, but the counts and the tags of unions are read. The items of an array of
  submessages, from the address \<open>p\<close> on.\<close>

primrec release_items :: "(int \<Rightarrow> bytes \<Rightarrow> bytes option) \<Rightarrow> nat \<Rightarrow> int \<Rightarrow> int \<Rightarrow> bytes \<Rightarrow> bytes option" where
  "release_items release 0 sz p m = Some m"
| "release_items release (Suc n) sz p m = Option.bind (release p m) (release_items release n sz (p + sz))"

definition pb_release_single_field ::
  "(pb_field_t list \<Rightarrow> int \<Rightarrow> bytes \<Rightarrow> bytes option) \<Rightarrow> pb_field_iter_t \<Rightarrow> bytes \<Rightarrow> bytes option" where
  "pb_release_single_field sub it m =
     (let f = pos_field it; ty = ftype f
      in Option.bind
           (if PB_HTYPE ty = PB_HTYPE_ONEOF
            then (case pSize it of Member p \<Rightarrow> map_option (\<lambda>bs. le_load bs = tag f) (load m p 4) | Fixed_count \<Rightarrow> None)
            else Some True)
           (\<lambda>current.
              if \<not> current then Some m
              else if PB_ATYPE ty = PB_ATYPE_POINTER then None
              else if PB_LTYPE ty = PB_LTYPE_EXTENSION then no_extensions it m
              else if PB_LTYPE ty = PB_LTYPE_SUBMESSAGE \<and> PB_ATYPE ty \<noteq> PB_ATYPE_CALLBACK then
                Option.bind
                  (if PB_HTYPE ty = PB_HTYPE_REPEATED
                   then if PB_ATYPE ty = PB_ATYPE_STATIC \<and> pSize it = Member (pData it) then Some (array_size f)
                        else (case pSize it of Member p \<Rightarrow> map_option le_load (load m p 4) | Fixed_count \<Rightarrow> None)
                   else Some 1)
                  (\<lambda>count.
                     let count = (if PB_HTYPE ty = PB_HTYPE_REPEATED \<and> PB_ATYPE ty = PB_ATYPE_STATIC \<and> count > array_size f then array_size f else count)
                     in if count = 0 then Some m
                        else case ptr f of
                          Submsg fs \<Rightarrow> release_items (sub fs) (unat count) (int (unat (data_size f))) (pData it) m
                        | _ \<Rightarrow> None)
              else Some m))"

definition release_fields ::
  "(pb_field_t list \<Rightarrow> int \<Rightarrow> bytes \<Rightarrow> bytes option) \<Rightarrow> pb_field_t list \<Rightarrow> int \<Rightarrow> bytes \<Rightarrow> bytes option" where
  "release_fields sub fs dst m =
     (case pb_field_iter_begin fs dst of (some, it) \<Rightarrow>
        if \<not> some then Some m else for_fields (pb_release_single_field sub) it m)"

primrec pb_release :: "nat \<Rightarrow> pb_field_t list \<Rightarrow> int \<Rightarrow> bytes \<Rightarrow> bytes option" where
  "pb_release 0 = (\<lambda>fs dst m. None)"
| "pb_release (Suc k) = release_fields (pb_release k)"

text \<open>The iterator is at the new field before and after; if the old tag is not one of the message, it has been lost.\<close>

definition pb_release_union_field ::
  "(pb_field_t list \<Rightarrow> int \<Rightarrow> bytes \<Rightarrow> bytes option) \<Rightarrow> pb_field_iter_t \<Rightarrow> (pb_field_iter_t \<Rightarrow> pb_decoder) \<Rightarrow> pb_decoder" where
  "pb_release_union_field sub it f =
     load_count (pSize it) (\<lambda>old_tag.
       let new_tag = tag (pos_field it)
       in if old_tag = 0 \<or> old_tag = new_tag then f it
          else (\<lambda>st. Option.bind (pb_field_iter_find it old_tag) (\<lambda>(found, it).
            if \<not> found then return_error ''invalid union tag'' st
            else Option.bind (pb_release_single_field sub it (memory st)) (\<lambda>m.
              Option.bind (pb_field_iter_find it new_tag) (\<lambda>(found, it).
                if \<not> found then return_error ''iterator error'' (st\<lparr>memory := m\<rparr>)
                else if PB_ATYPE (ftype (pos_field it)) = PB_ATYPE_POINTER then None
                else f it (st\<lparr>memory := m\<rparr>))))))"

section \<open>Decoding values\<close>

definition pb_dec_bool :: "pb_field_t \<Rightarrow> int \<Rightarrow> pb_decoder" where
  "pb_dec_bool f dst = on_stream pb_decode_varint32 (\<lambda>v. storing dst [if v \<noteq> 0 then 1 else 0] (returns True))"

text \<open>The value that a member of \<open>n\<close> bytes has after \<open>v\<close> has been cast to its signed or unsigned type; the cast takes
  the low bytes.\<close>

definition signed_member :: "nat \<Rightarrow> u64 \<Rightarrow> u64" where
  "signed_member n v = (if n = 8 then v else if n = 4 then scast (ucast v :: u32) else if n = 2 then scast (ucast v :: u16) else scast (ucast v :: u8))"

definition unsigned_member :: "nat \<Rightarrow> u64 \<Rightarrow> u64" where
  "unsigned_member n v = (if n = 8 then v else if n = 4 then ucast (ucast v :: u32) else if n = 2 then ucast (ucast v :: u16) else ucast (ucast v :: u8))"

definition store_member :: "(nat \<Rightarrow> u64 \<Rightarrow> u64) \<Rightarrow> pb_field_t \<Rightarrow> int \<Rightarrow> u64 \<Rightarrow> pb_decoder" where
  "store_member cast f dst v =
     (let n = unat (data_size f)
      in if n \<in> {1, 2, 4, 8}
         then storing dst (le_store n v) (if cast n v \<noteq> v then return_error ''integer too large'' else returns True)
         else return_error ''invalid data_size'')"

definition pb_dec_varint :: "pb_field_t \<Rightarrow> int \<Rightarrow> pb_decoder" where
  "pb_dec_varint f dst = on_stream pb_decode_varint (\<lambda>v.
     store_member signed_member f dst (if data_size f = 8 then v else scast (ucast v :: u32)))"

definition pb_dec_uvarint :: "pb_field_t \<Rightarrow> int \<Rightarrow> pb_decoder" where
  "pb_dec_uvarint f dst = on_stream pb_decode_varint (store_member unsigned_member f dst)"

definition pb_dec_svarint :: "pb_field_t \<Rightarrow> int \<Rightarrow> pb_decoder" where
  "pb_dec_svarint f dst = on_stream pb_decode_svarint (store_member signed_member f dst)"

definition pb_dec_fixed32 :: "pb_field_t \<Rightarrow> int \<Rightarrow> pb_decoder" where
  "pb_dec_fixed32 f dst = on_stream pb_decode_fixed32 (\<lambda>v. storing dst (le_store 4 v) (returns True))"

definition pb_dec_fixed64 :: "pb_field_t \<Rightarrow> int \<Rightarrow> pb_decoder" where
  "pb_dec_fixed64 f dst = on_stream pb_decode_fixed64 (\<lambda>v. storing dst (le_store 8 v) (returns True))"

text \<open>The bytes of a \<open>pb_bytes_array_t\<close> come after its size of four bytes.\<close>

definition pb_dec_bytes :: "pb_field_t \<Rightarrow> int \<Rightarrow> pb_decoder" where
  "pb_dec_bytes f dst = on_stream pb_decode_varint32 (\<lambda>size.
     if size > PB_SIZE_MAX then return_error ''bytes overflow''
     else
       let alloc_size = unat size + 4
       in if unat size > alloc_size then return_error ''size too large''
          else if PB_ATYPE (ftype f) = PB_ATYPE_POINTER then (\<lambda>_. None)
          else if alloc_size > unat (data_size f) then return_error ''bytes overflow''
          else storing dst (le_store 4 size) (on_stream (pb_read (unat size)) (\<lambda>bs. storing (dst + 4) bs (returns True))))"

text \<open>The addition of the terminator's byte is one of 32 bits.\<close>

definition pb_dec_string :: "pb_field_t \<Rightarrow> int \<Rightarrow> pb_decoder" where
  "pb_dec_string f dst = on_stream pb_decode_varint32 (\<lambda>size.
     let alloc_size = size + 1
     in if alloc_size < size then return_error ''size too large''
        else if PB_ATYPE (ftype f) = PB_ATYPE_POINTER then (\<lambda>_. None)
        else if alloc_size > data_size f then return_error ''string overflow''
        else (\<lambda>st.
          case pb_read (unat size) (stream st) of
            (None, s) \<Rightarrow> storing (dst + int (unat size)) [0] (returns False) (st\<lparr>stream := s\<rparr>)
          | (Some bs, s) \<Rightarrow> storing dst bs (storing (dst + int (unat size)) [0] (returns True)) (st\<lparr>stream := s\<rparr>)))"

text \<open>Running a decoder on a substream, which is closed whatever the decoder returns. The local count of the caller is
  not that of the decoder.\<close>

definition in_substream :: "pb_istream_t \<Rightarrow> pb_decoder \<Rightarrow> pb_decoder" where
  "in_substream sub_stream r st =
     Option.bind (r (st\<lparr>stream := sub_stream\<rparr>)) (\<lambda>(status, st').
       case pb_close_string_substream (stream st') (stream st) of
         (None, s) \<Rightarrow> Some (False, st'\<lparr>stream := s, fixed_count_size := fixed_count_size st\<rparr>)
       | (Some _, s) \<Rightarrow> Some (status, st'\<lparr>stream := s, fixed_count_size := fixed_count_size st\<rparr>))"

text \<open>\<open>sub\<close> is \<open>pb_decode\<close> or, if its first argument is false, \<open>pb_decode_noinit\<close>.\<close>

type_synonym sub_decoder = "bool \<Rightarrow> pb_field_t list \<Rightarrow> int \<Rightarrow> pb_decoder"

definition pb_dec_submessage :: "sub_decoder \<Rightarrow> pb_field_t \<Rightarrow> int \<Rightarrow> pb_decoder" where
  "pb_dec_submessage sub f dst = on_stream pb_make_string_substream (\<lambda>substream.
     case ptr f of
       NULL \<Rightarrow> return_error ''invalid field descriptor''
     | Submsg fs \<Rightarrow> in_substream substream (sub (PB_HTYPE (ftype f) = PB_HTYPE_REPEATED) fs dst)
     | Default _ \<Rightarrow> (\<lambda>_. None))"

definition pb_dec_fixed_length_bytes :: "pb_field_t \<Rightarrow> int \<Rightarrow> pb_decoder" where
  "pb_dec_fixed_length_bytes f dst = on_stream pb_decode_varint32 (\<lambda>size.
     if size > PB_SIZE_MAX then return_error ''bytes overflow''
     else if size = 0 then storing dst (replicate (unat (data_size f)) 0) (returns True)
     else if size \<noteq> data_size f then return_error ''incorrect fixed length bytes size''
     else on_stream (pb_read (unat (data_size f))) (\<lambda>bs. storing dst bs (returns True)))"

text \<open>The array of function pointers, with a null pointer for extensions.\<close>

definition PB_DECODERS :: "sub_decoder \<Rightarrow> u8 \<Rightarrow> pb_field_t \<Rightarrow> int \<Rightarrow> pb_decoder" where
  "PB_DECODERS sub lt =
     (if lt = PB_LTYPE_BOOL then pb_dec_bool
      else if lt = PB_LTYPE_VARINT then pb_dec_varint
      else if lt = PB_LTYPE_UVARINT then pb_dec_uvarint
      else if lt = PB_LTYPE_SVARINT then pb_dec_svarint
      else if lt = PB_LTYPE_FIXED32 then pb_dec_fixed32
      else if lt = PB_LTYPE_FIXED64 then pb_dec_fixed64
      else if lt = PB_LTYPE_BYTES then pb_dec_bytes
      else if lt = PB_LTYPE_STRING then pb_dec_string
      else if lt = PB_LTYPE_SUBMESSAGE then pb_dec_submessage sub
      else if lt = PB_LTYPE_FIXED_LENGTH_BYTES then pb_dec_fixed_length_bytes
      else (\<lambda>_ _ _. None))"


section \<open>Decoding fields\<close>

text \<open>The loop over a packed array, on its substream; it ends because the count grows.\<close>

partial_function (option) packed_loop :: "(int \<Rightarrow> pb_decoder) \<Rightarrow> pb_field_iter_t \<Rightarrow> pb_decoder" where
  "packed_loop func it st =
     Option.bind (get_count (pSize it) st) (\<lambda>n.
       if bytes_left (stream st) > 0 \<and> n < array_size (pos_field it) then
         Option.bind (func (pData it + int (unat (data_size (pos_field it) * n))) st) (\<lambda>(status, st).
           if \<not> status then Some (False, st)
           else Option.bind (load_count (pSize it) (\<lambda>n. store_count (pSize it) (n + 1) (returns True)) st) (\<lambda>(_, st).
             packed_loop func it st))
       else Some (True, st))"

lemma packed_loop_code [code]:
  "packed_loop func it st =
     (case get_count (pSize it) st of
        None \<Rightarrow> None
      | Some n \<Rightarrow>
          if bytes_left (stream st) > 0 \<and> n < array_size (pos_field it) then
            (case func (pData it + int (unat (data_size (pos_field it) * n))) st of
               None \<Rightarrow> None
             | Some (status, st) \<Rightarrow>
                 if \<not> status then Some (False, st)
                 else (case load_count (pSize it) (\<lambda>n. store_count (pSize it) (n + 1) (returns True)) st of
                         None \<Rightarrow> None
                       | Some (_, st) \<Rightarrow> packed_loop func it st))
          else Some (True, st))"
  by (subst packed_loop.simps) (auto split: option.splits)

definition decode_static_field :: "nat \<Rightarrow> sub_decoder \<Rightarrow> pb_wire_type_t \<Rightarrow> pb_field_iter_t \<Rightarrow> pb_decoder" where
  "decode_static_field k sub wt it =
     (let f = pos_field it; ty = ftype f; func = PB_DECODERS sub (PB_LTYPE ty) f
      in if PB_HTYPE ty = PB_HTYPE_REQUIRED then func (pData it)
         else if PB_HTYPE ty = PB_HTYPE_OPTIONAL then
           (if pSize it \<noteq> Member (pData it)
            then (case pSize it of Member p \<Rightarrow> storing p [1] (func (pData it)) | Fixed_count \<Rightarrow> (\<lambda>_. None))
            else func (pData it))
         else if PB_HTYPE ty = PB_HTYPE_REPEATED then
           (if wt = PB_WT_STRING \<and> PB_LTYPE ty \<le> PB_LTYPE_LAST_PACKABLE then
              on_stream pb_make_string_substream (\<lambda>substream st.
                Option.bind (packed_loop func it (st\<lparr>stream := substream\<rparr>)) (\<lambda>(status, st').
                  if bytes_left (stream st') \<noteq> 0 then return_error ''array overflow'' (st'\<lparr>stream := stream st\<rparr>)
                  else case pb_close_string_substream (stream st') (stream st) of
                    (None, s) \<Rightarrow> Some (False, st'\<lparr>stream := s\<rparr>)
                  | (Some _, s) \<Rightarrow> Some (status, st'\<lparr>stream := s\<rparr>)))
            else
              load_count (pSize it) (\<lambda>n.
                store_count (pSize it) (n + 1)
                  (if n \<ge> array_size f then return_error ''array overflow''
                   else func (pData it + int (unat (data_size f * n))))))
         else
           load_count (pSize it) (\<lambda>which st.
             Option.bind
               (if PB_LTYPE ty = PB_LTYPE_SUBMESSAGE \<and> which \<noteq> tag f
                then (case ptr f of
                        Submsg fs \<Rightarrow> Option.bind (store (memory st) (pData it) (replicate (unat (data_size f)) 0))
                          (pb_message_set_to_defaults k fs (pData it))
                      | _ \<Rightarrow> None)
                else Some (memory st))
               (\<lambda>m. store_count (pSize it) (tag f) (func (pData it)) (st\<lparr>memory := m\<rparr>))))"

text \<open>The callback is called until it has read all of its substream. The structure has the pointer to the function and then
  the argument.\<close>

partial_function (option) callback_loop :: "callbacks \<Rightarrow> u64 \<Rightarrow> pb_field_t \<Rightarrow> int \<Rightarrow> pb_decoder" where
  "callback_loop h fn f argp st =
     Option.bind (load (memory st) argp 8) (\<lambda>arg.
       case h fn f (le_load arg) (stream st) of
         (status, arg', s) \<Rightarrow>
           Option.bind (store (memory st) argp (le_store 8 arg')) (\<lambda>m.
             if \<not> status then Some (False, st\<lparr>memory := m, stream := s\<rparr>)
             else if bytes_left s > 0 then callback_loop h fn f argp (st\<lparr>memory := m, stream := s\<rparr>)
             else Some (True, st\<lparr>memory := m, stream := s\<rparr>)))"

lemma callback_loop_code [code]:
  "callback_loop h fn f argp st =
     (case load (memory st) argp 8 of
        None \<Rightarrow> None
      | Some arg \<Rightarrow>
          (case h fn f (le_load arg) (stream st) of
             (status, arg', s) \<Rightarrow>
               (case store (memory st) argp (le_store 8 arg') of
                  None \<Rightarrow> None
                | Some m \<Rightarrow>
                    if \<not> status then Some (False, st\<lparr>memory := m, stream := s\<rparr>)
                    else if bytes_left s > 0 then callback_loop h fn f argp (st\<lparr>memory := m, stream := s\<rparr>)
                    else Some (True, st\<lparr>memory := m, stream := s\<rparr>))))"
  by (subst callback_loop.simps) (simp split: prod.split option.split)

definition decode_callback_field :: "callbacks \<Rightarrow> pb_wire_type_t \<Rightarrow> pb_field_iter_t \<Rightarrow> pb_decoder" where
  "decode_callback_field h wt it =
     loading (pData it) 8 (\<lambda>fn.
       let fn = le_load fn :: u64; argp = pData it + 8; f = pos_field it
       in if fn = 0 then on_stream (pb_skip_field wt) (\<lambda>_. returns True)
          else if wt = PB_WT_STRING then
            on_stream pb_make_string_substream (\<lambda>substream st.
              Option.bind (callback_loop h fn f argp (st\<lparr>stream := substream\<rparr>)) (\<lambda>(status, st').
                if \<not> status then return_error ''callback failed'' (st'\<lparr>stream := stream st\<rparr>)
                else case pb_close_string_substream (stream st') (stream st) of
                  (None, s) \<Rightarrow> Some (False, st'\<lparr>stream := s\<rparr>)
                | (Some _, s) \<Rightarrow> Some (True, st'\<lparr>stream := s\<rparr>)))
          else
            on_stream (read_raw_value wt 10) (\<lambda>buffer.
              loading argp 8 (\<lambda>arg st.
                case h fn f (le_load arg) (pb_istream_from_buffer buffer (length buffer)) of
                  (status, arg', _) \<Rightarrow> storing argp (le_store 8 arg') (returns status) st)))"

text \<open>The switch over the kinds of allocation, after the union.\<close>

definition decode_any :: "callbacks \<Rightarrow> nat \<Rightarrow> sub_decoder \<Rightarrow> pb_wire_type_t \<Rightarrow> pb_field_iter_t \<Rightarrow> pb_decoder" where
  "decode_any h k sub wt it =
     (if PB_ATYPE (ftype (pos_field it)) = PB_ATYPE_STATIC then decode_static_field k sub wt it
      else if PB_ATYPE (ftype (pos_field it)) = PB_ATYPE_POINTER then (\<lambda>_. None)
      else if PB_ATYPE (ftype (pos_field it)) = PB_ATYPE_CALLBACK then decode_callback_field h wt it
      else return_error ''invalid field type'')"

definition decode_field :: "callbacks \<Rightarrow> nat \<Rightarrow> sub_decoder \<Rightarrow> pb_wire_type_t \<Rightarrow> pb_field_iter_t \<Rightarrow> pb_decoder" where
  "decode_field h k sub wt it =
     (if PB_HTYPE (ftype (pos_field it)) = PB_HTYPE_ONEOF then pb_release_union_field (pb_release k) it (decode_any h k sub wt)
      else decode_any h k sub wt it)"

section \<open>Decoding messages\<close>

definition decode_extension :: "pb_field_iter_t \<Rightarrow> pb_decoder" where
  "decode_extension it = (\<lambda>st. map_option (\<lambda>_. (True, st)) (no_extensions it (memory st)))"

text \<open>The local variables of the loop over the fields of a message: the iterator, the bits of the required fields that have been
  seen, the smallest tag of an extension and the position of the last fixed-size array.\<close>

record loop_vars =
  iter :: pb_field_iter_t
  fields_seen :: "u32 list"
  extension_range_start :: u32
  fixed_count_field :: "nat option"

definition skip_unknown :: "pb_wire_type_t \<Rightarrow> pb_decoder" where
  "skip_unknown wt = on_stream (pb_skip_field wt) (\<lambda>_. returns True)"

text \<open>A field whose tag is not in the descriptor: an extension could take it, and otherwise it is skipped.\<close>

definition decode_unknown :: "u32 \<Rightarrow> pb_wire_type_t \<Rightarrow> loop_vars \<Rightarrow> dstate \<Rightarrow> (bool \<times> loop_vars \<times> dstate) option" where
  "decode_unknown t wt v st =
     (if t \<ge> extension_range_start v then
        Option.bind (find_extension_field (iter v)) (\<lambda>(found, it).
          let v = v\<lparr>iter := it, extension_range_start := (if found then tag (pos_field it) else -1)\<rparr>
          in if t \<ge> extension_range_start v then
               Option.bind (decode_extension it st) (\<lambda>(status, st').
                 if \<not> status then Some (False, v, st')
                 else if bytes_left (stream st') \<noteq> bytes_left (stream st) then Some (True, v, st')
                 else map_option (\<lambda>(status, st'). (status, v, st')) (skip_unknown wt st'))
             else map_option (\<lambda>(status, st'). (status, v, st')) (skip_unknown wt st))
      else map_option (\<lambda>(status, st'). (status, v, st')) (skip_unknown wt st))"

text \<open>A field of the descriptor, at which the iterator is.\<close>

definition decode_known ::
  "(pb_wire_type_t \<Rightarrow> pb_field_iter_t \<Rightarrow> pb_decoder) \<Rightarrow> pb_wire_type_t \<Rightarrow> loop_vars \<Rightarrow> dstate \<Rightarrow> (bool \<times> loop_vars \<times> dstate) option" where
  "decode_known field wt v st =
     (let it = iter v; f = pos_field it; fixed = (PB_HTYPE (ftype f) = PB_HTYPE_REPEATED \<and> pSize it = Member (pData it));
          other = (fixed \<and> fixed_count_field v \<noteq> Some (pos it))
      in if other \<and> (case fixed_count_field v of None \<Rightarrow> False | Some i \<Rightarrow> fixed_count_size st \<noteq> array_size (field_at (start it) i))
         then map_option (\<lambda>(status, st'). (status, v, st')) (return_error ''wrong size for fixed count field'' st)
         else
           let v = (if other then v\<lparr>fixed_count_field := Some (pos it)\<rparr> else v);
               st = (if other then st\<lparr>fixed_count_size := 0\<rparr> else st);
               it = (if fixed then it\<lparr>pSize := Fixed_count\<rparr> else it);
               i = required_field_index it;
               v = v\<lparr>iter := it,
                     fields_seen := (if PB_HTYPE (ftype f) = PB_HTYPE_REQUIRED \<and> i < PB_MAX_REQUIRED_FIELDS
                       then (fields_seen v)[i div 32 := fields_seen v ! (i div 32) OR push_bit (i mod 32) 1] else fields_seen v)\<rparr>
           in map_option (\<lambda>(status, st'). (status, v, st')) (field wt it st))"

text \<open>The loop; the boolean is false if a field could not be decoded.\<close>

partial_function (option) decode_loop ::
  "(pb_wire_type_t \<Rightarrow> pb_field_iter_t \<Rightarrow> pb_decoder) \<Rightarrow> loop_vars \<Rightarrow> dstate \<Rightarrow> (bool \<times> loop_vars \<times> dstate) option" where
  "decode_loop field v st =
     (if bytes_left (stream st) = 0 then Some (True, v, st)
      else case pb_decode_tag (stream st) of
        (None, eof, s) \<Rightarrow> Some (eof, v, st\<lparr>stream := s\<rparr>)
      | (Some (wt, t), _, s) \<Rightarrow>
          Option.bind (pb_field_iter_find (iter v) t) (\<lambda>(found, it).
            Option.bind
              (if found then decode_known field wt (v\<lparr>iter := it\<rparr>) (st\<lparr>stream := s\<rparr>)
               else decode_unknown t wt (v\<lparr>iter := it\<rparr>) (st\<lparr>stream := s\<rparr>))
              (\<lambda>(status, v, st). if \<not> status then Some (False, v, st) else decode_loop field v st)))"

lemma decode_loop_code [code]:
  "decode_loop field v st =
     (if bytes_left (stream st) = 0 then Some (True, v, st)
      else case pb_decode_tag (stream st) of
        (None, eof, s) \<Rightarrow> Some (eof, v, st\<lparr>stream := s\<rparr>)
      | (Some (wt, t), _, s) \<Rightarrow>
          (case pb_field_iter_find (iter v) t of
             None \<Rightarrow> None
           | Some (found, it) \<Rightarrow>
               (case if found then decode_known field wt (v\<lparr>iter := it\<rparr>) (st\<lparr>stream := s\<rparr>)
                     else decode_unknown t wt (v\<lparr>iter := it\<rparr>) (st\<lparr>stream := s\<rparr>) of
                  None \<Rightarrow> None
                | Some (status, v, st) \<Rightarrow> if \<not> status then Some (False, v, st) else decode_loop field v st)))"
  by (subst decode_loop.simps) (simp split: prod.split option.split)

text \<open>The number of required fields, at the end of the descriptor.\<close>

function required_fields :: "pb_field_iter_t \<Rightarrow> nat" where
  "required_fields it =
     (case pb_field_iter_next it of
        (again, it') \<Rightarrow>
          if again then required_fields it'
          else if PB_HTYPE (ftype (pos_field it)) = PB_HTYPE_REQUIRED \<and> tag (pos_field it') \<noteq> 0
          then required_field_index it + 1 else required_field_index it)"
  by pat_completeness auto
termination
  by (relation "measure (\<lambda>it. length (start it) - pos it)") (auto dest: sym [THEN iter_next_pos])

declare required_fields.simps [simp del]

definition all_seen :: "nat \<Rightarrow> u32 list \<Rightarrow> bool" where
  "all_seen n seen =
     (let n = (if n > PB_MAX_REQUIRED_FIELDS then PB_MAX_REQUIRED_FIELDS else n)
      in n = 0 \<or> (list_all (\<lambda>i. seen ! i = -1) [0..<n div 32] \<and>
           (n mod 32 = 0 \<or> seen ! (n div 32) = drop_bit (32 - n mod 32) (-1))))"

definition decode_noinit ::
  "(pb_wire_type_t \<Rightarrow> pb_field_iter_t \<Rightarrow> pb_decoder) \<Rightarrow> pb_field_t list \<Rightarrow> int \<Rightarrow> pb_decoder" where
  "decode_noinit field fs dst st =
     Option.bind
       (decode_loop field \<lparr>iter = snd (pb_field_iter_begin fs dst), fields_seen = [0, 0], extension_range_start = 0, fixed_count_field = None\<rparr>
          (st\<lparr>fixed_count_size := 0\<rparr>))
       (\<lambda>(status, v, st).
          if \<not> status then Some (False, st)
          else if (case fixed_count_field v of None \<Rightarrow> False | Some i \<Rightarrow> fixed_count_size st \<noteq> array_size (field_at fs i))
          then return_error ''wrong size for fixed count field'' st
          else if \<not> all_seen (required_fields (iter v)) (fields_seen v) then return_error ''missing required field'' st
          else Some (True, st))"

text \<open>\<open>pb_decode\<close>, with the \<open>pb_decode_noinit\<close> that it calls.\<close>

definition decode_init :: "nat \<Rightarrow> (pb_field_t list \<Rightarrow> int \<Rightarrow> pb_decoder) \<Rightarrow> pb_field_t list \<Rightarrow> int \<Rightarrow> pb_decoder" where
  "decode_init k noinit fs dst st =
     Option.bind (pb_message_set_to_defaults k fs dst (memory st)) (\<lambda>m.
       Option.bind (noinit fs dst (st\<lparr>memory := m\<rparr>)) (\<lambda>(status, st).
         if status then Some (True, st)
         else map_option (\<lambda>m. (False, st\<lparr>memory := m\<rparr>)) (pb_release k fs dst (memory st))))"

primrec pb_decode_noinit :: "callbacks \<Rightarrow> nat \<Rightarrow> pb_field_t list \<Rightarrow> int \<Rightarrow> pb_decoder" where
  "pb_decode_noinit h 0 = (\<lambda>fs dst st. None)"
| "pb_decode_noinit h (Suc k) = decode_noinit (decode_field h k (\<lambda>initialize.
      if initialize then decode_init k (pb_decode_noinit h k) else pb_decode_noinit h k))"

text \<open>How deep submessages are nested in a descriptor.\<close>

function depth :: "pb_field_t list \<Rightarrow> nat" where
  "depth [] = 1"
| "depth (f # fs) = max (case ptr f of Submsg sub \<Rightarrow> Suc (depth sub) | _ \<Rightarrow> 1) (depth fs)"
  by pat_completeness auto
termination
proof (relation "measure (size_list size)")
  show "ptr f = Submsg sub \<Longrightarrow> (sub, f # fs) \<in> measure (size_list size)" for f sub fs
    using size_submsg [of f sub] by simp
qed simp_all

definition pb_decode :: "callbacks \<Rightarrow> pb_field_t list \<Rightarrow> int \<Rightarrow> pb_decoder" where
  "pb_decode h fs = decode_init (depth fs) (pb_decode_noinit h (depth fs)) fs"

definition pb_decode_delimited_noinit :: "callbacks \<Rightarrow> pb_field_t list \<Rightarrow> int \<Rightarrow> pb_decoder" where
  "pb_decode_delimited_noinit h fs dst =
     on_stream pb_make_string_substream (\<lambda>substream. in_substream substream (pb_decode_noinit h (depth fs) fs dst))"

definition pb_decode_delimited :: "callbacks \<Rightarrow> pb_field_t list \<Rightarrow> int \<Rightarrow> pb_decoder" where
  "pb_decode_delimited h fs dst =
     on_stream pb_make_string_substream (\<lambda>substream. in_substream substream (pb_decode h fs dst))"

definition pb_decode_nullterminated :: "callbacks \<Rightarrow> pb_field_t list \<Rightarrow> int \<Rightarrow> pb_decoder" where
  "pb_decode_nullterminated h fs dst = pb_decode h fs dst"

section \<open>Decoders that stay inside a structure\<close>

text \<open>A decoder is safe for the part of the memory from \<open>lo\<close> to \<open>hi\<close> if it always has a result, changes the memory there only, and
  leaves a part of the stream.\<close>

definition safe :: "int \<Rightarrow> int \<Rightarrow> pb_decoder \<Rightarrow> bool" where
  "safe lo hi r \<longleftrightarrow> (\<forall>st. 0 \<le> lo \<longrightarrow> hi \<le> int (length (memory st)) \<longrightarrow> istream_ok (stream st) \<longrightarrow>
     (\<exists>b st'. r st = Some (b, st') \<and> within (stream st) (stream st') \<and> same_outside lo hi (memory st) (memory st')))"

named_theorems safe_intros \<open>safe decoders\<close>

lemma safeD:
  assumes "safe lo hi r" "0 \<le> lo" "hi \<le> int (length (memory st))" "istream_ok (stream st)"
  obtains b st' where "r st = Some (b, st')" "within (stream st) (stream st')" "same_outside lo hi (memory st) (memory st')"
    "istream_ok (stream st')" "length (memory st') = length (memory st)"
proof -
  obtain b st' where r: "r st = Some (b, st')" "within (stream st) (stream st')" "same_outside lo hi (memory st) (memory st')"
    using assms unfolding safe_def by blast
  show thesis by (rule that [OF r within_ok [OF r(2) assms(4)]]) (use r(3) in \<open>simp add: same_outside_def\<close>)
qed

lemma safeI:
  assumes "\<And>st. 0 \<le> lo \<Longrightarrow> hi \<le> int (length (memory st)) \<Longrightarrow> istream_ok (stream st) \<Longrightarrow>
     \<exists>b st'. r st = Some (b, st') \<and> within (stream st) (stream st') \<and> same_outside lo hi (memory st) (memory st')"
  shows "safe lo hi r"
  using assms by (simp add: safe_def)

lemma safe_mono: "safe lo' hi' r \<Longrightarrow> lo \<le> lo' \<Longrightarrow> hi' \<le> hi \<Longrightarrow> safe lo hi r"
  unfolding safe_def by (meson order_trans same_outside_mono)

lemma safe_returns [safe_intros]: "safe lo hi (returns b)"
  by (simp add: safe_def returns_def)

text \<open>A continuation after a step from \<open>st\<close> to \<open>st1\<close>.\<close>

lemma safe_continue:
  fixes st st1 :: dstate
  assumes "safe lo hi r" "0 \<le> lo" "hi \<le> int (length (memory st))" "istream_ok (stream st)"
    "within (stream st) (stream st1)" "same_outside lo hi (memory st) (memory st1)"
  shows "\<exists>b st'. r st1 = Some (b, st') \<and> within (stream st) (stream st') \<and> same_outside lo hi (memory st) (memory st')"
proof -
  have "istream_ok (stream st1)" using assms(4,5) by (rule within_ok [rotated])
  moreover have "hi \<le> int (length (memory st1))" using assms(3,6) by (simp add: same_outside_def)
  ultimately obtain b st' where "r st1 = Some (b, st')" "within (stream st1) (stream st')" "same_outside lo hi (memory st1) (memory st')"
    using assms(1,2) by (blast elim: safeD)
  then show ?thesis using assms(5,6) by (blast intro: within_trans same_outside_trans)
qed

lemma safe_on_stream:
  assumes "keeps_within r" "\<And>s a s'. istream_ok s \<Longrightarrow> r s = (Some a, s') \<Longrightarrow> safe lo hi (f a)"
  shows "safe lo hi (on_stream r f)"
proof (rule safeI)
  fix st :: dstate
  assume st: "0 \<le> lo" "hi \<le> int (length (memory st))" "istream_ok (stream st)"
  obtain a s where r: "r (stream st) = (a, s)" by (cases "r (stream st)")
  have w: "within (stream st) s" using keeps_withinD [OF assms(1) r] .
  show "\<exists>b st'. on_stream r f st = Some (b, st') \<and> within (stream st) (stream st') \<and> same_outside lo hi (memory st) (memory st')"
  proof (cases a)
    case None
    then show ?thesis using r w by (simp add: on_stream_def) (rule exI [of _ False], simp)
  next
    case (Some v)
    have "safe lo hi (f v)" using assms(2) st(3) r Some by blast
    from safe_continue [OF this st, of "st\<lparr>stream := s\<rparr>"] show ?thesis using r w Some by (simp add: on_stream_def)
  qed
qed

lemma safe_return_error [safe_intros]: "safe lo hi (return_error msg)"
  unfolding return_error_def by (rule safe_on_stream) (simp, simp add: PB_RETURN_ERROR_def)

lemma safe_storing [safe_intros]:
  assumes "lo \<le> p" "p + int (length bs) \<le> hi" "safe lo hi f"
  shows "safe lo hi (storing p bs f)"
proof (rule safeI)
  fix st :: dstate
  assume st: "0 \<le> lo" "hi \<le> int (length (memory st))" "istream_ok (stream st)"
  obtain m where m: "store (memory st) p bs = Some m" "same_outside lo hi (memory st) m"
    using store_Some [OF st(1,2) assms(1,2)] by blast
  from safe_continue [OF assms(3) st, of "st\<lparr>memory := m\<rparr>"] m
  show "\<exists>b st'. storing p bs f st = Some (b, st') \<and> within (stream st) (stream st') \<and> same_outside lo hi (memory st) (memory st')"
    by (simp add: storing_def)
qed

lemma safe_loading [safe_intros]:
  assumes "lo \<le> p" "p + int n \<le> hi" "\<And>bs. length bs = n \<Longrightarrow> safe lo hi (f bs)"
  shows "safe lo hi (loading p n f)"
proof (rule safeI)
  fix st :: dstate
  assume st: "0 \<le> lo" "hi \<le> int (length (memory st))" "istream_ok (stream st)"
  obtain bs where bs: "load (memory st) p n = Some bs" "length bs = n" using load_Some [of p n "memory st"] st assms(1,2) by auto
  from safe_continue [OF assms(3) [OF bs(2)] st, of st] bs
  show "\<exists>b st'. loading p n f st = Some (b, st') \<and> within (stream st) (stream st') \<and> same_outside lo hi (memory st) (memory st')"
    by (simp add: loading_def)
qed

text \<open>A pointer to a count is good if it is the local variable or a member inside.\<close>

definition count_ok :: "int \<Rightarrow> int \<Rightarrow> size_ptr \<Rightarrow> bool" where
  "count_ok lo hi p \<longleftrightarrow> (case p of Member q \<Rightarrow> lo \<le> q \<and> q + 4 \<le> hi | Fixed_count \<Rightarrow> True)"

lemma get_count_Some:
  fixes st :: dstate
  assumes "count_ok lo hi p" "0 \<le> lo" "hi \<le> int (length (memory st))"
  shows "\<exists>n. get_count p st = Some n"
proof (cases p)
  case (Member q)
  then obtain bs where "load (memory st) q 4 = Some bs" using assms load_Some [of q 4 "memory st"] by (auto simp: count_ok_def)
  then show ?thesis using Member by (simp add: get_count_def)
qed (simp add: get_count_def)

lemma safe_load_count [safe_intros]:
  assumes "count_ok lo hi p" "\<And>n. safe lo hi (f n)"
  shows "safe lo hi (load_count p f)"
proof (rule safeI)
  fix st :: dstate
  assume st: "0 \<le> lo" "hi \<le> int (length (memory st))" "istream_ok (stream st)"
  obtain n where "get_count p st = Some n" using get_count_Some [OF assms(1) st(1,2)] by blast
  with safe_continue [OF assms(2) st, of st]
  show "\<exists>b st'. load_count p f st = Some (b, st') \<and> within (stream st) (stream st') \<and> same_outside lo hi (memory st) (memory st')"
    by (simp add: load_count_def)
qed

lemma safe_store_count [safe_intros]:
  assumes "count_ok lo hi p" "safe lo hi f"
  shows "safe lo hi (store_count p n f)"
proof (cases p)
  case (Member q)
  then show ?thesis using assms by (auto simp: store_count_def count_ok_def intro!: safe_storing)
next
  case Fixed_count
  show ?thesis
  proof (rule safeI)
    fix st :: dstate
    assume st: "0 \<le> lo" "hi \<le> int (length (memory st))" "istream_ok (stream st)"
    from safe_continue [OF assms(2) st, of "st\<lparr>fixed_count_size := n\<rparr>"] Fixed_count
    show "\<exists>b st'. store_count p n f st = Some (b, st') \<and> within (stream st) (stream st') \<and> same_outside lo hi (memory st) (memory st')"
      by (simp add: store_count_def)
  qed
qed

text \<open>Something done on a substream, which is closed afterwards.\<close>

lemma substream_close:
  assumes "pb_make_string_substream s = (Some sub, s2)" "istream_ok s"
  shows "istream_ok sub" "within s s2" "within sub sub' \<Longrightarrow> pb_close_string_substream sub' s2 = (r, s') \<Longrightarrow> within s s'"
proof -
  from within_make [OF assms(1)] obtain t where t: "within s s2" "within s t" "bytes_left sub \<le> bytes_left t"
    "sub = t\<lparr>bytes_left := bytes_left sub\<rparr>" "s2 = t\<lparr>bytes_left := bytes_left t - bytes_left sub\<rparr>" by blast
  have ok: "istream_ok t" using t(2) assms(2) by (rule within_ok)
  then show "istream_ok sub" using t(3) by (subst t(4)) (simp add: istream_ok_def)
  show "within s s2" by (rule t(1))
  assume "within sub sub'" "pb_close_string_substream sub' s2 = (r, s')"
  then have "within t s'" using within_close [OF ok t(3), of sub' r s'] t(4,5) by simp
  with t(2) show "within s s'" by (rule within_trans)
qed

lemma keeps_within_make: "keeps_within pb_make_string_substream"
  unfolding keeps_within_def
proof
  show "within s (snd (pb_make_string_substream s))" for s
    using within_make [of s "fst (pb_make_string_substream s)" "snd (pb_make_string_substream s)"] by simp
qed

lemma safe_substream:
  assumes "safe lo hi r"
    and "\<And>s s2 sub st' status. istream_ok s \<Longrightarrow> pb_make_string_substream s = (Some sub, s2) \<Longrightarrow> within sub (stream st') \<Longrightarrow>
      \<exists>b s'. finish status st' s2 = (b, s') \<and> within s s'"
    and "\<And>sub st. f sub st = Option.bind (r (st\<lparr>stream := sub\<rparr>)) (\<lambda>(status, st').
      case finish status st' (stream st) of (b, s') \<Rightarrow> Some (b, st'\<lparr>stream := s', fixed_count_size := count st st'\<rparr>))"
  shows "safe lo hi (on_stream pb_make_string_substream f)"
proof (rule safeI)
  fix st :: dstate
  assume st: "0 \<le> lo" "hi \<le> int (length (memory st))" "istream_ok (stream st)"
  obtain a s2 where m: "pb_make_string_substream (stream st) = (a, s2)" by fastforce
  show "\<exists>b st'. on_stream pb_make_string_substream f st = Some (b, st') \<and> within (stream st) (stream st') \<and> same_outside lo hi (memory st) (memory st')"
  proof (cases a)
    case None
    then show ?thesis using m keeps_withinD [OF keeps_within_make m] by (simp add: on_stream_def) (rule exI [of _ False], simp)
  next
    case (Some sub)
    have sub: "istream_ok sub" using substream_close(1) m st(3) Some by blast
    obtain status st' where r: "r (st\<lparr>stream := sub\<rparr>) = Some (status, st')" "within sub (stream st')" "same_outside lo hi (memory st) (memory st')"
      by (rule safeD [OF assms(1) st(1), of "st\<lparr>stream := sub\<rparr>"]) (use st(2) sub that in auto)
    obtain b s' where e: "finish status st' s2 = (b, s')" "within (stream st) s'" using assms(2) [OF st(3) _ r(2)] m Some by blast
    show ?thesis using m Some r e by (auto simp: on_stream_def assms(3))
  qed
qed

lemma safe_in_substream:
  assumes "safe lo hi r"
  shows "safe lo hi (on_stream pb_make_string_substream (\<lambda>sub. in_substream sub r))"
proof (rule safe_substream [OF assms, where finish = "\<lambda>status st' s2. case pb_close_string_substream (stream st') s2 of (None, s) \<Rightarrow> (False, s) | (Some _, s) \<Rightarrow> (status, s)"
      and count = "\<lambda>st st'. fixed_count_size st"])
  show "\<exists>b s'. (case pb_close_string_substream (stream st') s2 of (None, s) \<Rightarrow> (False, s) | (Some _, s) \<Rightarrow> (status, s)) = (b, s') \<and> within s s'"
    if "istream_ok s" "pb_make_string_substream s = (Some sub, s2)" "within sub (stream st')" for s s2 sub st' and status :: bool
    using substream_close(3) [OF that(2,1,3)]
    by (cases "pb_close_string_substream (stream st') s2") (auto split: option.splits)
next
  show "in_substream sub r st = Option.bind (r (st\<lparr>stream := sub\<rparr>)) (\<lambda>(status, st').
      case (case pb_close_string_substream (stream st') (stream st) of (None, s) \<Rightarrow> (False, s) | (Some _, s) \<Rightarrow> (status, s)) of
        (b, s') \<Rightarrow> Some (b, st'\<lparr>stream := s', fixed_count_size := fixed_count_size st\<rparr>))" for sub and st :: dstate
    by (cases "r (st\<lparr>stream := sub\<rparr>)") (auto simp: in_substream_def split: option.splits prod.splits)
qed

section \<open>Defaults and releasing stay inside\<close>

lemma depth_sub: "i < length fs \<Longrightarrow> ptr (fs ! i) = Submsg sub \<Longrightarrow> Suc (depth sub) \<le> depth fs"
proof (induction fs arbitrary: i)
  case (Cons f fs)
  show ?case
  proof (cases i)
    case 0
    then show ?thesis using Cons.prems by simp
  next
    case (Suc j)
    then have "Suc (depth sub) \<le> depth fs" using Cons by simp
    then show ?thesis by simp
  qed
qed simp

lemma depth_pos: "0 < depth fs"
  by (cases fs) (auto simp: less_max_iff_disj split: field_ptr.split)

lemma load_0: "n \<le> length bs \<Longrightarrow> load bs 0 n = Some (take n bs)"
  by (simp add: load_def)

definition msafe :: "int \<Rightarrow> int \<Rightarrow> (bytes \<Rightarrow> bytes option) \<Rightarrow> bool" where
  "msafe lo hi g \<longleftrightarrow> (\<forall>m. 0 \<le> lo \<longrightarrow> hi \<le> int (length m) \<longrightarrow> (\<exists>m'. g m = Some m' \<and> same_outside lo hi m m'))"

lemma msafeD:
  assumes "msafe lo hi g" "0 \<le> lo" "hi \<le> int (length m)"
  obtains m' where "g m = Some m'" "same_outside lo hi m m'" "length m' = length m"
  using assms unfolding msafe_def same_outside_def by blast

lemma msafe_Some: "msafe lo hi Some"
  by (simp add: msafe_def)

lemma msafe_bind:
  assumes "msafe lo hi g" "msafe lo hi g'"
  shows "msafe lo hi (\<lambda>m. Option.bind (g m) g')"
  unfolding msafe_def
proof (intro allI impI)
  fix m :: bytes
  assume m: "0 \<le> lo" "hi \<le> int (length m)"
  obtain m1 where m1: "g m = Some m1" "same_outside lo hi m m1" "length m1 = length m" using msafeD [OF assms(1) m] .
  obtain m2 where "g' m1 = Some m2" "same_outside lo hi m1 m2" using assms(2) m m1(3) by (metis msafeD)
  then show "\<exists>m'. Option.bind (g m) g' = Some m' \<and> same_outside lo hi m m'" using m1 by (auto intro: same_outside_trans)
qed

lemma msafe_mono: "msafe lo' hi' g \<Longrightarrow> lo \<le> lo' \<Longrightarrow> hi' \<le> hi \<Longrightarrow> msafe lo hi g"
  unfolding msafe_def by (meson order_trans same_outside_mono)

lemma msafe_store: "lo \<le> p \<Longrightarrow> p + int (length bs) \<le> hi \<Longrightarrow> msafe lo hi (\<lambda>m. store m p bs)"
  unfolding msafe_def using store_Some by blast

text \<open>Over all the fields of a descriptor.\<close>

lemma msafe_fields:
  assumes "fields_ok fs n" "\<And>i. i < length fs \<Longrightarrow> msafe dst (dst + n) (g (place fs dst i))"
  shows "msafe dst (dst + n)
    (\<lambda>m. case pb_field_iter_begin fs dst of (some, it) \<Rightarrow> if \<not> some then Some m else for_fields g it m)"
  unfolding msafe_def
proof (intro allI impI)
  fix m :: bytes
  assume m: "0 \<le> dst" "dst + n \<le> int (length m)"
  note tags = fields_okD(1) [OF assms(1)]
  show "\<exists>m'. (case pb_field_iter_begin fs dst of (some, it) \<Rightarrow> if \<not> some then Some m else for_fields g it m) = Some m' \<and> same_outside dst (dst + n) m m'"
  proof (cases fs)
    case Nil
    then show ?thesis by (simp add: pb_field_iter_begin_def Let_def field_at_def PB_LAST_FIELD_def)
  next
    case (Cons f fs')
    then have len: "0 < length fs" by simp
    have "\<exists>b. for_fields g (place fs dst 0) m = Some b \<and> same_outside dst (dst + n) m b"
    proof (rule for_fields_place [OF tags len])
      fix j
      assume "j < length fs"
      then show "\<forall>a. same_outside dst (dst + n) m a \<longrightarrow> (\<exists>b. g (place fs dst j) a = Some b \<and> same_outside dst (dst + n) m b)"
        using assms(2) m unfolding msafe_def by (metis same_outside_def same_outside_trans)
    qed simp
    moreover have "pb_field_iter_begin fs dst = (True, place fs dst 0)"
      using tag_nth [OF tags len] len by (simp add: place_0 prod_eq_iff pb_field_iter_begin_def Let_def)
    ultimately show ?thesis by simp
  qed
qed

lemma set_to_default_field:
  fixes dst :: int
  assumes ok: "fields_ok fs n" and i: "i < length fs"
    and sub: "\<And>sub' p. ptr (fs ! i) = Submsg sub' \<Longrightarrow> fields_ok sub' (int (unat (data_size (fs ! i)))) \<Longrightarrow>
      msafe p (p + int (unat (data_size (fs ! i)))) (sub sub' p)"
  shows "msafe dst (dst + n) (pb_field_set_to_default sub (place fs dst i))"
proof -
  let ?f = "fs ! i" and ?it = "place fs dst i"
  let ?ty = "ftype ?f"
  let ?count = "\<lambda>m. if PB_HTYPE ?ty = PB_HTYPE_OPTIONAL \<and> pSize ?it \<noteq> Member (pData ?it)
              then (case pSize ?it of Member p \<Rightarrow> store m p [0] | Fixed_count \<Rightarrow> None)
              else if PB_HTYPE ?ty = PB_HTYPE_REPEATED \<or> PB_HTYPE ?ty = PB_HTYPE_ONEOF
              then (case pSize ?it of Member p \<Rightarrow> store m p (le_store 4 (0 :: u32)) | Fixed_count \<Rightarrow> None)
              else Some m"
  let ?data = "\<lambda>m. if PB_HTYPE ?ty = PB_HTYPE_REPEATED \<or> PB_HTYPE ?ty = PB_HTYPE_ONEOF then Some m
                  else if PB_LTYPE ?ty = PB_LTYPE_SUBMESSAGE
                  then (case ptr ?f of Submsg fs \<Rightarrow> sub fs (pData ?it) m | _ \<Rightarrow> None)
                  else (case ptr ?f of
                          NULL \<Rightarrow> store m (pData ?it) (replicate (unat (data_size ?f)) 0)
                        | Default bs \<Rightarrow> Option.bind (load bs 0 (unat (data_size ?f))) (store m (pData ?it))
                        | Submsg _ \<Rightarrow> None)"
  have pf: "pos_field ?it = ?f" by (rule pos_field_place [OF fields_okD(1) [OF ok] i])
  obtain q where q: "pSize ?it = Member q" using fields_ok_field(4) [OF ok i] by blast
  have ac: "PB_ATYPE_CALLBACK \<noteq> PB_ATYPE_STATIC" by (simp add: pb_types)
  show ?thesis
  proof (cases "PB_ATYPE ?ty = PB_ATYPE_STATIC")
    case False
    then have "PB_ATYPE ?ty = PB_ATYPE_CALLBACK" using fields_ok_field(1) [OF ok i] by simp
    then have "pb_field_set_to_default sub ?it m = Some m" for m using ac fields_ok_field(2) [OF ok i] unfolding pb_field_set_to_default_def Let_def pf by (simp add: pb_types)
    then show ?thesis by (simp add: msafe_def)
  next
    case st: True
    have count: "msafe dst (dst + n) ?count"
    proof (cases "PB_HTYPE ?ty = PB_HTYPE_OPTIONAL")
      case True
      then show ?thesis using fields_ok_field(6) [OF ok i q True] q msafe_Some
        by (cases "q = pData ?it") (auto simp: pb_types intro!: msafe_store)
    next
      case no: False
      show ?thesis
      proof (cases "PB_HTYPE ?ty = PB_HTYPE_REPEATED \<or> PB_HTYPE ?ty = PB_HTYPE_ONEOF")
        case True
        then have "dst \<le> q \<and> q + 4 \<le> dst + n" using fields_ok_field(5) [OF ok i q] by blast
        then show ?thesis using True no q by (simp add: msafe_store)
      next
        case False
        then show ?thesis using no msafe_Some by simp
      qed
    qed
    have data: "msafe dst (dst + n) ?data"
    proof (cases "PB_HTYPE ?ty = PB_HTYPE_REPEATED \<or> PB_HTYPE ?ty = PB_HTYPE_ONEOF")
      case True
      then show ?thesis using msafe_Some by simp
    next
      case no: False
      then have room: "dst \<le> pData ?it" "pData ?it + int (unat (data_size ?f)) \<le> dst + n"
        using fields_ok_field(8) [OF ok i st, of dst] by (simp_all add: items_of_def)
      show ?thesis
      proof (cases "PB_LTYPE ?ty = PB_LTYPE_SUBMESSAGE")
        case True
        then obtain sub' where "ptr ?f = Submsg sub'" "fields_ok sub' (int (unat (data_size ?f)))"
          using fields_ok_field(12) [OF ok i st] by blast
        then show ?thesis using no True msafe_mono [OF sub room] by simp
      next
        case False
        then have "ptr ?f = NULL \<or> (\<exists>bs. ptr ?f = Default bs \<and> unat (data_size ?f) \<le> length bs)"
          using fields_ok_field(13) [OF ok i st] by blast
        then show ?thesis using no False room by (auto simp: load_0 intro!: msafe_store)
      qed
    qed
    have "pb_field_set_to_default sub ?it m = Option.bind (?count m) ?data" for m
      using st fields_ok_field(2) [OF ok i] unfolding pb_field_set_to_default_def Let_def pf by simp
    then have "pb_field_set_to_default sub ?it = (\<lambda>m. Option.bind (?count m) ?data)" by (rule ext)
    then show ?thesis using msafe_bind [OF count data] by simp
  qed
qed

lemma set_to_defaults_msafe:
  "fields_ok fs n \<Longrightarrow> depth fs \<le> k \<Longrightarrow> msafe dst (dst + n) (pb_message_set_to_defaults k fs dst)"
proof (induction k arbitrary: fs dst n)
  case 0
  then show ?case using depth_pos [of fs] by simp
next
  case (Suc k)
  have "msafe dst (dst + n) (pb_field_set_to_default (pb_message_set_to_defaults k) (place fs dst i))" if i: "i < length fs" for i
  proof (rule set_to_default_field [OF Suc.prems(1) i])
    show "msafe p (p + int (unat (data_size (fs ! i)))) (pb_message_set_to_defaults k sub' p)"
      if "ptr (fs ! i) = Submsg sub'" "fields_ok sub' (int (unat (data_size (fs ! i))))" for sub' p
      using depth_sub [OF i that(1)] Suc.prems(2) by (intro Suc.IH [OF that(2)]) simp
  qed
  then show ?case
    using msafe_fields [OF Suc.prems(1)] by (simp add: set_to_defaults_def [abs_def])
qed

lemma release_items_msafe:
  assumes "\<And>j. j < n \<Longrightarrow> msafe lo hi (release (p + int j * sz))"
  shows "msafe lo hi (release_items release n sz p)"
  using assms
proof (induction n arbitrary: p)
  case (Suc n)
  have "msafe lo hi (release (p + sz + int j * sz))" if "j < n" for j
    using Suc.prems [of "Suc j"] that by (simp add: algebra_simps)
  then have rest: "msafe lo hi (release_items release n sz (p + sz))" by (rule Suc.IH)
  have "msafe lo hi (release p)" using Suc.prems [of 0] by simp
  from msafe_bind [OF this rest] show ?case by simp
qed (simp add: msafe_Some [unfolded fun_eq_iff] msafe_def)

lemma release_single_field:
  fixes dst :: int
  assumes ok: "fields_ok fs n" and i: "i < length fs"
    and sub: "\<And>sub' p. ptr (fs ! i) = Submsg sub' \<Longrightarrow> fields_ok sub' (int (unat (data_size (fs ! i)))) \<Longrightarrow>
      msafe p (p + int (unat (data_size (fs ! i)))) (sub sub' p)"
  shows "msafe dst (dst + n) (pb_release_single_field sub (place fs dst i))"
  unfolding msafe_def
proof (intro allI impI)
  fix m :: bytes
  assume m: "0 \<le> dst" "dst + n \<le> int (length m)"
  let ?f = "fs ! i" and ?it = "place fs dst i"
  let ?ty = "ftype ?f"
  have pf: "pos_field ?it = ?f" by (rule pos_field_place [OF fields_okD(1) [OF ok] i])
  obtain q where q: "pSize ?it = Member q" using fields_ok_field(4) [OF ok i] by blast
  have types: "PB_HTYPE_REPEATED \<noteq> PB_HTYPE_ONEOF" "PB_ATYPE_CALLBACK \<noteq> PB_ATYPE_POINTER" "PB_ATYPE_STATIC \<noteq> PB_ATYPE_POINTER"
    by (simp_all add: pb_types)
  have at: "PB_ATYPE ?ty \<noteq> PB_ATYPE_POINTER" using fields_ok_field(1) [OF ok i] types by auto
  have member: "\<exists>bs. load m q 4 = Some bs" if "PB_HTYPE ?ty = PB_HTYPE_ONEOF \<or> PB_HTYPE ?ty = PB_HTYPE_REPEATED"
    using fields_ok_field(5) [OF ok i q that] m load_Some [of q 4 m] by auto
  have items: "\<exists>m'. (case ptr ?f of Submsg fs \<Rightarrow> release_items (sub fs) c (int (unat (data_size ?f))) (pData ?it) m | _ \<Rightarrow> None) = Some m' \<and>
      same_outside dst (dst + n) m m'"
    if st: "PB_ATYPE ?ty = PB_ATYPE_STATIC" "PB_LTYPE ?ty = PB_LTYPE_SUBMESSAGE" and c: "c \<le> items_of ?f" for c
  proof -
    let ?k = "unat (data_size ?f)"
    obtain sub' where sub': "ptr ?f = Submsg sub'" "fields_ok sub' (int ?k)" using fields_ok_field(12) [OF ok i st] by blast
    have room: "dst \<le> pData ?it" "pData ?it + int (?k * items_of ?f) \<le> dst + n" using fields_ok_field(8) [OF ok i st(1), of dst] by auto
    have "msafe dst (dst + n) (sub sub' (pData ?it + int j * int ?k))" if "j < c" for j
    proof (rule msafe_mono [OF sub [OF sub']])
      have "Suc j * ?k \<le> items_of ?f * ?k" using that c by (intro mult_le_mono1) simp
      then have "int (Suc j * ?k) \<le> int (?k * items_of ?f)" by (simp add: mult.commute del: of_nat_mult of_nat_add mult_Suc)
      moreover have "int (Suc j * ?k) = int j * int ?k + int ?k" by (simp add: algebra_simps)
      ultimately have "int j * int ?k + int ?k \<le> int (?k * items_of ?f)" by simp
      then show "pData ?it + int j * int ?k + int ?k \<le> dst + n" using room by linarith
      have "0 \<le> int j * int ?k" by simp
      then show "dst \<le> pData ?it + int j * int ?k" using room by linarith
    qed
    then have "msafe dst (dst + n) (release_items (sub sub') c (int ?k) (pData ?it))" by (rule release_items_msafe)
    then show ?thesis using m sub'(1) unfolding msafe_def by simp
  qed
  show "\<exists>m'. pb_release_single_field sub ?it m = Some m' \<and> same_outside dst (dst + n) m m'"
  proof (cases "PB_LTYPE ?ty = PB_LTYPE_SUBMESSAGE \<and> PB_ATYPE ?ty = PB_ATYPE_STATIC")
    case False
    then have "\<not> (PB_LTYPE ?ty = PB_LTYPE_SUBMESSAGE \<and> PB_ATYPE ?ty \<noteq> PB_ATYPE_CALLBACK)" using fields_ok_field(1) [OF ok i] by blast
    then have "pb_release_single_field sub ?it m = Some m"
      using member pf at q fields_ok_field(2) [OF ok i]
      by (cases "PB_HTYPE ?ty = PB_HTYPE_ONEOF") (auto simp: pb_release_single_field_def Let_def)
    then show ?thesis by simp
  next
    case True
    have ac: "PB_ATYPE_STATIC \<noteq> PB_ATYPE_CALLBACK" "PB_LTYPE_SUBMESSAGE \<noteq> PB_LTYPE_EXTENSION" by (simp_all add: pb_types)
    note rel = pb_release_single_field_def Let_def pf
    show ?thesis
    proof (cases "PB_HTYPE ?ty = PB_HTYPE_REPEATED")
      case rep: True
      obtain bs where bs: "load m q 4 = Some bs" using member rep by blast
      define c :: u32 where "c = (if pSize ?it = Member (pData ?it) then array_size ?f else le_load bs)"
      let ?c = "if c > array_size ?f then array_size ?f else c"
      have le: "unat ?c \<le> items_of ?f" using rep by (simp add: items_of_def word_le_nat_alt word_less_nat_alt)
      have "pb_release_single_field sub ?it m =
        (if ?c = 0 then Some m else case ptr ?f of Submsg fs \<Rightarrow> release_items (sub fs) (unat ?c) (int (unat (data_size ?f))) (pData ?it) m | _ \<Rightarrow> None)"
        using True rep types ac at q bs unfolding c_def rel by (simp add: word_gt_0)
      then show ?thesis using items [OF _ _ le] True by simp
    next
      case norep: False
      then have le: "unat (1 :: u32) \<le> items_of ?f" by (simp add: items_of_def)
      show ?thesis
      proof (cases "PB_HTYPE ?ty = PB_HTYPE_ONEOF")
        case True
        then obtain bs where "load m q 4 = Some bs" using member by blast
        then show ?thesis using items [OF _ _ le] \<open>PB_LTYPE ?ty = PB_LTYPE_SUBMESSAGE \<and> PB_ATYPE ?ty = PB_ATYPE_STATIC\<close> norep True types ac at q
          by (auto simp: rel)
      next
        case False
        then show ?thesis using items [OF _ _ le] True norep types ac at by (auto simp: rel)
      qed
    qed
  qed
qed

lemma release_msafe:
  "fields_ok fs n \<Longrightarrow> depth fs \<le> k \<Longrightarrow> msafe dst (dst + n) (pb_release k fs dst)"
proof (induction k arbitrary: fs dst n)
  case 0
  then show ?case using depth_pos [of fs] by simp
next
  case (Suc k)
  have "msafe dst (dst + n) (pb_release_single_field (pb_release k) (place fs dst i))" if i: "i < length fs" for i
  proof (rule release_single_field [OF Suc.prems(1) i])
    show "msafe p (p + int (unat (data_size (fs ! i)))) (pb_release k sub' p)"
      if "ptr (fs ! i) = Submsg sub'" "fields_ok sub' (int (unat (data_size (fs ! i))))" for sub' p
      using depth_sub [OF i that(1)] Suc.prems(2) by (intro Suc.IH [OF that(2)]) simp
  qed
  then show ?case
    using msafe_fields [OF Suc.prems(1)] by (simp add: release_fields_def [abs_def])
qed

section \<open>The decoders of values\<close>

declare of_nat_unat [simp del]

lemma pb_read_length: "istream_ok s \<Longrightarrow> pb_read n s = (Some bs, s') \<Longrightarrow> length bs = n"
  by (auto simp: pb_read_def buf_read_def PB_RETURN_ERROR_def istream_ok_def split: if_splits)

lemma safe_read [safe_intros]:
  assumes "\<And>bs. length bs = n \<Longrightarrow> safe lo hi (f bs)"
  shows "safe lo hi (on_stream (pb_read n) f)"
  by (rule safe_on_stream [OF keeps_within_pb_read]) (use assms pb_read_length in blast)

lemmas safe_decode [safe_intros] =
  safe_on_stream [OF keeps_within_decode(1)] safe_on_stream [OF keeps_within_decode(2)]
  safe_on_stream [OF keeps_within_fields(1)] safe_on_stream [OF keeps_within_fields(2)] safe_on_stream [OF keeps_within_fields(3)]
  safe_on_stream [OF keeps_within_fields(5)]

lemma safe_store_member:
  assumes "lo \<le> p" "p + int (unat (data_size f)) \<le> hi"
  shows "safe lo hi (store_member cast f p v)"
  using assms by (auto simp: store_member_def Let_def intro!: safe_intros split del: if_split) (auto intro!: safe_intros)

lemma safe_if [safe_intros]: "(c \<Longrightarrow> safe lo hi f) \<Longrightarrow> (\<not> c \<Longrightarrow> safe lo hi g) \<Longrightarrow> safe lo hi (if c then f else g)"
  by simp

lemma safe_numbers:
  assumes room: "lo \<le> p" "p + int (unat (data_size f)) \<le> hi"
  shows "1 \<le> unat (data_size f) \<Longrightarrow> safe lo hi (pb_dec_bool f p)"
    "safe lo hi (pb_dec_varint f p)" "safe lo hi (pb_dec_uvarint f p)" "safe lo hi (pb_dec_svarint f p)"
    "4 \<le> unat (data_size f) \<Longrightarrow> safe lo hi (pb_dec_fixed32 f p)" "8 \<le> unat (data_size f) \<Longrightarrow> safe lo hi (pb_dec_fixed64 f p)"
  using room unfolding pb_dec_bool_def pb_dec_varint_def pb_dec_uvarint_def pb_dec_svarint_def pb_dec_fixed32_def pb_dec_fixed64_def
  by (auto intro!: safe_intros safe_store_member)

lemma safe_bytes:
  assumes room: "lo \<le> p" "p + int (unat (data_size f)) \<le> hi" and at: "PB_ATYPE (ftype f) \<noteq> PB_ATYPE_POINTER"
  shows "safe lo hi (pb_dec_bytes f p)"
  unfolding pb_dec_bytes_def Let_def using room at by (intro safe_intros) auto

lemma safe_fixed_length_bytes:
  assumes room: "lo \<le> p" "p + int (unat (data_size f)) \<le> hi"
  shows "safe lo hi (pb_dec_fixed_length_bytes f p)"
  unfolding pb_dec_fixed_length_bytes_def using room by (intro safe_intros) auto

lemma safe_string:
  assumes room: "lo \<le> p" "p + int (unat (data_size f)) \<le> hi" and at: "PB_ATYPE (ftype f) \<noteq> PB_ATYPE_POINTER"
  shows "safe lo hi (pb_dec_string f p)"
  unfolding pb_dec_string_def Let_def
proof (intro safe_intros)
  fix size :: u32
  assume size: "\<not> size + 1 < size" "\<not> data_size f < size + 1"
  have "unat (size + 1) = unat size + 1" using size(1) by (metis linorder_not_less unat_plus_simple unat_1)
  then have fits: "p + int (unat size) + 1 \<le> hi" using size(2) room(2) by (simp add: word_less_nat_alt)
  let ?r = "\<lambda>st. case pb_read (unat size) (stream st) of
      (None, s) \<Rightarrow> storing (p + int (unat size)) [0] (returns False) (st\<lparr>stream := s\<rparr>)
    | (Some bs, s) \<Rightarrow> storing p bs (storing (p + int (unat size)) [0] (returns True)) (st\<lparr>stream := s\<rparr>)"
  show "safe lo hi ?r"
  proof (rule safeI)
    fix st :: dstate
    assume st: "0 \<le> lo" "hi \<le> int (length (memory st))" "istream_ok (stream st)"
    obtain a s where r: "pb_read (unat size) (stream st) = (a, s)" by (cases "pb_read (unat size) (stream st)")
    have w: "within (stream st) s" by (rule keeps_withinD [OF keeps_within_pb_read r])
    have end_: "safe lo hi (storing (p + int (unat size)) [0] (returns b))" for b
      using room(1) fits by (intro safe_intros) auto
    show "\<exists>b st'. ?r st = Some (b, st') \<and> within (stream st) (stream st') \<and> same_outside lo hi (memory st) (memory st')"
    proof (cases a)
      case None
      then show ?thesis using safe_continue [OF end_ [of False] st, of "st\<lparr>stream := s\<rparr>"] r w by simp
    next
      case (Some bs)
      then have "length bs = unat size" using pb_read_length st(3) r by blast
      then have "safe lo hi (storing p bs (storing (p + int (unat size)) [0] (returns True)))"
        using room(1) fits by (intro safe_storing end_) auto
      then show ?thesis using safe_continue [OF _ st, of _ "st\<lparr>stream := s\<rparr>"] r w Some by simp
    qed
  qed
qed (use at in auto)

lemma safe_submessage:
  assumes "ptr f = Submsg fs" "\<And>b. safe lo hi (sub b fs p)"
  shows "safe lo hi (pb_dec_submessage sub f p)"
  unfolding pb_dec_submessage_def assms(1) field_ptr.case by (rule safe_in_substream [OF assms(2)])

text \<open>What the decoder of a type needs of the field.\<close>

definition item_ok :: "sub_decoder \<Rightarrow> pb_field_t \<Rightarrow> bool" where
  "item_ok sub f \<longleftrightarrow>
     (let lt = PB_LTYPE (ftype f); k = unat (data_size f)
      in lt \<noteq> PB_LTYPE_EXTENSION \<and> lt \<le> PB_LTYPE_FIXED_LENGTH_BYTES \<and> PB_ATYPE (ftype f) \<noteq> PB_ATYPE_POINTER \<and>
         (lt = PB_LTYPE_BOOL \<longrightarrow> 1 \<le> k) \<and> (lt = PB_LTYPE_FIXED32 \<longrightarrow> 4 \<le> k) \<and> (lt = PB_LTYPE_FIXED64 \<longrightarrow> 8 \<le> k) \<and>
         (lt = PB_LTYPE_SUBMESSAGE \<longrightarrow> (\<exists>fs. ptr f = Submsg fs \<and> (\<forall>b p. safe p (p + int k) (sub b fs p)))))"

lemma ltype_cases:
  assumes "lt \<le> PB_LTYPE_FIXED_LENGTH_BYTES"
  shows "lt \<in> {PB_LTYPE_BOOL, PB_LTYPE_VARINT, PB_LTYPE_UVARINT, PB_LTYPE_SVARINT, PB_LTYPE_FIXED32, PB_LTYPE_FIXED64,
    PB_LTYPE_BYTES, PB_LTYPE_STRING, PB_LTYPE_SUBMESSAGE, PB_LTYPE_EXTENSION, PB_LTYPE_FIXED_LENGTH_BYTES}"
proof -
  have "unat lt \<le> 10" using assms by (simp add: word_le_nat_alt pb_types)
  then show ?thesis by (simp add: pb_types u8_eq_iff) presburger
qed

lemma safe_decoder:
  assumes "item_ok sub f" "lo \<le> p" "p + int (unat (data_size f)) \<le> hi"
  shows "safe lo hi (PB_DECODERS sub (PB_LTYPE (ftype f)) f p)"
proof -
  note ok = assms(1) [unfolded item_ok_def Let_def]
  have "safe lo hi (pb_dec_submessage sub f p)" if msg: "PB_LTYPE (ftype f) = PB_LTYPE_SUBMESSAGE"
  proof -
    obtain fs where "ptr f = Submsg fs" "\<And>b. safe p (p + int (unat (data_size f))) (sub b fs p)" using ok msg by meson
    then show ?thesis using assms(2,3) by (blast intro: safe_submessage safe_mono)
  qed
  then show ?thesis
    using ok ltype_cases [of "PB_LTYPE (ftype f)"] safe_numbers [OF assms(2,3)] safe_bytes [OF assms(2,3)] safe_string [OF assms(2,3)]
      safe_fixed_length_bytes [OF assms(2,3)]
    unfolding PB_DECODERS_def by simp blast?
qed

section \<open>The decoders of fields\<close>

text \<open>The packable decoders read something, so the loop over a packed array ends.\<close>

definition consumes :: "pb_decoder \<Rightarrow> bool" where
  "consumes r \<longleftrightarrow> (\<forall>st st'. r st = Some (True, st') \<longrightarrow> bytes_left (stream st') < bytes_left (stream st))"

definition keeps_stream :: "pb_decoder \<Rightarrow> bool" where
  "keeps_stream r \<longleftrightarrow> (\<forall>st st'. r st = Some (True, st') \<longrightarrow> stream st' = stream st)"

lemma consumes_on_stream:
  assumes "\<And>s a s'. r s = (Some a, s') \<Longrightarrow> bytes_left s' < bytes_left s" "\<And>a. keeps_stream (f a)"
  shows "consumes (on_stream r f)"
  unfolding consumes_def on_stream_def using assms
  by (fastforce simp: keeps_stream_def split: prod.splits option.splits)

lemma keeps_stream_returns: "keeps_stream (returns b)"
  by (simp add: keeps_stream_def returns_def)

lemma return_error_fails: "return_error msg st = Some (False, st\<lparr>stream := snd (PB_RETURN_ERROR msg (stream st) :: unit option \<times> _)\<rparr>)"
  by (simp add: return_error_def on_stream_def PB_RETURN_ERROR_def)

lemma keeps_stream_error: "keeps_stream (return_error msg)"
  by (simp add: keeps_stream_def return_error_fails)

lemma keeps_stream_storing: "keeps_stream f \<Longrightarrow> keeps_stream (storing p bs f)"
  by (auto simp: keeps_stream_def storing_def bind_eq_Some_conv)

lemmas keeps_stream_intros = keeps_stream_returns keeps_stream_error keeps_stream_storing

lemma keeps_stream_member: "keeps_stream (store_member cast f p v)"
  by (auto simp: store_member_def Let_def intro!: keeps_stream_intros split del: if_split split: if_split)

lemma varint32_less: "pb_decode_varint32 s = (Some v, s') \<Longrightarrow> bytes_left s' < bytes_left s"
proof (cases "pb_readbyte s")
  case (Pair b s1)
  assume "pb_decode_varint32 s = (Some v, s')"
  then show ?thesis
    using Pair pb_readbyte_less [of s _ s1] within_less [OF keeps_within_varint32_loop [of s1 7 "ucast (the b AND 0x7F)"]]
    by (auto simp: pb_decode_varint32_def pb_decode_varint32_eof_def split: option.splits if_splits prod.splits)
qed

lemma varint_less: "pb_decode_varint s = (Some v, s') \<Longrightarrow> bytes_left s' < bytes_left s"
proof (cases "pb_readbyte s")
  case (Pair b s1)
  assume "pb_decode_varint s = (Some v, s')"
  then show ?thesis
    using Pair pb_readbyte_less [of s _ s1] within_less [OF within_varint_loop [of s1 7 "ucast (the b AND 0x7F)"]]
    unfolding pb_decode_varint_def
    by (subst (asm) varint_loop.simps) (auto simp: Let_def split: option.splits if_splits prod.splits)
qed

lemma consumes_packable:
  assumes "PB_LTYPE (ftype f) \<le> PB_LTYPE_LAST_PACKABLE"
  shows "consumes (PB_DECODERS sub (PB_LTYPE (ftype f)) f p)"
proof -
  have "unat (PB_LTYPE (ftype f)) \<le> 5" using assms by (simp add: word_le_nat_alt pb_types)
  then have "PB_LTYPE (ftype f) \<in> {PB_LTYPE_BOOL, PB_LTYPE_VARINT, PB_LTYPE_UVARINT, PB_LTYPE_SVARINT, PB_LTYPE_FIXED32, PB_LTYPE_FIXED64}"
    by (simp add: pb_types u8_eq_iff) presburger
  moreover have "consumes (pb_dec_bool f p)" unfolding pb_dec_bool_def
    by (intro consumes_on_stream keeps_stream_intros) (rule varint32_less)
  moreover have "consumes (pb_dec_varint f p)" "consumes (pb_dec_uvarint f p)" unfolding pb_dec_varint_def pb_dec_uvarint_def
    by (intro consumes_on_stream keeps_stream_member, erule varint_less)+
  moreover have "consumes (pb_dec_svarint f p)" unfolding pb_dec_svarint_def pb_decode_svarint_def
    by (intro consumes_on_stream keeps_stream_member) (auto simp: andthen_def succeed_def dest: varint_less split: prod.splits option.splits)
  moreover have "consumes (pb_dec_fixed32 f p)" "consumes (pb_dec_fixed64 f p)"
    unfolding pb_dec_fixed32_def pb_dec_fixed64_def pb_decode_fixed32_def pb_decode_fixed64_def
    by (intro consumes_on_stream keeps_stream_intros, auto simp: andthen_def succeed_def dest: pb_read_less split: prod.splits option.splits)+
  ultimately show ?thesis unfolding PB_DECODERS_def by auto
qed

lemma packed_loop_safe:
  assumes "count_ok lo hi (pSize it)"
    and func: "\<And>n. n < array_size (pos_field it) \<Longrightarrow> safe lo hi (func (pData it + int (unat (data_size (pos_field it) * n))))"
    and func_less: "\<And>p. consumes (func p)"
  shows "safe lo hi (packed_loop func it)"
proof (rule safeI)
  fix st :: dstate
  assume "0 \<le> lo" "hi \<le> int (length (memory st))" "istream_ok (stream st)"
  then show "\<exists>b st'. packed_loop func it st = Some (b, st') \<and> within (stream st) (stream st') \<and> same_outside lo hi (memory st) (memory st')"
  proof (induction "bytes_left (stream st)" arbitrary: st rule: less_induct)
    case less
    obtain n where n: "get_count (pSize it) st = Some n" using get_count_Some [OF assms(1) less.prems(1,2)] by blast
    show ?case
    proof (cases "bytes_left (stream st) > 0 \<and> n < array_size (pos_field it)")
      case False
      then show ?thesis using n by (subst packed_loop.simps) auto
    next
      case True
      obtain b st1 where r: "func (pData it + int (unat (data_size (pos_field it) * n))) st = Some (b, st1)" "within (stream st) (stream st1)"
        "same_outside lo hi (memory st) (memory st1)" "istream_ok (stream st1)" "length (memory st1) = length (memory st)"
        using func True less.prems by (metis safeD)
      show ?thesis
      proof (cases b)
        case False
        then show ?thesis using n True r by (subst packed_loop.simps) auto
      next
        case b: True
        let ?up = "load_count (pSize it) (\<lambda>n. store_count (pSize it) (n + 1) (returns True))"
        have "safe lo hi ?up" using assms(1) by (intro safe_intros)
        then obtain c st2 where up: "?up st1 = Some (c, st2)" "within (stream st1) (stream st2)" "same_outside lo hi (memory st1) (memory st2)"
          "istream_ok (stream st2)" "length (memory st2) = length (memory st1)"
          using less.prems r(4,5) by (metis safeD)
        have "func (pData it + int (unat (data_size (pos_field it) * n))) st = Some (True, st1)" using r(1) b by simp
        then have "bytes_left (stream st1) < bytes_left (stream st)" using func_less unfolding consumes_def by blast
        then have dec: "bytes_left (stream st2) < bytes_left (stream st)" using within_less [OF up(2)] by simp
        have st2: "0 \<le> lo" "hi \<le> int (length (memory st2))" "istream_ok (stream st2)" using less.prems r(5) up(4,5) by simp_all
        obtain d st' where "packed_loop func it st2 = Some (d, st')" "within (stream st2) (stream st')" "same_outside lo hi (memory st2) (memory st')"
          using less.hyps [OF dec st2] by blast
        moreover have "packed_loop func it st = packed_loop func it st2" using n True r(1) b up(1) by (subst packed_loop.simps) simp
        ultimately show ?thesis using r(2,3) up(2,3) by (metis within_trans same_outside_trans)
      qed
    qed
  qed
qed

text \<open>What a field needs, wherever the iterator is.\<close>

definition static_ok :: "int \<Rightarrow> int \<Rightarrow> pb_field_iter_t \<Rightarrow> bool" where
  "static_ok lo hi it \<longleftrightarrow>
     (let f = pos_field it; ht = PB_HTYPE (ftype f)
      in lo \<le> pData it \<and> pData it + int (unat (data_size f) * items_of f) \<le> hi \<and>
         (ht = PB_HTYPE_REPEATED \<or> ht = PB_HTYPE_ONEOF \<longrightarrow> count_ok lo hi (pSize it)) \<and>
         (ht = PB_HTYPE_OPTIONAL \<longrightarrow> (\<exists>q. pSize it = Member q \<and> (q = pData it \<or> lo \<le> q \<and> q + 1 \<le> hi))))"

lemma item_room:
  fixes d a n :: u32 and p hi :: int
  assumes "n < a" "p + int (unat d * unat a) \<le> hi"
  shows "p + int (unat (d * n)) + int (unat d) \<le> hi"
proof -
  have "unat (d * n) \<le> unat d * unat n" by (simp add: unat_word_ariths)
  moreover have "unat d * Suc (unat n) \<le> unat d * unat a" using assms(1) by (intro mult_le_mono2) (simp add: word_less_nat_alt)
  ultimately have "unat (d * n) + unat d \<le> unat d * unat a" by simp
  then have "int (unat (d * n)) + int (unat d) \<le> int (unat d * unat a)" unfolding of_nat_add [symmetric] of_nat_le_iff .
  then show ?thesis using assms(2) by linarith
qed

lemma htype_cases: "PB_HTYPE x \<in> {PB_HTYPE_REQUIRED, PB_HTYPE_OPTIONAL, PB_HTYPE_REPEATED, PB_HTYPE_ONEOF}"
proof -
  have "bit (x AND 0x30) n \<longleftrightarrow> bit ((if bit x 5 then 0x20 else 0) OR (if bit x 4 then 0x10 else 0) :: u8) n" if "n < 8" for n
  proof -
    have "n \<in> {0, 1, 2, 3, 4, 5, 6, 7}" using that by auto
    then show ?thesis by (auto simp: bit_simps)
  qed
  then have "x AND 0x30 = ((if bit x 5 then 0x20 else 0) OR (if bit x 4 then 0x10 else 0) :: u8)"
    by (intro bit_word_eqI) simp
  then show ?thesis by (simp add: pb_types PB_HTYPE_def)
qed

lemma safe_memory:
  assumes "msafe lo hi g" "safe lo hi r"
  shows "safe lo hi (\<lambda>st. Option.bind (g (memory st)) (\<lambda>m. r (st\<lparr>memory := m\<rparr>)))"
proof (rule safeI)
  fix st :: dstate
  assume st: "0 \<le> lo" "hi \<le> int (length (memory st))" "istream_ok (stream st)"
  obtain m where m: "g (memory st) = Some m" "same_outside lo hi (memory st) m" using msafeD [OF assms(1) st(1,2)] .
  show "\<exists>b st'. Option.bind (g (memory st)) (\<lambda>m. r (st\<lparr>memory := m\<rparr>)) = Some (b, st') \<and> within (stream st) (stream st') \<and>
      same_outside lo hi (memory st) (memory st')"
    using safe_continue [OF assms(2) st, of "st\<lparr>memory := m\<rparr>"] m by simp
qed

text \<open>On a substream, closed only if \<open>good\<close> of the status and the substream.\<close>

lemma safe_substream_if:
  assumes "safe lo hi r"
  shows "safe lo hi (on_stream pb_make_string_substream (\<lambda>substream st.
      Option.bind (r (st\<lparr>stream := substream\<rparr>)) (\<lambda>(status, st').
        if \<not> good status (stream st') then return_error msg (st'\<lparr>stream := stream st\<rparr>)
        else case pb_close_string_substream (stream st') (stream st) of
          (None, s) \<Rightarrow> Some (False, st'\<lparr>stream := s\<rparr>)
        | (Some _, s) \<Rightarrow> Some (status, st'\<lparr>stream := s\<rparr>))))"
proof (rule safe_substream [OF assms, where count = "\<lambda>st st'. fixed_count_size st'" and
    finish = "\<lambda>status st' s2. if \<not> good status (stream st') then (False, snd (PB_RETURN_ERROR msg s2 :: unit option \<times> _))
      else case pb_close_string_substream (stream st') s2 of (None, s) \<Rightarrow> (False, s) | (Some _, s) \<Rightarrow> (status, s)"])
  show "\<exists>b s'. (if \<not> good status (stream st') then (False, snd (PB_RETURN_ERROR msg s2 :: unit option \<times> _))
      else case pb_close_string_substream (stream st') s2 of (None, s) \<Rightarrow> (False, s) | (Some _, s) \<Rightarrow> (status, s)) = (b, s') \<and> within s s'"
    if "istream_ok s" "pb_make_string_substream s = (Some sub, s2)" "within sub (stream st')" for s s2 sub st' status
    using substream_close(2) [OF that(2,1)] substream_close(3) [OF that(2,1,3)]
    by (cases "pb_close_string_substream (stream st') s2") (auto simp: PB_RETURN_ERROR_def split: option.splits)
qed (auto simp: return_error_fails split: prod.splits option.splits intro!: Option.bind_cong)

lemma static_field_safe:
  assumes st: "static_ok lo hi it" and item: "item_ok sub (pos_field it)"
    and init: "\<And>fs p. ptr (pos_field it) = Submsg fs \<Longrightarrow> PB_LTYPE (ftype (pos_field it)) = PB_LTYPE_SUBMESSAGE \<Longrightarrow>
      msafe p (p + int (unat (data_size (pos_field it)))) (pb_message_set_to_defaults k fs p)"
  shows "safe lo hi (decode_static_field k sub wt it)"
proof -
  let ?f = "pos_field it"
  let ?ht = "PB_HTYPE (ftype ?f)" and ?lt = "PB_LTYPE (ftype ?f)"
  let ?func = "PB_DECODERS sub ?lt ?f"
  note ok = st [unfolded static_ok_def Let_def]
  have one: "safe lo hi (?func (pData it))" if "?ht \<noteq> PB_HTYPE_REPEATED"
    using ok that by (intro safe_decoder [OF item]) (simp_all add: items_of_def)
  consider "?ht = PB_HTYPE_REQUIRED" | "?ht = PB_HTYPE_OPTIONAL" | "?ht = PB_HTYPE_REPEATED" | "?ht = PB_HTYPE_ONEOF"
    using htype_cases [of "ftype ?f"] by blast
  then show ?thesis
  proof cases
    case 1
    then show ?thesis using one by (simp add: decode_static_field_def Let_def pb_types)
  next
    case 2
    then obtain q where q: "pSize it = Member q" "q = pData it \<or> lo \<le> q \<and> q + 1 \<le> hi" using ok by blast
    then show ?thesis using 2 one by (auto simp: decode_static_field_def Let_def pb_types intro!: safe_storing)
  next
    case 3
    then have cnt: "count_ok lo hi (pSize it)" using ok by simp
    have nth: "safe lo hi (?func (pData it + int (unat (data_size ?f * n))))" if "n < array_size ?f" for n
    proof (rule safe_decoder [OF item])
      show "lo \<le> pData it + int (unat (data_size ?f * n))" using ok by simp
      show "pData it + int (unat (data_size ?f * n)) + int (unat (data_size ?f)) \<le> hi"
        using ok 3 by (intro item_room [OF that]) (simp add: items_of_def)
    qed
    have "safe lo hi (packed_loop ?func it)" if "?lt \<le> PB_LTYPE_LAST_PACKABLE"
      using cnt nth consumes_packable [OF that] by (rule packed_loop_safe)
    note packed = safe_substream_if [OF this, of "\<lambda>status s. bytes_left s = 0"]
    have "safe lo hi (load_count (pSize it) (\<lambda>n. store_count (pSize it) (n + 1)
        (if n \<ge> array_size ?f then return_error ''array overflow'' else ?func (pData it + int (unat (data_size ?f * n))))))"
      using cnt nth by (intro safe_intros) auto
    then show ?thesis using packed 3 by (simp add: decode_static_field_def Let_def pb_types)
  next
    case 4
    then have cnt: "count_ok lo hi (pSize it)" using ok by simp
    have store: "safe lo hi (store_count (pSize it) (tag ?f) (?func (pData it)))"
      using cnt one 4 by (intro safe_intros) (auto simp: pb_types)
    have new: "msafe lo hi (\<lambda>m. if ?lt = PB_LTYPE_SUBMESSAGE \<and> which \<noteq> tag ?f
        then (case ptr ?f of
            Submsg fs \<Rightarrow> Option.bind (store m (pData it) (replicate (unat (data_size ?f)) 0)) (pb_message_set_to_defaults k fs (pData it))
          | _ \<Rightarrow> None)
        else Some m)" for which
    proof (cases "?lt = PB_LTYPE_SUBMESSAGE")
      case True
      then obtain fs where fs: "ptr ?f = Submsg fs" using item unfolding item_ok_def Let_def by blast
      have room: "lo \<le> pData it" "pData it + int (unat (data_size ?f)) \<le> hi" using ok 4 by (simp_all add: items_of_def pb_types)
      have "msafe lo hi (\<lambda>m. Option.bind (store m (pData it) (replicate (unat (data_size ?f)) 0)) (pb_message_set_to_defaults k fs (pData it)))"
        using room by (intro msafe_bind msafe_store msafe_mono [OF init [OF fs True]]) simp_all
      then show ?thesis using fs True msafe_Some by (cases "which = tag ?f") simp_all
    qed (simp add: msafe_def)
    have "safe lo hi (load_count (pSize it) (\<lambda>which st. Option.bind
        (if ?lt = PB_LTYPE_SUBMESSAGE \<and> which \<noteq> tag ?f
         then (case ptr ?f of
            Submsg fs \<Rightarrow> Option.bind (store (memory st) (pData it) (replicate (unat (data_size ?f)) 0)) (pb_message_set_to_defaults k fs (pData it))
          | _ \<Rightarrow> None)
         else Some (memory st))
        (\<lambda>m. store_count (pSize it) (tag ?f) (?func (pData it)) (st\<lparr>memory := m\<rparr>))))"
      by (intro safe_load_count [OF cnt] safe_memory [OF new store])
    then show ?thesis using 4 by (simp add: decode_static_field_def Let_def pb_types)
  qed
qed

text \<open>The callbacks belong to the program. They read what they are given, from the front, and make progress as long as there is
  more to read.\<close>

definition callbacks_ok :: "callbacks \<Rightarrow> bool" where
  "callbacks_ok h \<longleftrightarrow> (\<forall>fn f arg s b arg' s'. h fn f arg s = (b, arg', s') \<longrightarrow> istream_ok s \<longrightarrow>
     within s s' \<and> (b \<and> 0 < bytes_left s' \<longrightarrow> bytes_left s' < bytes_left s))"

lemma callback_loop_safe:
  assumes "callbacks_ok h" "lo \<le> p" "p + 8 \<le> hi"
  shows "safe lo hi (callback_loop h fn f p)"
proof (rule safeI)
  fix st :: dstate
  assume "0 \<le> lo" "hi \<le> int (length (memory st))" "istream_ok (stream st)"
  then show "\<exists>b st'. callback_loop h fn f p st = Some (b, st') \<and> within (stream st) (stream st') \<and> same_outside lo hi (memory st) (memory st')"
  proof (induction "bytes_left (stream st)" arbitrary: st rule: less_induct)
    case less
    obtain a where a: "load (memory st) p 8 = Some a" using less.prems assms(2,3) load_Some [of p 8 "memory st"] by auto
    obtain b arg s where r: "h fn f (le_load a) (stream st) = (b, arg, s)" by (metis prod_cases3)
    have s: "within (stream st) s" "b \<and> 0 < bytes_left s \<longrightarrow> bytes_left s < bytes_left (stream st)"
      using assms(1) r less.prems(3) unfolding callbacks_ok_def by blast+
    obtain m where m: "store (memory st) p (le_store 8 arg) = Some m" "same_outside lo hi (memory st) m"
      using store_Some [OF less.prems(1,2) assms(2), of "le_store 8 arg"] assms(3) by auto
    show ?case
    proof (cases "b \<and> 0 < bytes_left s")
      case False
      then show ?thesis using a r m s by (subst callback_loop.simps) auto
    next
      case True
      let ?st = "st\<lparr>memory := m, stream := s\<rparr>"
      have "bytes_left (stream ?st) < bytes_left (stream st)" using s(2) True by simp
      moreover have "hi \<le> int (length (memory ?st))" "istream_ok (stream ?st)"
        using less.prems(2,3) m(2) within_ok [OF s(1)] by (simp_all add: same_outside_def)
      ultimately obtain c st' where c: "callback_loop h fn f p ?st = Some (c, st')" "within s (stream st')" "same_outside lo hi m (memory st')"
        using less.hyps [of ?st] less.prems(1) by auto
      have "callback_loop h fn f p st = callback_loop h fn f p ?st" using a r m(1) True by (subst callback_loop.simps) simp
      then show ?thesis using c s(1) m(2) by (metis within_trans same_outside_trans)
    qed
  qed
qed

lemma callback_field_safe:
  assumes "callbacks_ok h" "lo \<le> pData it" "pData it + 16 \<le> hi"
  shows "safe lo hi (decode_callback_field h wt it)"
proof -
  have raw: "safe lo hi (\<lambda>st. case h fn (pos_field it) arg (pb_istream_from_buffer buffer (length buffer)) of
      (status, arg', _) \<Rightarrow> storing (pData it + 8) (le_store 8 arg') (returns status) st)" for fn arg buffer
    using assms(2,3)
    by (cases "h fn (pos_field it) arg (pb_istream_from_buffer buffer (length buffer))") (auto intro!: safe_intros)
  have loop: "safe lo hi (callback_loop h fn (pos_field it) (pData it + 8))" for fn
    using assms(2,3) by (intro callback_loop_safe [OF assms(1)]) simp_all
  have closed: "(if \<not> status then e else case c of (None, s) \<Rightarrow> Some (False, g s) | (Some _, s) \<Rightarrow> Some (True, g s)) =
      (if \<not> status then e else case c of (None, s) \<Rightarrow> Some (False, g s) | (Some _, s) \<Rightarrow> Some (status, g s))"
    for status and e and c :: "unit option \<times> pb_istream_t" and g :: "pb_istream_t \<Rightarrow> dstate"
    by (auto split: option.splits prod.splits)
  note str = safe_substream_if [OF loop, where good = "\<lambda>status s. status"]
  show ?thesis
    unfolding decode_callback_field_def Let_def closed
    using assms(2,3) by (intro safe_intros str safe_on_stream [OF keeps_within_raw(2)] raw) simp_all
qed

text \<open>The fields of a good descriptor.\<close>

lemma field_static_ok:
  fixes dst :: int
  assumes ok: "fields_ok fs n" and it: "at_field fs dst i it" and st: "PB_ATYPE (ftype (field_at fs i)) = PB_ATYPE_STATIC"
  shows "static_ok dst (dst + n) it"
proof (cases "i < length fs")
  case True
  let ?f = "fs ! i" and ?p = "place fs dst i"
  obtain q where q: "pSize ?p = Member q" using fields_ok_field(4) [OF ok True] by blast
  have f: "pos_field it = ?f" using pos_field_at [OF fields_okD(1) [OF ok] it] True by simp
  have data: "pData it = pData ?p" using it by (auto simp: at_field_def)
  have room: "dst \<le> pData ?p" "pData ?p + int (unat (data_size ?f) * items_of ?f) \<le> dst + n"
    using fields_ok_field(8) [OF ok True, of dst] st True by simp_all
  have ptr: "pSize it = pSize ?p \<or> PB_HTYPE (ftype ?f) = PB_HTYPE_REPEATED \<and> pSize it = Fixed_count"
    using it by (auto simp: at_field_def)
  have cnt: "count_ok dst (dst + n) (pSize it)" if "PB_HTYPE (ftype ?f) = PB_HTYPE_REPEATED \<or> PB_HTYPE (ftype ?f) = PB_HTYPE_ONEOF"
    using fields_ok_field(5) [OF ok True q] that ptr q by (auto simp: count_ok_def)
  have opt: "\<exists>q. pSize it = Member q \<and> (q = pData it \<or> dst \<le> q \<and> q + 1 \<le> dst + n)" if "PB_HTYPE (ftype ?f) = PB_HTYPE_OPTIONAL"
    using fields_ok_field(6) [OF ok True q that] ptr q data that by (auto simp: pb_types)
  show ?thesis using room cnt opt unfolding static_ok_def Let_def f data by blast
next
  case False
  then have fs: "fs = []" "i = 0" using it by (cases fs; auto simp: at_field_def)+
  then have "it = place [] dst 0" using it by (auto simp: at_field_def)
  then show ?thesis using fields_okD(2) [OF ok fs(1)]
    by (simp add: static_ok_def Let_def place_0 pb_field_iter_begin_def pos_field_def field_at_def PB_LAST_FIELD_def items_of_def PB_HTYPE_def pb_types)
qed

lemma field_item_ok:
  assumes ok: "fields_ok fs n" and i: "i < length fs" and st: "PB_ATYPE (ftype (fs ! i)) = PB_ATYPE_STATIC"
    and sub: "\<And>b sub' n p. depth sub' < depth fs \<Longrightarrow> fields_ok sub' n \<Longrightarrow> safe p (p + n) (sub b sub' p)"
  shows "item_ok sub (fs ! i)"
proof -
  let ?f = "fs ! i"
  have "\<exists>fs. ptr ?f = Submsg fs \<and> (\<forall>b p. safe p (p + int (unat (data_size ?f))) (sub b fs p))" if lt: "PB_LTYPE (ftype ?f) = PB_LTYPE_SUBMESSAGE"
  proof -
    obtain sub' where s: "ptr ?f = Submsg sub'" "fields_ok sub' (int (unat (data_size ?f)))" using fields_ok_field(12) [OF ok i st lt] by blast
    then show ?thesis using sub [OF _ s(2)] depth_sub [OF i s(1)] by auto
  qed
  moreover have "PB_ATYPE (ftype ?f) \<noteq> PB_ATYPE_POINTER" using st by (simp add: pb_types)
  ultimately show ?thesis
    using fields_ok_field(2,3) [OF ok i] fields_ok_field(9-11) [OF ok i st] unfolding item_ok_def Let_def by simp
qed

text \<open>In an empty descriptor, the terminator decodes like a required boolean.\<close>

lemma empty_static:
  assumes "at_field [] dst i it" "1 \<le> n"
  shows "pos_field it = PB_LAST_FIELD" "safe dst (dst + n) (decode_static_field k sub wt it)"
proof -
  have it: "it = place [] dst 0" using assms(1) by (simp add: at_field_def)
  then show f: "pos_field it = PB_LAST_FIELD" by (simp add: pos_field_def field_at_def)
  have p: "pData it = dst" unfolding it by (simp add: place_0 pb_field_iter_begin_def Let_def field_at_def PB_LAST_FIELD_def)
  have "decode_static_field k sub wt it = pb_dec_bool PB_LAST_FIELD dst"
    unfolding decode_static_field_def Let_def f p PB_DECODERS_def by (simp add: PB_LAST_FIELD_def PB_HTYPE_def PB_LTYPE_def pb_types)
  moreover have "safe dst (dst + n) (pb_dec_bool PB_LAST_FIELD dst)" unfolding pb_dec_bool_def using assms(2) by (intro safe_intros) simp_all
  ultimately show "safe dst (dst + n) (decode_static_field k sub wt it)" by simp
qed

lemma at_field_cases:
  assumes "fields_ok fs n" "at_field fs dst i it"
  obtains "i < length fs" "pos_field it = fs ! i" | "fs = []" "pos_field it = PB_LAST_FIELD"
proof (cases "i < length fs")
  case True
  then show thesis using that(1) pos_field_at [OF fields_okD(1) [OF assms(1)] assms(2)] by simp
next
  case False
  then have "fs = []" using assms(2) by (cases fs) (auto simp: at_field_def)
  then show thesis using that(2) empty_static(1) assms(2) fields_okD(2) [OF assms(1)] by simp
qed

lemma decode_any_safe:
  fixes dst :: int
  assumes h: "callbacks_ok h" and ok: "fields_ok fs n" and it: "at_field fs dst i it" and k: "depth fs \<le> Suc k"
    and sub: "\<And>b sub' n p. depth sub' \<le> k \<Longrightarrow> fields_ok sub' n \<Longrightarrow> safe p (p + n) (sub b sub' p)"
  shows "safe dst (dst + n) (decode_any h k sub wt it)"
  using ok it
proof (cases rule: at_field_cases)
  case 2
  then have "safe dst (dst + n) (decode_static_field k sub wt it)" using it fields_okD(2) [OF ok] by (intro empty_static(2)) simp_all
  then show ?thesis using 2(2) by (simp add: decode_any_def PB_LAST_FIELD_def PB_ATYPE_def pb_types)
next
  case 1
  let ?f = "fs ! i"
  show ?thesis
  proof (cases "PB_ATYPE (ftype ?f) = PB_ATYPE_STATIC")
    case True
    have st: "static_ok dst (dst + n) it" using field_static_ok [OF ok it] True 1(1) by simp
    have item: "item_ok sub (pos_field it)"
      unfolding 1(2) using k by (intro field_item_ok [OF ok 1(1) True] sub) simp_all
    have "safe dst (dst + n) (decode_static_field k sub wt it)"
    proof (rule static_field_safe [OF st item])
      fix fs' p
      assume p: "ptr (pos_field it) = Submsg fs'" "PB_LTYPE (ftype (pos_field it)) = PB_LTYPE_SUBMESSAGE"
      have "fields_ok fs' (int (unat (data_size ?f)))" using fields_ok_field(12) [OF ok 1(1) True] p 1(2) by auto
      then show "msafe p (p + int (unat (data_size (pos_field it)))) (pb_message_set_to_defaults k fs' p)"
        using depth_sub [OF 1(1)] p(1) k unfolding 1(2) by (intro set_to_defaults_msafe) force+
    qed
    then show ?thesis using True 1(2) by (simp add: decode_any_def)
  next
    case False
    then have cb: "PB_ATYPE (ftype ?f) = PB_ATYPE_CALLBACK" using fields_ok_field(1) [OF ok 1(1)] by simp
    have "pData it = pData (place fs dst i)" using it by (auto simp: at_field_def)
    then have "safe dst (dst + n) (decode_callback_field h wt it)"
      using fields_ok_field(7) [OF ok 1(1) cb, of dst] by (intro callback_field_safe [OF h]) simp_all
    then show ?thesis using cb 1(2) by (simp add: decode_any_def pb_types)
  qed
qed

lemma union_safe:
  fixes dst :: int
  assumes ok: "fields_ok fs n" and it: "at_field fs dst i it" and one: "PB_HTYPE (ftype (pos_field it)) = PB_HTYPE_ONEOF"
    and k: "depth fs \<le> Suc k" and f: "\<And>j it. at_field fs dst j it \<Longrightarrow> safe dst (dst + n) (f it)"
  shows "safe dst (dst + n) (pb_release_union_field (pb_release k) it f)"
proof -
  note tags = fields_okD(1) [OF ok]
  have "i < length fs \<and> pos_field it = fs ! i"
    using ok it by (cases rule: at_field_cases) (use one in \<open>simp_all add: PB_LAST_FIELD_def PB_HTYPE_def pb_types\<close>)
  then have i: "i < length fs" "pos_field it = fs ! i" by simp_all
  have pl: "it = place fs dst i" using it one i by (auto simp: at_field_def pb_types)
  obtain q where q: "pSize it = Member q" using fields_ok_field(4) [OF ok i(1)] pl by blast
  have cnt: "count_ok dst (dst + n) (pSize it)"
    using fields_ok_field(5) [OF ok i(1)] q one i(2) pl by (auto simp: count_ok_def)
  have old: "safe dst (dst + n) (\<lambda>st. Option.bind (pb_field_iter_find it old_tag) (\<lambda>(found, it).
            if \<not> found then return_error ''invalid union tag'' st
            else Option.bind (pb_release_single_field (pb_release k) it (memory st)) (\<lambda>m.
              Option.bind (pb_field_iter_find it (tag (fs ! i))) (\<lambda>(found, it).
                if \<not> found then return_error ''iterator error'' (st\<lparr>memory := m\<rparr>)
                else if PB_ATYPE (ftype (pos_field it)) = PB_ATYPE_POINTER then None
                else f it (st\<lparr>memory := m\<rparr>)))))" for old_tag
  proof -
    obtain b it1 j where r1: "pb_field_iter_find it old_tag = Some (b, it1)" "at_field fs dst j it1" "it1 = it \<or> it1 = place fs dst j"
      using pb_field_iter_find_at [OF tags it, of old_tag] by blast
    have j: "j < length fs" using r1(2) i(1) by (auto simp: at_field_def)
    have it1: "it1 = place fs dst j" using r1(2,3) pl pos_field_at [OF tags it] pos_field_at [OF tags r1(2)] by auto
    obtain c it2 l where r2: "pb_field_iter_find it1 (tag (fs ! i)) = Some (c, it2)" "at_field fs dst l it2"
      using pb_field_iter_find_at [OF tags r1(2), of "tag (fs ! i)"] by blast
    have l: "l < length fs" using r2(2) i(1) by (auto simp: at_field_def)
    have np: "PB_ATYPE (ftype (pos_field it2)) \<noteq> PB_ATYPE_POINTER"
      using fields_ok_field(1) [OF ok l] pos_field_at [OF tags r2(2)] l by (auto simp: pb_types)
    have rel: "msafe dst (dst + n) (pb_release_single_field (pb_release k) it1)"
      unfolding it1
    proof (rule release_single_field [OF ok j])
      show "msafe p (p + int (unat (data_size (fs ! j)))) (pb_release k sub' p)"
        if "ptr (fs ! j) = Submsg sub'" "fields_ok sub' (int (unat (data_size (fs ! j))))" for sub' p
        using depth_sub [OF j that(1)] k by (intro release_msafe [OF that(2)]) simp
    qed
    have next_: "safe dst (dst + n) (if c then f it2 else return_error ''iterator error'')"
      using f [OF r2(2)] by (intro safe_intros)
    show ?thesis
    proof (cases b)
      case False
      then show ?thesis using r1(1) safe_return_error by simp
    next
      case True
      then show ?thesis using safe_memory [OF rel next_] r1(1) r2(1) np by (cases c) simp_all
    qed
  qed
  show ?thesis
    unfolding pb_release_union_field_def Let_def i(2)
    using cnt f [OF it] old by (intro safe_intros) simp_all
qed

lemma decode_field_safe:
  fixes dst :: int
  assumes h: "callbacks_ok h" and ok: "fields_ok fs n" and it: "at_field fs dst i it" and k: "depth fs \<le> Suc k"
    and sub: "\<And>b sub' n p. depth sub' \<le> k \<Longrightarrow> fields_ok sub' n \<Longrightarrow> safe p (p + n) (sub b sub' p)"
  shows "safe dst (dst + n) (decode_field h k sub wt it)"
proof -
  have any: "safe dst (dst + n) (decode_any h k sub wt it')" if "at_field fs dst j it'" for j it'
    by (rule decode_any_safe [OF h ok that k sub])
  show ?thesis using union_safe [OF ok it _ k any] any [OF it] by (simp add: decode_field_def)
qed

section \<open>The decoder of messages\<close>

text \<open>A step of the loop stays inside the structure and leaves the iterator at a field.\<close>

definition step_ok :: "pb_field_t list \<Rightarrow> int \<Rightarrow> int \<Rightarrow> dstate \<Rightarrow> (bool \<times> loop_vars \<times> dstate) option \<Rightarrow> bool" where
  "step_ok fs dst n st r \<longleftrightarrow> (\<exists>b v' st'. r = Some (b, v', st') \<and> within (stream st) (stream st') \<and>
     same_outside dst (dst + n) (memory st) (memory st') \<and> (\<exists>i. at_field fs dst i (iter v')))"

lemma step_okI:
  fixes dst :: int
  assumes "safe dst (dst + n) r" "0 \<le> dst" "dst + n \<le> int (length (memory st))" "istream_ok (stream st)" "at_field fs dst i (iter v)"
  shows "step_ok fs dst n st (map_option (\<lambda>(status, st'). (status, v, st')) (r st))"
proof -
  obtain b st' where "r st = Some (b, st')" "within (stream st) (stream st')" "same_outside dst (dst + n) (memory st) (memory st')"
    using safeD [OF assms(1-4)] by blast
  then show ?thesis using assms(5) by (auto simp: step_ok_def)
qed

lemma step_ok_count: "step_ok fs dst n (st\<lparr>fixed_count_size := c\<rparr>) r = step_ok fs dst n st r"
  by (simp add: step_ok_def)

lemma known_ok:
  fixes dst :: int
  assumes ok: "fields_ok fs n" and it: "at_field fs dst i (iter v)"
    and field: "\<And>j it. at_field fs dst j it \<Longrightarrow> safe dst (dst + n) (field wt it)"
    and st: "0 \<le> dst" "dst + n \<le> int (length (memory st))" "istream_ok (stream st)"
  shows "step_ok fs dst n st (decode_known field wt v st)"
proof -
  let ?f = "pos_field (iter v)"
  let ?fixed = "PB_HTYPE (ftype ?f) = PB_HTYPE_REPEATED \<and> pSize (iter v) = Member (pData (iter v))"
  let ?it = "if ?fixed then iter v\<lparr>pSize := Fixed_count\<rparr> else iter v"
  have "at_field fs dst i ?it" if "?fixed"
    using ok it
  proof (cases rule: at_field_cases)
    case 1
    then show ?thesis using it that by (auto simp: at_field_def)
  next
    case 2
    then show ?thesis using that by (simp add: PB_LAST_FIELD_def PB_HTYPE_def pb_types)
  qed
  then have it': "at_field fs dst i ?it" using it by simp
  show ?thesis
  proof (cases "(?fixed \<and> fixed_count_field v \<noteq> Some (pos (iter v))) \<and>
      (case fixed_count_field v of None \<Rightarrow> False | Some i \<Rightarrow> fixed_count_size st \<noteq> array_size (field_at (start (iter v)) i))")
    case True
    then show ?thesis using step_okI [OF safe_return_error st it] by (simp add: decode_known_def Let_def)
  next
    case False
    define other where "other \<longleftrightarrow> ?fixed \<and> fixed_count_field v \<noteq> Some (pos (iter v))"
    define v1 where "v1 = (if other then v\<lparr>fixed_count_field := Some (pos (iter v))\<rparr> else v)"
    define v2 where "v2 = v1\<lparr>iter := ?it,
       fields_seen := (if PB_HTYPE (ftype ?f) = PB_HTYPE_REQUIRED \<and> required_field_index ?it < PB_MAX_REQUIRED_FIELDS
         then (fields_seen v1)[required_field_index ?it div 32 := fields_seen v1 ! (required_field_index ?it div 32) OR push_bit (required_field_index ?it mod 32) 1]
         else fields_seen v1)\<rparr>"
    let ?st = "if other then st\<lparr>fixed_count_size := 0\<rparr> else st"
    have "decode_known field wt v st = map_option (\<lambda>(status, st'). (status, v2, st')) (field wt ?it ?st)"
      unfolding decode_known_def Let_def v2_def v1_def other_def by (simp only: if_not_P [OF False])
    moreover have "step_ok fs dst n ?st (map_option (\<lambda>(status, st'). (status, v2, st')) (field wt ?it ?st))"
      by (rule step_okI [OF field [OF it'] st(1)]) (use st it' in \<open>simp_all add: v2_def\<close>)
    ultimately show ?thesis by (cases other) (simp_all add: step_ok_count)
  qed
qed

lemma tag_small: "pb_decode_tag s = (Some (wt, t), eof, s') \<Longrightarrow> t \<noteq> -1"
proof -
  have "\<not> bit (drop_bit 3 (x :: u32)) 31" for x by (auto simp: bit_drop_bit_eq dest: bit_imp_le_length)
  moreover have "bit (-1 :: u32) 31" by simp
  ultimately have "drop_bit 3 (x :: u32) \<noteq> -1" for x by metis
  then show "pb_decode_tag s = (Some (wt, t), eof, s') \<Longrightarrow> t \<noteq> -1"
    by (auto simp: pb_decode_tag_def split: prod.splits option.splits if_splits)
qed

lemma unknown_ok:
  fixes dst :: int
  assumes ok: "fields_ok fs n" and it: "at_field fs dst i (iter v)" and t: "t \<noteq> -1"
    and st: "0 \<le> dst" "dst + n \<le> int (length (memory st))" "istream_ok (stream st)"
  shows "step_ok fs dst n st (decode_unknown t wt v st)"
proof -
  have skip: "safe dst (dst + n) (skip_unknown wt)"
    unfolding skip_unknown_def by (intro safe_intros)
  obtain b it' j where find: "find_extension_field (iter v) = Some (b, it')" "at_field fs dst j it'"
      "b \<longrightarrow> PB_LTYPE (ftype (field_at fs j)) = PB_LTYPE_EXTENSION"
    using find_extension_field_at [OF fields_okD(1) [OF ok] it] by blast
  have "\<not> b"
  proof (cases "j < length fs")
    case True
    then show ?thesis using find(3) fields_ok_field(2) [OF ok True] by simp
  next
    case False
    then show ?thesis using find(3) by (simp add: field_at_def PB_LAST_FIELD_def PB_LTYPE_def pb_types)
  qed
  moreover have "\<not> t \<ge> -1" using t by (metis word_order.extremum_uniqueI)
  ultimately have "decode_unknown t wt v st = map_option (\<lambda>(status, st'). (status, v, st')) (skip_unknown wt st) \<or>
      decode_unknown t wt v st =
        map_option (\<lambda>(status, st'). (status, v\<lparr>iter := it', extension_range_start := -1\<rparr>, st')) (skip_unknown wt st)"
    using find(1) by (simp add: decode_unknown_def Let_def)
  then show ?thesis
  proof
    assume e: "decode_unknown t wt v st = map_option (\<lambda>(status, st'). (status, v, st')) (skip_unknown wt st)"
    show ?thesis unfolding e by (rule step_okI [OF skip st it])
  next
    assume e: "decode_unknown t wt v st =
        map_option (\<lambda>(status, st'). (status, v\<lparr>iter := it', extension_range_start := -1\<rparr>, st')) (skip_unknown wt st)"
    show ?thesis unfolding e by (rule step_okI [OF skip st]) (simp, rule find(2))
  qed
qed

lemma loop_ok:
  fixes dst :: int
  assumes ok: "fields_ok fs n" and field: "\<And>wt j it. at_field fs dst j it \<Longrightarrow> safe dst (dst + n) (field wt it)"
    and "at_field fs dst i (iter v)" "0 \<le> dst" "dst + n \<le> int (length (memory st))" "istream_ok (stream st)"
  shows "step_ok fs dst n st (decode_loop field v st)"
  using assms(3-)
proof (induction "bytes_left (stream st)" arbitrary: i v st rule: less_induct)
  case less
  show ?case
  proof (cases "bytes_left (stream st) = 0")
    case True
    then show ?thesis using less.prems(1) by (subst decode_loop.simps) (auto simp: step_ok_def)
  next
    case left: False
    obtain x eof s where tg: "pb_decode_tag (stream st) = (x, eof, s)" by (metis prod_cases3)
    have s: "within (stream st) s" by (rule within_tag [OF tg])
    show ?thesis
    proof (cases x)
      case None
      then show ?thesis using left tg s less.prems(1) by (subst decode_loop.simps) (auto simp: step_ok_def)
    next
      case (Some wt_t)
      obtain wt t where t: "wt_t = (wt, t)" by (cases wt_t)
      let ?st = "st\<lparr>stream := s\<rparr>"
      have dec: "bytes_left s < bytes_left (stream st)" "t \<noteq> -1" using tg Some t pb_decode_tag_less tag_small by blast+
      have st: "dst + n \<le> int (length (memory ?st))" "istream_ok (stream ?st)" using less.prems(3,4) within_ok [OF s] by simp_all
      obtain b it j where find: "pb_field_iter_find (iter v) t = Some (b, it)" "at_field fs dst j it"
        using pb_field_iter_find_at [OF fields_okD(1) [OF ok] less.prems(1), of t] by blast
      let ?v = "v\<lparr>iter := it\<rparr>"
      let ?r = "if b then decode_known field wt ?v ?st else decode_unknown t wt ?v ?st"
      have it: "at_field fs dst j (iter ?v)" using find(2) by simp
      have "step_ok fs dst n ?st (decode_known field wt ?v ?st)" by (intro known_ok [OF ok it] field less.prems(2) st)
      then have "step_ok fs dst n ?st ?r" using unknown_ok [OF ok it dec(2) less.prems(2) st] by simp
      then obtain c v' st' i' where r: "?r = Some (c, v', st')" "within s (stream st')" "same_outside dst (dst + n) (memory st) (memory st')"
          "at_field fs dst i' (iter v')" by (auto simp: step_ok_def)
      have w: "within (stream st) (stream st')" by (rule within_trans [OF s r(2)])
      have step: "decode_loop field v st = (if \<not> c then Some (False, v', st') else decode_loop field v' st')"
        using left tg Some t find(1) r(1) by (subst decode_loop.simps) simp
      show ?thesis
      proof (cases c)
        case False
        then show ?thesis using step w r(3,4) by (auto simp: step_ok_def)
      next
        case True
        have "bytes_left (stream st') < bytes_left (stream st)" using within_less [OF r(2)] dec(1) by simp
        moreover have "dst + n \<le> int (length (memory st'))" "istream_ok (stream st')"
          using less.prems(3) r(3) within_ok [OF w less.prems(4)] by (simp_all add: same_outside_def)
        ultimately have "step_ok fs dst n st' (decode_loop field v' st')" by (intro less.hyps [OF _ r(4) less.prems(2)])
        then show ?thesis using step True w r(3) unfolding step_ok_def by (auto intro: within_trans same_outside_trans)
      qed
    qed
  qed
qed

lemma decode_noinit_safe:
  fixes dst :: int
  assumes ok: "fields_ok fs n" and field: "\<And>wt j it. at_field fs dst j it \<Longrightarrow> safe dst (dst + n) (field wt it)"
  shows "safe dst (dst + n) (decode_noinit field fs dst)"
proof (rule safeI)
  fix st :: dstate
  assume st: "0 \<le> dst" "dst + n \<le> int (length (memory st))" "istream_ok (stream st)"
  let ?v = "\<lparr>iter = snd (pb_field_iter_begin fs dst), fields_seen = [0, 0], extension_range_start = 0, fixed_count_field = None\<rparr>"
  let ?st = "st\<lparr>fixed_count_size := 0\<rparr>"
  have it: "at_field fs dst 0 (iter ?v)" using at_field_place [of 0 fs dst] by (simp add: place_0)
  have st': "dst + n \<le> int (length (memory ?st))" "istream_ok (stream ?st)" using st by simp_all
  have "step_ok fs dst n ?st (decode_loop field ?v ?st)" by (rule loop_ok [OF ok field it st(1) st'])
  then obtain b v1 st1 where r: "decode_loop field ?v ?st = Some (b, v1, st1)" "within (stream st) (stream st1)"
      "same_outside dst (dst + n) (memory st) (memory st1)" by (auto simp: step_ok_def)
  have e: "safe dst (dst + n) (return_error msg)" for msg by (rule safe_return_error)
  show "\<exists>b st'. decode_noinit field fs dst st = Some (b, st') \<and> within (stream st) (stream st') \<and> same_outside dst (dst + n) (memory st) (memory st')"
    using r safe_continue [OF e st r(2,3)] by (simp add: decode_noinit_def) blast?
qed

lemma decode_init_safe:
  assumes "fields_ok fs n" "depth fs \<le> k" "safe dst (dst + n) (noinit fs dst)"
  shows "safe dst (dst + n) (decode_init k noinit fs dst)"
proof -
  have "safe dst (dst + n) (\<lambda>st. Option.bind (noinit fs dst st) (\<lambda>(status, st).
         if status then Some (True, st)
         else map_option (\<lambda>m. (False, st\<lparr>memory := m\<rparr>)) (pb_release k fs dst (memory st))))" (is "safe _ _ ?r")
  proof (rule safeI)
    fix st :: dstate
    assume st: "0 \<le> dst" "dst + n \<le> int (length (memory st))" "istream_ok (stream st)"
    obtain b st1 where r: "noinit fs dst st = Some (b, st1)" "within (stream st) (stream st1)" "same_outside dst (dst + n) (memory st) (memory st1)"
        "length (memory st1) = length (memory st)" using safeD [OF assms(3) st] by blast
    obtain m where m: "pb_release k fs dst (memory st1) = Some m" "same_outside dst (dst + n) (memory st1) m"
      using msafeD [OF release_msafe [OF assms(1,2)] st(1), of "memory st1"] st(2) r(4) by auto
    show "\<exists>b st'. ?r st = Some (b, st') \<and> within (stream st) (stream st') \<and> same_outside dst (dst + n) (memory st) (memory st')"
      using r m by (cases b) (auto intro: same_outside_trans)
  qed
  from safe_memory [OF set_to_defaults_msafe [OF assms(1,2)] this] show ?thesis
    by (simp add: decode_init_def [abs_def])
qed

lemma pb_decode_noinit_safe:
  assumes h: "callbacks_ok h"
  shows "fields_ok fs n \<Longrightarrow> depth fs \<le> k \<Longrightarrow> safe dst (dst + n) (pb_decode_noinit h k fs dst)"
proof (induction k arbitrary: fs dst n)
  case 0
  then show ?case using depth_pos [of fs] by simp
next
  case (Suc k)
  let ?sub = "\<lambda>initialize. if initialize then decode_init k (pb_decode_noinit h k) else pb_decode_noinit h k"
  have sub: "safe p (p + n) (?sub b sub' p)" if d: "depth sub' \<le> k" and s: "fields_ok sub' n" for b sub' n p
    using Suc.IH [OF s d] decode_init_safe [OF s d] by simp
  have "safe dst (dst + n) (decode_noinit (decode_field h k ?sub) fs dst)"
  proof (rule decode_noinit_safe [OF Suc.prems(1)])
    show "safe dst (dst + n) (decode_field h k ?sub wt it)" if "at_field fs dst j it" for wt j it
      by (rule decode_field_safe [OF h Suc.prems(1) that Suc.prems(2) sub])
  qed
  then show ?case by simp
qed

lemma pb_decode_stays_inside:
  "callbacks_ok h \<Longrightarrow> fields_ok fs n \<Longrightarrow> safe dst (dst + n) (pb_decode h fs dst)"
  unfolding pb_decode_def by (intro decode_init_safe pb_decode_noinit_safe) simp_all

text \<open>A message with a number, a string, an array and a submessage, in a structure of 30 bytes, and a program whose callbacks read everything.\<close>

definition example_message :: "pb_field_t list" where
  "example_message =
    [Field 1 (PB_ATYPE_STATIC OR PB_HTYPE_REQUIRED OR PB_LTYPE_UVARINT) 0 0 4 0 NULL,
     Field 2 (PB_ATYPE_STATIC OR PB_HTYPE_OPTIONAL OR PB_LTYPE_STRING) 1 (-1) 8 0 NULL,
     Field 3 (PB_ATYPE_STATIC OR PB_HTYPE_REPEATED OR PB_LTYPE_FIXED32) 7 (-4) 4 2 NULL,
     Field 4 (PB_ATYPE_STATIC OR PB_HTYPE_OPTIONAL OR PB_LTYPE_SUBMESSAGE) 1 (-1) 1 0
       (Submsg [Field 1 (PB_ATYPE_STATIC OR PB_HTYPE_REQUIRED OR PB_LTYPE_BOOL) 0 0 1 0 NULL])]"

definition example_callbacks :: callbacks where
  "example_callbacks fn f arg s = (True, arg, s\<lparr>source := drop (bytes_left s) (source s), bytes_left := 0\<rparr>)"

definition example_input :: "bytes \<Rightarrow> dstate" where
  "example_input bs = \<lparr>memory = replicate 32 0xEE, stream = pb_istream_from_buffer bs (length bs), fixed_count_size = 0\<rparr>"

lemma example_ok: "callbacks_ok example_callbacks" "fields_ok example_message 30"
proof -
  show "callbacks_ok example_callbacks" by (auto simp: callbacks_ok_def example_callbacks_def within_def)
  show "fields_ok example_message 30" by code_simp
qed

lemma example_decoded:
  "map_option (\<lambda>(b, st). (b, memory st)) (pb_decode example_callbacks example_message 1
     (example_input [0x08, 0x96, 0x01, 0x12, 0x02, 0x68, 0x69, 0x1A, 0x08, 1, 0, 0, 0, 2, 0, 0, 0, 0x22, 0x02, 0x08, 0x01])) =
   Some (True, [0xEE, 0x96, 0, 0, 0, 1, 0x68, 0x69, 0, 0, 0, 0, 0, 0, 0xEE, 0xEE, 0xEE, 2, 0, 0, 0, 1, 0, 0, 0, 2, 0, 0, 0, 1, 1, 0xEE])"
  by code_simp

text \<open>C6. Decoding is safe and ends: for a descriptor that fits a structure, for callbacks that make progress and for any bytes,
  however malformed, \<open>pb_decode\<close> returns. It has written nowhere but in the structure, and has read only bytes of the stream, from its
  front.\<close>

theorem pb_decode_safe:
  assumes "callbacks_ok h" "fields_ok fs n" "0 \<le> dst" "dst + n \<le> int (length (memory st))" "istream_ok (stream st)"
  shows "\<exists>b st'. pb_decode h fs dst st = Some (b, st') \<and> length (memory st') = length (memory st) \<and>
    (\<forall>i<length (memory st). int i < dst \<or> dst + n \<le> int i \<longrightarrow> memory st' ! i = memory st ! i) \<and>
    (\<exists>k. source (stream st') = drop k (source (stream st)) \<and> k + bytes_left (stream st') \<le> bytes_left (stream st))"
  using safeD [OF pb_decode_stays_inside [OF assms(1,2)] assms(3-5)] unfolding same_outside_def within_def by metis

lemma pb_decode_safe_witness:
  "\<forall>bs. \<exists>b st'. pb_decode example_callbacks example_message 1 (example_input bs) = Some (b, st') \<and> memory st' ! 0 = 0xEE \<and> memory st' ! 31 = 0xEE"
proof
  fix bs
  let ?st = "example_input bs"
  have m: "length (memory ?st) = 32" "memory ?st ! 0 = 0xEE" "memory ?st ! 31 = 0xEE" "istream_ok (stream ?st)"
    by (simp_all add: example_input_def istream_ok_def pb_istream_from_buffer_def)
  show "\<exists>b st'. pb_decode example_callbacks example_message 1 ?st = Some (b, st') \<and> memory st' ! 0 = 0xEE \<and> memory st' ! 31 = 0xEE"
  proof -
    obtain b st' where r: "pb_decode example_callbacks example_message 1 ?st = Some (b, st')"
        "\<forall>i<32. int i < 1 \<or> 1 + 30 \<le> int i \<longrightarrow> memory st' ! i = memory ?st ! i"
      using pb_decode_safe [OF example_ok, of 1 ?st] m by auto
    then show ?thesis using r(2) [rule_format, of 0] r(2) [rule_format, of 31] m by simp
  qed
qed

text \<open>An array of fixed size has no count in the structure. \<open>pb_field_set_to_default\<close> sets one nevertheless, in the four bytes
  at its start, and so beyond a structure with less than four bytes there.\<close>

lemma fixed_array_overrun:
  "pb_message_set_to_defaults 1 [Field 1 (PB_ATYPE_STATIC OR PB_HTYPE_REPEATED OR PB_LTYPE_BOOL) 0 0 1 2 NULL] 0 [0xEE, 0xEE] = None"
  "pb_message_set_to_defaults 1 [Field 1 (PB_ATYPE_STATIC OR PB_HTYPE_REPEATED OR PB_LTYPE_BOOL) 0 0 1 2 NULL] 0 [0xEE, 0xEE, 0xEE, 0xEE] =
     Some [0, 0, 0, 0]"
  by code_simp+

text \<open>In the descriptor of an empty message, the field number 0 is found, and decoded into a boolean.\<close>

lemma empty_message_found:
  "map_option (\<lambda>(b, st). (b, memory st)) (pb_decode_noinit example_callbacks 1 [] 1 (example_input [0x01, 0x05])) =
     Some (True, (replicate 32 0xEE)[1 := 1])"
  by code_simp

end
