(* ===== verification/LHash.thy ===== *)
theory LHash imports Prelude "HOL-Library.Multiset" begin

text \<open>
  Hash tables, crypto/lhash/lhash.c: an array of chains that grows and shrinks with the number of
  items. A chain is a list of items; an item keeps its address, the cached hash and the element. A pointer
  to a pointer to an item is the index of a chain with a position in it, and it points to a null pointer if
  the position is the length of the chain. \<open>malloc\<close> is the address of a new item, or \<open>None\<close> if the allocation
  fails, and \<open>al\<close> says whether an array of a given number of bytes can be allocated. Sizes are natural
  numbers below 2^64.
\<close>

record 'd lhash_item =
  item_addr :: nat
  item_data :: 'd
  item_hash :: u32

record 'd lhash =
  num_items :: nat
  buckets :: "'d lhash_item list list"
  num_buckets :: nat
  callback_depth :: u32
  comp :: "'d \<Rightarrow> 'd \<Rightarrow> int"
  hash :: "'d \<Rightarrow> u32"

definition kMinNumBuckets :: nat where "kMinNumBuckets = 16"
definition kMaxAverageChainLength :: nat where "kMaxAverageChainLength = 2"
definition kMinAverageChainLength :: nat where "kMinAverageChainLength = 1"

text \<open>\<open>sizeof(_LHASH)\<close> is 48 where pointers have eight bytes.\<close>

definition OPENSSL_lh_new :: "(nat \<Rightarrow> bool) \<Rightarrow> ('d \<Rightarrow> u32) \<Rightarrow> ('d \<Rightarrow> 'd \<Rightarrow> int) \<Rightarrow> 'd lhash option" where
  "OPENSSL_lh_new al h c =
     (if al 48 \<and> al (kMinNumBuckets * 8)
      then Some \<lparr>num_items = 0, buckets = replicate kMinNumBuckets [], num_buckets = kMinNumBuckets,
        callback_depth = 0, comp = c, hash = h\<rparr>
      else None)"

text \<open>The addresses of the items that are freed, in order; the array and the table are freed too.\<close>

definition OPENSSL_lh_free :: "'d lhash option \<Rightarrow> nat list" where
  "OPENSSL_lh_free lh = (case lh of None \<Rightarrow> [] | Some lh \<Rightarrow> concat (map (map item_addr) (take (num_buckets lh) (buckets lh))))"

definition OPENSSL_lh_num_items :: "'d lhash \<Rightarrow> nat" where
  "OPENSSL_lh_num_items lh = num_items lh"

text \<open>The walk along a chain to the first element that matches, or to the end.\<close>

primrec chain_index :: "('d \<Rightarrow> bool) \<Rightarrow> 'd lhash_item list \<Rightarrow> nat" where
  "chain_index P [] = 0"
| "chain_index P (cur # rest) = (if P (item_data cur) then 0 else Suc (chain_index P rest))"

definition get_next_ptr_and_hash :: "'d lhash \<Rightarrow> 'd \<Rightarrow> u32 \<times> nat \<times> nat" where
  "get_next_ptr_and_hash lh d =
     (let h = hash lh d; b = unat h mod num_buckets lh
      in (h, b, chain_index (\<lambda>x. comp lh x d = 0) (buckets lh ! b)))"

definition get_next_ptr_by_key :: "'d lhash \<Rightarrow> 'k \<Rightarrow> u32 \<Rightarrow> ('k \<Rightarrow> 'd \<Rightarrow> int) \<Rightarrow> nat \<times> nat" where
  "get_next_ptr_by_key lh key key_hash cmp_key =
     (let b = unat key_hash mod num_buckets lh
      in (b, chain_index (\<lambda>x. cmp_key key x = 0) (buckets lh ! b)))"

definition OPENSSL_lh_retrieve :: "'d lhash \<Rightarrow> 'd \<Rightarrow> 'd option" where
  "OPENSSL_lh_retrieve lh d =
     (case get_next_ptr_and_hash lh d of
        (_, b, i) \<Rightarrow> if i = length (buckets lh ! b) then None else Some (item_data (buckets lh ! b ! i)))"

definition OPENSSL_lh_retrieve_key :: "'d lhash \<Rightarrow> 'k \<Rightarrow> u32 \<Rightarrow> ('k \<Rightarrow> 'd \<Rightarrow> int) \<Rightarrow> 'd option" where
  "OPENSSL_lh_retrieve_key lh key key_hash cmp_key =
     (case get_next_ptr_by_key lh key key_hash cmp_key of
        (b, i) \<Rightarrow> if i = length (buckets lh ! b) then None else Some (item_data (buckets lh ! b ! i)))"

text \<open>One turn of the loop of \<open>lh_rebucket\<close>: the item goes to the front of its new chain.\<close>

definition rebucket_item :: "nat \<Rightarrow> 'd lhash_item \<Rightarrow> 'd lhash_item list list \<Rightarrow> 'd lhash_item list list" where
  "rebucket_item new_num_buckets cur new_buckets =
     (let new_bucket = unat (item_hash cur) mod new_num_buckets
      in new_buckets[new_bucket := cur # new_buckets ! new_bucket])"

definition lh_rebucket :: "(nat \<Rightarrow> bool) \<Rightarrow> nat \<Rightarrow> 'd lhash \<Rightarrow> 'd lhash" where
  "lh_rebucket al new_num_buckets lh =
     (let alloc_size = (8 * new_num_buckets) mod 2 ^ 64
      in if alloc_size div 8 \<noteq> new_num_buckets then lh
         else if \<not> al alloc_size then lh
         else lh\<lparr>num_buckets := new_num_buckets,
                buckets := fold (rebucket_item new_num_buckets) (concat (take (num_buckets lh) (buckets lh))) (replicate new_num_buckets [])\<rparr>)"

definition lh_maybe_resize :: "(nat \<Rightarrow> bool) \<Rightarrow> 'd lhash \<Rightarrow> 'd lhash" where
  "lh_maybe_resize al lh =
     (if callback_depth lh > 0 then lh
      else
        let avg_chain_length = num_items lh div num_buckets lh
        in if avg_chain_length > kMaxAverageChainLength then
             let new_num_buckets = (num_buckets lh * 2) mod 2 ^ 64
             in if new_num_buckets > num_buckets lh then lh_rebucket al new_num_buckets lh else lh
           else if avg_chain_length < kMinAverageChainLength \<and> num_buckets lh > kMinNumBuckets then
             let new_num_buckets = num_buckets lh div 2;
                 new_num_buckets = (if new_num_buckets < kMinNumBuckets then kMinNumBuckets else new_num_buckets)
             in lh_rebucket al new_num_buckets lh
           else lh)"

text \<open>The result is whether the insertion succeeds, with the element that was replaced.\<close>

definition OPENSSL_lh_insert ::
  "(nat \<Rightarrow> bool) \<Rightarrow> nat option \<Rightarrow> 'd \<Rightarrow> 'd lhash \<Rightarrow> (bool \<times> 'd option) \<times> 'd lhash" where
  "OPENSSL_lh_insert al malloc d lh =
     (case get_next_ptr_and_hash lh d of
        (h, b, i) \<Rightarrow>
          let chain = buckets lh ! b
          in if i \<noteq> length chain then
               ((True, Some (item_data (chain ! i))),
                lh\<lparr>buckets := (buckets lh)[b := chain[i := (chain ! i)\<lparr>item_data := d\<rparr>]]\<rparr>)
             else
               (case malloc of
                  None \<Rightarrow> ((False, None), lh)
                | Some p \<Rightarrow>
                    let item = \<lparr>item_addr = p, item_data = d, item_hash = h\<rparr>
                    in ((True, None),
                        lh_maybe_resize al (lh\<lparr>buckets := (buckets lh)[b := chain @ [item]], num_items := num_items lh + 1\<rparr>))))"

definition OPENSSL_lh_delete :: "(nat \<Rightarrow> bool) \<Rightarrow> 'd \<Rightarrow> 'd lhash \<Rightarrow> 'd option \<times> 'd lhash" where
  "OPENSSL_lh_delete al d lh =
     (case get_next_ptr_and_hash lh d of
        (_, b, i) \<Rightarrow>
          let chain = buckets lh ! b
          in if i = length chain then (None, lh)
             else (Some (item_data (chain ! i)),
                   lh_maybe_resize al (lh\<lparr>buckets := (buckets lh)[b := take i chain @ drop (Suc i) chain], num_items := num_items lh - 1\<rparr>)))"

section \<open>Iteration\<close>

text \<open>The address of the first item of a chain, and the chain from an address on; an address that is not
  in the chain is a dangling pointer.\<close>

definition chain_head :: "'d lhash_item list \<Rightarrow> nat option" where
  "chain_head c = (case c of [] \<Rightarrow> None | it # _ \<Rightarrow> Some (item_addr it))"

definition chain_from :: "nat \<Rightarrow> 'd lhash_item list \<Rightarrow> 'd lhash_item list" where
  "chain_from p c = dropWhile (\<lambda>it. item_addr it \<noteq> p) c"

text \<open>The inner loop. \<open>func\<close> may change the table and its argument; \<open>None\<close> if it never ends, or if it
  follows a dangling pointer because \<open>func\<close> freed the next item.\<close>

partial_function (option) doall_chain ::
  "('d \<Rightarrow> 'd lhash \<times> 'a \<Rightarrow> 'd lhash \<times> 'a) \<Rightarrow> nat \<Rightarrow> nat option \<Rightarrow> 'd lhash \<times> 'a \<Rightarrow> ('d lhash \<times> 'a) option" where
  "doall_chain func i cur s =
     (case cur of
        None \<Rightarrow> Some s
      | Some p \<Rightarrow>
          (case chain_from p (buckets (fst s) ! i) of
             [] \<Rightarrow> None
           | it # rest \<Rightarrow> doall_chain func i (chain_head rest) (func (item_data it) s)))"

partial_function (option) doall_buckets ::
  "('d \<Rightarrow> 'd lhash \<times> 'a \<Rightarrow> 'd lhash \<times> 'a) \<Rightarrow> nat \<Rightarrow> 'd lhash \<times> 'a \<Rightarrow> ('d lhash \<times> 'a) option" where
  "doall_buckets func i s =
     (if i < num_buckets (fst s)
      then Option.bind (doall_chain func i (chain_head (buckets (fst s) ! i)) s) (doall_buckets func (i + 1))
      else Some s)"

definition OPENSSL_lh_doall_arg ::
  "(nat \<Rightarrow> bool) \<Rightarrow> ('d \<Rightarrow> 'd lhash \<times> 'a \<Rightarrow> 'd lhash \<times> 'a) \<Rightarrow> 'd lhash option \<times> 'a \<Rightarrow> ('d lhash option \<times> 'a) option" where
  "OPENSSL_lh_doall_arg al func s =
     (case s of
        (None, arg) \<Rightarrow> Some (None, arg)
      | (Some lh, arg) \<Rightarrow>
          let lh = (if callback_depth lh < -1 then lh\<lparr>callback_depth := callback_depth lh + 1\<rparr> else lh)
          in Option.bind (doall_buckets func 0 (lh, arg)) (\<lambda>(lh, arg).
               let lh = (if callback_depth lh < -1 then lh\<lparr>callback_depth := callback_depth lh - 1\<rparr> else lh)
               in Some (Some (lh_maybe_resize al lh), arg)))"

section \<open>Chains\<close>

lemma chain_index_le: "chain_index P c \<le> length c"
  by (induction c) auto

lemma chain_index_end: "chain_index P c = length c \<longleftrightarrow> (\<forall>it\<in>set c. \<not> P (item_data it))"
  by (induction c) auto

lemma chain_index_match: "chain_index P c \<noteq> length c \<Longrightarrow> chain_index P c < length c \<and> P (item_data (c ! chain_index P c))"
  by (induction c) auto

lemma mset_concat_update:
  "b < length bs \<Longrightarrow> mset (concat (bs[b := c])) + mset (bs ! b) = mset (concat bs) + mset c"
  by (induction bs arbitrary: b) (auto split: nat.splits)

lemma mset_delete_nth: "i < length c \<Longrightarrow> mset (take i c @ drop (Suc i) c) + {#c ! i#} = mset c"
  by (metis add.commute add_mset_add_single id_take_nth_drop mset.simps(2) mset_append union_mset_add_mset_right)

lemma mset_update_nth: "i < length c \<Longrightarrow> mset (c[i := x]) + {#c ! i#} = mset c + {#x#}"
  by (simp add: mset_update)

section \<open>The invariant\<close>

definition items :: "'d lhash \<Rightarrow> 'd lhash_item list" where
  "items lh = concat (buckets lh)"

text \<open>Every item is in the chain that its hash selects, no two have an address in common, and no two hold
  equal elements.\<close>

definition well_placed :: "nat \<Rightarrow> 'd lhash_item list list \<Rightarrow> bool" where
  "well_placed n bs \<longleftrightarrow> length bs = n \<and> (\<forall>i<n. \<forall>it\<in>set (bs ! i). unat (item_hash it) mod n = i)"

definition lh_ok :: "'d lhash \<Rightarrow> bool" where
  "lh_ok lh \<longleftrightarrow> kMinNumBuckets \<le> num_buckets lh \<and> well_placed (num_buckets lh) (buckets lh) \<and>
     num_items lh = length (items lh) \<and>
     (\<forall>it\<in>set (items lh). item_hash it = hash lh (item_data it)) \<and>
     distinct (map item_addr (items lh)) \<and>
     (\<forall>x\<in>set (items lh). \<forall>y\<in>set (items lh). comp lh (item_data x) (item_data y) = 0 \<longrightarrow> x = y)"

lemma lh_okD:
  assumes "lh_ok lh"
  shows "0 < num_buckets lh" "length (buckets lh) = num_buckets lh" "well_placed (num_buckets lh) (buckets lh)"
    "num_items lh = length (items lh)" "\<And>it. it \<in> set (items lh) \<Longrightarrow> item_hash it = hash lh (item_data it)"
    "distinct (map item_addr (items lh))" "distinct (items lh)"
    "\<And>x y. x \<in> set (items lh) \<Longrightarrow> y \<in> set (items lh) \<Longrightarrow> comp lh (item_data x) (item_data y) = 0 \<Longrightarrow> x = y"
  using assms by (auto simp: lh_ok_def well_placed_def kMinNumBuckets_def distinct_map)

text \<open>What the invariant says of the items depends on them as a collection only.\<close>

definition items_ok :: "('d \<Rightarrow> 'd \<Rightarrow> int) \<Rightarrow> ('d \<Rightarrow> u32) \<Rightarrow> 'd lhash_item multiset \<Rightarrow> bool" where
  "items_ok c h M \<longleftrightarrow> (\<forall>it\<in>#M. item_hash it = h (item_data it)) \<and> (\<forall>p. count (image_mset item_addr M) p \<le> 1) \<and>
     (\<forall>x\<in>#M. \<forall>y\<in>#M. c (item_data x) (item_data y) = 0 \<longrightarrow> x = y)"

lemma distinct_iff_count: "distinct xs \<longleftrightarrow> (\<forall>x. count (mset xs) x \<le> 1)"
  by (auto simp: distinct_count_atmost_1 count_eq_zero_iff) (metis One_nat_def count_greater_eq_one_iff in_multiset_in_set le_Suc_eq le_zero_eq count_eq_zero_iff)+

lemma lh_ok_iff:
  "lh_ok lh \<longleftrightarrow> kMinNumBuckets \<le> num_buckets lh \<and> well_placed (num_buckets lh) (buckets lh) \<and>
     num_items lh = size (mset (items lh)) \<and> items_ok (comp lh) (hash lh) (mset (items lh))"
  by (auto simp: lh_ok_def items_ok_def distinct_iff_count)

lemma in_items_iff: "b < length (buckets lh) \<Longrightarrow> it \<in> set (buckets lh ! b) \<Longrightarrow> it \<in> set (items lh)"
  by (auto simp: items_def)

definition elements :: "'d lhash \<Rightarrow> 'd set" where
  "elements lh = item_data ` set (items lh)"

lemma set_mset_remove: "distinct xs \<Longrightarrow> set_mset (mset xs - {#x#}) = set xs - {x}"
  by (metis mset_remove1 set_mset_mset set_remove1_eq)

lemma option_eqI: "(\<And>x. a = Some x \<longleftrightarrow> b = Some x) \<Longrightarrow> a = b"
  by (cases a; cases b) auto

section \<open>Resizing\<close>

lemma rebucket_item_placed:
  assumes "well_placed n bs" "0 < n"
  shows "well_placed n (rebucket_item n it bs) \<and> mset (concat (rebucket_item n it bs)) = add_mset it (mset (concat bs))"
proof -
  let ?b = "unat (item_hash it) mod n"
  have b: "?b < length bs" using assms by (simp add: well_placed_def)
  have "mset (concat (bs[?b := it # bs ! ?b])) + mset (bs ! ?b) = add_mset it (mset (concat bs)) + mset (bs ! ?b)"
    using mset_concat_update [OF b, of "it # bs ! ?b"] by simp
  then show ?thesis
    using assms b by (auto simp: rebucket_item_def Let_def well_placed_def nth_list_update split: if_splits)
qed

lemma rebucket_fold:
  "well_placed n bs \<Longrightarrow> 0 < n \<Longrightarrow>
   well_placed n (fold (rebucket_item n) xs bs) \<and> mset (concat (fold (rebucket_item n) xs bs)) = mset xs + mset (concat bs)"
  by (induction xs arbitrary: bs) (auto simp: rebucket_item_placed)

lemma well_placed_empty: "well_placed n (replicate n [])"
  by (simp add: well_placed_def)

definition same_table :: "'d lhash \<Rightarrow> 'd lhash \<Rightarrow> bool" where
  "same_table lh lh' \<longleftrightarrow> lh_ok lh' \<and> mset (items lh') = mset (items lh) \<and> comp lh' = comp lh \<and> hash lh' = hash lh \<and>
     callback_depth lh' = callback_depth lh"

lemma same_table_refl: "lh_ok lh \<Longrightarrow> same_table lh lh"
  by (simp add: same_table_def)

lemma lh_rebucket_same: "lh_ok lh \<Longrightarrow> kMinNumBuckets \<le> n \<Longrightarrow> same_table lh (lh_rebucket al n lh)"
proof -
  assume ok: "lh_ok lh" and n: "kMinNumBuckets \<le> n"
  then have pos: "0 < n" by (simp add: kMinNumBuckets_def)
  have take: "take (num_buckets lh) (buckets lh) = buckets lh" using lh_okD(2) [OF ok] by simp
  have cs: "concat (replicate n []) = []" by (induction n) auto
  note fold = rebucket_fold [OF well_placed_empty pos, of "items lh"]
  then have "length (concat (fold (rebucket_item n) (items lh) (replicate n []))) = length (items lh)"
    unfolding cs by (metis add.right_neutral mset.simps(1) size_mset)
  with fold ok n show ?thesis
    by (auto simp: same_table_def lh_rebucket_def Let_def lh_ok_iff items_def [of "_\<lparr>buckets := _\<rparr>"] take cs items_def [symmetric])
qed

lemma lh_maybe_resize_same: "lh_ok lh \<Longrightarrow> same_table lh (lh_maybe_resize al lh)"
  by (auto simp: lh_maybe_resize_def Let_def same_table_refl lh_ok_def intro!: lh_rebucket_same)

section \<open>The interface of comparison and hash functions\<close>

locale hash_compare =
  fixes cmp :: "'d \<Rightarrow> 'd \<Rightarrow> int"
    and hsh :: "'d \<Rightarrow> u32"
  assumes cmp_refl: "cmp x x = 0"
    and cmp_sym: "cmp x y = 0 \<Longrightarrow> cmp y x = 0"
    and cmp_trans: "cmp x y = 0 \<Longrightarrow> cmp y z = 0 \<Longrightarrow> cmp x z = 0"
    and cmp_hash: "cmp x y = 0 \<Longrightarrow> hsh x = hsh y"
begin

definition table :: "'d lhash \<Rightarrow> bool" where
  "table lh \<longleftrightarrow> lh_ok lh \<and> comp lh = cmp \<and> hash lh = hsh"

lemma same_table: "table lh \<Longrightarrow> same_table lh lh' \<Longrightarrow> table lh'"
  by (simp add: table_def same_table_def)

lemma cmp_iff: "cmp x y = 0 \<Longrightarrow> cmp x z = 0 \<longleftrightarrow> cmp y z = 0"
  using cmp_sym cmp_trans by blast

text \<open>An equal element can only be in the chain that the hash selects.\<close>

lemma in_bucket:
  assumes "table lh" "it \<in> set (items lh)" "cmp (item_data it) d = 0"
  shows "it \<in> set (buckets lh ! (unat (hsh d) mod num_buckets lh))"
proof -
  have ok: "lh_ok lh" "hash lh = hsh" using assms(1) by (auto simp: table_def)
  from assms(2) obtain c where "c \<in> set (buckets lh)" "it \<in> set c" by (auto simp: items_def)
  then obtain i where i: "i < num_buckets lh" "it \<in> set (buckets lh ! i)"
    using lh_okD(2) [OF ok(1)] by (metis in_set_conv_nth)
  have "unat (item_hash it) mod num_buckets lh = i"
    using lh_okD(3) [OF ok(1)] i by (auto simp: well_placed_def)
  moreover have "item_hash it = hsh d" using lh_okD(5) [OF ok(1) assms(2)] ok(2) cmp_hash [OF assms(3)] by simp
  ultimately show ?thesis using i(2) by simp
qed

text \<open>The search finds the one item that is equal, or there is none.\<close>

lemma search:
  fixes d
  assumes "table lh"
  defines "b \<equiv> unat (hsh d) mod num_buckets lh"
  defines "i \<equiv> chain_index (\<lambda>x. cmp x d = 0) (buckets lh ! b)"
  shows "get_next_ptr_and_hash lh d = (hsh d, b, i)" "b < length (buckets lh)"
    "i = length (buckets lh ! b) \<Longrightarrow> \<forall>it\<in>set (items lh). cmp (item_data it) d \<noteq> 0"
    "i \<noteq> length (buckets lh ! b) \<Longrightarrow> i < length (buckets lh ! b) \<and> buckets lh ! b ! i \<in> set (items lh) \<and> cmp (item_data (buckets lh ! b ! i)) d = 0"
proof -
  have ok: "lh_ok lh" "hash lh = hsh" "comp lh = cmp" using assms(1) by (auto simp: table_def)
  show "get_next_ptr_and_hash lh d = (hsh d, b, i)" by (simp add: get_next_ptr_and_hash_def ok b_def i_def Let_def)
  show b: "b < length (buckets lh)" using lh_okD(1,2) [OF ok(1)] by (simp add: b_def)
  show "\<forall>it\<in>set (items lh). cmp (item_data it) d \<noteq> 0" if "i = length (buckets lh ! b)"
    using that in_bucket [OF assms(1)] unfolding i_def chain_index_end b_def by blast
  show "i < length (buckets lh ! b) \<and> buckets lh ! b ! i \<in> set (items lh) \<and> cmp (item_data (buckets lh ! b ! i)) d = 0" if "i \<noteq> length (buckets lh ! b)"
    using chain_index_match [of "\<lambda>x. cmp x d = 0" "buckets lh ! b"] that in_items_iff [OF b] unfolding i_def by auto
qed

lemma retrieve_iff:
  assumes "table lh"
  shows "OPENSSL_lh_retrieve lh d = Some x \<longleftrightarrow> x \<in> elements lh \<and> cmp x d = 0"
proof -
  note s = search [OF assms, of d]
  let ?b = "unat (hsh d) mod num_buckets lh"
  let ?i = "chain_index (\<lambda>x. cmp x d = 0) (buckets lh ! ?b)"
  have ok: "lh_ok lh" "comp lh = cmp" using assms by (auto simp: table_def)
  show ?thesis
  proof (cases "?i = length (buckets lh ! ?b)")
    case True
    then show ?thesis using s(3) by (auto simp: OPENSSL_lh_retrieve_def s(1) elements_def)
  next
    case False
    let ?it = "buckets lh ! ?b ! ?i"
    have "y = ?it" if "y \<in> set (items lh)" "cmp (item_data y) d = 0" for y
      using that s(4) [OF False] lh_okD(8) [OF ok(1)] ok(2) cmp_sym cmp_trans by metis
    then show ?thesis using s(4) [OF False] False by (auto simp: OPENSSL_lh_retrieve_def s(1) elements_def)
  qed
qed

text \<open>Replacing one chain keeps the invariant, if the items are still unique and well placed.\<close>

lemma update_ok:
  assumes "table lh" "b < length (buckets lh)" "\<forall>it\<in>set c. unat (item_hash it) mod num_buckets lh = b"
    "mset c + M = mset (buckets lh ! b) + N" "mset (items lh) + N = K + M" "items_ok cmp hsh K" "n = size K"
  defines "lh' \<equiv> lh\<lparr>buckets := (buckets lh)[b := c], num_items := n\<rparr>"
  shows "table lh' \<and> mset (items lh') = K"
proof -
  have "mset (items lh') + mset (buckets lh ! b) = mset (items lh) + mset c"
    using mset_concat_update [OF assms(2), of c] by (simp add: lh'_def items_def)
  then have "mset (items lh') + mset (buckets lh ! b) + N + M = mset (items lh) + N + (mset c + M)" by (simp add: ac_simps)
  also have "\<dots> = K + M + (mset (buckets lh ! b) + N)" by (simp only: assms(4,5))
  finally have K: "mset (items lh') = K" by (simp add: ac_simps)
  have "well_placed (num_buckets lh') (buckets lh')"
    using assms(1,2,3) by (auto simp: table_def lh_ok_def well_placed_def lh'_def nth_list_update)
  then show ?thesis using K assms(1,6,7) by (auto simp: table_def lh_ok_iff lh'_def)
qed

text \<open>A chain that is searched for \<open>d\<close> gets an item, loses its match, or has its match replaced.\<close>

lemma insert_new:
  assumes "table lh" "\<forall>it\<in>set (items lh). cmp (item_data it) d \<noteq> 0" "p \<notin> item_addr ` set (items lh)"
  defines "b \<equiv> unat (hsh d) mod num_buckets lh"
  defines "it \<equiv> \<lparr>item_addr = p, item_data = d, item_hash = hsh d\<rparr>"
  shows "table (lh\<lparr>buckets := (buckets lh)[b := buckets lh ! b @ [it]], num_items := num_items lh + 1\<rparr>) \<and>
    mset (items (lh\<lparr>buckets := (buckets lh)[b := buckets lh ! b @ [it]], num_items := num_items lh + 1\<rparr>)) = add_mset it (mset (items lh))"
proof (rule update_ok [OF assms(1)])
  have ok: "lh_ok lh" "comp lh = cmp" "hash lh = hsh" using assms(1) by (auto simp: table_def)
  show b: "b < length (buckets lh)" unfolding b_def by (rule search(2) [OF assms(1)])
  show "\<forall>it\<in>set (buckets lh ! b @ [it]). unat (item_hash it) mod num_buckets lh = b"
    using lh_okD(3) [OF ok(1)] b by (auto simp: well_placed_def it_def b_def)
  show "mset (buckets lh ! b @ [it]) + {#} = mset (buckets lh ! b) + {#it#}"
    "mset (items lh) + {#it#} = add_mset it (mset (items lh)) + {#}" by simp_all
  have "cmp d (item_data y) = 0 \<longleftrightarrow> cmp (item_data y) d = 0" for y using cmp_sym by blast
  moreover have "count (image_mset item_addr (mset (items lh))) p = 0" using assms(3) by (simp add: count_eq_zero_iff)
  ultimately show "items_ok cmp hsh (add_mset it (mset (items lh)))"
    using ok assms(2) by (auto simp: lh_ok_iff items_ok_def it_def)
  show "num_items lh + 1 = size (add_mset it (mset (items lh)))" using lh_okD(4) [OF ok(1)] by simp
qed

lemma delete_match:
  assumes "table lh" "b < length (buckets lh)" "i < length (buckets lh ! b)"
  defines "it \<equiv> buckets lh ! b ! i"
  defines "c \<equiv> take i (buckets lh ! b) @ drop (Suc i) (buckets lh ! b)"
  shows "table (lh\<lparr>buckets := (buckets lh)[b := c], num_items := num_items lh - 1\<rparr>) \<and>
    mset (items (lh\<lparr>buckets := (buckets lh)[b := c], num_items := num_items lh - 1\<rparr>)) = mset (items lh) - {#it#}"
proof (rule update_ok [OF assms(1,2)])
  have ok: "lh_ok lh" "comp lh = cmp" "hash lh = hsh" using assms(1) by (auto simp: table_def)
  have it: "it \<in># mset (items lh)" using in_items_iff [OF assms(2)] assms(3) by (simp add: it_def)
  show "\<forall>it\<in>set c. unat (item_hash it) mod num_buckets lh = b"
    using lh_okD(3) [OF ok(1)] assms(2) unfolding well_placed_def c_def by (auto dest: in_set_takeD in_set_dropD)
  show "mset c + {#it#} = mset (buckets lh ! b) + {#}" using mset_delete_nth [OF assms(3)] by (simp add: c_def it_def)
  show "mset (items lh) + {#} = mset (items lh) - {#it#} + {#it#}" using it by simp
  have "count (image_mset item_addr (mset (items lh) - {#it#})) p \<le> count (image_mset item_addr (mset (items lh))) p" for p
    using it by (simp add: image_mset_Diff)
  then show "items_ok cmp hsh (mset (items lh) - {#it#})"
    using ok unfolding lh_ok_iff items_ok_def by (meson in_diffD le_trans)
  show "num_items lh - 1 = size (mset (items lh) - {#it#})" using lh_okD(4) [OF ok(1)] it by (simp add: size_Diff_singleton)
qed

lemma replace_match:
  assumes "table lh" "b < length (buckets lh)" "i < length (buckets lh ! b)" "cmp (item_data (buckets lh ! b ! i)) d = 0"
  defines "it \<equiv> buckets lh ! b ! i"
  defines "it' \<equiv> it\<lparr>item_data := d\<rparr>"
  defines "c \<equiv> (buckets lh ! b)[i := it']"
  shows "table (lh\<lparr>buckets := (buckets lh)[b := c]\<rparr>) \<and>
    mset (items (lh\<lparr>buckets := (buckets lh)[b := c]\<rparr>)) = add_mset it' (mset (items lh) - {#it#})"
proof -
  have ok: "lh_ok lh" "comp lh = cmp" "hash lh = hsh" using assms(1) by (auto simp: table_def)
  have it: "it \<in> set (items lh)" using in_items_iff [OF assms(2)] assms(3) by (simp add: it_def)
  have h: "item_hash it = hsh d" using lh_okD(5) [OF ok(1) it] ok(3) cmp_hash [OF assms(4)] by (simp add: it_def)
  have placed: "\<forall>x\<in>set c. unat (item_hash x) mod num_buckets lh = b"
  proof
    fix x assume "x \<in> set c"
    then have "x = it' \<or> x \<in> set (buckets lh ! b)" unfolding c_def by (meson set_update_subset_insert subsetD insertE)
    then show "unat (item_hash x) mod num_buckets lh = b"
      using lh_okD(3) [OF ok(1)] assms(2,3) nth_mem [OF assms(3)] by (auto simp: well_placed_def it'_def it_def)
  qed
  have m: "mset c + {#it#} = mset (buckets lh ! b) + {#it'#}" using mset_update_nth [OF assms(3), of it'] by (simp add: c_def it_def)
  have k: "mset (items lh) + {#it'#} = add_mset it' (mset (items lh) - {#it#}) + {#it#}" using it by simp
  have rest: "y \<in> set (items lh)" "y \<noteq> it" if "y \<in># mset (items lh) - {#it#}" for y
    using that set_mset_remove [OF lh_okD(7) [OF ok(1)], of it] by auto
  have addr: "image_mset item_addr (add_mset it' (mset (items lh) - {#it#})) = image_mset item_addr (mset (items lh))"
    using it by (simp add: it'_def image_mset_Diff)
  have apart: "cmp d (item_data y) \<noteq> 0" "cmp (item_data y) d \<noteq> 0" if "y \<in># mset (items lh) - {#it#}" for y
    using rest [OF that] lh_okD(8) [OF ok(1) it, of y] assms(4) ok(2) cmp_sym cmp_trans
    unfolding it_def [symmetric] by metis+
  have unique: "items_ok cmp hsh (add_mset it' (mset (items lh) - {#it#}))"
    unfolding items_ok_def addr
  proof (intro conjI)
    show "\<forall>p. count (image_mset item_addr (mset (items lh))) p \<le> 1" using ok(1) by (simp add: lh_ok_iff items_ok_def)
    show "\<forall>x\<in>#add_mset it' (mset (items lh) - {#it#}). item_hash x = hsh (item_data x)"
      using lh_okD(5) [OF ok(1)] ok(3) h by (auto simp: it'_def dest: in_diffD)
    show "\<forall>x\<in>#add_mset it' (mset (items lh) - {#it#}). \<forall>y\<in>#add_mset it' (mset (items lh) - {#it#}). cmp (item_data x) (item_data y) = 0 \<longrightarrow> x = y"
    proof (intro ballI impI)
      fix x y
      assume xy: "x \<in># add_mset it' (mset (items lh) - {#it#})" "y \<in># add_mset it' (mset (items lh) - {#it#})" and z: "cmp (item_data x) (item_data y) = 0"
      have it': "item_data it' = d" by (simp add: it'_def)
      from xy consider "x = it'" "y = it'" | "x = it'" "y \<in># mset (items lh) - {#it#}" | "y = it'" "x \<in># mset (items lh) - {#it#}"
        | "x \<in># mset (items lh) - {#it#}" "y \<in># mset (items lh) - {#it#}" unfolding set_mset_add_mset_insert insert_iff by blast
      then show "x = y"
      proof cases
        case 4
        then show ?thesis using lh_okD(8) [OF ok(1) rest(1) rest(1)] z ok(2) by simp
      qed (use apart z it' in simp_all)
    qed
  qed
  have "num_items lh = size (add_mset it' (mset (items lh) - {#it#}))"
    using lh_okD(4) [OF ok(1)] insert_DiffM [of it "mset (items lh)"] it by (metis set_mset_mset size_add_mset size_mset)
  from update_ok [OF assms(1,2) placed m k unique this] show ?thesis by simp
qed

text \<open>The operations: what is in the table afterwards, and what they return.\<close>

lemma element_unique:
  assumes "table lh" "x \<in> set (items lh)" "cmp (item_data x) d = 0" "y \<in> set (items lh)"
  shows "cmp (item_data y) d = 0 \<longleftrightarrow> y = x"
proof -
  have ok: "lh_ok lh" "comp lh = cmp" using assms(1) by (auto simp: table_def)
  show ?thesis using lh_okD(8) [OF ok(1) assms(4,2)] ok(2) assms(3) cmp_sym cmp_trans by metis
qed

lemma same_elements: "same_table lh lh' \<Longrightarrow> elements lh' = elements lh"
  unfolding same_table_def elements_def by (metis mset_eq_setD)

lemma resized:
  assumes "table lh"
  shows "table (lh_maybe_resize al lh)" "elements (lh_maybe_resize al lh) = elements lh"
proof -
  have "same_table lh (lh_maybe_resize al lh)" using assms by (intro lh_maybe_resize_same) (simp add: table_def)
  then show "table (lh_maybe_resize al lh)" "elements (lh_maybe_resize al lh) = elements lh"
    using same_table [OF assms] same_elements by auto
qed

lemma insert_elements:
  assumes "table lh" "\<And>p. malloc = Some p \<Longrightarrow> p \<notin> item_addr ` set (items lh)"
    and "OPENSSL_lh_insert al malloc d lh = ((success, old), lh')"
  shows "table lh' \<and> old = OPENSSL_lh_retrieve lh d \<and> (success \<longleftrightarrow> old \<noteq> None \<or> malloc \<noteq> None) \<and>
    elements lh' = (if success then insert d {x \<in> elements lh. cmp x d \<noteq> 0} else elements lh)"
proof -
  let ?b = "unat (hsh d) mod num_buckets lh"
  let ?i = "chain_index (\<lambda>x. cmp x d = 0) (buckets lh ! ?b)"
  note s = search [OF assms(1), of d]
  have ok: "lh_ok lh" "comp lh = cmp" using assms(1) by (auto simp: table_def)
  show ?thesis
  proof (cases "?i = length (buckets lh ! ?b)")
    case True
    note none = s(3) [OF True]
    have ret: "OPENSSL_lh_retrieve lh d = None" using True by (simp add: OPENSSL_lh_retrieve_def s(1))
    have keep: "{x \<in> elements lh. cmp x d \<noteq> 0} = elements lh" using none by (auto simp: elements_def)
    show ?thesis
    proof (cases malloc)
      case None
      then show ?thesis using assms(1,3) ret True by (auto simp: OPENSSL_lh_insert_def s(1))
    next
      case (Some p)
      let ?it = "\<lparr>item_addr = p, item_data = d, item_hash = hsh d\<rparr>"
      let ?lh = "lh\<lparr>buckets := (buckets lh)[?b := buckets lh ! ?b @ [?it]], num_items := num_items lh + 1\<rparr>"
      from insert_new [OF assms(1) none assms(2) [OF Some]]
      have t: "table ?lh" "mset (items ?lh) = add_mset ?it (mset (items lh))" by auto
      have "elements ?lh = insert d (elements lh)"
        unfolding elements_def using arg_cong [OF t(2), of set_mset] by simp
      moreover have "success" "old = None" "lh' = lh_maybe_resize al ?lh"
        using assms(3) True Some by (auto simp: OPENSSL_lh_insert_def s(1) Let_def)
      ultimately show ?thesis using resized [OF t(1)] ret keep Some by simp
    qed
  next
    case False
    let ?it = "buckets lh ! ?b ! ?i"
    let ?it' = "?it\<lparr>item_data := d\<rparr>"
    let ?lh = "lh\<lparr>buckets := (buckets lh)[?b := (buckets lh ! ?b)[?i := ?it']]\<rparr>"
    from s(4) [OF False] have it: "?i < length (buckets lh ! ?b)" "?it \<in> set (items lh)" "cmp (item_data ?it) d = 0" by auto
    from replace_match [OF assms(1) s(2) it(1,3)]
    have t: "table ?lh" "mset (items ?lh) = add_mset ?it' (mset (items lh) - {#?it#})" by auto
    have "set (items ?lh) = insert ?it' (set (items lh) - {?it})"
      using arg_cong [OF t(2), of set_mset] set_mset_remove [OF lh_okD(7) [OF ok(1)], of ?it] by simp
    moreover have "{x \<in> elements lh. cmp x d \<noteq> 0} = item_data ` (set (items lh) - {?it})"
      using element_unique [OF assms(1) it(2,3)] by (auto simp: elements_def)
    ultimately have "elements ?lh = insert d {x \<in> elements lh. cmp x d \<noteq> 0}" unfolding elements_def [of ?lh] by simp
    moreover have "success" "old = Some (item_data ?it)" "lh' = ?lh"
      using assms(3) False by (auto simp: OPENSSL_lh_insert_def s(1) Let_def)
    moreover have "OPENSSL_lh_retrieve lh d = Some (item_data ?it)"
      unfolding retrieve_iff [OF assms(1)] using it by (simp add: elements_def)
    ultimately show ?thesis using t(1) by simp
  qed
qed

lemma delete_elements:
  assumes "table lh" "OPENSSL_lh_delete al d lh = (old, lh')"
  shows "table lh' \<and> old = OPENSSL_lh_retrieve lh d \<and> elements lh' = {x \<in> elements lh. cmp x d \<noteq> 0}"
proof -
  let ?b = "unat (hsh d) mod num_buckets lh"
  let ?i = "chain_index (\<lambda>x. cmp x d = 0) (buckets lh ! ?b)"
  note s = search [OF assms(1), of d]
  have ok: "lh_ok lh" "comp lh = cmp" using assms(1) by (auto simp: table_def)
  show ?thesis
  proof (cases "?i = length (buckets lh ! ?b)")
    case True
    then have "OPENSSL_lh_retrieve lh d = None" by (simp add: OPENSSL_lh_retrieve_def s(1))
    then show ?thesis using assms s(3) [OF True] True by (auto simp: OPENSSL_lh_delete_def s(1) elements_def)
  next
    case False
    let ?it = "buckets lh ! ?b ! ?i"
    let ?c = "take ?i (buckets lh ! ?b) @ drop (Suc ?i) (buckets lh ! ?b)"
    let ?lh = "lh\<lparr>buckets := (buckets lh)[?b := ?c], num_items := num_items lh - 1\<rparr>"
    from s(4) [OF False] have it: "?i < length (buckets lh ! ?b)" "?it \<in> set (items lh)" "cmp (item_data ?it) d = 0" by auto
    from delete_match [OF assms(1) s(2) it(1)]
    have t: "table ?lh" "mset (items ?lh) = mset (items lh) - {#?it#}" by auto
    have "set (items ?lh) = set (items lh) - {?it}"
      using arg_cong [OF t(2), of set_mset] set_mset_remove [OF lh_okD(7) [OF ok(1)], of ?it] by simp
    moreover have "{x \<in> elements lh. cmp x d \<noteq> 0} = item_data ` (set (items lh) - {?it})"
      using element_unique [OF assms(1) it(2,3)] by (auto simp: elements_def)
    ultimately have "elements ?lh = {x \<in> elements lh. cmp x d \<noteq> 0}" unfolding elements_def [of ?lh] by simp
    moreover have "old = Some (item_data ?it)" "lh' = lh_maybe_resize al ?lh"
      using assms(2) False by (auto simp: OPENSSL_lh_delete_def s(1) Let_def)
    moreover have "OPENSSL_lh_retrieve lh d = Some (item_data ?it)"
      unfolding retrieve_iff [OF assms(1)] using it by (simp add: elements_def)
    ultimately show ?thesis using resized [OF t(1)] by simp
  qed
qed

text \<open>So the table is a function from elements to elements.\<close>

lemma retrieve_insert:
  assumes "table lh" "table lh'" "elements lh' = insert d {x \<in> elements lh. cmp x d \<noteq> 0}"
  shows "OPENSSL_lh_retrieve lh' e = (if cmp e d = 0 then Some d else OPENSSL_lh_retrieve lh e)"
proof (rule option_eqI)
  fix x
  have "cmp x d \<noteq> 0 \<or> cmp x e \<noteq> 0" if "cmp e d \<noteq> 0" using that cmp_sym cmp_trans by blast
  moreover have "cmp d e = 0 \<longleftrightarrow> cmp e d = 0" using cmp_sym by blast
  moreover have "cmp x e = 0 \<longleftrightarrow> cmp x d = 0" if "cmp e d = 0" using that cmp_sym cmp_trans by blast
  ultimately show "OPENSSL_lh_retrieve lh' e = Some x \<longleftrightarrow> (if cmp e d = 0 then Some d else OPENSSL_lh_retrieve lh e) = Some x"
    unfolding retrieve_iff [OF assms(2)] assms(3) by (auto simp: retrieve_iff [OF assms(1)])
qed

lemma retrieve_delete:
  assumes "table lh" "table lh'" "elements lh' = {x \<in> elements lh. cmp x d \<noteq> 0}"
  shows "OPENSSL_lh_retrieve lh' e = (if cmp e d = 0 then None else OPENSSL_lh_retrieve lh e)"
proof (rule option_eqI)
  fix x
  have "cmp x d \<noteq> 0 \<or> cmp x e \<noteq> 0" if "cmp e d \<noteq> 0" using that cmp_sym cmp_trans by blast
  moreover have "cmp x e = 0 \<longleftrightarrow> cmp x d = 0" if "cmp e d = 0" using that cmp_sym cmp_trans by blast
  ultimately show "OPENSSL_lh_retrieve lh' e = Some x \<longleftrightarrow> (if cmp e d = 0 then None else OPENSSL_lh_retrieve lh e) = Some x"
    unfolding retrieve_iff [OF assms(2)] assms(3) by (auto simp: retrieve_iff [OF assms(1)])
qed

lemma new_table: "OPENSSL_lh_new al hsh cmp = Some lh \<Longrightarrow> table lh \<and> elements lh = {}"
  by (auto simp: OPENSSL_lh_new_def table_def lh_ok_iff items_ok_def items_def elements_def well_placed_empty concat_replicate_trivial split: if_splits)

end

text \<open>The functions of a table can be exchanged for others that agree on its elements.\<close>

lemma lh_ok_functions:
  assumes "lh_ok lh" "\<And>x. x \<in> elements lh \<Longrightarrow> h x = hash lh x"
    and "\<And>x y. x \<in> elements lh \<Longrightarrow> y \<in> elements lh \<Longrightarrow> c x y = 0 \<Longrightarrow> comp lh x y = 0"
  shows "lh_ok (lh\<lparr>comp := c, hash := h\<rparr>)"
proof -
  let ?lh = "lh\<lparr>comp := c, hash := h\<rparr>"
  note ok = lh_okD [OF assms(1)]
  have i: "items ?lh = items lh" by (simp add: items_def)
  have e: "item_data x \<in> elements lh" if "x \<in> set (items lh)" for x using that by (simp add: elements_def)
  have "\<forall>it\<in>set (items lh). item_hash it = h (item_data it)" using ok(5) assms(2) e by simp
  moreover have "\<forall>x\<in>set (items lh). \<forall>y\<in>set (items lh). c (item_data x) (item_data y) = 0 \<longrightarrow> x = y"
    using ok(8) assms(3) e by blast
  ultimately show ?thesis using assms(1) unfolding lh_ok_def i by simp
qed

section \<open>Iterating with a callback that deletes\<close>

lemma chain_index_append: "\<forall>x\<in>set c. \<not> P (item_data x) \<Longrightarrow> P (item_data it) \<Longrightarrow> chain_index P (c @ it # r) = length c"
  by (induction c) auto

lemma chain_from_append: "item_addr it \<notin> item_addr ` set c \<Longrightarrow> chain_from (item_addr it) (c @ it # r) = it # r"
  by (induction c) (auto simp: chain_from_def)

lemma resize_suppressed: "callback_depth lh \<noteq> 0 \<Longrightarrow> lh_maybe_resize al lh = lh"
  by (simp add: lh_maybe_resize_def word_neq_0_conv)

text \<open>The callback: it deletes the elements with \<open>P\<close>, as the expiry of sessions does, and keeps a record of its calls.\<close>

definition expire :: "(nat \<Rightarrow> bool) \<Rightarrow> ('d \<Rightarrow> bool) \<Rightarrow> 'd \<Rightarrow> 'd lhash \<times> 'd list \<Rightarrow> 'd lhash \<times> 'd list" where
  "expire al P d s = (if P d then snd (OPENSSL_lh_delete al d (fst s)) else fst s, snd s @ [d])"

context hash_compare
begin

definition iterating :: "'d lhash \<Rightarrow> bool" where
  "iterating lh \<longleftrightarrow> table lh \<and> callback_depth lh \<noteq> 0"

lemma delete_here:
  assumes "iterating lh" "i < num_buckets lh" "buckets lh ! i = kept @ it # rest"
  shows "snd (OPENSSL_lh_delete al (item_data it) lh) = lh\<lparr>buckets := (buckets lh)[i := kept @ rest], num_items := num_items lh - 1\<rparr>"
proof -
  have t: "table lh" and depth: "callback_depth lh \<noteq> 0" and ok: "lh_ok lh" "hash lh = hsh" "comp lh = cmp"
    using assms(1) by (auto simp: iterating_def table_def)
  have i: "i < length (buckets lh)" using assms(2) lh_okD(2) [OF ok(1)] by simp
  have it: "it \<in> set (items lh)" using in_items_iff [OF i] assms(3) by simp
  have "unat (item_hash it) mod num_buckets lh = i" using lh_okD(3) [OF ok(1)] assms(2,3) by (auto simp: well_placed_def)
  then have b: "unat (hsh (item_data it)) mod num_buckets lh = i" using lh_okD(5) [OF ok(1) it] ok(2) by simp
  have "distinct (map item_addr (buckets lh ! i))"
    using lh_okD(6) [OF ok(1)] i by (auto simp: items_def map_concat distinct_concat_iff)
  then have "it \<notin> set kept" using assms(3) by auto
  moreover have "kept ! k \<in> set (items lh)" if "k < length kept" for k using in_items_iff [OF i] assms(3) that by auto
  ultimately have "cmp (item_data x) (item_data it) \<noteq> 0" if "x \<in> set kept" for x
    using element_unique [OF t it cmp_refl] that by (metis in_set_conv_nth)
  then have "chain_index (\<lambda>x. cmp x (item_data it) = 0) (buckets lh ! i) = length kept"
    unfolding assms(3) by (intro chain_index_append) (auto simp: cmp_refl)
  then show ?thesis
    using search(1) [OF t, of "item_data it"] assms(3) depth by (simp add: b OPENSSL_lh_delete_def Let_def resize_suppressed)
qed

lemma iterating_delete: "iterating lh \<Longrightarrow> iterating (snd (OPENSSL_lh_delete al d lh))"
proof -
  assume it: "iterating lh"
  then have "table (snd (OPENSSL_lh_delete al d lh))"
    using delete_elements [of lh al d] by (cases "OPENSSL_lh_delete al d lh") (simp add: iterating_def)
  with it show ?thesis
    by (auto simp: iterating_def OPENSSL_lh_delete_def Let_def resize_suppressed split: prod.splits)
qed

definition survivors :: "('d \<Rightarrow> bool) \<Rightarrow> 'd lhash_item list \<Rightarrow> 'd lhash_item list" where
  "survivors P = filter (\<lambda>it. \<not> P (item_data it))"

lemma doall_chain_expire:
  "iterating lh \<Longrightarrow> i < num_buckets lh \<Longrightarrow> buckets lh ! i = kept @ rest \<Longrightarrow>
   \<exists>lh'. doall_chain (expire al P) i (chain_head rest) (lh, a) = Some (lh', a @ map item_data rest) \<and> iterating lh' \<and>
     buckets lh' = (buckets lh)[i := kept @ survivors P rest] \<and> num_buckets lh' = num_buckets lh \<and> callback_depth lh' = callback_depth lh"
proof (induction rest arbitrary: lh kept a)
  case Nil
  then have "buckets lh = (buckets lh)[i := kept @ survivors P []]" by (simp add: survivors_def) (metis list_update_id)
  then show ?case using Nil by (subst doall_chain.simps) (simp add: chain_head_def)
next
  case (Cons it rest)
  define lh1 where "lh1 = fst (expire al P (item_data it) (lh, a))"
  have ok: "lh_ok lh" using Cons.prems(1) by (simp add: iterating_def table_def)
  have i: "i < length (buckets lh)" using Cons.prems(2) lh_okD(2) [OF ok] by simp
  have addr: "item_addr it \<notin> item_addr ` set kept"
    using lh_okD(6) [OF ok] i Cons.prems(3) nth_mem [OF i] by (auto simp: items_def map_concat distinct_concat_iff)
  have step: "doall_chain (expire al P) i (chain_head (it # rest)) (lh, a) =
      doall_chain (expire al P) i (chain_head rest) (lh1, a @ [item_data it])"
    by (subst doall_chain.simps) (simp add: chain_head_def [of "it # rest"] Cons.prems(3) chain_from_append [OF addr] lh1_def expire_def)
  have lh1: "iterating lh1" "num_buckets lh1 = num_buckets lh" "callback_depth lh1 = callback_depth lh"
    "buckets lh1 = (buckets lh)[i := kept @ survivors P [it] @ rest]"
    using Cons.prems delete_here [OF Cons.prems, of al] iterating_delete [OF Cons.prems(1), of al "item_data it"]
      list_update_id [of "buckets lh" i]
    by (auto simp: lh1_def expire_def survivors_def)
  from Cons.IH [OF lh1(1), of "kept @ survivors P [it]" "a @ [item_data it]"] lh1 i Cons.prems(2)
  show ?case unfolding step by (auto simp: survivors_def)
qed

lemma doall_buckets_expire:
  "iterating lh \<Longrightarrow> i \<le> num_buckets lh \<Longrightarrow>
   \<exists>lh'. doall_buckets (expire al P) i (lh, a) = Some (lh', a @ map item_data (concat (drop i (buckets lh)))) \<and> iterating lh' \<and>
     buckets lh' = take i (buckets lh) @ map (survivors P) (drop i (buckets lh)) \<and> callback_depth lh' = callback_depth lh"
proof (induction "num_buckets lh - i" arbitrary: i lh a)
  case 0
  then have "i = num_buckets lh" by simp
  moreover have "length (buckets lh) = num_buckets lh" using 0 lh_okD(2) by (auto simp: iterating_def table_def)
  ultimately show ?case using 0 by (subst doall_buckets.simps) simp
next
  case (Suc n)
  have i: "i < num_buckets lh" using Suc.hyps(2) by simp
  then have len: "i < length (buckets lh)" using Suc.prems(1) by (simp add: iterating_def table_def lh_okD(2))
  from doall_chain_expire [OF Suc.prems(1) i, of "[]" "buckets lh ! i" al P a] obtain lh1 where
    lh1: "doall_chain (expire al P) i (chain_head (buckets lh ! i)) (lh, a) = Some (lh1, a @ map item_data (buckets lh ! i))"
      "iterating lh1" "buckets lh1 = (buckets lh)[i := survivors P (buckets lh ! i)]" "num_buckets lh1 = num_buckets lh" "callback_depth lh1 = callback_depth lh"
    by auto
  have "n = num_buckets lh1 - (i + 1)" "i + 1 \<le> num_buckets lh1" using Suc.hyps(2) lh1(4) i by simp_all
  from Suc.hyps(1) [OF this(1) lh1(2) this(2)] obtain lh' where
    lh': "doall_buckets (expire al P) (i + 1) (lh1, a @ map item_data (buckets lh ! i)) =
        Some (lh', (a @ map item_data (buckets lh ! i)) @ map item_data (concat (drop (i + 1) (buckets lh1))))" "iterating lh'"
      "buckets lh' = take (i + 1) (buckets lh1) @ map (survivors P) (drop (i + 1) (buckets lh1))" "callback_depth lh' = callback_depth lh"
    using lh1(5) by metis
  have "buckets lh' = take i (buckets lh) @ map (survivors P) (drop i (buckets lh))"
    using len unfolding lh'(3) lh1(3) by (simp add: take_Suc_conv_app_nth Cons_nth_drop_Suc [symmetric])
  moreover have "doall_buckets (expire al P) i (lh, a) = Some (lh', a @ map item_data (concat (drop i (buckets lh))))"
    using i len lh1(1,3) lh'(1) by (subst doall_buckets.simps) (simp add: Cons_nth_drop_Suc [symmetric])
  ultimately show ?case using lh'(2,4) by blast
qed

lemma doall_expire:
  assumes "table lh" "callback_depth lh < 0xFFFFFFFE"
  shows "\<exists>lh'. OPENSSL_lh_doall_arg al (expire al P) (Some lh, []) = Some (Some lh', map item_data (items lh)) \<and>
    table lh' \<and> elements lh' = {x \<in> elements lh. \<not> P x} \<and> callback_depth lh' = callback_depth lh"
proof -
  let ?lh = "lh\<lparr>callback_depth := callback_depth lh + 1\<rparr>"
  have "unat (callback_depth lh) < 0xFFFFFFFE" using assms(2) by (simp add: word_less_nat_alt)
  then have depth: "unat (callback_depth lh + 1) = unat (callback_depth lh) + 1" by (simp add: unat_word_ariths)
  moreover have "unat (-1 :: u32) = 0xFFFFFFFF" by (simp add: unsigned_minus_1_eq_mask mask_eq_exp_minus_1)
  ultimately have less: "callback_depth lh < -1" "callback_depth lh + 1 < -1"
    using assms(2) by (simp_all add: word_less_nat_alt)
  have "callback_depth lh + 1 \<noteq> 0" using depth by (metis Suc_eq_plus1 nat.distinct(1) unat_0)
  moreover have "lh_ok ?lh" using assms(1) by (simp add: table_def lh_ok_def items_def)
  ultimately have "iterating ?lh" using assms(1) by (simp add: iterating_def table_def)
  from doall_buckets_expire [OF this, of 0 al P "[]"] obtain lh1 where
    lh1: "doall_buckets (expire al P) 0 (?lh, []) = Some (lh1, map item_data (items lh))" "iterating lh1"
      "buckets lh1 = map (survivors P) (buckets lh)" "callback_depth lh1 = callback_depth lh + 1" by (auto simp: items_def)
  define lh2 where "lh2 = (if callback_depth lh1 < -1 then lh1\<lparr>callback_depth := callback_depth lh1 - 1\<rparr> else lh1)"
  have t: "table lh2" using lh1(2) by (auto simp: iterating_def table_def lh_ok_def items_def lh2_def)
  have "items lh2 = survivors P (items lh)" using lh1(3) by (simp add: items_def lh2_def survivors_def filter_concat)
  then have el: "elements lh2 = {x \<in> elements lh. \<not> P x}" by (auto simp: elements_def survivors_def)
  have "OPENSSL_lh_doall_arg al (expire al P) (Some lh, []) = Some (Some (lh_maybe_resize al lh2), map item_data (items lh))"
    using less(1) lh1(1) by (simp add: OPENSSL_lh_doall_arg_def Let_def lh2_def)
  moreover have "callback_depth lh2 = callback_depth lh" using less(2) lh1(4) by (simp add: lh2_def)
  moreover have "callback_depth (lh_maybe_resize al lh2) = callback_depth lh2"
    using lh_maybe_resize_same [of lh2 al] t by (simp add: table_def same_table_def)
  ultimately show ?thesis using resized [OF t] el by auto
qed

end

section \<open>Runs\<close>

text \<open>A table in use, with the function from elements to elements that its operations describe. The address
  of a new item is not one in use.\<close>

inductive lh_run :: "('d \<Rightarrow> 'd \<Rightarrow> int) \<Rightarrow> ('d \<Rightarrow> u32) \<Rightarrow> 'd lhash \<Rightarrow> ('d \<Rightarrow> 'd option) \<Rightarrow> bool" for c h where
  start: "OPENSSL_lh_new al h c = Some lh \<Longrightarrow> lh_run c h lh (\<lambda>_. None)"
| ins: "lh_run c h lh m \<Longrightarrow> (\<And>p. malloc = Some p \<Longrightarrow> p \<notin> item_addr ` set (items lh)) \<Longrightarrow>
    OPENSSL_lh_insert al malloc d lh = ((success, old), lh') \<Longrightarrow>
    lh_run c h lh' (if success then (\<lambda>e. if c e d = 0 then Some d else m e) else m)"
| del: "lh_run c h lh m \<Longrightarrow> OPENSSL_lh_delete al d lh = (old, lh') \<Longrightarrow>
    lh_run c h lh' (\<lambda>e. if c e d = 0 then None else m e)"
| expire: "lh_run c h lh m \<Longrightarrow> callback_depth lh < 0xFFFFFFFE \<Longrightarrow>
    OPENSSL_lh_doall_arg al (expire al P) (Some lh, []) = Some (Some lh', seen) \<Longrightarrow>
    lh_run c h lh' (\<lambda>e. case m e of Some x \<Rightarrow> if P x then None else Some x | None \<Rightarrow> None)"

lemma lh_run_table:
  assumes "hash_compare c h" "lh_run c h lh m"
  shows "hash_compare.table c h lh \<and> (\<forall>e. OPENSSL_lh_retrieve lh e = m e)"
  using assms(2)
proof (induction rule: lh_run.induct)
  case (start al lh)
  then show ?case
    using hash_compare.new_table [OF assms(1)] hash_compare.retrieve_iff [OF assms(1), of lh] by (auto intro: option_eqI)
next
  case (ins lh m malloc al d success old lh')
  note spec = hash_compare.insert_elements [OF assms(1) conjunct1 [OF ins.IH] ins.hyps(2,3)]
  show ?case
  proof (cases success)
    case True
    then show ?thesis using spec ins.IH hash_compare.retrieve_insert [OF assms(1) conjunct1 [OF ins.IH], of lh' d] by auto
  next
    case False
    then have "elements lh' = elements lh" using spec by simp
    then have "OPENSSL_lh_retrieve lh' e = OPENSSL_lh_retrieve lh e" for e
      by (intro option_eqI)
        (use hash_compare.retrieve_iff [OF assms(1) conjunct1 [OF spec]] hash_compare.retrieve_iff [OF assms(1) conjunct1 [OF ins.IH]] in simp)
    then show ?thesis using False spec ins.IH by simp
  qed
next
  case (del lh m al d old lh')
  note spec = hash_compare.delete_elements [OF assms(1) conjunct1 [OF del.IH] del.hyps(2)]
  then show ?case using del.IH hash_compare.retrieve_delete [OF assms(1) conjunct1 [OF del.IH], of lh' d] by auto
next
  case (expire lh m al P lh' seen)
  from hash_compare.doall_expire [OF assms(1) conjunct1 [OF expire.IH] expire.hyps(2), of al P] expire.hyps(3)
  have t: "hash_compare.table c h lh'" "elements lh' = {x \<in> elements lh. \<not> P x}" by auto
  have "OPENSSL_lh_retrieve lh' e = (case m e of Some x \<Rightarrow> if P x then None else Some x | None \<Rightarrow> None)" for e
  proof (rule option_eqI)
    fix x
    have "OPENSSL_lh_retrieve lh' e = Some x \<longleftrightarrow> OPENSSL_lh_retrieve lh e = Some x \<and> \<not> P x"
      unfolding hash_compare.retrieve_iff [OF assms(1) t(1)] hash_compare.retrieve_iff [OF assms(1) conjunct1 [OF expire.IH]] t(2) by auto
    then show "OPENSSL_lh_retrieve lh' e = Some x \<longleftrightarrow> (case m e of Some x \<Rightarrow> if P x then None else Some x | None \<Rightarrow> None) = Some x"
      using expire.IH by (auto split: option.splits)
  qed
  then show ?case using t(1) by simp
qed

section \<open>The load\<close>

definition load_ok :: "'d lhash \<Rightarrow> bool" where
  "load_ok lh \<longleftrightarrow> num_items lh < 3 * num_buckets lh \<and> (num_buckets lh = kMinNumBuckets \<or> num_buckets lh \<le> num_items lh)"

text \<open>One item more or less than a good load: resizing restores it.\<close>

lemma lh_maybe_resize_load:
  assumes "kMinNumBuckets \<le> num_buckets lh" "num_items lh < 2 ^ 59" "callback_depth lh = 0"
    "num_items lh \<le> 3 * num_buckets lh" "num_buckets lh = kMinNumBuckets \<or> num_buckets lh \<le> num_items lh + 1"
  shows "load_ok (lh_maybe_resize (\<lambda>_. True) lh)"
proof -
  have small: "num_buckets lh \<le> 2 ^ 59" using assms(2,5) by (auto simp: kMinNumBuckets_def)
  have rb: "lh_rebucket (\<lambda>_. True) n lh = lh\<lparr>num_buckets := n,
      buckets := fold (rebucket_item n) (concat (take (num_buckets lh) (buckets lh))) (replicate n [])\<rparr>" if "n \<le> 2 ^ 60" for n
    using that by (simp add: lh_rebucket_def)
  have pos: "0 < num_buckets lh" using assms(1) by (simp add: kMinNumBuckets_def)
  have many: "2 < num_items lh div num_buckets lh \<longleftrightarrow> 3 * num_buckets lh \<le> num_items lh"
    using pos less_eq_div_iff_mult_less_eq [OF pos, of 3 "num_items lh"] by (simp add: Suc_le_eq [symmetric] numeral_3_eq_3 ac_simps)
  have few: "num_items lh div num_buckets lh < 1 \<longleftrightarrow> num_items lh < num_buckets lh" using pos by (simp add: div_eq_0_iff)
  show ?thesis
    unfolding lh_maybe_resize_def Let_def kMaxAverageChainLength_def kMinAverageChainLength_def many few
    using assms small pos by (auto simp: rb load_ok_def kMinNumBuckets_def)
qed

text \<open>A table with one element.\<close>

definition example_lh :: "int lhash" where
  "example_lh = snd (OPENSSL_lh_insert (\<lambda>_. True) (Some 1) 17 (the (OPENSSL_lh_new (\<lambda>_. True) word_of_int (\<lambda>a b. a - b))))"

lemma example_lh:
  shows "hash_compare (\<lambda>a b :: int. a - b) word_of_int"
    and "lh_run (\<lambda>a b :: int. a - b) word_of_int example_lh (\<lambda>e. if e - 17 = 0 then Some 17 else None)"
    and "callback_depth example_lh = 0" "lh_ok example_lh" "num_items example_lh = 1" "load_ok example_lh"
    and "elements example_lh = {17}"
proof -
  let ?c = "\<lambda>a b :: int. a - b" and ?h = "word_of_int :: int \<Rightarrow> u32"
  show hc: "hash_compare ?c ?h" by unfold_locales simp_all
  define lh where "lh = the (OPENSSL_lh_new (\<lambda>_. True) ?h ?c)"
  have new: "OPENSSL_lh_new (\<lambda>_. True) ?h ?c = Some lh" by (simp add: lh_def OPENSSL_lh_new_def)
  from lh_run.start [OF this] have run: "lh_run ?c ?h lh (\<lambda>_. None)" .
  have no_items: "items lh = []"
    by (simp add: lh_def OPENSSL_lh_new_def items_def kMinNumBuckets_def concat_replicate_trivial)
  obtain success old lh' where ins: "OPENSSL_lh_insert (\<lambda>_. True) (Some 1) 17 lh = ((success, old), lh')" by (metis surj_pair)
  then have lh': "lh' = example_lh" by (simp add: example_lh_def lh_def)
  have success using ins by (auto simp: OPENSSL_lh_insert_def Let_def split: prod.splits if_splits)
  with lh_run.ins [OF run _ ins] no_items lh'
  show run': "lh_run ?c ?h example_lh (\<lambda>e. if e - 17 = 0 then Some 17 else None)" by simp
  then have t: "hash_compare.table ?c ?h example_lh" using lh_run_table [OF hc] by blast
  then show ok: "lh_ok example_lh" by (simp add: hash_compare.table_def [OF hc])
  have "hash_compare.table ?c ?h lh" using lh_run_table [OF hc run] by blast
  then show el: "elements example_lh = {17}"
    using hash_compare.insert_elements [OF hc _ _ ins] no_items lh' \<open>success\<close> by (simp add: elements_def)
  have len: "num_items example_lh = length (items example_lh)" using lh_okD(4) [OF ok] .
  have small: "chain_index P (buckets lh ! b) = length (buckets lh ! b)" if "b < 16" for P b
    using that by (simp add: lh_def OPENSSL_lh_new_def kMinNumBuckets_def)
  have "unat (hash lh 17) mod num_buckets lh < 16" by (simp add: lh_def OPENSSL_lh_new_def kMinNumBuckets_def)
  then have ex: "example_lh = lh_maybe_resize (\<lambda>_. True) (lh\<lparr>buckets := (buckets lh)[unat (hash lh 17) mod num_buckets lh :=
      buckets lh ! (unat (hash lh 17) mod num_buckets lh) @ [\<lparr>item_addr = 1, item_data = 17, item_hash = hash lh 17\<rparr>]], num_items := num_items lh + 1\<rparr>)"
    unfolding example_lh_def lh_def [symmetric] by (simp add: OPENSSL_lh_insert_def get_next_ptr_and_hash_def Let_def small)
  have "lh_maybe_resize (\<lambda>_. True) (lh\<lparr>buckets := bs, num_items := num_items lh + 1\<rparr>) = lh\<lparr>buckets := bs, num_items := num_items lh + 1\<rparr>" for bs
    by (simp add: lh_maybe_resize_def lh_def OPENSSL_lh_new_def kMinNumBuckets_def kMaxAverageChainLength_def kMinAverageChainLength_def)
  note ex' = trans [OF ex this]
  show "callback_depth example_lh = 0" "num_items example_lh = 1" "load_ok example_lh"
    unfolding ex' by (simp_all add: lh_def OPENSSL_lh_new_def load_ok_def kMinNumBuckets_def)
qed

section \<open>Properties\<close>

text \<open>C27. A hash table implements a function from elements to elements: in every run, whatever allocations
  fail and however often the array has grown or shrunk, \<open>OPENSSL_lh_retrieve\<close> returns what the function has.
  An insertion overrides the equal element or fails and changes nothing, a deletion removes the equal element,
  and an iteration whose callback deletes elements removes just those.\<close>

theorem lhash_refines_map:
  assumes "hash_compare c h" "lh_run c h lh m"
  shows "OPENSSL_lh_retrieve lh d = m d"
  using lh_run_table [OF assms] by blast

theorem lhash_refines_map_witness: "OPENSSL_lh_retrieve example_lh 17 = Some 17"
  using lhash_refines_map [OF example_lh(1,2), of 17] by simp

text \<open>C28. An iteration calls its callback exactly once on every element, in the order of the chains, even if
  the callback deletes the element that it is given; and it leaves a table with the other elements.\<close>

theorem doall_visits_once:
  assumes "hash_compare c h" "lh_run c h lh m" "callback_depth lh < 0xFFFFFFFE"
  shows "\<exists>lh'. OPENSSL_lh_doall_arg al (expire al P) (Some lh, []) = Some (Some lh', map item_data (items lh)) \<and>
    elements lh' = {x \<in> elements lh. \<not> P x}"
  using hash_compare.doall_expire [OF assms(1) _ assms(3)] lh_run_table [OF assms(1,2)] by metis

theorem doall_visits_once_witness:
  "\<exists>lh'. OPENSSL_lh_doall_arg (\<lambda>_. True) (expire (\<lambda>_. True) (\<lambda>x. x < 20)) (Some example_lh, []) = Some (Some lh', map item_data (items example_lh)) \<and>
    elements lh' = {}"
  using doall_visits_once [OF example_lh(1,2), of "\<lambda>_. True" "\<lambda>x. x < 20"] by (simp add: example_lh(3,7) cong: conj_cong)

text \<open>The chains stay short: outside iterations and if arrays can be allocated, an insertion or a deletion
  keeps the number of items below three times the number of chains, and the number of chains at most the number
  of items, unless it is the least.\<close>

lemma lhash_load_bounded:
  assumes "lh_ok lh" "load_ok lh" "callback_depth lh = 0" "num_items lh < 2 ^ 58"
  shows "load_ok (snd (OPENSSL_lh_insert (\<lambda>_. True) malloc d lh)) \<and> load_ok (snd (OPENSSL_lh_delete (\<lambda>_. True) d lh))"
proof -
  have ge: "kMinNumBuckets \<le> num_buckets lh" using assms(1) by (simp add: lh_ok_def)
  have "load_ok (lh_maybe_resize (\<lambda>_. True) (lh\<lparr>buckets := bs, num_items := n\<rparr>))"
    if "n = num_items lh + 1 \<or> n = num_items lh - 1" for bs n
    by (rule lh_maybe_resize_load; use that ge assms(2-4) in \<open>auto simp: load_ok_def\<close>)
  moreover have "load_ok (lh\<lparr>buckets := bs\<rparr>)" for bs using assms(2) by (simp add: load_ok_def)
  ultimately show ?thesis
    using assms(2) by (simp add: OPENSSL_lh_insert_def OPENSSL_lh_delete_def Let_def split: prod.splits option.splits)
qed

lemma lhash_load_bounded_example:
  "load_ok (snd (OPENSSL_lh_insert (\<lambda>_. True) (Some 2) 33 example_lh)) \<and> load_ok (snd (OPENSSL_lh_delete (\<lambda>_. True) 33 example_lh))"
  by (rule lhash_load_bounded [OF example_lh(4,6,3)]) (simp add: example_lh(5))

end
