(* ===== verification/Objects.thy ===== *)
theory Objects imports Mem CBS CBB_ASN1 LHash begin

text \<open>
  Object identifiers, crypto/obj/obj.c with \<open>OBJ_dup\<close> and the functions of crypto/asn1/a_object.c that it
  calls. The built-in tables of obj_dat.h, which a script generates, are a parameter, with what the script
  guarantees as \<open>tables_ok\<close>. The global variables are a record; the locks around them have no effect in one
  thread. An object is known by its contents: its data are empty if the pointer is null, and a name is \<open>None\<close> if
  it is null. Pushing errors on the error queue and freeing memory are left out.
\<close>

unbundle bit_operations_syntax

section \<open>Objects\<close>

record asn1_object =
  sn :: "bytes option"
  ln :: "bytes option"
  nid :: int
  data :: bytes
  flags :: u32

definition NID_undef :: int where "NID_undef = 0"
definition INT_MAX :: nat where "INT_MAX = 2 ^ 31 - 1"

definition ASN1_OBJECT_FLAG_DYNAMIC :: u32 where "ASN1_OBJECT_FLAG_DYNAMIC = 0x01"
definition ASN1_OBJECT_FLAG_DYNAMIC_STRINGS :: u32 where "ASN1_OBJECT_FLAG_DYNAMIC_STRINGS = 0x04"
definition ASN1_OBJECT_FLAG_DYNAMIC_DATA :: u32 where "ASN1_OBJECT_FLAG_DYNAMIC_DATA = 0x08"

definition all_dynamic :: u32 where
  "all_dynamic = ASN1_OBJECT_FLAG_DYNAMIC OR ASN1_OBJECT_FLAG_DYNAMIC_STRINGS OR ASN1_OBJECT_FLAG_DYNAMIC_DATA"

text \<open>\<open>sizeof(ASN1_OBJECT)\<close> is 40 where pointers have eight bytes.\<close>

definition ASN1_OBJECT_new :: "(nat \<Rightarrow> bool) \<Rightarrow> asn1_object option" where
  "ASN1_OBJECT_new al =
     (if al 40 then Some \<lparr>sn = None, ln = None, nid = 0, data = [], flags = ASN1_OBJECT_FLAG_DYNAMIC\<rparr> else None)"

definition OBJ_dup :: "(nat \<Rightarrow> bool) \<Rightarrow> asn1_object option \<Rightarrow> asn1_object option" where
  "OBJ_dup al obj =
     (case obj of None \<Rightarrow> None
      | Some obj \<Rightarrow>
          if flags obj AND ASN1_OBJECT_FLAG_DYNAMIC = 0 then Some obj
          else
            (case ASN1_OBJECT_new al of None \<Rightarrow> None
             | Some r \<Rightarrow>
                 let d = OPENSSL_memdup al (data obj)
                 in if length (data obj) \<noteq> 0 \<and> d = None then None
                    else
                      let r = r\<lparr>data := (case d of None \<Rightarrow> [] | Some d \<Rightarrow> d), nid := nid obj\<rparr>;
                          l = OPENSSL_strdup al (ln obj)
                      in if ln obj \<noteq> None \<and> l = None then None
                         else
                           let s = OPENSSL_strdup al (sn obj)
                           in if sn obj \<noteq> None \<and> s = None then None
                              else Some (r\<lparr>sn := s, ln := l, flags := flags obj OR all_dynamic\<rparr>)))"

definition ASN1_OBJECT_create ::
  "(nat \<Rightarrow> bool) \<Rightarrow> int \<Rightarrow> bytes \<Rightarrow> bytes option \<Rightarrow> bytes option \<Rightarrow> asn1_object option" where
  "ASN1_OBJECT_create al n d s l =
     (if length d > INT_MAX then None
      else OBJ_dup al (Some \<lparr>sn = s, ln = l, nid = n, data = d, flags = all_dynamic\<rparr>))"

text \<open>\<open>memcmp\<close> of the C library, for memory of the same length.\<close>

fun memcmp :: "bytes \<Rightarrow> bytes \<Rightarrow> int" where
  "memcmp (a # as) (b # bs) = (if a = b then memcmp as bs else int (unat a) - int (unat b))"
| "memcmp _ _ = 0"

definition OBJ_cmp :: "asn1_object \<Rightarrow> asn1_object \<Rightarrow> int" where
  "OBJ_cmp a b =
     (if length (data a) < length (data b) then -1
      else if length (data a) > length (data b) then 1
      else memcmp (data a) (data b))"

definition OBJ_get0_data :: "asn1_object option \<Rightarrow> bytes option" where
  "OBJ_get0_data obj = (case obj of None \<Rightarrow> None | Some obj \<Rightarrow> Some (data obj))"

definition OBJ_length :: "asn1_object option \<Rightarrow> nat" where
  "OBJ_length obj = (case obj of None \<Rightarrow> 0 | Some obj \<Rightarrow> length (data obj))"

section \<open>Tables\<close>

record obj_tables =
  kObjects :: "asn1_object list"
  kNIDsInOIDOrder :: "int list"
  kNIDsInShortNameOrder :: "int list"
  kNIDsInLongNameOrder :: "int list"

definition NUM_NID :: "obj_tables \<Rightarrow> int" where
  "NUM_NID T = int (length (kObjects T)) + 1"

record obj_globals =
  global_added_by_data :: "asn1_object lhash option"
  global_added_by_nid :: "asn1_object lhash option"
  global_added_by_short_name :: "asn1_object lhash option"
  global_added_by_long_name :: "asn1_object lhash option"
  global_next_nid :: u32

definition obj_init :: "obj_tables \<Rightarrow> obj_globals" where
  "obj_init T = \<lparr>global_added_by_data = None, global_added_by_nid = None, global_added_by_short_name = None,
     global_added_by_long_name = None, global_next_nid = word_of_int (NUM_NID T)\<rparr>"

definition obj_next_nid :: "obj_globals \<Rightarrow> int \<times> obj_globals" where
  "obj_next_nid g = (sint (global_next_nid g), g\<lparr>global_next_nid := global_next_nid g + 1\<rparr>)"

text \<open>The callers of \<open>get_builtin_object\<close> have an identifier in range, so its check never fails.\<close>

definition get_builtin_object :: "obj_tables \<Rightarrow> int \<Rightarrow> asn1_object" where
  "get_builtin_object T n = kObjects T ! nat (n - 1)"

text \<open>\<open>bsearch\<close> of the C library, with the comparison of the key to the element at an index.\<close>

function bsearch_at :: "(nat \<Rightarrow> int) \<Rightarrow> nat \<Rightarrow> nat \<Rightarrow> nat option" where
  "bsearch_at c lo hi =
     (if lo \<ge> hi then None
      else
        let mid = (lo + hi) div 2
        in if c mid = 0 then Some mid
           else if c mid < 0 then bsearch_at c lo mid
           else bsearch_at c (mid + 1) hi)"
  by pat_completeness auto
termination
  by (relation "measure (\<lambda>(c, lo, hi). hi - lo)") auto

declare bsearch_at.simps [simp del]

definition bsearch :: "('a \<Rightarrow> int) \<Rightarrow> 'a list \<Rightarrow> 'a option" where
  "bsearch c xs = map_option (\<lambda>i. xs ! i) (bsearch_at (\<lambda>i. c (xs ! i)) 0 (length xs))"

definition obj_cmp :: "obj_tables \<Rightarrow> asn1_object \<Rightarrow> int \<Rightarrow> int" where
  "obj_cmp T key n = OBJ_cmp key (get_builtin_object T n)"

text \<open>The names that are compared are never null; \<open>the_name\<close> reads a null name as the empty string.\<close>

definition the_name :: "bytes option \<Rightarrow> bytes" where
  "the_name s = (case s of None \<Rightarrow> [] | Some s \<Rightarrow> s)"

definition short_name_cmp :: "obj_tables \<Rightarrow> bytes \<Rightarrow> int \<Rightarrow> int" where
  "short_name_cmp T name n = strcmp name (the_name (sn (get_builtin_object T n)))"

definition long_name_cmp :: "obj_tables \<Rightarrow> bytes \<Rightarrow> int \<Rightarrow> int" where
  "long_name_cmp T name n = strcmp name (the_name (ln (get_builtin_object T n)))"

text \<open>Looking up in a table that may not have been made yet.\<close>

definition added :: "'d lhash option \<Rightarrow> 'd \<Rightarrow> 'd option" where
  "added lh key = (case lh of None \<Rightarrow> None | Some lh \<Rightarrow> OPENSSL_lh_retrieve lh key)"

text \<open>A template on the stack: the members that are not set are never read.\<close>

definition template :: asn1_object where
  "template = \<lparr>sn = None, ln = None, nid = 0, data = [], flags = 0\<rparr>"

definition OBJ_obj2nid :: "obj_tables \<Rightarrow> obj_globals \<Rightarrow> asn1_object option \<Rightarrow> int" where
  "OBJ_obj2nid T g obj =
     (case obj of None \<Rightarrow> NID_undef
      | Some obj \<Rightarrow>
          if nid obj \<noteq> 0 then nid obj
          else
            (case added (global_added_by_data g) obj of
               Some match \<Rightarrow> nid match
             | None \<Rightarrow>
                 (case bsearch (obj_cmp T obj) (kNIDsInOIDOrder T) of
                    None \<Rightarrow> NID_undef
                  | Some n \<Rightarrow> nid (get_builtin_object T n))))"

definition OBJ_cbs2nid :: "obj_tables \<Rightarrow> obj_globals \<Rightarrow> cbs \<Rightarrow> int" where
  "OBJ_cbs2nid T g cbs =
     (if CBS_len cbs > INT_MAX then NID_undef
      else OBJ_obj2nid T g (Some (template\<lparr>data := CBS_data cbs\<rparr>)))"

definition OBJ_sn2nid :: "obj_tables \<Rightarrow> obj_globals \<Rightarrow> bytes \<Rightarrow> int" where
  "OBJ_sn2nid T g short_name =
     (case added (global_added_by_short_name g) (template\<lparr>sn := Some short_name\<rparr>) of
        Some match \<Rightarrow> nid match
      | None \<Rightarrow>
          (case bsearch (short_name_cmp T short_name) (kNIDsInShortNameOrder T) of
             None \<Rightarrow> NID_undef
           | Some n \<Rightarrow> nid (get_builtin_object T n)))"

definition OBJ_ln2nid :: "obj_tables \<Rightarrow> obj_globals \<Rightarrow> bytes \<Rightarrow> int" where
  "OBJ_ln2nid T g long_name =
     (case added (global_added_by_long_name g) (template\<lparr>ln := Some long_name\<rparr>) of
        Some match \<Rightarrow> nid match
      | None \<Rightarrow>
          (case bsearch (long_name_cmp T long_name) (kNIDsInLongNameOrder T) of
             None \<Rightarrow> NID_undef
           | Some n \<Rightarrow> nid (get_builtin_object T n)))"

definition OBJ_get_undef :: asn1_object where
  "OBJ_get_undef = \<lparr>sn = Some [0x55, 0x4e, 0x44, 0x45, 0x46], ln = Some [0x75, 0x6e, 0x64, 0x65, 0x66, 0x69, 0x6e, 0x65, 0x64],
     nid = NID_undef, data = [], flags = 0\<rparr>"

definition OBJ_nid2obj :: "obj_tables \<Rightarrow> obj_globals \<Rightarrow> int \<Rightarrow> asn1_object option" where
  "OBJ_nid2obj T g n =
     (if n = NID_undef then Some OBJ_get_undef
      else if n > 0 \<and> n < NUM_NID T then
        let obj = get_builtin_object T n
        in if n \<noteq> NID_undef \<and> nid obj = NID_undef then None else Some obj
      else added (global_added_by_nid g) (template\<lparr>nid := n\<rparr>))"

definition OBJ_nid2sn :: "obj_tables \<Rightarrow> obj_globals \<Rightarrow> int \<Rightarrow> bytes option" where
  "OBJ_nid2sn T g n = (case OBJ_nid2obj T g n of None \<Rightarrow> None | Some obj \<Rightarrow> sn obj)"

definition OBJ_nid2ln :: "obj_tables \<Rightarrow> obj_globals \<Rightarrow> int \<Rightarrow> bytes option" where
  "OBJ_nid2ln T g n = (case OBJ_nid2obj T g n of None \<Rightarrow> None | Some obj \<Rightarrow> ln obj)"

section \<open>Text and DER\<close>

definition CBS_ASN1_OBJECT :: cbs_asn1_tag where "CBS_ASN1_OBJECT = 0x6"

definition OBJ_nid2cbb :: "(nat \<Rightarrow> bool) \<Rightarrow> obj_tables \<Rightarrow> obj_globals \<Rightarrow> nat \<Rightarrow> int \<Rightarrow> (cbb, unit) routine" where
  "OBJ_nid2cbb al T g d n =
     (case OBJ_nid2obj T g n of
        None \<Rightarrow> failure
      | Some obj \<Rightarrow>
          andthen (CBB_add_asn1 al d CBS_ASN1_OBJECT) (\<lambda>oid.
          andthen (CBB_add_bytes al oid (data obj)) (\<lambda>_. CBB_flush al d)))"

text \<open>\<open>get_nid\<close> is \<open>None\<close> for the null pointer.\<close>

definition create_object_with_text_oid ::
  "(nat \<Rightarrow> bool) \<Rightarrow> (obj_globals \<Rightarrow> int \<times> obj_globals) option \<Rightarrow> bytes \<Rightarrow> bytes option \<Rightarrow> bytes option \<Rightarrow>
   obj_globals \<Rightarrow> asn1_object option \<times> obj_globals" where
  "create_object_with_text_oid al get_nid oid short_name long_name g =
     (case CBB_init al 32 of
        None \<Rightarrow> (None, g)
      | Some cbb \<Rightarrow>
          (case andthen (CBB_add_asn1_oid_from_text al 0 oid) (\<lambda>_. CBB_finish al 0 True) cbb of
             (None, _) \<Rightarrow> (None, g)
           | (Some der, _) \<Rightarrow>
               (case (case get_nid of None \<Rightarrow> (NID_undef, g) | Some f \<Rightarrow> f g) of
                  (n, g) \<Rightarrow> (ASN1_OBJECT_create al n der short_name long_name, g))))"

definition OBJ_txt2obj ::
  "(nat \<Rightarrow> bool) \<Rightarrow> obj_tables \<Rightarrow> obj_globals \<Rightarrow> bytes \<Rightarrow> bool \<Rightarrow> asn1_object option" where
  "OBJ_txt2obj al T g s dont_search_names =
     (let n = (if dont_search_names then NID_undef
               else let n = OBJ_sn2nid T g s in if n = NID_undef then OBJ_ln2nid T g s else n)
      in if n \<noteq> NID_undef then OBJ_nid2obj T g n
         else fst (create_object_with_text_oid al None s None None g))"

definition OBJ_txt2nid :: "(nat \<Rightarrow> bool) \<Rightarrow> obj_tables \<Rightarrow> obj_globals \<Rightarrow> bytes \<Rightarrow> int" where
  "OBJ_txt2nid al T g s = OBJ_obj2nid T g (OBJ_txt2obj al T g s False)"

definition strlcpy_int :: "bytes \<Rightarrow> bytes \<Rightarrow> int \<Rightarrow> int \<times> bytes" where
  "strlcpy_int dst src dst_size =
     (case OPENSSL_strlcpy dst src (if dst_size < 0 then 0 else nat dst_size) of
        (dst, ret) \<Rightarrow> if ret > INT_MAX then (-1, dst) else (int ret, dst))"

text \<open>The returned number, and the memory at \<open>out\<close> afterwards.\<close>

definition OBJ_obj2txt ::
  "(nat \<Rightarrow> bool) \<Rightarrow> obj_tables \<Rightarrow> obj_globals \<Rightarrow> bytes \<Rightarrow> int \<Rightarrow> asn1_object option \<Rightarrow> bool \<Rightarrow> int \<times> bytes" where
  "OBJ_obj2txt al T g out out_len obj always_return_oid =
     (case obj of
        None \<Rightarrow> strlcpy_int out [] out_len
      | Some obj \<Rightarrow>
          if length (data obj) = 0 then strlcpy_int out [] out_len
          else
            let name =
              (if always_return_oid then None
               else
                 let n = OBJ_obj2nid T g (Some obj)
                 in if n = NID_undef then None
                    else (case OBJ_nid2ln T g n of None \<Rightarrow> OBJ_nid2sn T g n | Some name \<Rightarrow> Some name))
            in (case name of
                  Some name \<Rightarrow> strlcpy_int out name out_len
                | None \<Rightarrow>
                    (case CBS_asn1_oid_to_text al (CBS_init (data obj) (length (data obj))) of
                       None \<Rightarrow> (-1, if out_len > 0 then 0 # tl out else out)
                     | Some txt \<Rightarrow> strlcpy_int out (butlast txt) out_len)))"

section \<open>Adding objects\<close>

definition hash_nid :: "asn1_object \<Rightarrow> u32" where
  "hash_nid obj = word_of_int (nid obj)"

definition cmp_nid :: "asn1_object \<Rightarrow> asn1_object \<Rightarrow> int" where
  "cmp_nid a b = nid a - nid b"

definition hash_data :: "asn1_object \<Rightarrow> u32" where
  "hash_data obj = OPENSSL_hash32 (data obj)"

definition hash_short_name :: "asn1_object \<Rightarrow> u32" where
  "hash_short_name obj = OPENSSL_strhash (the_name (sn obj))"

definition cmp_short_name :: "asn1_object \<Rightarrow> asn1_object \<Rightarrow> int" where
  "cmp_short_name a b = strcmp (the_name (sn a)) (the_name (sn b))"

definition hash_long_name :: "asn1_object \<Rightarrow> u32" where
  "hash_long_name obj = OPENSSL_strhash (the_name (ln obj))"

definition cmp_long_name :: "asn1_object \<Rightarrow> asn1_object \<Rightarrow> int" where
  "cmp_long_name a b = strcmp (the_name (ln a)) (the_name (ln b))"

definition made ::
  "(nat \<Rightarrow> bool) \<Rightarrow> ('d \<Rightarrow> u32) \<Rightarrow> ('d \<Rightarrow> 'd \<Rightarrow> int) \<Rightarrow> 'd lhash option \<Rightarrow> 'd lhash option" where
  "made al h c lh = (case lh of None \<Rightarrow> OPENSSL_lh_new al h c | Some lh \<Rightarrow> Some lh)"

text \<open>\<open>mal k\<close> is the address of the item that the \<open>k\<close>-th insertion allocates.\<close>

definition obj_add_object ::
  "(nat \<Rightarrow> bool) \<Rightarrow> (nat \<Rightarrow> nat option) \<Rightarrow> asn1_object \<Rightarrow> obj_globals \<Rightarrow> bool \<times> obj_globals" where
  "obj_add_object al mal obj g =
     (let obj = obj\<lparr>flags := flags obj AND NOT all_dynamic\<rparr>;
          g = g\<lparr>global_added_by_nid := made al hash_nid cmp_nid (global_added_by_nid g),
                global_added_by_data := made al hash_data OBJ_cmp (global_added_by_data g),
                global_added_by_short_name := made al hash_short_name cmp_short_name (global_added_by_short_name g),
                global_added_by_long_name := made al hash_long_name cmp_long_name (global_added_by_long_name g)\<rparr>
      in (case (global_added_by_nid g, global_added_by_data g, global_added_by_short_name g, global_added_by_long_name g) of
            (Some by_nid, Some by_data, Some by_sn, Some by_ln) \<Rightarrow>
              let ((ok1, _), by_nid) = OPENSSL_lh_insert al (mal 0) obj by_nid;
                  ((ok2, _), by_data) =
                    (if length (data obj) \<noteq> 0 then OPENSSL_lh_insert al (mal 1) obj by_data else ((True, None), by_data));
                  ((ok3, _), by_sn) =
                    (if sn obj \<noteq> None then OPENSSL_lh_insert al (mal 2) obj by_sn else ((True, None), by_sn));
                  ((ok4, _), by_ln) =
                    (if ln obj \<noteq> None then OPENSSL_lh_insert al (mal 3) obj by_ln else ((True, None), by_ln))
              in (ok1 \<and> ok2 \<and> ok3 \<and> ok4,
                  g\<lparr>global_added_by_nid := Some by_nid, global_added_by_data := Some by_data,
                    global_added_by_short_name := Some by_sn, global_added_by_long_name := Some by_ln\<rparr>)
          | _ \<Rightarrow> (False, g)))"

definition OBJ_create ::
  "(nat \<Rightarrow> bool) \<Rightarrow> (nat \<Rightarrow> nat option) \<Rightarrow> bytes \<Rightarrow> bytes option \<Rightarrow> bytes option \<Rightarrow> obj_globals \<Rightarrow> int \<times> obj_globals" where
  "OBJ_create al mal oid short_name long_name g =
     (case create_object_with_text_oid al (Some obj_next_nid) oid short_name long_name g of
        (None, g) \<Rightarrow> (NID_undef, g)
      | (Some obj, g) \<Rightarrow>
          (case obj_add_object al mal obj g of (success, g) \<Rightarrow> (if success then nid obj else NID_undef, g)))"

section \<open>The hash tables\<close>

lemma memcmp_eq_0: "length a = length b \<Longrightarrow> memcmp a b = 0 \<longleftrightarrow> a = b"
  by (induction a b rule: memcmp.induct) (auto simp: word_uint_eq_iff [symmetric])

lemma OBJ_cmp_eq_0: "OBJ_cmp a b = 0 \<longleftrightarrow> data a = data b"
  using memcmp_eq_0 [of "data a" "data b"] by (auto simp: OBJ_cmp_def)

interpretation nids: hash_compare cmp_nid hash_nid
  by unfold_locales (simp_all add: cmp_nid_def hash_nid_def)

interpretation datas: hash_compare OBJ_cmp hash_data
  by unfold_locales (simp_all add: OBJ_cmp_eq_0 hash_data_def)

interpretation short_names: hash_compare cmp_short_name hash_short_name
  by unfold_locales (simp_all add: cmp_short_name_def hash_short_name_def strcmp_eq_0 OPENSSL_strhash_def)

interpretation long_names: hash_compare cmp_long_name hash_long_name
  by unfold_locales (simp_all add: cmp_long_name_def hash_long_name_def strcmp_eq_0 OPENSSL_strhash_def)

section \<open>Searching the built-in tables\<close>

lemma bsearch_at_sound: "bsearch_at c lo hi = Some i \<Longrightarrow> lo \<le> i \<and> i < hi \<and> c i = 0"
proof (induction c lo hi rule: bsearch_at.induct)
  case (1 c lo hi)
  then show ?case by (subst (asm) (2) bsearch_at.simps) (fastforce simp: Let_def split: if_splits)
qed

text \<open>The key comes after the elements before a match and before the elements after it.\<close>

lemma bsearch_at_complete:
  "lo \<le> k \<Longrightarrow> k < hi \<Longrightarrow> c k = 0 \<Longrightarrow> (\<And>i. lo \<le> i \<Longrightarrow> i < k \<Longrightarrow> 0 < c i) \<Longrightarrow> (\<And>i. k < i \<Longrightarrow> i < hi \<Longrightarrow> c i < 0) \<Longrightarrow>
   bsearch_at c lo hi = Some k"
proof (induction c lo hi rule: bsearch_at.induct)
  case (1 c lo hi)
  define mid where "mid = (lo + hi) div 2"
  have mid: "lo \<le> mid" "mid < hi" using 1(3,4) by (auto simp: mid_def)
  consider "mid = k" | "mid < k" | "k < mid" by linarith
  then show ?case
  proof cases
    case 1
    then show ?thesis using \<open>c k = 0\<close> mid by (subst bsearch_at.simps) (simp add: mid_def Let_def)
  next
    case 2
    then have pos: "c mid \<noteq> 0" "\<not> c mid < 0" using 1(6) mid by force+
    have "bsearch_at c (mid + 1) hi = Some k"
      by (rule 1(2) [OF _ mid_def pos]) (use 2 mid 1(3-7) in auto)
    with pos show ?thesis using mid by (subst bsearch_at.simps) (simp add: mid_def Let_def)
  next
    case 3
    then have neg: "c mid \<noteq> 0" "c mid < 0" using 1(7) mid by force+
    have "bsearch_at c lo mid = Some k"
      by (rule 1(1) [OF _ mid_def neg]) (use 3 mid 1(3-7) in auto)
    with neg show ?thesis using mid by (subst bsearch_at.simps) (simp add: mid_def Let_def)
  qed
qed

lemma bsearch_sound: "bsearch c xs = Some x \<Longrightarrow> x \<in> set xs \<and> c x = 0"
  using bsearch_at_sound by (fastforce simp: bsearch_def)

text \<open>\<open>bsearch\<close> in an array that a comparison sorts strictly, for a key that is equal to an element.\<close>

context comparison
begin

lemma bsearch_finds:
  assumes "sorted_wrt (\<lambda>x y. cmp (e x) (e y) < 0) xs" "x \<in> set xs" "cmp key (e x) = 0"
  shows "bsearch (\<lambda>y. cmp key (e y)) xs = Some x"
proof -
  obtain k where k: "k < length xs" "xs ! k = x" using assms(2) by (auto simp: in_set_conv_nth)
  have s: "cmp (e (xs ! i)) (e (xs ! j)) < 0" if "i < j" "j < length xs" for i j
    using assms(1) that by (auto simp: sorted_wrt_iff_nth_less)
  have eq: "cmp (e x) key = 0" using assms(3) cmp_zero_flip by blast
  have "bsearch_at (\<lambda>i. cmp key (e (xs ! i))) 0 (length xs) = Some k"
  proof (rule bsearch_at_complete)
    show "0 < cmp key (e (xs ! i))" if "i < k" for i
      using cmp_less_trans [OF s [OF that k(1)]] k(2) eq cmp_flip [of "e (xs ! i)" key] by simp
    show "cmp key (e (xs ! i)) < 0" if "k < i" "i < length xs" for i
      using s [OF that] k(2) assms(3) cmp_less_trans [of "e (xs ! k)" "e (xs ! i)" "e (xs ! i)"]
        cmp_trans [of key "e x" "e (xs ! i)"] cmp_trans [of "e (xs ! i)" key "e x"] cmp_flip [of key "e (xs ! i)"] cmp_flip [of "e x" "e (xs ! i)"]
      by fastforce
  qed (use k assms(3) in auto)
  then show ?thesis using k by (simp add: bsearch_def)
qed

end

lemma u8_antisym: "uint (a :: u8) \<le> uint b \<Longrightarrow> uint b \<le> uint a \<Longrightarrow> a = b"
  by (simp add: word_uint_eq_iff)

lemma memcmp_flip: "length a = length b \<Longrightarrow> memcmp a b < 0 \<longleftrightarrow> 0 < memcmp b a"
  by (induction a b rule: memcmp.induct) auto

lemma memcmp_trans: "length a = length b \<Longrightarrow> length b = length c \<Longrightarrow> memcmp a b \<le> 0 \<Longrightarrow> memcmp b c \<le> 0 \<Longrightarrow> memcmp a c \<le> 0"
proof (induction a arbitrary: b c)
  case (Cons x a)
  then obtain y b' z c' where "b = y # b'" "c = z # c'" by (metis length_Suc_conv)
  then have bc: "memcmp (x # a) (y # b') \<le> 0" "memcmp (y # b') (z # c') \<le> 0" "length a = length b'" "length b' = length c'"
    using Cons.prems by auto
  show ?case
  proof (cases "x = y \<and> y = z")
    case True
    then show ?thesis using Cons.IH [OF bc(3,4)] bc(1,2) \<open>c = z # c'\<close> by simp
  next
    case False
    have le: "uint x \<le> uint y" "uint y \<le> uint z" using bc(1,2) by (auto split: if_splits)
    then have "x \<noteq> z" using False u8_antisym by blast
    then show ?thesis using le \<open>c = z # c'\<close> by simp
  qed
qed simp

interpretation obj_order: comparison OBJ_cmp
proof unfold_locales
  fix a b c
  show "OBJ_cmp a b < 0 \<longleftrightarrow> 0 < OBJ_cmp b a" using memcmp_flip [of "data a" "data b"] by (auto simp: OBJ_cmp_def)
  show "OBJ_cmp a b \<le> 0 \<Longrightarrow> OBJ_cmp b c \<le> 0 \<Longrightarrow> OBJ_cmp a c \<le> 0"
    using memcmp_trans [of "data a" "data b" "data c"] by (auto simp: OBJ_cmp_def split: if_splits)
qed

lemma strcmp_flip: "strcmp a b < 0 \<longleftrightarrow> 0 < strcmp b a"
  by (induction a b rule: strcmp.induct) auto

lemma strcmp_trans: "strcmp a b \<le> 0 \<Longrightarrow> strcmp b c \<le> 0 \<Longrightarrow> strcmp a c \<le> 0"
proof (induction a arbitrary: b c)
  case Nil
  then show ?case by (cases c) auto
next
  case (Cons x a)
  show ?case
  proof (cases b)
    case Nil
    then have "x = 0" using Cons.prems(1) by (simp add: uint_0_iff)
    then show ?thesis using Cons.prems(2) Nil by (cases c) auto
  next
    case b: (Cons y b')
    show ?thesis
    proof (cases c)
      case Nil
      then show ?thesis using Cons b by (auto simp: uint_0_iff split: if_splits)
    next
      case (Cons z c')
      then show ?thesis using Cons.IH [of b' c'] Cons.prems b u8_antisym [of y z] u8_antisym [of z y] by (auto split: if_splits)
    qed
  qed
qed

interpretation names: comparison strcmp
  by unfold_locales (auto simp: strcmp_flip intro: strcmp_trans)

section \<open>The invariant\<close>

text \<open>What the script that generates obj_dat.h guarantees: an object has its own index as identifier, or the
  index is not in use; and the three arrays list what has data or a name, in strictly ascending order.\<close>

definition known :: "obj_tables \<Rightarrow> int \<Rightarrow> bool" where
  "known T n \<longleftrightarrow> 0 < n \<and> n < NUM_NID T \<and> nid (get_builtin_object T n) = n"

definition tables_ok :: "obj_tables \<Rightarrow> bool" where
  "tables_ok T \<longleftrightarrow> NUM_NID T < 2 ^ 16 \<and>
     (\<forall>n. 0 < n \<and> n < NUM_NID T \<longrightarrow> nid (get_builtin_object T n) \<in> {n, 0}) \<and>
     set (kNIDsInOIDOrder T) = {n. known T n \<and> data (get_builtin_object T n) \<noteq> []} \<and>
     set (kNIDsInShortNameOrder T) = {n. known T n \<and> sn (get_builtin_object T n) \<noteq> None} \<and>
     set (kNIDsInLongNameOrder T) = {n. known T n \<and> ln (get_builtin_object T n) \<noteq> None} \<and>
     sorted_wrt (\<lambda>m n. OBJ_cmp (get_builtin_object T m) (get_builtin_object T n) < 0) (kNIDsInOIDOrder T) \<and>
     sorted_wrt (\<lambda>m n. strcmp (the_name (sn (get_builtin_object T m))) (the_name (sn (get_builtin_object T n))) < 0) (kNIDsInShortNameOrder T) \<and>
     sorted_wrt (\<lambda>m n. strcmp (the_name (ln (get_builtin_object T m))) (the_name (ln (get_builtin_object T n))) < 0) (kNIDsInLongNameOrder T)"

definition table_or_null :: "('d lhash \<Rightarrow> bool) \<Rightarrow> 'd lhash option \<Rightarrow> bool" where
  "table_or_null P lh \<longleftrightarrow> (\<forall>t. lh = Some t \<longrightarrow> P t)"

definition added_elements :: "'d lhash option \<Rightarrow> 'd set" where
  "added_elements lh = (case lh of None \<Rightarrow> {} | Some t \<Rightarrow> elements t)"

definition all_added :: "obj_globals \<Rightarrow> asn1_object set" where
  "all_added g = added_elements (global_added_by_nid g) \<union> added_elements (global_added_by_data g) \<union>
     added_elements (global_added_by_short_name g) \<union> added_elements (global_added_by_long_name g)"

text \<open>Objects that were added have identifiers of their own, above those of the tables.\<close>

definition obj_ok :: "obj_tables \<Rightarrow> obj_globals \<Rightarrow> bool" where
  "obj_ok T g \<longleftrightarrow>
     table_or_null nids.table (global_added_by_nid g) \<and> table_or_null datas.table (global_added_by_data g) \<and>
     table_or_null short_names.table (global_added_by_short_name g) \<and> table_or_null long_names.table (global_added_by_long_name g) \<and>
     NUM_NID T \<le> sint (global_next_nid g) \<and>
     (\<forall>x\<in>all_added g. NUM_NID T \<le> nid x \<and> nid x < sint (global_next_nid g)) \<and>
     (\<forall>x\<in>all_added g. \<forall>y\<in>all_added g. nid x = nid y \<longrightarrow> x = y)"

context hash_compare
begin

lemma added_iff: "table_or_null table lh \<Longrightarrow> added lh k = Some x \<longleftrightarrow> x \<in> added_elements lh \<and> cmp x k = 0"
  by (cases lh) (auto simp: added_def added_elements_def table_or_null_def retrieve_iff)

lemma made_table:
  "table_or_null table lh \<Longrightarrow> made al hsh cmp lh = Some t \<Longrightarrow> table t \<and> elements t = added_elements lh \<and> OPENSSL_lh_retrieve t = added lh"
proof (cases lh)
  case None
  assume "table_or_null table lh" "made al hsh cmp lh = Some t"
  then have t: "table t \<and> elements t = {}" using None new_table by (simp add: made_def)
  then have "OPENSSL_lh_retrieve t k = None" for k using retrieve_iff [of t k] by (cases "OPENSSL_lh_retrieve t k") auto
  with t None show ?thesis by (auto simp: added_elements_def added_def)
qed (auto simp: made_def table_or_null_def added_elements_def added_def)

lemma made_null: "table_or_null table lh \<Longrightarrow> table_or_null table (made al hsh cmp lh) \<and> added_elements (made al hsh cmp lh) = added_elements lh"
proof (cases "made al hsh cmp lh")
  case None
  then have "lh = None" by (cases lh) (auto simp: made_def)
  with None show ?thesis by (simp add: table_or_null_def)
next
  case (Some t)
  assume "table_or_null table lh"
  from made_table [OF this Some] show ?thesis unfolding Some by (simp add: table_or_null_def added_elements_def)
qed

definition insertable :: "'d lhash option \<Rightarrow> nat option \<Rightarrow> bool" where
  "insertable lh m \<longleftrightarrow> (\<forall>t p. lh = Some t \<longrightarrow> m = Some p \<longrightarrow> p \<notin> item_addr ` set (items t))"

lemma made_insert:
  assumes "table_or_null table lh" "made al hsh cmp lh = Some t" "insertable lh m" "OPENSSL_lh_insert al m d t = ((success, old), t')"
  shows "table t' \<and> elements t' \<subseteq> insert d (added_elements lh) \<and> (m \<noteq> None \<longrightarrow> success) \<and>
    (success \<longrightarrow> OPENSSL_lh_retrieve t' = (\<lambda>e. if cmp e d = 0 then Some d else added lh e))"
proof -
  have t: "table t" "elements t = added_elements lh" "OPENSSL_lh_retrieve t = added lh" using made_table [OF assms(1,2)] by auto
  have "items t = []" if "lh = None" using that assms(2)
    by (auto simp: made_def OPENSSL_lh_new_def items_def concat_replicate_trivial split: if_splits)
  then have fresh: "p \<notin> item_addr ` set (items t)" if "m = Some p" for p
    using assms(2,3) that by (cases lh) (auto simp: made_def insertable_def)
  note spec = insert_elements [OF t(1) fresh assms(4)]
  show ?thesis
    using spec t retrieve_insert [OF t(1), of t' d] by (auto split: if_splits)
qed

end

context hash_compare
begin

lemma made_insert_if:
  assumes "table_or_null table lh" "made al hsh cmp lh = Some t" "insertable lh m"
    "(if b then OPENSSL_lh_insert al m d t else ((True, None), t)) = ((success, old), t')"
  shows "table t' \<and> elements t' \<subseteq> insert d (added_elements lh) \<and> (m \<noteq> None \<longrightarrow> success) \<and>
    (b \<and> success \<longrightarrow> OPENSSL_lh_retrieve t' = (\<lambda>e. if cmp e d = 0 then Some d else added lh e))"
proof (cases b)
  case True
  then have "OPENSSL_lh_insert al m d t = ((success, old), t')" using assms(4) by simp
  from made_insert [OF assms(1-3) this] show ?thesis by blast
next
  case False
  then show ?thesis using made_table [OF assms(1,2)] assms(4) by auto
qed

end

text \<open>The four tables can take another item.\<close>

definition obj_insertable :: "obj_globals \<Rightarrow> (nat \<Rightarrow> nat option) \<Rightarrow> bool" where
  "obj_insertable g mal \<longleftrightarrow> nids.insertable (global_added_by_nid g) (mal 0) \<and> datas.insertable (global_added_by_data g) (mal 1) \<and>
     short_names.insertable (global_added_by_short_name g) (mal 2) \<and> long_names.insertable (global_added_by_long_name g) (mal 3)"

definition static :: "asn1_object \<Rightarrow> asn1_object" where
  "static obj = obj\<lparr>flags := flags obj AND NOT all_dynamic\<rparr>"

lemma static_simps [simp]: "nid (static obj) = nid obj" "data (static obj) = data obj" "sn (static obj) = sn obj" "ln (static obj) = ln obj"
  by (simp_all add: static_def)

definition tables_in :: "obj_globals \<Rightarrow> bool" where
  "tables_in g \<longleftrightarrow> table_or_null nids.table (global_added_by_nid g) \<and> table_or_null datas.table (global_added_by_data g) \<and>
     table_or_null short_names.table (global_added_by_short_name g) \<and> table_or_null long_names.table (global_added_by_long_name g)"

lemma obj_add_object_spec:
  assumes g: "tables_in g" and ins: "obj_insertable g mal" and run: "obj_add_object al mal obj g = (success, g')"
  shows "tables_in g' \<and> all_added g' \<subseteq> insert (static obj) (all_added g) \<and> global_next_nid g' = global_next_nid g \<and>
    (al = (\<lambda>_. True) \<and> (\<forall>k. mal k \<noteq> None) \<longrightarrow> success) \<and>
    (success \<or> al = (\<lambda>_. True) \<and> mal 0 \<noteq> None \<longrightarrow>
       added (global_added_by_nid g') = (\<lambda>e. if cmp_nid e (static obj) = 0 then Some (static obj) else added (global_added_by_nid g) e)) \<and>
    (success \<or> al = (\<lambda>_. True) \<and> mal 1 \<noteq> None \<longrightarrow> data obj \<noteq> [] \<longrightarrow>
       added (global_added_by_data g') = (\<lambda>e. if OBJ_cmp e (static obj) = 0 then Some (static obj) else added (global_added_by_data g) e)) \<and>
    (success \<or> al = (\<lambda>_. True) \<and> mal 2 \<noteq> None \<longrightarrow> sn obj \<noteq> None \<longrightarrow>
       added (global_added_by_short_name g') = (\<lambda>e. if cmp_short_name e (static obj) = 0 then Some (static obj) else added (global_added_by_short_name g) e)) \<and>
    (success \<or> al = (\<lambda>_. True) \<and> mal 3 \<noteq> None \<longrightarrow> ln obj \<noteq> None \<longrightarrow>
       added (global_added_by_long_name g') = (\<lambda>e. if cmp_long_name e (static obj) = 0 then Some (static obj) else added (global_added_by_long_name g) e))"
proof -
  let ?n = "made al hash_nid cmp_nid (global_added_by_nid g)" and ?d = "made al hash_data OBJ_cmp (global_added_by_data g)"
  let ?s = "made al hash_short_name cmp_short_name (global_added_by_short_name g)" and ?l = "made al hash_long_name cmp_long_name (global_added_by_long_name g)"
  have t: "table_or_null nids.table (global_added_by_nid g)" "table_or_null datas.table (global_added_by_data g)"
    "table_or_null short_names.table (global_added_by_short_name g)" "table_or_null long_names.table (global_added_by_long_name g)"
    using g by (auto simp: tables_in_def)
  have i: "nids.insertable (global_added_by_nid g) (mal 0)" "datas.insertable (global_added_by_data g) (mal 1)"
    "short_names.insertable (global_added_by_short_name g) (mal 2)" "long_names.insertable (global_added_by_long_name g) (mal 3)"
    using ins by (auto simp: obj_insertable_def)
  note made = nids.made_null [OF t(1), of al] datas.made_null [OF t(2), of al] short_names.made_null [OF t(3), of al] long_names.made_null [OF t(4), of al]
  show ?thesis
  proof (cases "?n = None \<or> ?d = None \<or> ?s = None \<or> ?l = None")
    case True
    then have "\<not> success" "g' = g\<lparr>global_added_by_nid := ?n, global_added_by_data := ?d, global_added_by_short_name := ?s, global_added_by_long_name := ?l\<rparr>"
      using run by (auto simp: obj_add_object_def Let_def split: option.splits)
    moreover have "al \<noteq> (\<lambda>_. True)" using True by (auto simp: made_def OPENSSL_lh_new_def split: option.splits)
    ultimately show ?thesis using made by (auto simp: tables_in_def all_added_def)
  next
    case False
    then obtain tn td ts tl where m: "?n = Some tn" "?d = Some td" "?s = Some ts" "?l = Some tl" by auto
    obtain s1 o1 n' where 1: "OPENSSL_lh_insert al (mal 0) (static obj) tn = ((s1, o1), n')" by (metis surj_pair)
    obtain s2 o2 d' where 2: "(if data obj \<noteq> [] then OPENSSL_lh_insert al (mal 1) (static obj) td else ((True, None), td)) = ((s2, o2), d')" by (metis surj_pair)
    obtain s3 o3 sn' where 3: "(if sn obj \<noteq> None then OPENSSL_lh_insert al (mal 2) (static obj) ts else ((True, None), ts)) = ((s3, o3), sn')" by (metis surj_pair)
    obtain s4 o4 ln' where 4: "(if ln obj \<noteq> None then OPENSSL_lh_insert al (mal 3) (static obj) tl else ((True, None), tl)) = ((s4, o4), ln')" by (metis surj_pair)
    have r: "success = (s1 \<and> s2 \<and> s3 \<and> s4)" "g' = g\<lparr>global_added_by_nid := Some n', global_added_by_data := Some d', global_added_by_short_name := Some sn', global_added_by_long_name := Some ln'\<rparr>"
      using run m 1 2 3 4 by (auto simp: obj_add_object_def Let_def static_def [symmetric])
    note a = nids.made_insert [OF t(1) m(1) i(1) 1] datas.made_insert_if [OF t(2) m(2) i(2) 2]
      short_names.made_insert_if [OF t(3) m(3) i(3) 3] long_names.made_insert_if [OF t(4) m(4) i(4) 4]
    have look: "added (Some t) = OPENSSL_lh_retrieve t" for t :: "asn1_object lhash" by (simp add: added_def fun_eq_iff)
    have "tables_in g'" using a by (simp add: r(2) tables_in_def table_or_null_def)
    moreover have "all_added g' \<subseteq> insert (static obj) (all_added g)"
    proof -
      note sub = a(1) [THEN conjunct2, THEN conjunct1] a(2-4) [THEN conjunct2, THEN conjunct1]
      have "all_added g' = elements n' \<union> elements d' \<union> elements sn' \<union> elements ln'"
        by (simp add: r(2) all_added_def added_elements_def)
      then show ?thesis using sub unfolding all_added_def [of g] by blast
    qed
    moreover have "global_next_nid g' = global_next_nid g" by (simp add: r(2))
    moreover have "(\<forall>k. mal k \<noteq> None) \<longrightarrow> success"
      using a(1-4) [THEN conjunct2, THEN conjunct2, THEN conjunct1] unfolding r(1) by blast
    moreover have "success \<or> al = (\<lambda>_. True) \<and> mal 0 \<noteq> None \<Longrightarrow> added (global_added_by_nid g') = (\<lambda>e. if cmp_nid e (static obj) = 0 then Some (static obj) else added (global_added_by_nid g) e)"
      using a(1) r(1) by (auto simp: r(2) look)
    moreover have "success \<or> al = (\<lambda>_. True) \<and> mal 1 \<noteq> None \<Longrightarrow> data obj \<noteq> [] \<Longrightarrow> added (global_added_by_data g') = (\<lambda>e. if OBJ_cmp e (static obj) = 0 then Some (static obj) else added (global_added_by_data g) e)"
      using a(2) r(1) by (auto simp: r(2) look)
    moreover have "success \<or> al = (\<lambda>_. True) \<and> mal 2 \<noteq> None \<Longrightarrow> sn obj \<noteq> None \<Longrightarrow> added (global_added_by_short_name g') = (\<lambda>e. if cmp_short_name e (static obj) = 0 then Some (static obj) else added (global_added_by_short_name g) e)"
      using a(3) r(1) by (auto simp: r(2) look)
    moreover have "success \<or> al = (\<lambda>_. True) \<and> mal 3 \<noteq> None \<Longrightarrow> ln obj \<noteq> None \<Longrightarrow> added (global_added_by_long_name g') = (\<lambda>e. if cmp_long_name e (static obj) = 0 then Some (static obj) else added (global_added_by_long_name g) e)"
      using a(4) r(1) by (auto simp: r(2) look)
    ultimately show ?thesis by blast
  qed
qed

section \<open>Creating objects\<close>

lemma obj_ok_iff: "obj_ok T g \<longleftrightarrow> tables_in g \<and> NUM_NID T \<le> sint (global_next_nid g) \<and>
     (\<forall>x\<in>all_added g. NUM_NID T \<le> nid x \<and> nid x < sint (global_next_nid g)) \<and>
     (\<forall>x\<in>all_added g. \<forall>y\<in>all_added g. nid x = nid y \<longrightarrow> x = y)"
  by (auto simp: obj_ok_def tables_in_def)

lemma all_dynamic_bit: "all_dynamic AND ASN1_OBJECT_FLAG_DYNAMIC \<noteq> 0"
  by (simp add: all_dynamic_def ASN1_OBJECT_FLAG_DYNAMIC_def ASN1_OBJECT_FLAG_DYNAMIC_STRINGS_def ASN1_OBJECT_FLAG_DYNAMIC_DATA_def)

lemma ASN1_OBJECT_create_Some:
  "ASN1_OBJECT_create al n d s l = Some obj \<Longrightarrow> nid obj = n \<and> data obj = d \<and> sn obj = map_option c_str s \<and> ln obj = map_option c_str l"
  using all_dynamic_bit
  by (auto simp: ASN1_OBJECT_create_def OBJ_dup_def Let_def OPENSSL_strdup_def OPENSSL_memdup_def split: if_splits option.splits)

lemma ASN1_OBJECT_create_succeeds: "length d \<le> INT_MAX \<Longrightarrow> ASN1_OBJECT_create (\<lambda>_. True) n d s l \<noteq> None"
  using all_dynamic_bit
  by (auto simp: ASN1_OBJECT_create_def OBJ_dup_def ASN1_OBJECT_new_def Let_def OPENSSL_strdup_def OPENSSL_memdup_def split: option.splits)

lemma next_nid_less:
  assumes "0 \<le> sint (x :: u32)" "sint x < 2 ^ 31 - 1"
  shows "sint (x + 1) = sint x + 1"
  using assms by (simp add: sint_word_ariths signed_take_bit_int_eq_self)

lemma create_object_Some:
  "create_object_with_text_oid al (Some obj_next_nid) oid s l g = (Some obj, g') \<Longrightarrow>
   g' = g\<lparr>global_next_nid := global_next_nid g + 1\<rparr> \<and> nid obj = sint (global_next_nid g) \<and>
   sn obj = map_option c_str s \<and> ln obj = map_option c_str l"
  by (auto simp: create_object_with_text_oid_def obj_next_nid_def dest!: ASN1_OBJECT_create_Some split: option.splits prod.splits)

lemma create_object_None:
  "create_object_with_text_oid al (Some obj_next_nid) oid s l g = (None, g') \<Longrightarrow> g' = g \<or> g' = g\<lparr>global_next_nid := global_next_nid g + 1\<rparr>"
  by (auto simp: create_object_with_text_oid_def obj_next_nid_def split: option.splits prod.splits)

lemma bumped: "all_added (g\<lparr>global_next_nid := x\<rparr>) = all_added g" "tables_in (g\<lparr>global_next_nid := x\<rparr>) = tables_in g"
  "obj_insertable (g\<lparr>global_next_nid := x\<rparr>) mal = obj_insertable g mal"
  by (simp_all add: all_added_def tables_in_def obj_insertable_def)

lemma obj_ok_bump:
  assumes "obj_ok T g" "0 \<le> NUM_NID T" "sint (global_next_nid g) < 2 ^ 31 - 1"
  shows "obj_ok T (g\<lparr>global_next_nid := global_next_nid g + 1\<rparr>)"
  using assms next_nid_less [of "global_next_nid g"] by (force simp: obj_ok_iff bumped)

lemma NUM_NID_pos: "0 < NUM_NID T"
  by (simp add: NUM_NID_def)

lemma OBJ_create_ok:
  assumes "obj_ok T g" "obj_insertable g mal" "sint (global_next_nid g) < 2 ^ 31 - 1" "OBJ_create al mal oid s l g = (n, g')"
  shows "obj_ok T g'"
proof -
  obtain r g1 where c: "create_object_with_text_oid al (Some obj_next_nid) oid s l g = (r, g1)" by fastforce
  have pos: "0 \<le> NUM_NID T" using NUM_NID_pos [of T] by simp
  have ge: "NUM_NID T \<le> sint (global_next_nid g)" using assms(1) by (simp add: obj_ok_iff)
  note bump = obj_ok_bump [OF assms(1) pos assms(3)]
  show ?thesis
  proof (cases r)
    case None
    then have "g' = g \<or> g' = g\<lparr>global_next_nid := global_next_nid g + 1\<rparr>" using assms(4) c create_object_None by (auto simp: OBJ_create_def)
    then show ?thesis using assms(1) bump by auto
  next
    case (Some obj)
    from create_object_Some [OF c [unfolded Some]]
    have g1: "g1 = g\<lparr>global_next_nid := global_next_nid g + 1\<rparr>" and nid: "nid obj = sint (global_next_nid g)" by auto
    obtain ok g2 where add: "obj_add_object al mal obj g1 = (ok, g2)" by fastforce
    have g': "g' = g2" using assms(4) c Some add by (simp add: OBJ_create_def)
    have t: "tables_in g1" "obj_insertable g1 mal" using assms(1,2) by (simp_all add: g1 bumped obj_ok_iff)
    have spec: "tables_in g2" "all_added g2 \<subseteq> insert (static obj) (all_added g)" "global_next_nid g2 = global_next_nid g + 1"
      using obj_add_object_spec [OF t add] by (simp_all add: g1 bumped)
    have suc: "sint (global_next_nid g + 1) = sint (global_next_nid g) + 1"
      using next_nid_less [OF _ assms(3)] ge pos by simp
    have old: "NUM_NID T \<le> nid x \<and> nid x < sint (global_next_nid g)" "\<And>y. y \<in> all_added g \<Longrightarrow> nid x = nid y \<Longrightarrow> x = y" if "x \<in> all_added g" for x
      using assms(1) that by (auto simp: obj_ok_iff)
    show ?thesis
      unfolding g' obj_ok_iff spec(3) suc
    proof (intro conjI ballI impI)
      fix x assume "x \<in> all_added g2"
      then have x: "x = static obj \<or> x \<in> all_added g" using spec(2) by blast
      then show "NUM_NID T \<le> nid x" "nid x < sint (global_next_nid g) + 1" using old(1) [of x] nid ge by auto
      fix y assume "y \<in> all_added g2" "nid x = nid y"
      moreover from this(1) have y: "y = static obj \<or> y \<in> all_added g" using spec(2) by blast
      ultimately show "x = y" using x old(1) [of x] old(1) [of y] old(2) [of x y] nid by fastforce
    qed (use spec(1) ge in auto)
  qed
qed

section \<open>Runs of the library\<close>

inductive obj_reach :: "obj_tables \<Rightarrow> obj_globals \<Rightarrow> bool" for T where
  start: "obj_reach T (obj_init T)"
| create: "obj_reach T g \<Longrightarrow> obj_insertable g mal \<Longrightarrow> sint (global_next_nid g) < 2 ^ 31 - 1 \<Longrightarrow>
    OBJ_create al mal oid s l g = (n, g') \<Longrightarrow> obj_reach T g'"

lemma obj_init_added: "added (global_added_by_data (obj_init T)) = (\<lambda>_. None)" "added (global_added_by_nid (obj_init T)) = (\<lambda>_. None)"
  "added (global_added_by_short_name (obj_init T)) = (\<lambda>_. None)" "added (global_added_by_long_name (obj_init T)) = (\<lambda>_. None)"
  by (simp_all add: obj_init_def added_def fun_eq_iff)

lemma obj_init_ok:
  assumes "tables_ok T"
  shows "obj_ok T (obj_init T)"
proof -
  have "0 < NUM_NID T" "NUM_NID T < 2 ^ 16" using assms NUM_NID_pos by (auto simp: tables_ok_def)
  then have "sint (word_of_int (NUM_NID T) :: u32) = NUM_NID T" unfolding sint_sbintrunc' by (simp add: signed_take_bit_int_eq_self)
  then show ?thesis by (simp add: obj_ok_iff tables_in_def all_added_def table_or_null_def added_elements_def obj_init_def)
qed

lemma obj_reach_ok: "obj_reach T g \<Longrightarrow> tables_ok T \<Longrightarrow> obj_ok T g"
proof (induction rule: obj_reach.induct)
  case start
  then show ?case by (rule obj_init_ok)
next
  case (create g mal al oid s l n g')
  then show ?case using OBJ_create_ok by blast
qed

lemma bsearch_obj:
  assumes "tables_ok T" "bsearch (obj_cmp T obj) (kNIDsInOIDOrder T) = Some n"
  shows "known T n \<and> data (get_builtin_object T n) = data obj"
  using bsearch_sound [OF assms(2)] assms(1) by (simp add: tables_ok_def obj_cmp_def OBJ_cmp_eq_0)

lemma bsearch_obj_found:
  assumes "tables_ok T" "known T n" "data (get_builtin_object T n) = data obj" "data obj \<noteq> []"
  shows "bsearch (obj_cmp T obj) (kNIDsInOIDOrder T) = Some n"
proof -
  have "obj_cmp T obj = (\<lambda>n. OBJ_cmp obj (get_builtin_object T n))" by (simp add: obj_cmp_def fun_eq_iff)
  then show ?thesis
    using assms obj_order.bsearch_finds [of "get_builtin_object T" "kNIDsInOIDOrder T" n obj]
    by (simp add: tables_ok_def OBJ_cmp_eq_0)
qed

lemma bsearch_name_found:
  assumes "tables_ok T" "known T n"
  shows "sn (get_builtin_object T n) = Some s \<Longrightarrow> bsearch (short_name_cmp T s) (kNIDsInShortNameOrder T) = Some n"
    and "ln (get_builtin_object T n) = Some l \<Longrightarrow> bsearch (long_name_cmp T l) (kNIDsInLongNameOrder T) = Some n"
proof -
  have "short_name_cmp T s = (\<lambda>n. strcmp s (the_name (sn (get_builtin_object T n))))"
    "long_name_cmp T l = (\<lambda>n. strcmp l (the_name (ln (get_builtin_object T n))))"
    by (simp_all add: short_name_cmp_def long_name_cmp_def fun_eq_iff)
  then show "sn (get_builtin_object T n) = Some s \<Longrightarrow> bsearch (short_name_cmp T s) (kNIDsInShortNameOrder T) = Some n"
    "ln (get_builtin_object T n) = Some l \<Longrightarrow> bsearch (long_name_cmp T l) (kNIDsInLongNameOrder T) = Some n"
    using assms names.bsearch_finds [of "\<lambda>n. the_name (sn (get_builtin_object T n))" "kNIDsInShortNameOrder T" n s]
      names.bsearch_finds [of "\<lambda>n. the_name (ln (get_builtin_object T n))" "kNIDsInLongNameOrder T" n l]
    by (auto simp: tables_ok_def the_name_def)
qed

text \<open>The text of an object identifier makes an object with its DER.\<close>

lemma create_object_text:
  assumes "CBS_asn1_oid_to_text al c = Some txt" "length c \<le> INT_MAX"
  shows "\<exists>obj. create_object_with_text_oid (\<lambda>_. True) (Some obj_next_nid) (butlast txt) s l g =
      (Some obj, g\<lparr>global_next_nid := global_next_nid g + 1\<rparr>) \<and> data obj = c"
proof -
  let ?s = "cbb_init 32 True"
  have "buffer_room (\<lambda>_. True) (base ?s) (length c)" using assms(2) by (simp add: buffer_room_def cbb_init_def INT_MAX_def)
  moreover have "length (chain ?s) = 0" by (simp add: cbb_init_def)
  ultimately obtain s' where s': "CBB_add_asn1_oid_from_text (\<lambda>_. True) 0 (butlast txt) ?s = (Some (), s')" "buf (base s') = c"
      "chain s' = []" "\<not> error (base s')"
    using oid_from_text [OF assms(1), of ?s 0 "\<lambda>_. True"] by (auto simp: cbb_init_def)
  have fin: "fst (CBB_finish (\<lambda>_. True) 0 True s') = Some c"
    using s' by (simp add: CBB_finish_def CBB_flush_def andthen_apply require_def)
  show ?thesis
    using s' fin ASN1_OBJECT_create_succeeds [OF assms(2), of "sint (global_next_nid g)" s l] ASN1_OBJECT_create_Some
    by (cases "CBB_finish (\<lambda>_. True) 0 True s'") (force simp: create_object_with_text_oid_def CBB_init_def obj_next_nid_def andthen_apply)
qed

lemma the_name_c_str [simp]: "c_str (the_name (map_option c_str s)) = c_str (the_name s)"
  by (cases s) (simp_all add: the_name_def)

lemma added_after:
  assumes "added t' = (\<lambda>e. if c e x = 0 then Some x else added t e)" "c e x = 0"
  shows "added t' e = Some x"
  using assms by (simp add: fun_eq_iff)

section \<open>Properties\<close>


text \<open>Tables with one object, the identifier 1.2.3.\<close>

definition example_tables :: obj_tables where
  "example_tables = \<lparr>kObjects = [\<lparr>sn = Some [0x61], ln = Some [0x62], nid = 1, data = [0x2a, 3], flags = 0\<rparr>],
     kNIDsInOIDOrder = [1], kNIDsInShortNameOrder = [1], kNIDsInLongNameOrder = [1]\<rparr>"

lemma example_tables: "tables_ok example_tables" "known example_tables 1" "NUM_NID example_tables = 2"
  "get_builtin_object example_tables 1 = \<lparr>sn = Some [0x61], ln = Some [0x62], nid = 1, data = [0x2a, 3], flags = 0\<rparr>"
proof -
  show num: "NUM_NID example_tables = 2" by (simp add: example_tables_def NUM_NID_def)
  have one: "0 < n \<and> n < 2 \<longleftrightarrow> n = 1" for n :: int by auto
  show one_obj: "get_builtin_object example_tables 1 = \<lparr>sn = Some [0x61], ln = Some [0x62], nid = 1, data = [0x2a, 3], flags = 0\<rparr>"
    by (simp add: get_builtin_object_def example_tables_def)
  have known: "known example_tables n \<longleftrightarrow> n = 1" for n using one [of n] one_obj by (auto simp: known_def num)
  then show "known example_tables 1" by simp
  have orders: "kNIDsInOIDOrder example_tables = [1]" "kNIDsInShortNameOrder example_tables = [1]" "kNIDsInLongNameOrder example_tables = [1]"
    by (simp_all add: example_tables_def)
  have "nid (get_builtin_object example_tables n) \<in> {n, 0}" if "0 < n \<and> n < 2" for n
    using that one [of n] one_obj by simp
  moreover have "{n. known example_tables n \<and> P n} = {1}" if "P 1" for P using known that by auto
  ultimately show "tables_ok example_tables"
    unfolding tables_ok_def num orders by (simp add: one_obj)
qed






text \<open>If the last allocation of \<open>OBJ_create\<close> fails, it returns \<open>NID_undef\<close>, but the object stays in the tables that
  it has reached.\<close>

lemma obj_create_partial:
  assumes "OBJ_create (\<lambda>_. True) (\<lambda>k. if k = 3 then None else Some k) [0x31, 0x2e, 0x32, 0x2e, 0x33] (Some [0x78]) (Some [0x79]) (obj_init example_tables) = (n, g')"
  shows "n = NID_undef \<and> OBJ_sn2nid example_tables g' [0x78] = 2"
proof -
  let ?g = "obj_init example_tables" and ?mal = "\<lambda>k. if k = 3 then None else Some k :: nat option"
  from create_object_text [OF oid_to_text_example, of "Some [0x78]" "Some [0x79]" ?g] obtain obj where
    c: "create_object_with_text_oid (\<lambda>_. True) (Some obj_next_nid) [0x31, 0x2e, 0x32, 0x2e, 0x33] (Some [0x78]) (Some [0x79]) ?g =
      (Some obj, ?g\<lparr>global_next_nid := global_next_nid ?g + 1\<rparr>)" by (auto simp: INT_MAX_def)
  have obj: "nid obj = 2" "sn obj = Some [0x78]" "ln obj = Some [0x79]"
    using create_object_Some [OF c] by (simp_all add: c_str_def obj_init_def example_tables(3))
  let ?g1 = "?g\<lparr>global_next_nid := global_next_nid ?g + 1\<rparr>"
  obtain success where add: "obj_add_object (\<lambda>_. True) ?mal obj ?g1 = (success, g')" and n: "n = (if success then nid obj else NID_undef)"
    using assms c by (auto simp: OBJ_create_def split: prod.splits)
  have "\<not> success"
    using add obj by (auto simp: obj_add_object_def Let_def made_def obj_init_def OPENSSL_lh_new_def OPENSSL_lh_insert_def
        get_next_ptr_and_hash_def kMinNumBuckets_def split: prod.splits if_splits)
  moreover have "tables_in ?g1" "obj_insertable ?g1 ?mal"
    by (simp_all add: tables_in_def table_or_null_def obj_insertable_def nids.insertable_def datas.insertable_def
        short_names.insertable_def long_names.insertable_def obj_init_def)
  from obj_add_object_spec [OF this add] obj have
    "added (global_added_by_short_name g') (template\<lparr>sn := Some [0x78]\<rparr>) = Some (static obj)"
    by (auto simp: cmp_short_name_def strcmp_eq_0 the_name_def)
  ultimately show ?thesis using n obj(1) by (simp add: OBJ_sn2nid_def)
qed

end
