(* ===== verification/SipHash.thy ===== *)
theory SipHash imports Prelude begin

text \<open>
  The keyed hash SipHash-2-4, crypto/siphash/siphash.c, with the little-endian load and the rotation of
  crypto/internal.h. The array \<open>v\<close> of four words is a tuple. The routine hashes whole words of the input
  in its loop and the remaining bytes with the length in a last block; the specification below it is that
  of the paper of Aumasson and Bernstein, which pads the message first and then hashes all of its words.
\<close>

definition CRYPTO_load_u64_le :: "bytes \<Rightarrow> u64" where
  "CRYPTO_load_u64_le bs = foldr (\<lambda>b v. push_bit 8 v OR ucast b) (take 8 bs) 0"

definition CRYPTO_rotl_u64 :: "u64 \<Rightarrow> nat \<Rightarrow> u64" where
  "CRYPTO_rotl_u64 x shift = push_bit shift x OR drop_bit ((64 - shift) mod 64) x"

type_synonym sip_state = "u64 \<times> u64 \<times> u64 \<times> u64"

fun siphash_round :: "sip_state \<Rightarrow> sip_state" where
  "siphash_round (v0, v1, v2, v3) =
     (let v0 = v0 + v1;
          v2 = v2 + v3;
          v1 = CRYPTO_rotl_u64 v1 13;
          v3 = CRYPTO_rotl_u64 v3 16;
          v1 = v1 XOR v0;
          v3 = v3 XOR v2;
          v0 = CRYPTO_rotl_u64 v0 32;
          v2 = v2 + v1;
          v0 = v0 + v3;
          v1 = CRYPTO_rotl_u64 v1 17;
          v3 = CRYPTO_rotl_u64 v3 21;
          v1 = v1 XOR v2;
          v3 = v3 XOR v0;
          v2 = CRYPTO_rotl_u64 v2 32
      in (v0, v1, v2, v3))"

definition siphash_word :: "u64 \<Rightarrow> sip_state \<Rightarrow> sip_state" where
  "siphash_word m v =
     (case v of (v0, v1, v2, v3) \<Rightarrow>
        case siphash_round (siphash_round (v0, v1, v2, v3 XOR m)) of (v0, v1, v2, v3) \<Rightarrow> (v0 XOR m, v1, v2, v3))"

function siphash_loop :: "bytes \<Rightarrow> sip_state \<Rightarrow> bytes \<times> sip_state" where
  "siphash_loop input v =
     (if length input \<ge> 8 then siphash_loop (drop 8 input) (siphash_word (CRYPTO_load_u64_le input) v)
      else (input, v))"
  by pat_completeness auto
termination by (relation "measure (\<lambda>(input, _). length input)") auto

declare siphash_loop.simps [simp del]

definition SIPHASH_24 :: "u64 \<times> u64 \<Rightarrow> bytes \<Rightarrow> u64" where
  "SIPHASH_24 key input =
     (let v = (fst key XOR 0x736f6d6570736575, snd key XOR 0x646f72616e646f6d,
               fst key XOR 0x6c7967656e657261, snd key XOR 0x7465646279746573)
      in case siphash_loop input v of
           (rest, v) \<Rightarrow>
             let last_block = (rest @ replicate (8 - length rest) 0)[7 := of_nat (length input) AND 0xff]
             in case siphash_word (CRYPTO_load_u64_le last_block) v of
                  (v0, v1, v2, v3) \<Rightarrow>
                    case siphash_round (siphash_round (siphash_round (siphash_round (v0, v1, v2 XOR 0xff, v3)))) of
                      (v0, v1, v2, v3) \<Rightarrow> v0 XOR v1 XOR v2 XOR v3)"

section \<open>The specification\<close>

text \<open>A little-endian number, the padded message and its words, and the compression and finalization with
  any numbers \<open>c\<close> and \<open>d\<close> of rounds.\<close>

primrec le_val :: "bytes \<Rightarrow> nat" where
  "le_val [] = 0"
| "le_val (b # bs) = unat b + 256 * le_val bs"

definition sip_pad :: "bytes \<Rightarrow> bytes" where
  "sip_pad m = m @ replicate (7 - length m mod 8) 0 @ [of_nat (length m mod 256)]"

function sip_words :: "bytes \<Rightarrow> u64 list" where
  "sip_words bs = (if length bs < 8 then [] else of_nat (le_val (take 8 bs)) # sip_words (drop 8 bs))"
  by pat_completeness auto
termination by (relation "measure length") auto

declare sip_words.simps [simp del]

definition sip_compress :: "nat \<Rightarrow> u64 \<Rightarrow> sip_state \<Rightarrow> sip_state" where
  "sip_compress c m v =
     (case v of (v0, v1, v2, v3) \<Rightarrow> case (siphash_round ^^ c) (v0, v1, v2, v3 XOR m) of (v0, v1, v2, v3) \<Rightarrow> (v0 XOR m, v1, v2, v3))"

definition sip_finalize :: "nat \<Rightarrow> sip_state \<Rightarrow> u64" where
  "sip_finalize d v =
     (case v of (v0, v1, v2, v3) \<Rightarrow> case (siphash_round ^^ d) (v0, v1, v2 XOR 0xff, v3) of (v0, v1, v2, v3) \<Rightarrow> v0 XOR v1 XOR v2 XOR v3)"

definition siphash :: "nat \<Rightarrow> nat \<Rightarrow> u64 \<times> u64 \<Rightarrow> bytes \<Rightarrow> u64" where
  "siphash c d key m =
     sip_finalize d (fold (sip_compress c) (sip_words (sip_pad m))
       (fst key XOR 0x736f6d6570736575, snd key XOR 0x646f72616e646f6d,
        fst key XOR 0x6c7967656e657261, snd key XOR 0x7465646279746573))"

section \<open>Words\<close>

lemma le_val_less: "le_val bs < 256 ^ length bs"
proof (induction bs)
  case (Cons b bs)
  then have "256 * (le_val bs + 1) \<le> 256 * 256 ^ length bs" by simp
  then show ?case using unat_eight_bit [of b] by (simp del: unat_eight_bit)
qed simp

lemma load_fold: "length bs \<le> 8 \<Longrightarrow> foldr (\<lambda>b v. push_bit 8 v OR ucast b) bs 0 = (of_nat (le_val bs) :: u64)"
proof (induction bs)
  case (Cons b bs)
  have "le_val bs < 256 ^ 7" using le_val_less [of bs] power_increasing [of "length bs" 7 "256::nat"] Cons.prems by simp
  then have v: "unat (of_nat (le_val bs) :: u64) = le_val bs" "le_val bs < 2 ^ 56" by (simp_all add: unat_of_nat)
  then have "unat (push_bit 8 (of_nat (le_val bs)) OR ucast b :: u64) = 256 * le_val bs + unat b"
    using unat_push_or [of "ucast b :: u64" 8 "of_nat (le_val bs)"] by simp
  moreover have "unat (of_nat (le_val (b # bs)) :: u64) = le_val (b # bs)"
    using v(2) unat_eight_bit [of b] by (simp add: unat_of_nat del: of_nat_add of_nat_mult unat_eight_bit)
  ultimately have "unat (push_bit 8 (of_nat (le_val bs)) OR ucast b :: u64) = unat (of_nat (le_val (b # bs)) :: u64)"
    by (simp only: le_val.simps add.commute)
  then have "push_bit 8 (of_nat (le_val bs)) OR ucast b = (of_nat (le_val (b # bs)) :: u64)" by (rule word_unat_eq_iff [THEN iffD2])
  then show ?case using Cons by simp
qed simp

lemma CRYPTO_load_u64_le: "CRYPTO_load_u64_le bs = of_nat (le_val (take 8 bs))"
  by (simp add: CRYPTO_load_u64_le_def load_fold)

lemma siphash_word: "siphash_word m = sip_compress 2 m"
  by (simp add: fun_eq_iff siphash_word_def sip_compress_def numeral_2_eq_2 split: prod.splits)

lemma siphash_loop_words:
  assumes "length pad \<in> {1..8}" "(length input + length pad) mod 8 = 0" "siphash_loop input v = (rest, v')"
  shows "length (rest @ pad) = 8 \<and> length rest = length input mod 8 \<and>
    fold (sip_compress 2) (sip_words (input @ pad)) v = siphash_word (of_nat (le_val (rest @ pad))) v'"
  using assms(2,3)
proof (induction input v rule: siphash_loop.induct)
  case (1 input v)
  show ?case
  proof (cases "length input \<ge> 8")
    case True
    have "(length (drop 8 input) + length pad) mod 8 = 0" using "1.prems"(1) True by simp presburger
    moreover have "siphash_loop (drop 8 input) (siphash_word (CRYPTO_load_u64_le input) v) = (rest, v')"
      using "1.prems"(2) True by (simp add: siphash_loop.simps [of input])
    moreover have "length (drop 8 input) mod 8 = length input mod 8" using True by (simp add: mod_if [of "length input"])
    ultimately show ?thesis using "1.IH" [OF True] True
      by (simp add: sip_words.simps [of "input @ pad"] CRYPTO_load_u64_le siphash_word)
  next
    case False
    then have r: "rest = input" "v' = v" using "1.prems"(2) by (simp_all add: siphash_loop.simps [of input])
    have "length input + length pad = 8" using "1.prems"(1) False assms(1) by simp presburger
    then show ?thesis using False r
      by (simp add: sip_words.simps [of "input @ pad"] sip_words.simps [of "[]"] siphash_word)
  qed
qed

lemma and_mask_255: "x AND 0xff = (x :: u8)"
proof -
  have "0xff = (-1 :: u8)" by simp
  then show ?thesis by (simp only: bit.conj_one_right)
qed

lemma sip_finalize_4:
  "sip_finalize 4 v = (case v of (v0, v1, v2, v3) \<Rightarrow>
     case siphash_round (siphash_round (siphash_round (siphash_round (v0, v1, v2 XOR 0xff, v3)))) of
       (v0, v1, v2, v3) \<Rightarrow> v0 XOR v1 XOR v2 XOR v3)"
  by (simp add: sip_finalize_def eval_nat_numeral)

section \<open>The hash is SipHash-2-4\<close>

text \<open>C35. The code computes SipHash-2-4: with whole words hashed in its loop and a last block of the bytes that are
  left, zeros and the length, it is the specification with two and four rounds on the words of the padded message.\<close>

theorem siphash_24_exact: "SIPHASH_24 key input = siphash 2 4 key input"
proof -
  let ?v = "(fst key XOR 0x736f6d6570736575, snd key XOR 0x646f72616e646f6d,
    fst key XOR 0x6c7967656e657261, snd key XOR 0x7465646279746573)"
  let ?pad = "replicate (7 - length input mod 8) 0 @ [of_nat (length input mod 256)] :: bytes"
  obtain rest v where l: "siphash_loop input ?v = (rest, v)" by (cases "siphash_loop input ?v")
  have "length ?pad = 8 - length input mod 8" by simp
  then have "length ?pad \<in> {1..8}" "(length input + length ?pad) mod 8 = 0" by (simp, presburger)
  from siphash_loop_words [OF this l] have r: "length rest = length input mod 8"
    "fold (sip_compress 2) (sip_words (sip_pad input)) ?v = siphash_word (of_nat (le_val (rest @ ?pad))) v"
    by (simp_all add: sip_pad_def)
  have "(rest @ replicate (8 - length rest) 0)[7 := of_nat (length input) AND 0xff] = rest @ ?pad"
  proof -
    have "of_nat (length input) AND 0xff = (of_nat (length input mod 256) :: u8)"
      using and_mask_255 [of "of_nat (length input)"] by (simp add: u8_eq_iff)
    moreover have "length rest \<le> 7" using r(1) by simp
    then have "8 - length rest = Suc (7 - length rest)" by simp
    then have "replicate (8 - length rest) 0 = replicate (7 - length rest) 0 @ [0 :: u8]" by (simp add: replicate_append_same)
    ultimately show ?thesis using \<open>length rest \<le> 7\<close> r(1) by (simp add: list_update_append)
  qed
  then have "SIPHASH_24 key input = sip_finalize 4 (siphash_word (of_nat (le_val (rest @ ?pad))) v)"
    using l r(1) unfolding SIPHASH_24_def sip_finalize_4 by (simp add: CRYPTO_load_u64_le)
  then show ?thesis by (simp only: siphash_def r(2))
qed

text \<open>The example of the paper.\<close>

lemma siphash_test_vector:
  "SIPHASH_24 (0x0706050403020100, 0x0f0e0d0c0b0a0908) [0, 1, 2, 3, 4, 5, 6, 7, 8, 9, 10, 11, 12, 13, 14] = 0xa129ca6149be45e5"
  by (simp add: SIPHASH_24_def siphash_loop.simps siphash_word_def CRYPTO_load_u64_le_def CRYPTO_rotl_u64_def)

end
