(* ===== verification/Pool.thy ===== *)
theory Pool imports Mem CBS CBB_ASN1 LHash SipHash begin

text \<open>
  Shared byte strings, crypto/pool/pool.c, and the reference counts of crypto/refcount.c. Buffers and pools
  are objects at addresses, and \<open>memory\<close> maps the addresses of the live ones to their contents; a routine has
  the result \<open>None\<close> where the code would touch a freed object, fail an assertion or abort. Each locked section
  is one step, so \<open>crypto_buffer_new\<close> is two routines, between which other threads may run: the search for a
  buffer with the same data (\<open>crypto_buffer_lookup\<close>) and the insertion of a new one (\<open>crypto_buffer_create\<close>).
  The pointers to functions in a pool's table are functions of the memory at the time of the call.
\<close>

section \<open>Reference counts\<close>

definition CRYPTO_REFCOUNT_MAX :: u32 where "CRYPTO_REFCOUNT_MAX = 0xffffffff"

text \<open>The loops around the compare-and-exchange, which may fail if another thread changes the count, or for no
  reason: \<open>failures\<close> has the values of the count that the failed attempts find, and the last attempt succeeds.
  The result is the value that the count has afterwards.\<close>

primrec refcount_inc_loop :: "u32 list \<Rightarrow> u32 \<Rightarrow> u32" where
  "refcount_inc_loop [] expected =
     (if expected \<noteq> CRYPTO_REFCOUNT_MAX then let new_value = expected + 1 in new_value else expected)"
| "refcount_inc_loop (seen # failures) expected =
     (if expected \<noteq> CRYPTO_REFCOUNT_MAX then refcount_inc_loop failures seen else expected)"

primrec refcount_dec_loop :: "u32 list \<Rightarrow> u32 \<Rightarrow> (bool \<times> u32) option" where
  "refcount_dec_loop [] expected =
     (if expected = 0 then None
      else if expected = CRYPTO_REFCOUNT_MAX then Some (False, expected)
      else let new_value = expected - 1 in Some (new_value = 0, new_value))"
| "refcount_dec_loop (seen # failures) expected =
     (if expected = 0 then None
      else if expected = CRYPTO_REFCOUNT_MAX then Some (False, expected)
      else refcount_dec_loop failures seen)"

text \<open>The exchange is atomic, so in the steps of one thread at a time no attempt fails.\<close>

definition CRYPTO_refcount_inc :: "u32 \<Rightarrow> u32" where
  "CRYPTO_refcount_inc c = refcount_inc_loop [] c"

definition CRYPTO_refcount_dec_and_test_zero :: "u32 \<Rightarrow> (bool \<times> u32) option" where
  "CRYPTO_refcount_dec_and_test_zero c = refcount_dec_loop [] c"

section \<open>Buffers and pools\<close>

record crypto_buffer =
  pool :: "nat option"
  data :: bytes
  references :: u32
  data_is_static :: bool

record crypto_buffer_pool =
  bufs :: "nat lhash"
  hash_key :: "u64 \<times> u64"

record memory =
  buffers :: "nat \<Rightarrow> crypto_buffer option"
  pools :: "nat \<Rightarrow> crypto_buffer_pool option"

text \<open>What the allocations of a call return: the address of a new buffer or pool, whether its data can be copied, the
  address of a new item of the table, and the arrays that can be allocated.\<close>

record mallocs =
  object_at :: "nat option"
  copied :: bool
  item_at :: "nat option"
  arrays :: "nat \<Rightarrow> bool"

definition CRYPTO_BUFFER_hash :: "memory \<Rightarrow> nat \<Rightarrow> u32 option" where
  "CRYPTO_BUFFER_hash m ptr =
     Option.bind (buffers m ptr) (\<lambda>b. Option.bind (pool b) (\<lambda>q. Option.bind (pools m q) (\<lambda>P.
       Some (ucast (SIPHASH_24 (hash_key P) (data b))))))"

definition CRYPTO_BUFFER_cmp :: "memory \<Rightarrow> nat \<Rightarrow> nat \<Rightarrow> int option" where
  "CRYPTO_BUFFER_cmp m a b =
     Option.bind (buffers m a) (\<lambda>x. Option.bind (buffers m b) (\<lambda>y.
       if pool x = None \<or> pool x \<noteq> pool y then None
       else if length (data x) \<noteq> length (data y) then Some 1
       else Some (OPENSSL_memcmp (data x) (data y) (length (data x)))))"

text \<open>The functions that a table calls. They are total, as the tables of LHash want them; a search is only made in
  the model where every call that it could make is defined.\<close>

definition hash_in :: "memory \<Rightarrow> nat \<Rightarrow> u32" where
  "hash_in m ptr = (case CRYPTO_BUFFER_hash m ptr of Some h \<Rightarrow> h | None \<Rightarrow> 0)"

definition cmp_in :: "memory \<Rightarrow> nat \<Rightarrow> nat \<Rightarrow> int" where
  "cmp_in m a b = (case CRYPTO_BUFFER_cmp m a b of Some r \<Rightarrow> r | None \<Rightarrow> if a = b then 0 else 1)"

definition table_in :: "memory \<Rightarrow> crypto_buffer_pool \<Rightarrow> nat lhash" where
  "table_in m P = (bufs P)\<lparr>comp := cmp_in m, hash := hash_in m\<rparr>"

definition comparable :: "memory \<Rightarrow> nat lhash \<Rightarrow> nat \<Rightarrow> bool" where
  "comparable m lh ptr \<longleftrightarrow> CRYPTO_BUFFER_hash m ptr \<noteq> None \<and>
     list_all (\<lambda>it. CRYPTO_BUFFER_cmp m (item_data it) ptr \<noteq> None) (items lh)"

definition pool_retrieve :: "memory \<Rightarrow> nat \<Rightarrow> nat \<Rightarrow> nat option option" where
  "pool_retrieve m q ptr =
     Option.bind (pools m q) (\<lambda>P.
       if comparable m (bufs P) ptr then Some (OPENSSL_lh_retrieve (table_in m P) ptr) else None)"

definition pool_update :: "memory \<Rightarrow> nat \<Rightarrow> nat \<Rightarrow> (nat lhash \<Rightarrow> 'a \<times> nat lhash) \<Rightarrow> ('a \<times> memory) option" where
  "pool_update m q ptr f =
     Option.bind (pools m q) (\<lambda>P.
       if comparable m (bufs P) ptr
       then case f (table_in m P) of (r, lh) \<Rightarrow> Some (r, m\<lparr>pools := (pools m)(q \<mapsto> P\<lparr>bufs := lh\<rparr>)\<rparr>)
       else None)"

text \<open>\<open>sizeof(CRYPTO_BUFFER_POOL)\<close> does not matter, as the address of the pool says whether it could be allocated;
  \<open>key\<close> are the random bytes of the hash key.\<close>

definition CRYPTO_BUFFER_POOL_new :: "mallocs \<Rightarrow> u64 \<times> u64 \<Rightarrow> memory \<Rightarrow> nat option \<times> memory" where
  "CRYPTO_BUFFER_POOL_new e key m =
     (case object_at e of
        None \<Rightarrow> (None, m)
      | Some q \<Rightarrow>
          (case OPENSSL_lh_new (arrays e) (hash_in m) (cmp_in m) of
             None \<Rightarrow> (None, m)
           | Some lh \<Rightarrow> (Some q, m\<lparr>pools := (pools m)(q \<mapsto> \<lparr>bufs = lh, hash_key = key\<rparr>)\<rparr>)))"

definition CRYPTO_BUFFER_POOL_free :: "nat option \<Rightarrow> memory \<Rightarrow> memory option" where
  "CRYPTO_BUFFER_POOL_free po m =
     (case po of
        None \<Rightarrow> Some m
      | Some q \<Rightarrow> Option.bind (pools m q) (\<lambda>P.
          if OPENSSL_lh_num_items (bufs P) = 0 then Some (m\<lparr>pools := (pools m)(q := None)\<rparr>) else None))"

definition set_buffer :: "nat \<Rightarrow> crypto_buffer \<Rightarrow> memory \<Rightarrow> memory" where
  "set_buffer p b m = m\<lparr>buffers := (buffers m)(p \<mapsto> b)\<rparr>"

definition crypto_buffer_free_object :: "nat \<Rightarrow> memory \<Rightarrow> memory" where
  "crypto_buffer_free_object p m = m\<lparr>buffers := (buffers m)(p := None)\<rparr>"

text \<open>What both locked sections of \<open>crypto_buffer_new\<close> begin with: a buffer of the pool that has the data of
  \<open>ptr\<close> gets a reference, unless it is to be replaced by one with static data.\<close>

definition find_duplicate :: "nat \<Rightarrow> bool \<Rightarrow> nat \<Rightarrow> memory \<Rightarrow> (nat option \<times> memory) option" where
  "find_duplicate ptr data_static q m =
     Option.bind (pool_retrieve m q ptr) (\<lambda>duplicate.
       case duplicate of
         None \<Rightarrow> Some (None, m)
       | Some d \<Rightarrow> Option.bind (buffers m d) (\<lambda>b.
           if data_static \<and> \<not> data_is_static b then Some (None, m)
           else Some (Some d, set_buffer d (b\<lparr>references := CRYPTO_refcount_inc (references b)\<rparr>) m)))"

text \<open>The local variable \<open>tmp\<close> is a buffer at an address \<open>tmp\<close> that exists during the search only.\<close>

definition crypto_buffer_lookup :: "nat \<Rightarrow> bytes \<Rightarrow> bool \<Rightarrow> nat \<Rightarrow> memory \<Rightarrow> (nat option \<times> memory) option" where
  "crypto_buffer_lookup tmp dat data_static q m =
     Option.bind (find_duplicate tmp data_static q
         (set_buffer tmp \<lparr>pool = Some q, data = dat, references = 0, data_is_static = False\<rparr> m)) (\<lambda>(duplicate, m).
       Some (duplicate, crypto_buffer_free_object tmp m))"

definition crypto_buffer_create :: "mallocs \<Rightarrow> bytes \<Rightarrow> bool \<Rightarrow> nat option \<Rightarrow> memory \<Rightarrow> (nat option \<times> memory) option" where
  "crypto_buffer_create e dat data_static po m =
     (case object_at e of
        None \<Rightarrow> Some (None, m)
      | Some ptr \<Rightarrow>
          if \<not> data_static \<and> length dat \<noteq> 0 \<and> OPENSSL_memdup (\<lambda>_. copied e) dat = None then Some (None, m)
          else
            let m = set_buffer ptr \<lparr>pool = po, data = dat, references = 1, data_is_static = data_static\<rparr> m
            in case po of
                 None \<Rightarrow> Some (Some ptr, m)
               | Some q \<Rightarrow>
                   Option.bind (find_duplicate ptr data_static q m) (\<lambda>(duplicate, m).
                     case duplicate of
                       Some d \<Rightarrow> Some (Some d, crypto_buffer_free_object ptr m)
                     | None \<Rightarrow>
                         Option.bind (pool_update m q ptr (OPENSSL_lh_insert (arrays e) (item_at e) ptr)) (\<lambda>((inserted, old), m).
                           if \<not> inserted then Some (None, crypto_buffer_free_object ptr m) else Some (Some ptr, m))))"

definition crypto_buffer_new :: "mallocs \<Rightarrow> nat \<Rightarrow> bytes \<Rightarrow> bool \<Rightarrow> nat option \<Rightarrow> memory \<Rightarrow> (nat option \<times> memory) option" where
  "crypto_buffer_new e tmp dat data_static po m =
     (case po of
        None \<Rightarrow> crypto_buffer_create e dat data_static po m
      | Some q \<Rightarrow>
          Option.bind (crypto_buffer_lookup tmp dat data_static q m) (\<lambda>(duplicate, m).
            case duplicate of
              Some d \<Rightarrow> Some (Some d, m)
            | None \<Rightarrow> crypto_buffer_create e dat data_static po m))"

definition CRYPTO_BUFFER_new :: "mallocs \<Rightarrow> nat \<Rightarrow> bytes \<Rightarrow> nat option \<Rightarrow> memory \<Rightarrow> (nat option \<times> memory) option" where
  "CRYPTO_BUFFER_new e tmp dat po m = crypto_buffer_new e tmp dat False po m"

text \<open>\<open>dat\<close> are the bytes that the caller writes into the new buffer.\<close>

definition CRYPTO_BUFFER_alloc :: "mallocs \<Rightarrow> bytes \<Rightarrow> memory \<Rightarrow> nat option \<times> memory" where
  "CRYPTO_BUFFER_alloc e dat m =
     (case object_at e of
        None \<Rightarrow> (None, m)
      | Some ptr \<Rightarrow>
          if length dat \<noteq> 0 \<and> \<not> copied e then (None, m)
          else (Some ptr, set_buffer ptr \<lparr>pool = None, data = dat, references = 1, data_is_static = False\<rparr> m))"

definition CRYPTO_BUFFER_new_from_CBS :: "mallocs \<Rightarrow> nat \<Rightarrow> cbs \<Rightarrow> nat option \<Rightarrow> memory \<Rightarrow> (nat option \<times> memory) option" where
  "CRYPTO_BUFFER_new_from_CBS e tmp cbs po m = CRYPTO_BUFFER_new e tmp (take (CBS_len cbs) (CBS_data cbs)) po m"

definition CRYPTO_BUFFER_new_from_static_data_unsafe ::
  "mallocs \<Rightarrow> nat \<Rightarrow> bytes \<Rightarrow> nat option \<Rightarrow> memory \<Rightarrow> (nat option \<times> memory) option" where
  "CRYPTO_BUFFER_new_from_static_data_unsafe e tmp dat po m = crypto_buffer_new e tmp dat True po m"

definition CRYPTO_BUFFER_free :: "(nat \<Rightarrow> bool) \<Rightarrow> nat option \<Rightarrow> memory \<Rightarrow> memory option" where
  "CRYPTO_BUFFER_free al bufo m =
     (case bufo of
        None \<Rightarrow> Some m
      | Some ptr \<Rightarrow> Option.bind (buffers m ptr) (\<lambda>b.
          case pool b of
            None \<Rightarrow>
              Option.bind (CRYPTO_refcount_dec_and_test_zero (references b)) (\<lambda>(zero, refs).
                let m = set_buffer ptr (b\<lparr>references := refs\<rparr>) m
                in Some (if zero then crypto_buffer_free_object ptr m else m))
          | Some q \<Rightarrow>
              if pools m q = None then None
              else
                Option.bind (CRYPTO_refcount_dec_and_test_zero (references b)) (\<lambda>(zero, refs).
                  let m = set_buffer ptr (b\<lparr>references := refs\<rparr>) m
                  in if \<not> zero then Some m
                     else
                       Option.bind (pool_retrieve m q ptr) (\<lambda>found.
                         if found = Some ptr
                         then Option.bind (pool_update m q ptr (OPENSSL_lh_delete al ptr)) (\<lambda>(found, m).
                           if found = Some ptr then Some (crypto_buffer_free_object ptr m) else None)
                         else Some (crypto_buffer_free_object ptr m)))))"

definition CRYPTO_BUFFER_up_ref :: "nat \<Rightarrow> memory \<Rightarrow> memory option" where
  "CRYPTO_BUFFER_up_ref ptr m =
     Option.bind (buffers m ptr) (\<lambda>b. Some (set_buffer ptr (b\<lparr>references := CRYPTO_refcount_inc (references b)\<rparr>) m))"

definition CRYPTO_BUFFER_data :: "memory \<Rightarrow> nat \<Rightarrow> bytes option" where
  "CRYPTO_BUFFER_data m ptr = Option.bind (buffers m ptr) (\<lambda>b. Some (data b))"

definition CRYPTO_BUFFER_len :: "memory \<Rightarrow> nat \<Rightarrow> nat option" where
  "CRYPTO_BUFFER_len m ptr = Option.bind (buffers m ptr) (\<lambda>b. Some (length (data b)))"

definition CRYPTO_BUFFER_init_CBS :: "memory \<Rightarrow> nat \<Rightarrow> cbs option" where
  "CRYPTO_BUFFER_init_CBS m ptr = Option.bind (buffers m ptr) (\<lambda>b. Some (CBS_init (data b) (length (data b))))"

section \<open>Properties of the counts\<close>

text \<open>Whatever other threads do meanwhile, a call changes the value that its last attempt finds.\<close>

lemma refcount_inc_loop:
  "refcount_inc_loop failures c =
     (if CRYPTO_REFCOUNT_MAX \<in> set (c # failures) then CRYPTO_REFCOUNT_MAX else last (c # failures) + 1)"
  by (induction failures arbitrary: c) (auto simp: Let_def)

lemma refcount_dec_loop:
  "0 \<notin> set (c # failures) \<Longrightarrow> refcount_dec_loop failures c =
     Some (if CRYPTO_REFCOUNT_MAX \<in> set (c # failures) then (False, CRYPTO_REFCOUNT_MAX)
           else (last (c # failures) = 1, last (c # failures) - 1))"
  by (induction failures arbitrary: c) (auto simp: Let_def)

lemma CRYPTO_refcount_inc: "CRYPTO_refcount_inc c = (if c = CRYPTO_REFCOUNT_MAX then c else c + 1)"
  by (simp add: CRYPTO_refcount_inc_def)

lemma CRYPTO_refcount_dec:
  "c \<noteq> 0 \<Longrightarrow> CRYPTO_refcount_dec_and_test_zero c = Some (if c = CRYPTO_REFCOUNT_MAX then (False, c) else (c = 1, c - 1))"
  by (simp add: CRYPTO_refcount_dec_and_test_zero_def Let_def)

section \<open>The tables\<close>

lemma OPENSSL_memcmp_eq_0: "length a = length b \<Longrightarrow> OPENSSL_memcmp a b (length a) = 0 \<longleftrightarrow> a = b"
  by (induction a b rule: list_induct2) (auto simp: word_uint_eq_iff [symmetric])

lemma cmp_in_eq_0:
  "cmp_in m a b = 0 \<longleftrightarrow> a = b \<or>
     (\<exists>x y. buffers m a = Some x \<and> buffers m b = Some y \<and> pool x \<noteq> None \<and> pool x = pool y \<and> data x = data y)"
proof (cases "\<exists>x y. buffers m a = Some x \<and> buffers m b = Some y \<and> pool x \<noteq> None \<and> pool x = pool y")
  case True
  then obtain x y q where b: "buffers m a = Some x" "buffers m b = Some y" "pool x = Some q" "pool y = Some q" by (metis not_Some_eq)
  have "cmp_in m a b = (if length (data x) \<noteq> length (data y) then 1 else OPENSSL_memcmp (data x) (data y) (length (data x)))"
    using b by (simp add: cmp_in_def CRYPTO_BUFFER_cmp_def)
  moreover have "\<dots> = 0 \<longleftrightarrow> data x = data y"
    using OPENSSL_memcmp_eq_0 [of "data x" "data y"] by (cases "length (data x) = length (data y)") auto
  ultimately show ?thesis using b by auto
next
  case False
  then have "CRYPTO_BUFFER_cmp m a b = None"
    by (cases "buffers m a"; cases "buffers m b") (auto simp: CRYPTO_BUFFER_cmp_def)
  then show ?thesis using False by (auto simp: cmp_in_def)
qed

interpretation shared: hash_compare "cmp_in m" "hash_in m" for m
  by unfold_locales (auto simp: cmp_in_eq_0 hash_in_def CRYPTO_BUFFER_hash_def)

definition shared_in :: "memory \<Rightarrow> nat \<Rightarrow> nat set" where
  "shared_in m q = (case pools m q of None \<Rightarrow> {} | Some P \<Rightarrow> elements (bufs P))"

text \<open>Every buffer in the table of a pool is live and of this pool, and the pool of every live buffer is live.\<close>

definition pool_ok :: "memory \<Rightarrow> nat \<Rightarrow> crypto_buffer_pool \<Rightarrow> bool" where
  "pool_ok m q P \<longleftrightarrow> shared.table m (table_in m P) \<and>
     (\<forall>x\<in>elements (bufs P). \<exists>b. buffers m x = Some b \<and> pool b = Some q)"

definition memory_ok :: "memory \<Rightarrow> bool" where
  "memory_ok m \<longleftrightarrow> (\<forall>q P. pools m q = Some P \<longrightarrow> pool_ok m q P) \<and>
     (\<forall>p b q. buffers m p = Some b \<longrightarrow> pool b = Some q \<longrightarrow> pools m q \<noteq> None)"

lemma elements_table_in [simp]: "elements (table_in m P) = elements (bufs P)" "items (table_in m P) = items (bufs P)"
  by (simp_all add: table_in_def elements_def items_def)

lemma table_in_simps [simp]: "comp (table_in m P) = cmp_in m" "hash (table_in m P) = hash_in m"
  by (simp_all add: table_in_def)

lemma pool_ok_cong:
  assumes "pool_ok m q P" "pools m q = Some P1" "pools m' q = Some P2" "hash_key P2 = hash_key P1"
    and "\<And>x b. x \<in> elements (bufs P) \<Longrightarrow> buffers m x = Some b \<Longrightarrow> \<exists>b'. buffers m' x = Some b' \<and> pool b' = pool b \<and> data b' = data b"
  shows "pool_ok m' q P"
proof -
  have live: "\<exists>b b'. buffers m x = Some b \<and> pool b = Some q \<and> buffers m' x = Some b' \<and> pool b' = Some q \<and> data b' = data b"
    if "x \<in> elements (bufs P)" for x
    using assms(1,5) that unfolding pool_ok_def by fastforce
  have h: "hash_in m' x = hash_in m x" if "x \<in> elements (bufs P)" for x
    using live [OF that] assms(2-4) by (auto simp: hash_in_def CRYPTO_BUFFER_hash_def)
  have c: "cmp_in m x y = 0" if xy: "x \<in> elements (bufs P)" "y \<in> elements (bufs P)" "cmp_in m' x y = 0" for x y
    using live [OF xy(1)] live [OF xy(2)] xy(3) unfolding cmp_in_eq_0 by auto
  have "table_in m' P = (table_in m P)\<lparr>comp := cmp_in m', hash := hash_in m'\<rparr>" by (simp add: table_in_def)
  then have "lh_ok (table_in m' P)"
    using assms(1) h c lh_ok_functions [of "table_in m P" "hash_in m'" "cmp_in m'"]
    by (auto simp: pool_ok_def shared.table_def)
  then show ?thesis using live by (auto simp: pool_ok_def shared.table_def)
qed

text \<open>What the searches in a pool find.\<close>

lemma pool_retrieve:
  assumes "memory_ok m" "buffers m ptr = Some b" "pool b = Some q"
  obtains r where "pool_retrieve m q ptr = Some r"
    "\<And>d. r = Some d \<longleftrightarrow> d \<in> shared_in m q \<and> (\<exists>c. buffers m d = Some c \<and> data c = data b)"
proof -
  obtain P where P: "pools m q = Some P" "pool_ok m q P" using assms by (fastforce simp: memory_ok_def)
  then have t: "shared.table m (table_in m P)" and live: "\<And>x. x \<in> elements (bufs P) \<Longrightarrow> \<exists>c. buffers m x = Some c \<and> pool c = Some q"
    by (auto simp: pool_ok_def)
  have "comparable m (bufs P) ptr"
    using live assms(2,3) P(1)
    by (fastforce simp: comparable_def CRYPTO_BUFFER_cmp_def CRYPTO_BUFFER_hash_def list_all_iff elements_def)
  then have r: "pool_retrieve m q ptr = Some (OPENSSL_lh_retrieve (table_in m P) ptr)" by (simp add: pool_retrieve_def P)
  show thesis
  proof (rule that [OF r])
    show "OPENSSL_lh_retrieve (table_in m P) ptr = Some d \<longleftrightarrow> d \<in> shared_in m q \<and> (\<exists>c. buffers m d = Some c \<and> data c = data b)" for d
      using shared.retrieve_iff [OF t, of ptr d] live [of d] assms(2,3) P(1) by (auto simp: cmp_in_eq_0 shared_in_def)
  qed
qed

lemma find_duplicate:
  assumes "memory_ok m" "buffers m ptr = Some b" "pool b = Some q"
  obtains (none) "find_duplicate ptr static q m = Some (None, m)"
      "\<And>d c. d \<in> shared_in m q \<Longrightarrow> buffers m d = Some c \<Longrightarrow> data c = data b \<Longrightarrow> static \<and> \<not> data_is_static c"
  | (found) d c where "d \<in> shared_in m q" "buffers m d = Some c" "data c = data b" "pool c = Some q" "static \<longrightarrow> data_is_static c"
      "find_duplicate ptr static q m = Some (Some d, set_buffer d (c\<lparr>references := CRYPTO_refcount_inc (references c)\<rparr>) m)"
proof -
  obtain r where r: "pool_retrieve m q ptr = Some r"
    "\<And>d. r = Some d \<longleftrightarrow> d \<in> shared_in m q \<and> (\<exists>c. buffers m d = Some c \<and> data c = data b)"
    using pool_retrieve [OF assms] by blast
  show thesis
  proof (cases r)
    case None
    then show thesis using r none by (auto simp: find_duplicate_def)
  next
    case (Some d)
    then obtain c where c: "d \<in> shared_in m q" "buffers m d = Some c" "data c = data b" using r(2) by blast
    have "pool c = Some q" using c assms(1) by (fastforce simp: shared_in_def memory_ok_def pool_ok_def split: option.splits)
    show thesis
    proof (cases "static \<and> \<not> data_is_static c")
      case True
      have "find_duplicate ptr static q m = Some (None, m)" using True r(1) c(2) Some by (simp add: find_duplicate_def)
      then show thesis
      proof (rule none)
        fix e c'
        assume e: "e \<in> shared_in m q" "buffers m e = Some c'" "data c' = data b"
        then have "r = Some e" using r(2) by blast
        then have "e = d" using Some by simp
        then show "static \<and> \<not> data_is_static c'" using True e(2) c(2) by simp
      qed
    next
      case False
      then have "find_duplicate ptr static q m =
          Some (Some d, set_buffer d (c\<lparr>references := CRYPTO_refcount_inc (references c)\<rparr>) m)"
        using r(1) c(2) Some by (auto simp: find_duplicate_def)
      then show thesis using False by (intro found [OF c \<open>pool c = Some q\<close>]) simp
    qed
  qed
qed

section \<open>What the operations do to the memory\<close>

lemma shared_in_live: "memory_ok m \<Longrightarrow> p \<in> shared_in m q \<Longrightarrow> \<exists>b. buffers m p = Some b \<and> pool b = Some q"
  by (fastforce simp: memory_ok_def pool_ok_def shared_in_def split: option.splits)

lemma memory_simps [simp]:
  "buffers (set_buffer p b m) = (buffers m)(p \<mapsto> b)" "pools (set_buffer p b m) = pools m"
  "buffers (crypto_buffer_free_object p m) = (buffers m)(p := None)" "pools (crypto_buffer_free_object p m) = pools m"
  "shared_in (set_buffer p b m) = shared_in m" "shared_in (crypto_buffer_free_object p m) = shared_in m"
  by (simp_all add: set_buffer_def crypto_buffer_free_object_def shared_in_def fun_eq_iff)

lemma memory_okI:
  assumes "memory_ok m" "pools m' = pools m"
    and "\<And>p b q. buffers m' p = Some b \<Longrightarrow> pool b = Some q \<Longrightarrow> pools m q \<noteq> None"
    and "\<And>p b q. p \<in> shared_in m q \<Longrightarrow> buffers m p = Some b \<Longrightarrow> \<exists>b'. buffers m' p = Some b' \<and> pool b' = pool b \<and> data b' = data b"
  shows "memory_ok m'"
  unfolding memory_ok_def
proof (intro conjI allI impI)
  fix q P
  assume P: "pools m' q = Some P"
  then have "pool_ok m q P" using assms(1,2) by (simp add: memory_ok_def)
  then show "pool_ok m' q P"
  proof (rule pool_ok_cong)
    show "pools m q = Some P" "pools m' q = Some P" "hash_key P = hash_key P" using P assms(2) by simp_all
    show "\<exists>b'. buffers m' x = Some b' \<and> pool b' = pool b \<and> data b' = data b"
      if "x \<in> elements (bufs P)" "buffers m x = Some b" for x b
      using that P assms(2) by (intro assms(4) [of x q]) (simp_all add: shared_in_def)
  qed
qed (use assms(2,3) in auto)

lemma memory_ok_set:
  assumes "memory_ok m" "\<And>b0. buffers m p = Some b0 \<Longrightarrow> pool b = pool b0 \<and> data b = data b0"
    and "buffers m p = None \<Longrightarrow> \<forall>q. pool b = Some q \<longrightarrow> pools m q \<noteq> None"
  shows "memory_ok (set_buffer p b m)"
proof (rule memory_okI [OF assms(1)])
  show "pools m q \<noteq> None" if "buffers (set_buffer p b m) p' = Some c" "pool c = Some q" for p' c q
    using that assms by (cases "buffers m p") (auto simp: memory_ok_def split: if_splits)
qed (use assms(2) shared_in_live [OF assms(1)] in auto)

lemma memory_ok_free: "memory_ok m \<Longrightarrow> (\<And>q. p \<notin> shared_in m q) \<Longrightarrow> memory_ok (crypto_buffer_free_object p m)"
  by (rule memory_okI) (auto simp: memory_ok_def split: if_splits)

text \<open>Changing the table of a pool.\<close>

lemma pool_update:
  assumes "memory_ok m" "buffers m ptr = Some b" "pool b = Some q"
    and f: "\<And>P. pools m q = Some P \<Longrightarrow> shared.table m (table_in m P) \<Longrightarrow> shared.table m (snd (f (table_in m P))) \<and>
      elements (snd (f (table_in m P))) \<subseteq> insert ptr (elements (bufs P))"
  obtains P where "pools m q = Some P" "shared.table m (table_in m P)"
    "pool_update m q ptr f = Some (fst (f (table_in m P)), m\<lparr>pools := (pools m)(q \<mapsto> P\<lparr>bufs := snd (f (table_in m P))\<rparr>)\<rparr>)"
    "memory_ok (m\<lparr>pools := (pools m)(q \<mapsto> P\<lparr>bufs := snd (f (table_in m P))\<rparr>)\<rparr>)"
proof -
  obtain P where P: "pools m q = Some P" "pool_ok m q P" using assms(1-3) by (fastforce simp: memory_ok_def)
  let ?lh = "snd (f (table_in m P))"
  let ?P = "P\<lparr>bufs := ?lh\<rparr>"
  let ?m = "m\<lparr>pools := (pools m)(q \<mapsto> ?P)\<rparr>"
  have t: "shared.table m (table_in m P)" and live: "\<And>x. x \<in> elements (bufs P) \<Longrightarrow> \<exists>c. buffers m x = Some c \<and> pool c = Some q"
    using P(2) by (auto simp: pool_ok_def)
  have "comparable m (bufs P) ptr"
    using live assms(2,3) P(1)
    by (fastforce simp: comparable_def CRYPTO_BUFFER_cmp_def CRYPTO_BUFFER_hash_def list_all_iff elements_def)
  then have u: "pool_update m q ptr f = Some (fst (f (table_in m P)), ?m)"
    by (simp add: pool_update_def P split: prod.splits)
  have lh: "shared.table m ?lh" "elements ?lh \<subseteq> insert ptr (elements (bufs P))" using f [OF P(1) t] by auto
  have "table_in m ?P = ?lh" using lh(1) by (cases ?lh) (auto simp: table_in_def shared.table_def)
  then have "pool_ok m q ?P" using lh live assms(2,3) by (auto simp: pool_ok_def)
  moreover have "pool_ok ?m q' P'" if ok: "pool_ok m q' P'" and some: "pools m q' \<noteq> None" for q' P'
  proof -
    obtain P1 where P1: "pools m q' = Some P1" using some by blast
    show ?thesis
    proof (rule pool_ok_cong [OF ok P1])
      show "pools ?m q' = Some (if q' = q then ?P else P1)" using P1 by simp
    qed (use P1 P(1) in auto)
  qed
  ultimately have "memory_ok ?m" using assms(1) P(1) by (auto simp: memory_ok_def)
  then show thesis by (rule that [OF P(1) t u])
qed

definition data_of :: "memory \<Rightarrow> nat \<Rightarrow> bytes option" where
  "data_of m p = map_option data (buffers m p)"

lemma different_data:
  assumes "memory_ok m" "buffers m ptr = Some b" "pool b = Some q" "pools m q = Some P"
  shows "{x \<in> elements (bufs P). cmp_in m x ptr \<noteq> 0} = {x \<in> shared_in m q. data_of m x \<noteq> Some (data b)}"
  using shared_in_live [OF assms(1), of _ q] assms(2-4) by (fastforce simp: cmp_in_eq_0 shared_in_def data_of_def)

lemma pool_insert:
  assumes "memory_ok m" "buffers m ptr = Some b" "pool b = Some q"
    and "\<And>P a. pools m q = Some P \<Longrightarrow> item_at e = Some a \<Longrightarrow> a \<notin> item_addr ` set (items (bufs P))"
  obtains inserted old m' where "pool_update m q ptr (OPENSSL_lh_insert (arrays e) (item_at e) ptr) = Some ((inserted, old), m')"
    "memory_ok m'" "buffers m' = buffers m" "dom (pools m') = dom (pools m)" "item_at e \<noteq> None \<Longrightarrow> inserted"
    "shared_in m' = (if inserted then (shared_in m)(q := insert ptr {x \<in> shared_in m q. data_of m x \<noteq> Some (data b)}) else shared_in m)"
proof -
  let ?f = "OPENSSL_lh_insert (arrays e) (item_at e) ptr"
  have spec: "shared.table m (snd (?f (table_in m P))) \<and>
      elements (snd (?f (table_in m P))) = (if fst (fst (?f (table_in m P))) then insert ptr {x \<in> shared_in m q. data_of m x \<noteq> Some (data b)} else elements (bufs P)) \<and>
      (item_at e \<noteq> None \<longrightarrow> fst (fst (?f (table_in m P))))"
    if "pools m q = Some P" "shared.table m (table_in m P)" for P
    using shared.insert_elements [OF that(2), of "item_at e" "arrays e" ptr] assms(4) [OF that(1)] different_data [OF assms(1-3) that(1)]
    by (cases "?f (table_in m P)") (fastforce split: if_splits)
  have sub: "shared.table m (snd (?f (table_in m P))) \<and> elements (snd (?f (table_in m P))) \<subseteq> insert ptr (elements (bufs P))"
    if "pools m q = Some P" "shared.table m (table_in m P)" for P
    using spec [OF that] that(1) by (auto simp: shared_in_def split: if_splits)
  obtain P where P: "pools m q = Some P" "shared.table m (table_in m P)"
    "pool_update m q ptr ?f = Some (fst (?f (table_in m P)), m\<lparr>pools := (pools m)(q \<mapsto> P\<lparr>bufs := snd (?f (table_in m P))\<rparr>)\<rparr>)"
    "memory_ok (m\<lparr>pools := (pools m)(q \<mapsto> P\<lparr>bufs := snd (?f (table_in m P))\<rparr>)\<rparr>)"
    using pool_update [OF assms(1-3) sub] by blast
  show thesis
  proof (rule that)
    show "pool_update m q ptr ?f = Some ((fst (fst (?f (table_in m P))), snd (fst (?f (table_in m P)))),
        m\<lparr>pools := (pools m)(q \<mapsto> P\<lparr>bufs := snd (?f (table_in m P))\<rparr>)\<rparr>)" using P(3) by simp
  qed (use P(1,4) spec [OF P(1,2)] in \<open>auto simp: shared_in_def fun_eq_iff\<close>)
qed

lemma pool_delete:
  assumes "memory_ok m" "buffers m ptr = Some b" "pool b = Some q" "ptr \<in> shared_in m q"
  obtains m' where "pool_update m q ptr (OPENSSL_lh_delete al ptr) = Some (Some ptr, m')"
    "memory_ok m'" "buffers m' = buffers m" "dom (pools m') = dom (pools m)" "shared_in m' = (shared_in m)(q := shared_in m q - {ptr})"
proof -
  let ?f = "OPENSSL_lh_delete al ptr"
  have spec: "fst (?f (table_in m P)) = Some ptr \<and> shared.table m (snd (?f (table_in m P))) \<and>
      elements (snd (?f (table_in m P))) = shared_in m q - {ptr}"
    if "pools m q = Some P" "shared.table m (table_in m P)" for P
  proof -
    have d: "shared.table m (snd (?f (table_in m P)))" "fst (?f (table_in m P)) = OPENSSL_lh_retrieve (table_in m P) ptr"
      "elements (snd (?f (table_in m P))) = {x \<in> elements (bufs P). cmp_in m x ptr \<noteq> 0}"
      using shared.delete_elements [OF that(2), of al ptr "fst (?f (table_in m P))" "snd (?f (table_in m P))"] by auto
    have e: "ptr \<in> elements (bufs P)" using assms(4) that(1) by (simp add: shared_in_def)
    moreover have "x = ptr" if "x \<in> elements (bufs P)" "cmp_in m x ptr = 0" for x
    proof -
      have "OPENSSL_lh_retrieve (table_in m P) ptr = Some x" "OPENSSL_lh_retrieve (table_in m P) ptr = Some ptr"
        using that e shared.retrieve_iff [OF \<open>shared.table m (table_in m P)\<close>, of ptr] by (simp_all add: shared.cmp_refl)
      then show ?thesis by simp
    qed
    ultimately show ?thesis using d shared.retrieve_iff [OF that(2), of ptr ptr] that(1) by (auto simp: shared_in_def shared.cmp_refl)
  qed
  have sub: "shared.table m (snd (?f (table_in m P))) \<and> elements (snd (?f (table_in m P))) \<subseteq> insert ptr (elements (bufs P))"
    if "pools m q = Some P" "shared.table m (table_in m P)" for P
    using spec [OF that] that(1) by (auto simp: shared_in_def)
  obtain P where P: "pools m q = Some P" "shared.table m (table_in m P)"
    "pool_update m q ptr ?f = Some (fst (?f (table_in m P)), m\<lparr>pools := (pools m)(q \<mapsto> P\<lparr>bufs := snd (?f (table_in m P))\<rparr>)\<rparr>)"
    "memory_ok (m\<lparr>pools := (pools m)(q \<mapsto> P\<lparr>bufs := snd (?f (table_in m P))\<rparr>)\<rparr>)"
    using pool_update [OF assms(1-3) sub] by blast
  show thesis
  proof (rule that)
    show "pool_update m q ptr ?f = Some (Some ptr, m\<lparr>pools := (pools m)(q \<mapsto> P\<lparr>bufs := snd (?f (table_in m P))\<rparr>)\<rparr>)"
      using P(3) spec [OF P(1,2)] by simp
  qed (use P(1,4) spec [OF P(1,2)] in \<open>auto simp: shared_in_def fun_eq_iff\<close>)
qed

lemma shared_unique:
  assumes "memory_ok m" "p \<in> shared_in m q" "d \<in> shared_in m q" "data_of m p = data_of m d"
  shows "p = d"
proof -
  obtain b where b: "buffers m p = Some b" "pool b = Some q" using shared_in_live [OF assms(1,2)] by blast
  obtain r where "\<And>d. r = Some d \<longleftrightarrow> d \<in> shared_in m q \<and> (\<exists>c. buffers m d = Some c \<and> data c = data b)"
    using pool_retrieve [OF assms(1) b] by blast
  moreover obtain c where "buffers m d = Some c" "data c = data b" using assms(4) b by (cases "buffers m d") (auto simp: data_of_def)
  ultimately have "r = Some p" "r = Some d" using assms(2,3) b by blast+
  then show ?thesis by simp
qed

text \<open>A call that returns a buffer gives its caller one reference more, and one that returns a null pointer none.\<close>

definition gains :: "memory \<Rightarrow> nat option \<Rightarrow> memory \<Rightarrow> bool" where
  "gains m r m' \<longleftrightarrow> memory_ok m' \<and> dom (pools m') = dom (pools m) \<and>
     (case r of
        None \<Rightarrow> buffers m' = buffers m
      | Some d \<Rightarrow>
          (\<exists>c. buffers m d = Some c \<and> buffers m' = (buffers m)(d \<mapsto> c\<lparr>references := CRYPTO_refcount_inc (references c)\<rparr>)) \<or>
          (\<exists>c. buffers m d = None \<and> references c = 1 \<and> buffers m' = (buffers m)(d \<mapsto> c)))"

lemma gains_reference:
  assumes "memory_ok m" "buffers m d = Some c"
  shows "gains m (Some d) (set_buffer d (c\<lparr>references := CRYPTO_refcount_inc (references c)\<rparr>) m)"
  using assms by (auto simp: gains_def intro!: memory_ok_set)

definition fresh :: "mallocs \<Rightarrow> memory \<Rightarrow> bool" where
  "fresh e m \<longleftrightarrow> (\<forall>p. object_at e = Some p \<longrightarrow> buffers m p = None \<and> pools m p = None) \<and>
     (\<forall>a q P. item_at e = Some a \<longrightarrow> pools m q = Some P \<longrightarrow> a \<notin> item_addr ` set (items (bufs P)))"

lemma crypto_buffer_lookup:
  assumes "memory_ok m" "pools m q \<noteq> None" "buffers m tmp = None"
  obtains (none) "crypto_buffer_lookup tmp dat static q m = Some (None, m)"
      "\<And>d c. d \<in> shared_in m q \<Longrightarrow> buffers m d = Some c \<Longrightarrow> data c = dat \<Longrightarrow> static \<and> \<not> data_is_static c"
  | (found) d c where "d \<in> shared_in m q" "buffers m d = Some c" "data c = dat" "static \<longrightarrow> data_is_static c"
      "crypto_buffer_lookup tmp dat static q m =
        Some (Some d, set_buffer d (c\<lparr>references := CRYPTO_refcount_inc (references c)\<rparr>) m)"
proof -
  let ?t = "\<lparr>pool = Some q, data = dat, references = 0, data_is_static = False\<rparr>"
  let ?m = "set_buffer tmp ?t m"
  have ok: "memory_ok ?m" using assms by (intro memory_ok_set) auto
  have other: "d \<noteq> tmp" if "d \<in> shared_in m q" for d using shared_in_live [OF assms(1) that] assms(3) by auto
  have restore: "crypto_buffer_free_object tmp (set_buffer tmp ?t m) = m"
    using assms(3) by (cases m) (simp add: crypto_buffer_free_object_def set_buffer_def fun_upd_idem)
  have b: "buffers ?m tmp = Some ?t" "pool ?t = Some q" by simp_all
  show thesis
  proof (cases rule: find_duplicate [OF ok b, of static])
    case 1
    have "crypto_buffer_lookup tmp dat static q m = Some (None, m)" using 1(1) restore by (simp add: crypto_buffer_lookup_def)
    then show thesis
    proof (rule none)
      show "static \<and> \<not> data_is_static c" if "d \<in> shared_in m q" "buffers m d = Some c" "data c = dat" for d c
        using 1(2) [of d c] that other by simp
    qed
  next
    case (2 d c)
    then have d: "d \<in> shared_in m q" "d \<noteq> tmp" using other by auto
    then have "buffers m d = Some c" using 2(2) by simp
    moreover have "crypto_buffer_free_object tmp (set_buffer d c' ?m) = set_buffer d c' m" for c'
      using assms(3) d(2) by (cases m) (auto simp: crypto_buffer_free_object_def set_buffer_def fun_eq_iff)
    ultimately show thesis using 2 d by (intro found [of d c]) (simp_all add: crypto_buffer_lookup_def)
  qed
qed

lemma memory_ok_unshare:
  assumes "memory_ok m" "buffers m0 p = None" "memory_ok m0" "shared_in m = shared_in m0"
  shows "memory_ok (crypto_buffer_free_object p m)"
proof (rule memory_ok_free [OF assms(1)])
  show "p \<notin> shared_in m q" for q using shared_in_live [OF assms(3), of p q] assms(2,4) by auto
qed

lemma crypto_buffer_create:
  assumes "memory_ok m" "\<And>q. po = Some q \<Longrightarrow> pools m q \<noteq> None" "fresh e m"
  obtains r m' where "crypto_buffer_create e dat static po m = Some (r, m')" "gains m r m'"
    "\<And>p. r = Some p \<Longrightarrow> data_of m' p = Some dat"
    "\<And>p q. r = Some p \<Longrightarrow> po = Some q \<Longrightarrow> p \<in> shared_in m' q"
    "r = None \<Longrightarrow> object_at e = None \<or> \<not> copied e \<or> item_at e = None"
    "\<And>p. r = Some p \<Longrightarrow> buffers m p = None \<Longrightarrow> object_at e = Some p"
proof (cases "\<exists>p. object_at e = Some p \<and> \<not> (\<not> static \<and> length dat \<noteq> 0 \<and> OPENSSL_memdup (\<lambda>_. copied e) dat = None)")
  case False
  then have "crypto_buffer_create e dat static po m = Some (None, m)"
    by (cases "object_at e") (auto simp: crypto_buffer_create_def)
  moreover have "object_at e = None \<or> \<not> copied e" using False by (auto simp: OPENSSL_memdup_def)
  ultimately show thesis using assms(1) by (intro that [of None m]) (auto simp: gains_def)
next
  case True
  then obtain p where p: "object_at e = Some p" and can: "\<not> (\<not> static \<and> length dat \<noteq> 0 \<and> OPENSSL_memdup (\<lambda>_. copied e) dat = None)" by blast
  let ?b = "\<lparr>pool = po, data = dat, references = 1, data_is_static = static\<rparr>"
  let ?m = "set_buffer p ?b m"
  have new: "buffers m p = None" using assms(3) p by (simp add: fresh_def)
  have ok: "memory_ok ?m" using assms(1,2) new by (intro memory_ok_set) auto
  have gains_new: "gains m (Some p) m'" if "memory_ok m'" "dom (pools m') = dom (pools m)" "buffers m' = buffers ?m" for m'
    using that new by (auto simp: gains_def intro!: exI [of _ ?b])
  have restore: "(buffers m)(p := None) = buffers m" using new by (simp add: fun_upd_idem)
  show thesis
  proof (cases po)
    case None
    then have "crypto_buffer_create e dat static po m = Some (Some p, ?m)"
      using p can by (simp only: crypto_buffer_create_def option.case if_False Let_def)
    then show thesis using None p by (intro that [OF _ gains_new [OF ok]]) (auto simp: data_of_def)
  next
    case (Some q)
    have b: "buffers ?m p = Some ?b" "pool ?b = Some q" using Some by simp_all
    have run: "crypto_buffer_create e dat static po m =
        Option.bind (find_duplicate p static q ?m) (\<lambda>(duplicate, m).
          case duplicate of
            Some d \<Rightarrow> Some (Some d, crypto_buffer_free_object p m)
          | None \<Rightarrow>
              Option.bind (pool_update m q p (OPENSSL_lh_insert (arrays e) (item_at e) p)) (\<lambda>((inserted, old), m).
                if \<not> inserted then Some (None, crypto_buffer_free_object p m) else Some (Some p, m)))"
      using p can Some by (simp only: crypto_buffer_create_def option.case if_False Let_def)
    show thesis
    proof (cases rule: find_duplicate [OF ok b, of static])
      case 1
      have item: "\<And>P a. pools ?m q = Some P \<Longrightarrow> item_at e = Some a \<Longrightarrow> a \<notin> item_addr ` set (items (bufs P))"
        using assms(3) by (auto simp: fresh_def)
      obtain inserted old m1 where i:
        "pool_update ?m q p (OPENSSL_lh_insert (arrays e) (item_at e) p) = Some ((inserted, old), m1)"
        "memory_ok m1" "buffers m1 = buffers ?m" "dom (pools m1) = dom (pools ?m)" "item_at e \<noteq> None \<Longrightarrow> inserted"
        "shared_in m1 = (if inserted then (shared_in ?m)(q := insert p {x \<in> shared_in ?m q. data_of ?m x \<noteq> Some (data ?b)}) else shared_in ?m)"
        using pool_insert [OF ok b item] by blast
      show thesis
      proof (cases inserted)
        case True
        have "crypto_buffer_create e dat static po m = Some (Some p, m1)" using 1(1) i(1) True by (simp add: run)
        then show thesis
        proof (rule that [OF _ gains_new [OF i(2)]])
          show "p' \<in> shared_in m1 q'" if "Some p = Some p'" "po = Some q'" for p' q' using that i(6) True Some by simp
        qed (use i p in \<open>auto simp: data_of_def\<close>)
      next
        case False
        have run0: "crypto_buffer_create e dat static po m = Some (None, crypto_buffer_free_object p m1)" using 1(1) i(1) False by (simp add: run)
        have "memory_ok (crypto_buffer_free_object p m1)"
          using memory_ok_unshare [OF i(2) new assms(1)] i(6) False by simp
        moreover have "buffers (crypto_buffer_free_object p m1) = buffers m" using i(3) restore by simp
        moreover have "dom (pools (crypto_buffer_free_object p m1)) = dom (pools m)" using i(4) by simp
        ultimately have "gains m None (crypto_buffer_free_object p m1)" unfolding gains_def option.case by blast
        with run0 show thesis using i(5) False by (intro that [of None]) auto
      qed
    next
      case (2 d c)
      have "d \<noteq> p" using 2(1) shared_in_live [OF assms(1), of d q] new by auto
      let ?c = "c\<lparr>references := CRYPTO_refcount_inc (references c)\<rparr>"
      let ?m' = "crypto_buffer_free_object p (set_buffer d ?c ?m)"
      have "memory_ok (set_buffer d ?c ?m)" using 2(2) by (intro memory_ok_set [OF ok]) auto
      then have "memory_ok ?m'" using memory_ok_unshare [OF _ new assms(1)] by simp
      moreover have "buffers ?m' = (buffers m)(d \<mapsto> ?c)" using \<open>d \<noteq> p\<close> new by (auto simp: fun_eq_iff)
      moreover have "buffers m d = Some c" using 2(2) \<open>d \<noteq> p\<close> by simp
      ultimately have "gains m (Some d) ?m'" by (auto simp: gains_def)
      moreover have "crypto_buffer_create e dat static po m = Some (Some d, ?m')" using 2(6) by (simp add: run)
      ultimately show thesis using 2 Some \<open>d \<noteq> p\<close> by (intro that [of "Some d" ?m']) (auto simp: data_of_def)
    qed
  qed
qed

lemma CRYPTO_BUFFER_free:
  assumes "memory_ok m" "buffers m p = Some b" "references b \<noteq> 0"
  obtains m' where "CRYPTO_BUFFER_free al (Some p) m = Some m'" "memory_ok m'" "dom (pools m') = dom (pools m)"
    "buffers m' = (if references b = CRYPTO_REFCOUNT_MAX then buffers m
       else if references b = 1 then (buffers m)(p := None) else (buffers m)(p \<mapsto> b\<lparr>references := references b - 1\<rparr>))"
proof -
  let ?refs = "if references b = CRYPTO_REFCOUNT_MAX then references b else references b - 1"
  let ?zero = "references b \<noteq> CRYPTO_REFCOUNT_MAX \<and> references b = 1"
  let ?b = "b\<lparr>references := ?refs\<rparr>"
  let ?m = "set_buffer p ?b m"
  have dec: "CRYPTO_refcount_dec_and_test_zero (references b) = Some (?zero, ?refs)"
    using CRYPTO_refcount_dec [OF assms(3)] by auto
  have ok: "memory_ok ?m" using assms(1,2) by (intro memory_ok_set) auto
  have one: "(1 :: u32) \<noteq> CRYPTO_REFCOUNT_MAX" by (simp add: CRYPTO_REFCOUNT_MAX_def)
  show thesis
  proof (cases ?zero)
    case False
    have run: "CRYPTO_BUFFER_free al (Some p) m = Some ?m"
      using assms(1,2) dec False by (cases "pool b") (auto simp: CRYPTO_BUFFER_free_def memory_ok_def Let_def)
    have "buffers ?m = (if references b = CRYPTO_REFCOUNT_MAX then buffers m
        else if references b = 1 then (buffers m)(p := None) else (buffers m)(p \<mapsto> b\<lparr>references := references b - 1\<rparr>))"
      using False assms(2) by (auto simp: fun_upd_idem)
    then show thesis by (intro that [OF run ok]) simp_all
  next
    case zero: True
    have dec1: "CRYPTO_refcount_dec_and_test_zero (references b) = Some (True, ?refs)" using dec zero one by simp
    show thesis
    proof (cases "\<exists>q. p \<in> shared_in m q")
      case False
      have found: "r \<noteq> Some p" if q: "pool ?b = Some q" and "pool_retrieve ?m q p = Some r" for q r
        using pool_retrieve [OF ok _ q, of p] that(2) False by auto
      have run: "CRYPTO_BUFFER_free al (Some p) m = Some (crypto_buffer_free_object p ?m)"
      proof (cases "pool b")
        case None
        then show ?thesis using assms(2) dec1 by (simp add: CRYPTO_BUFFER_free_def Let_def)
      next
        case (Some q)
        then have q: "pools m q \<noteq> None" "pool ?b = Some q" using assms(1,2) by (auto simp: memory_ok_def)
        have "buffers ?m p = Some ?b" by simp
        from pool_retrieve [OF ok this q(2)] obtain r where r: "pool_retrieve ?m q p = Some r" by blast
        then show ?thesis using found [OF q(2) r] q assms(2) dec1 Some by (simp add: CRYPTO_BUFFER_free_def Let_def)
      qed
      have "memory_ok (crypto_buffer_free_object p ?m)" using False by (intro memory_ok_free ok) simp
      from that [OF run this] show thesis using zero one by simp
    next
      case True
      then obtain q where q: "p \<in> shared_in m q" by blast
      then have pq: "pool ?b = Some q" using shared_in_live [OF assms(1) q] assms(2) by auto
      have live: "pools m q \<noteq> None" using q by (auto simp: shared_in_def split: option.splits)
      have found: "pool_retrieve ?m q p = Some (Some p)"
        using pool_retrieve [OF ok _ pq, of p] q by (metis fun_upd_same memory_simps(1) memory_simps(5))
      obtain m1 where d: "pool_update ?m q p (OPENSSL_lh_delete al p) = Some (Some p, m1)"
        "memory_ok m1" "buffers m1 = buffers ?m" "dom (pools m1) = dom (pools ?m)" "shared_in m1 = (shared_in ?m)(q := shared_in ?m q - {p})"
        using pool_delete [OF ok _ pq, of p al] q by auto
      have run: "CRYPTO_BUFFER_free al (Some p) m = Some (crypto_buffer_free_object p m1)"
        using found d(1) assms(2) dec1 pq live by (simp add: CRYPTO_BUFFER_free_def Let_def)
      have "memory_ok (crypto_buffer_free_object p m1)"
      proof (rule memory_ok_free [OF d(2)])
        show "p \<notin> shared_in m1 q'" for q'
          using d(5) shared_in_live [OF assms(1), of p q'] assms(2) pq by auto
      qed
      from that [OF run this] show thesis using zero one d(3,4) by simp
    qed
  qed
qed

section \<open>Programs with threads\<close>

text \<open>What the threads of a program do with buffers and pools, one locked section at a time. \<open>held\<close> counts the
  references that have been given to the program and not been released, and \<open>pending\<close> has the calls of
  \<open>crypto_buffer_new\<close> that are between their two sections. \<open>perform\<close> is \<open>None\<close> if the library goes wrong, and
  \<open>allowed\<close> is what pool.h asks of the callers: they release and use only references they hold, and free a pool
  only after all of its buffers.\<close>

record world =
  mem :: memory
  held :: "nat multiset"
  pending :: "(bytes \<times> bool \<times> nat) multiset"

datatype pool_event =
    Pool_new mallocs "u64 \<times> u64"
  | Pool_free nat
  | Lookup nat bytes bool nat
  | Create mallocs bytes bool nat
  | New_unpooled mallocs bytes bool
  | Alloc mallocs bytes
  | Up_ref nat
  | Free "nat \<Rightarrow> bool" nat
  | Read nat

definition receive :: "nat option \<times> memory \<Rightarrow> world \<Rightarrow> world" where
  "receive r w = w\<lparr>mem := snd r, held := held w + (case fst r of None \<Rightarrow> {#} | Some p \<Rightarrow> {#p#})\<rparr>"

fun perform :: "pool_event \<Rightarrow> world \<Rightarrow> world option" where
  "perform (Pool_new e key) w = Some (w\<lparr>mem := snd (CRYPTO_BUFFER_POOL_new e key (mem w))\<rparr>)"
| "perform (Pool_free q) w = map_option (\<lambda>m. w\<lparr>mem := m\<rparr>) (CRYPTO_BUFFER_POOL_free (Some q) (mem w))"
| "perform (Lookup tmp dat static q) w =
     map_option (\<lambda>r. (receive r w)\<lparr>pending := pending w + (if fst r = None then {#(dat, static, q)#} else {#})\<rparr>)
       (crypto_buffer_lookup tmp dat static q (mem w))"
| "perform (Create e dat static q) w =
     map_option (\<lambda>r. (receive r w)\<lparr>pending := pending w - {#(dat, static, q)#}\<rparr>)
       (crypto_buffer_create e dat static (Some q) (mem w))"
| "perform (New_unpooled e dat static) w = map_option (\<lambda>r. receive r w) (crypto_buffer_create e dat static None (mem w))"
| "perform (Alloc e dat) w = Some (receive (CRYPTO_BUFFER_alloc e dat (mem w)) w)"
| "perform (Up_ref p) w = map_option (\<lambda>m. w\<lparr>mem := m, held := held w + {#p#}\<rparr>) (CRYPTO_BUFFER_up_ref p (mem w))"
| "perform (Free al p) w = map_option (\<lambda>m. w\<lparr>mem := m, held := held w - {#p#}\<rparr>) (CRYPTO_BUFFER_free al (Some p) (mem w))"
| "perform (Read p) w = map_option (\<lambda>_. w) (CRYPTO_BUFFER_init_CBS (mem w) p)"

fun allowed :: "pool_event \<Rightarrow> world \<Rightarrow> bool" where
  "allowed (Pool_new e key) w \<longleftrightarrow> fresh e (mem w)"
| "allowed (Pool_free q) w \<longleftrightarrow> pools (mem w) q \<noteq> None \<and> (\<forall>c\<in>#pending w. snd (snd c) \<noteq> q) \<and>
     (\<forall>p b. buffers (mem w) p = Some b \<longrightarrow> pool b \<noteq> Some q)"
| "allowed (Lookup tmp dat static q) w \<longleftrightarrow> pools (mem w) q \<noteq> None \<and> buffers (mem w) tmp = None"
| "allowed (Create e dat static q) w \<longleftrightarrow> (dat, static, q) \<in># pending w \<and> fresh e (mem w)"
| "allowed (New_unpooled e dat static) w \<longleftrightarrow> fresh e (mem w)"
| "allowed (Alloc e dat) w \<longleftrightarrow> fresh e (mem w)"
| "allowed (Up_ref p) w \<longleftrightarrow> p \<in># held w"
| "allowed (Free al p) w \<longleftrightarrow> p \<in># held w"
| "allowed (Read p) w \<longleftrightarrow> p \<in># held w"

inductive pool_reach :: "world \<Rightarrow> bool" where
  start: "pool_reach \<lparr>mem = \<lparr>buffers = \<lambda>_. None, pools = \<lambda>_. None\<rparr>, held = {#}, pending = {#}\<rparr>"
| event: "pool_reach w \<Longrightarrow> allowed ev w \<Longrightarrow> perform ev w = Some w' \<Longrightarrow> pool_reach w'"

text \<open>The count of a live buffer is the number of references that the program holds, unless it is saturated.\<close>

definition counted :: "memory \<Rightarrow> nat multiset \<Rightarrow> bool" where
  "counted m H \<longleftrightarrow>
     (\<forall>p b. buffers m p = Some b \<longrightarrow> references b = CRYPTO_REFCOUNT_MAX \<or> p \<in># H \<and> unat (references b) = count H p) \<and>
     (\<forall>p\<in>#H. buffers m p \<noteq> None)"

definition world_ok :: "world \<Rightarrow> bool" where
  "world_ok w \<longleftrightarrow> memory_ok (mem w) \<and> counted (mem w) (held w) \<and> (\<forall>c\<in>#pending w. pools (mem w) (snd (snd c)) \<noteq> None)"

lemma unat_inc:
  assumes "c \<noteq> CRYPTO_REFCOUNT_MAX"
  shows "unat (c + 1) = unat c + 1"
proof -
  have "unat c \<noteq> 4294967295" using assms by (simp add: CRYPTO_REFCOUNT_MAX_def word_unat_eq_iff)
  then show ?thesis using unat_u32_less [of c] by (simp add: unat_word_ariths)
qed

lemma counted_gains:
  assumes "counted m H" "gains m r m'"
  shows "counted m' (H + (case r of None \<Rightarrow> {#} | Some p \<Rightarrow> {#p#}))"
proof (cases r)
  case None
  then show ?thesis using assms by (simp add: gains_def counted_def)
next
  case (Some d)
  have "(\<exists>c. buffers m d = Some c \<and> buffers m' = (buffers m)(d \<mapsto> c\<lparr>references := CRYPTO_refcount_inc (references c)\<rparr>)) \<or>
      (\<exists>c. buffers m d = None \<and> references c = 1 \<and> buffers m' = (buffers m)(d \<mapsto> c))"
    using assms(2) Some by (simp add: gains_def)
  then show ?thesis
  proof (elim disjE exE conjE)
    fix c
    assume "buffers m d = Some c" "buffers m' = (buffers m)(d \<mapsto> c\<lparr>references := CRYPTO_refcount_inc (references c)\<rparr>)"
    then show ?thesis using assms(1) Some by (auto simp: counted_def CRYPTO_refcount_inc unat_inc)
  next
    fix c
    assume c: "buffers m d = None" "references c = 1" "buffers m' = (buffers m)(d \<mapsto> c)"
    then have "d \<notin># H" using assms(1) by (auto simp: counted_def)
    then show ?thesis using assms(1) Some c by (auto simp: counted_def not_in_iff)
  qed
qed

lemma unat_dec: "c \<noteq> 0 \<Longrightarrow> unat (c - 1) = unat (c :: u32) - 1"
  using unat_minus_one [of c] by simp

lemma counted_free:
  assumes "counted m H" "p \<in># H" "buffers m p = Some b"
    and "buffers m' = (if references b = CRYPTO_REFCOUNT_MAX then buffers m
       else if references b = 1 then (buffers m)(p := None) else (buffers m)(p \<mapsto> b\<lparr>references := references b - 1\<rparr>))"
  shows "counted m' (H - {#p#})"
proof -
  have r: "references b = CRYPTO_REFCOUNT_MAX \<or> unat (references b) = count H p" using assms(1,3) by (auto simp: counted_def)
  have others: "x \<in># H - {#p#} \<longleftrightarrow> x \<in># H" "count (H - {#p#}) x = count H x" if "x \<noteq> p" for x
    using that by (simp_all add: in_diff_count)
  have x: "(\<forall>c. buffers m' x = Some c \<longrightarrow> references c = CRYPTO_REFCOUNT_MAX \<or> x \<in># H - {#p#} \<and> unat (references c) = count (H - {#p#}) x) \<and>
      (x \<in># H - {#p#} \<longrightarrow> buffers m' x \<noteq> None)" for x
  proof (cases "x = p")
    case False
    then have "buffers m' x = buffers m x" using assms(4) by simp
    then show ?thesis using assms(1) others [OF False] by (auto simp: counted_def)
  next
    case True
    show ?thesis
    proof (cases "references b = CRYPTO_REFCOUNT_MAX")
      case max: True
      then show ?thesis using True assms(3,4) by simp
    next
      case False
      then have n: "unat (references b) = count H p" "0 < count H p" using r assms(2) by auto
      show ?thesis
      proof (cases "references b = 1")
        case one: True
        then have "count H p = 1" using n by simp
        then show ?thesis using True False assms(4) one by (simp add: in_diff_count)
      next
        case many: False
        then have "count H p \<noteq> 1" using n(1) many by (simp add: word_unat_eq_iff)
        then have "1 < count H p" using n(2) by linarith
        moreover have "references b \<noteq> 0" using n by (metis less_irrefl unsigned_0)
        ultimately show ?thesis using True False assms(4) many n by (simp add: in_diff_count unat_dec)
      qed
    qed
  qed
  then show ?thesis by (auto simp: counted_def)
qed

lemma gains_pools: "gains m r m' \<Longrightarrow> memory_ok m' \<and> (pools m' q = None \<longleftrightarrow> pools m q = None)"
  unfolding gains_def domIff [symmetric] by blast

lemma receive_ok:
  assumes "world_ok w" "gains (mem w) (fst r) (snd r)" "\<And>c. c \<in># P \<Longrightarrow> pools (mem w) (snd (snd c)) \<noteq> None"
  shows "world_ok ((receive r w)\<lparr>pending := P\<rparr>)"
  using assms counted_gains [of "mem w" "held w" "fst r" "snd r"] gains_pools [OF assms(2)] by (simp add: world_ok_def receive_def)

lemma memory_ok_pool_new:
  assumes "memory_ok m" "fresh e m"
  shows "memory_ok (snd (CRYPTO_BUFFER_POOL_new e key m))" "buffers (snd (CRYPTO_BUFFER_POOL_new e key m)) = buffers m"
    "pools m q \<noteq> None \<Longrightarrow> pools (snd (CRYPTO_BUFFER_POOL_new e key m)) q \<noteq> None"
proof -
  show "buffers (snd (CRYPTO_BUFFER_POOL_new e key m)) = buffers m"
    by (simp add: CRYPTO_BUFFER_POOL_new_def split: option.splits)
  show "pools m q \<noteq> None \<Longrightarrow> pools (snd (CRYPTO_BUFFER_POOL_new e key m)) q \<noteq> None"
    by (auto simp: CRYPTO_BUFFER_POOL_new_def split: option.splits)
  show "memory_ok (snd (CRYPTO_BUFFER_POOL_new e key m))"
  proof (cases "snd (CRYPTO_BUFFER_POOL_new e key m) = m")
    case False
    then obtain q lh where q: "object_at e = Some q" "OPENSSL_lh_new (arrays e) (hash_in m) (cmp_in m) = Some lh"
      "snd (CRYPTO_BUFFER_POOL_new e key m) = m\<lparr>pools := (pools m)(q \<mapsto> \<lparr>bufs = lh, hash_key = key\<rparr>)\<rparr>"
      by (auto simp: CRYPTO_BUFFER_POOL_new_def split: option.splits)
    let ?m = "m\<lparr>pools := (pools m)(q \<mapsto> \<lparr>bufs = lh, hash_key = key\<rparr>)\<rparr>"
    have new: "pools m q = None" using assms(2) q(1) by (simp add: fresh_def)
    have t: "shared.table m lh" "elements lh = {}" using shared.new_table [OF q(2)] by auto
    then have "lh_ok (table_in ?m \<lparr>bufs = lh, hash_key = key\<rparr>)"
      unfolding table_in_def by (auto simp: shared.table_def intro!: lh_ok_functions)
    then have "shared.table ?m (table_in ?m \<lparr>bufs = lh, hash_key = key\<rparr>)" by (simp add: shared.table_def)
    then have "pool_ok ?m q \<lparr>bufs = lh, hash_key = key\<rparr>" using t(2) by (simp add: pool_ok_def)
    moreover have "pool_ok ?m q' P" if P: "pools m q' = Some P" for q' P
    proof (rule pool_ok_cong)
      show "pool_ok m q' P" using assms(1) P by (simp add: memory_ok_def)
      show "pools ?m q' = Some P" using P new by auto
    qed (use P in auto)
    ultimately show ?thesis using assms(1) q(3) new by (auto simp: memory_ok_def)
  qed (use assms(1) in simp)
qed

lemma gains_new:
  assumes "memory_ok m" "buffers m p = None" "pool b = None" "references b = 1"
  shows "gains m (Some p) (set_buffer p b m)"
proof -
  have "memory_ok (set_buffer p b m)" using assms by (intro memory_ok_set) auto
  then show ?thesis using assms by (auto simp: gains_def intro!: exI [of _ b])
qed

text \<open>Every allowed event has a result, and keeps the invariant.\<close>

lemma perform_ok:
  assumes "world_ok w" "allowed ev w"
  shows "\<exists>w'. perform ev w = Some w' \<and> world_ok w'"
proof -
  note ok = assms(1) [unfolded world_ok_def]
  have live: "\<exists>b. buffers (mem w) p = Some b \<and> references b \<noteq> 0" if "p \<in># held w" for p
  proof -
    obtain b where b: "buffers (mem w) p = Some b" using ok \<open>p \<in># held w\<close> by (auto simp: counted_def)
    have "references b = CRYPTO_REFCOUNT_MAX \<or> p \<in># held w \<and> unat (references b) = count (held w) p"
      using ok b by (simp add: counted_def)
    then have "references b \<noteq> 0" using \<open>p \<in># held w\<close> by (auto simp: CRYPTO_REFCOUNT_MAX_def count_eq_zero_iff)
    with b show ?thesis by blast
  qed
  show ?thesis
  proof (cases ev)
    case (Pool_new e key)
    then have "fresh e (mem w)" using assms(2) by simp
    note n = memory_ok_pool_new [OF conjunct1 [OF ok] this, where key = key]
    then show ?thesis using Pool_new ok by (simp add: world_ok_def counted_def)
  next
    case (Pool_free q)
    then obtain P where P: "pools (mem w) q = Some P" using assms(2) by auto
    have "pool_ok (mem w) q P" using ok P by (simp add: memory_ok_def)
    moreover have nobody: "buffers (mem w) p = Some b \<Longrightarrow> pool b \<noteq> Some q" for p b using assms(2) Pool_free by auto
    ultimately have "elements (bufs P) = {}" "lh_ok (table_in (mem w) P)" by (auto simp: pool_ok_def shared.table_def)
    then have "num_items (bufs P) = 0" using lh_okD(4) [of "table_in (mem w) P"] by (simp add: elements_def) (simp add: table_in_def)
    let ?m = "mem w\<lparr>pools := (pools (mem w))(q := None)\<rparr>"
    have run: "perform ev w = Some (w\<lparr>mem := ?m\<rparr>)"
      using Pool_free P \<open>num_items (bufs P) = 0\<close> by (simp add: CRYPTO_BUFFER_POOL_free_def OPENSSL_lh_num_items_def)
    have "memory_ok ?m"
      unfolding memory_ok_def
    proof (intro conjI allI impI)
      fix q' P'
      assume "pools ?m q' = Some P'"
      then have P': "q' \<noteq> q" "pools (mem w) q' = Some P'" by (auto split: if_splits)
      show "pool_ok ?m q' P'"
      proof (rule pool_ok_cong)
        show "pool_ok (mem w) q' P'" using ok P'(2) by (simp add: memory_ok_def)
        show "pools ?m q' = Some P'" using P' by simp
      qed (use P' in auto)
    qed (use ok nobody in \<open>auto simp: memory_ok_def\<close>)
    then have "world_ok (w\<lparr>mem := ?m\<rparr>)" using ok assms(2) Pool_free by (auto simp: world_ok_def counted_def)
    then show ?thesis using run by blast
  next
    case (Lookup tmp dat static q)
    then have a: "pools (mem w) q \<noteq> None" "buffers (mem w) tmp = None" using assms(2) by simp_all
    have "\<exists>r m'. crypto_buffer_lookup tmp dat static q (mem w) = Some (r, m') \<and> gains (mem w) r m'"
    proof (cases rule: crypto_buffer_lookup [OF conjunct1 [OF ok] a, where static = static and dat = dat])
      case 1
      then show ?thesis using ok by (auto simp: gains_def)
    next
      case (2 d c)
      then show ?thesis using gains_reference [OF conjunct1 [OF ok] 2(2)] by blast
    qed
    then obtain r m' where r: "crypto_buffer_lookup tmp dat static q (mem w) = Some (r, m')" "gains (mem w) r m'" by blast
    have "world_ok ((receive (r, m') w)\<lparr>pending := pending w + (if r = None then {#(dat, static, q)#} else {#})\<rparr>)"
      using ok a r(2) by (intro receive_ok assms(1)) (auto split: if_splits)
    then show ?thesis using Lookup r(1) by auto
  next
    case (Create e dat static q)
    then have a: "\<And>q'. Some q = Some q' \<Longrightarrow> pools (mem w) q' \<noteq> None" "fresh e (mem w)" using assms(2) ok by auto
    obtain r m' where r: "crypto_buffer_create e dat static (Some q) (mem w) = Some (r, m')" "gains (mem w) r m'"
      by (rule crypto_buffer_create [OF conjunct1 [OF ok], where po = "Some q" and e = e and static = static and dat = dat]) (assumption | rule a | rule that)+
    have "world_ok ((receive (r, m') w)\<lparr>pending := pending w - {#(dat, static, q)#}\<rparr>)"
      using ok r(2) by (intro receive_ok assms(1)) (auto dest: in_diffD)
    then show ?thesis using Create r(1) by simp
  next
    case (New_unpooled e dat static)
    then have a: "\<And>q'. (None :: nat option) = Some q' \<Longrightarrow> pools (mem w) q' \<noteq> None" "fresh e (mem w)" using assms(2) by auto
    obtain r m' where r: "crypto_buffer_create e dat static None (mem w) = Some (r, m')" "gains (mem w) r m'"
      by (rule crypto_buffer_create [OF conjunct1 [OF ok], where po = "None" and e = e and static = static and dat = dat]) (assumption | rule a | rule that)+
    have "world_ok ((receive (r, m') w)\<lparr>pending := pending w\<rparr>)"
      using ok r(2) by (intro receive_ok assms(1)) auto
    then show ?thesis using New_unpooled r(1) by (simp add: receive_def)
  next
    case (Alloc e dat)
    obtain r m' where r: "CRYPTO_BUFFER_alloc e dat (mem w) = (r, m')" by (cases "CRYPTO_BUFFER_alloc e dat (mem w)")
    have "gains (mem w) r m'"
    proof (cases "object_at e")
      case None
      then show ?thesis using r ok by (auto simp: CRYPTO_BUFFER_alloc_def gains_def)
    next
      case (Some p)
      let ?m = "set_buffer p \<lparr>pool = None, data = dat, references = 1, data_is_static = False\<rparr> (mem w)"
      have "buffers (mem w) p = None" using assms(2) Alloc Some by (simp add: fresh_def)
      then have new: "gains (mem w) (Some p) ?m" using ok by (intro gains_new) simp_all
      have "r = None \<and> m' = mem w \<or> r = Some p \<and> m' = ?m" using r Some by (auto simp: CRYPTO_BUFFER_alloc_def split: if_splits)
      then show ?thesis using new ok by (elim disjE) (simp_all add: gains_def)
    qed
    then have "world_ok ((receive (r, m') w)\<lparr>pending := pending w\<rparr>)"
      using ok by (intro receive_ok assms(1)) auto
    then show ?thesis using Alloc r by (simp add: receive_def)
  next
    case (Up_ref p)
    then obtain b where b: "buffers (mem w) p = Some b" using live assms(2) by fastforce
    let ?m = "set_buffer p (b\<lparr>references := CRYPTO_refcount_inc (references b)\<rparr>) (mem w)"
    have "world_ok ((receive (Some p, ?m) w)\<lparr>pending := pending w\<rparr>)"
      using ok gains_reference [OF conjunct1 [OF ok] b] by (intro receive_ok assms(1)) auto
    then show ?thesis using Up_ref b by (simp add: receive_def CRYPTO_BUFFER_up_ref_def)
  next
    case (Free al p)
    then have p: "p \<in># held w" using assms(2) by simp
    then obtain b where b: "buffers (mem w) p = Some b" "references b \<noteq> 0" using live by blast
    obtain m' where m': "CRYPTO_BUFFER_free al (Some p) (mem w) = Some m'" "memory_ok m'" "dom (pools m') = dom (pools (mem w))"
      "buffers m' = (if references b = CRYPTO_REFCOUNT_MAX then buffers (mem w)
         else if references b = 1 then (buffers (mem w))(p := None) else (buffers (mem w))(p \<mapsto> b\<lparr>references := references b - 1\<rparr>))"
      using CRYPTO_BUFFER_free [OF conjunct1 [OF ok] b] by blast
    have "counted m' (held w - {#p#})" using counted_free [OF _ p b(1) m'(4)] ok by blast
    moreover have "pools m' q \<noteq> None \<longleftrightarrow> pools (mem w) q \<noteq> None" for q using m'(3) by blast
    ultimately have "world_ok (w\<lparr>mem := m', held := held w - {#p#}\<rparr>)" using ok m'(2) by (simp add: world_ok_def)
    then show ?thesis using Free m'(1) by simp
  next
    case (Read p)
    then obtain b where "buffers (mem w) p = Some b" using live assms(2) by fastforce
    then show ?thesis using Read assms(1) by (simp add: CRYPTO_BUFFER_init_CBS_def)
  qed
qed

lemma pool_reach_ok: "pool_reach w \<Longrightarrow> world_ok w"
proof (induction rule: pool_reach.induct)
  case start
  show ?case by (simp add: world_ok_def memory_ok_def counted_def)
next
  case (event w ev w')
  then show ?case using perform_ok [of w ev] by auto
qed

text \<open>An empty table is not enough for a pool to be freed: a buffer that was replaced by a static one still needs it.\<close>

lemma empty_pool_in_use:
  assumes "pools m q = Some P" "num_items (bufs P) = 0" "buffers m p = Some b" "pool b = Some q"
  shows "\<exists>m'. CRYPTO_BUFFER_POOL_free (Some q) m = Some m' \<and> CRYPTO_BUFFER_free al (Some p) m' = None"
  using assms by (simp add: CRYPTO_BUFFER_POOL_free_def CRYPTO_BUFFER_free_def OPENSSL_lh_num_items_def)

text \<open>The contents of a buffer never change while it is held.\<close>

lemma gains_data: "gains m r m' \<Longrightarrow> buffers m p \<noteq> None \<Longrightarrow> data_of m' p = data_of m p"
  by (auto simp: gains_def data_of_def split: option.splits)

text \<open>A program that makes a pool and allocates a buffer.\<close>

definition example_mallocs :: "nat \<Rightarrow> mallocs" where
  "example_mallocs p = \<lparr>object_at = Some p, copied = True, item_at = Some p, arrays = \<lambda>_. True\<rparr>"

definition example_world :: world where
  "example_world = the (Option.bind (perform (Pool_new (example_mallocs 9) (1, 2))
       \<lparr>mem = \<lparr>buffers = \<lambda>_. None, pools = \<lambda>_. None\<rparr>, held = {#}, pending = {#}\<rparr>)
     (perform (Alloc (example_mallocs 5) [1, 2, 3])))"

lemma example_world:
  "pool_reach example_world" "held example_world = {#5#}" "buffers (mem example_world) 5 \<noteq> None"
  "pools (mem example_world) 9 = Some \<lparr>bufs = \<lparr>num_items = 0, buckets = replicate 16 [], num_buckets = 16, callback_depth = 0,
     comp = cmp_in \<lparr>buffers = \<lambda>_. None, pools = \<lambda>_. None\<rparr>, hash = hash_in \<lparr>buffers = \<lambda>_. None, pools = \<lambda>_. None\<rparr>\<rparr>, hash_key = (1, 2)\<rparr>"
  "pools (mem example_world) = (\<lambda>_. None)(9 \<mapsto> the (pools (mem example_world) 9))"
  "buffers (mem example_world) = (\<lambda>_. None)(5 \<mapsto> \<lparr>pool = None, data = [1, 2, 3], references = 1, data_is_static = False\<rparr>)"
proof -
  let ?e = "\<lparr>mem = \<lparr>buffers = \<lambda>_. None, pools = \<lambda>_. None\<rparr>, held = {#}, pending = {#}\<rparr> :: world"
  obtain w1 where w1: "perform (Pool_new (example_mallocs 9) (1, 2)) ?e = Some w1" by simp
  then have r1: "pool_reach w1"
    by (intro pool_reach.event [OF pool_reach.start, of "Pool_new (example_mallocs 9) (1, 2)"]) (auto simp: fresh_def)
  have m1: "mem w1 = \<lparr>buffers = \<lambda>_. None, pools = (\<lambda>_. None)(9 \<mapsto> \<lparr>bufs = \<lparr>num_items = 0, buckets = replicate 16 [], num_buckets = 16,
     callback_depth = 0, comp = cmp_in (mem ?e), hash = hash_in (mem ?e)\<rparr>, hash_key = (1, 2)\<rparr>)\<rparr>" "held w1 = {#}"
    using w1 by (auto simp: CRYPTO_BUFFER_POOL_new_def example_mallocs_def OPENSSL_lh_new_def kMinNumBuckets_def)
  have p: "perform (Alloc (example_mallocs 5) [1, 2, 3]) w1 = Some example_world" using w1 by (simp add: example_world_def)
  have "allowed (Alloc (example_mallocs 5) [1, 2, 3]) w1"
    using m1 by (auto simp: fresh_def example_mallocs_def items_def)
  then show "pool_reach example_world" using pool_reach.event [OF r1 _ p] by blast
  have ew: "example_world = receive (CRYPTO_BUFFER_alloc (example_mallocs 5) [1, 2, 3] (mem w1)) w1" using p by simp
  have "mem example_world = set_buffer 5 \<lparr>pool = None, data = [1, 2, 3], references = 1, data_is_static = False\<rparr> (mem w1)"
    "held example_world = {#5#}"
    unfolding ew by (simp_all add: receive_def CRYPTO_BUFFER_alloc_def example_mallocs_def m1)
  then show "held example_world = {#5#}" "buffers (mem example_world) 5 \<noteq> None"
    "pools (mem example_world) 9 = Some \<lparr>bufs = \<lparr>num_items = 0, buckets = replicate 16 [], num_buckets = 16, callback_depth = 0,
      comp = cmp_in \<lparr>buffers = \<lambda>_. None, pools = \<lambda>_. None\<rparr>, hash = hash_in \<lparr>buffers = \<lambda>_. None, pools = \<lambda>_. None\<rparr>\<rparr>, hash_key = (1, 2)\<rparr>"
    "pools (mem example_world) = (\<lambda>_. None)(9 \<mapsto> the (pools (mem example_world) 9))"
    "buffers (mem example_world) = (\<lambda>_. None)(5 \<mapsto> \<lparr>pool = None, data = [1, 2, 3], references = 1, data_is_static = False\<rparr>)"
    by (simp_all add: m1)
qed

section \<open>Properties\<close>

text \<open>C33. Every pointer that the program or a pool's table has is a pointer to a live buffer, of this pool if it is in the
  table, and the buffer's count is the number of references that the program holds unless it is saturated: however the
  locked sections of the threads interleave, a pool has no dangling pointer and keeps no buffer that nobody holds.\<close>

theorem buffer_pointers_typed:
  assumes "pool_reach w" "p \<in># held w \<or> p \<in> shared_in (mem w) q"
  shows "\<exists>b. buffers (mem w) p = Some b \<and> (p \<in> shared_in (mem w) q \<longrightarrow> pool b = Some q) \<and>
    (references b = CRYPTO_REFCOUNT_MAX \<or> p \<in># held w \<and> unat (references b) = count (held w) p)"
proof -
  have ok: "memory_ok (mem w)" "counted (mem w) (held w)" using pool_reach_ok [OF assms(1)] by (auto simp: world_ok_def)
  obtain b where b: "buffers (mem w) p = Some b" using assms(2) ok shared_in_live [OF ok(1)] by (fastforce simp: counted_def)
  then show ?thesis using ok(2) shared_in_live [OF ok(1), of p q] by (auto simp: counted_def)
qed

theorem buffer_pointers_typed_witness:
  "\<exists>b. buffers (mem example_world) 5 = Some b \<and> (5 \<in> shared_in (mem example_world) 9 \<longrightarrow> pool b = Some 9) \<and>
    (references b = CRYPTO_REFCOUNT_MAX \<or> 5 \<in># held example_world \<and> unat (references b) = count (held example_world) 5)"
proof (rule buffer_pointers_typed)
  show "pool_reach example_world" by (rule example_world)
  show "5 \<in># held example_world \<or> 5 \<in> shared_in (mem example_world) 9" by (simp add: example_world)
qed

text \<open>C32. The library never goes wrong: in whatever order threads make their calls, and whatever allocations fail, as long as
  they use and release only references they hold and free a pool after its buffers, no call touches a freed buffer or
  pool, compares buffers of different pools, fails an assertion or aborts on a count of zero.\<close>

theorem pool_never_wrong:
  assumes "pool_reach w" "allowed ev w"
  shows "perform ev w \<noteq> None"
  using perform_ok [OF pool_reach_ok [OF assms(1)] assms(2)] by auto

theorem pool_never_wrong_witness: "perform (Free (\<lambda>_. True) 5) example_world \<noteq> None"
  by (rule pool_never_wrong) (simp_all add: example_world)

lemma lookup_interned:
  assumes "memory_ok m" "p \<in> shared_in m q" "data_of m p = Some dat" "buffers m tmp = None"
  shows "\<exists>m'. CRYPTO_BUFFER_new e tmp dat (Some q) m = Some (Some p, m')"
proof -
  have q: "pools m q \<noteq> None" using assms(2) by (auto simp: shared_in_def split: option.splits)
  show ?thesis
  proof (cases rule: crypto_buffer_lookup [OF assms(1) q assms(4), where static = False and dat = dat])
    case 1
    then show ?thesis using assms(2,3) by (cases "buffers m p") (auto simp: data_of_def)
  next
    case (2 d c)
    have "p = d" using shared_unique [OF assms(1,2) 2(1)] assms(3) 2(2,3) by (simp add: data_of_def)
    then show ?thesis using 2(5) by (auto simp: CRYPTO_BUFFER_new_def crypto_buffer_new_def)
  qed
qed


lemma example_new:
  "\<exists>p m'. CRYPTO_BUFFER_new (example_mallocs 6) 1 [7] (Some 9) (mem example_world) = Some (Some p, m') \<and> buffers m' 2 = None"
proof -
  let ?m = "mem example_world"
  have ok: "memory_ok ?m" using pool_reach_ok [OF example_world(1)] by (simp add: world_ok_def)
  have q: "pools ?m 9 \<noteq> None" "buffers ?m 1 = None" "shared_in ?m 9 = {}"
    unfolding shared_in_def by (simp_all add: example_world(4,6) elements_def items_def)
  have fr: "fresh (example_mallocs 6) ?m" unfolding fresh_def
    by (subst (1 2) example_world(5)) (auto simp: example_world(4,6) example_mallocs_def items_def split: if_splits)
  have l: "crypto_buffer_lookup 1 [7] False 9 ?m = Some (None, ?m)"
    by (rule crypto_buffer_lookup [OF ok q(1,2), where static = False and dat = "[7]"]) (use q(3) in auto)
  show ?thesis
  proof (rule crypto_buffer_create [OF ok _ fr, where po = "Some 9" and static = False and dat = "[7]"])
    show "Some 9 = Some q' \<Longrightarrow> pools ?m q' \<noteq> None" for q' using q(1) by simp
    fix r m'
    assume c: "crypto_buffer_create (example_mallocs 6) [7] False (Some 9) ?m = Some (r, m')" "gains ?m r m'"
      "r = None \<Longrightarrow> object_at (example_mallocs 6) = None \<or> \<not> copied (example_mallocs 6) \<or> item_at (example_mallocs 6) = None"
      "\<And>p. r = Some p \<Longrightarrow> buffers ?m p = None \<Longrightarrow> object_at (example_mallocs 6) = Some p"
    obtain p where p: "r = Some p" using c(3) by (cases r) (auto simp: example_mallocs_def)
    have "p = 6 \<or> p = 5" using c(4) [OF p] example_world(6) by (auto simp: example_mallocs_def split: if_splits)
    then have "buffers m' 2 = None" using c(2) p by (auto simp: gains_def example_world(6))
    then show ?thesis using l c(1) p by (auto simp: CRYPTO_BUFFER_new_def crypto_buffer_new_def)
  qed
qed


end
